(* ===== verification/Go_Prelude.thy ===== *)
theory Go_Prelude
  imports Main "HOL-Library.Monad_Syntax" "HOL-Library.Finite_Map"
begin

text \<open>
  What the components share: the theorem collections of the development, Go's machine
  integers and truncating division, slices with their bounds checks, and the few generic
  facts on lists, options and finite maps that the component proofs use.

  A Go run-time panic is the value \<^term>\<open>None\<close> of an option. An operation that
  can panic therefore has an option result, and "it does not panic" is a theorem, never an
  assumption. A Go map is an \<open>fmap\<close>: finite by construction, as in Go.
\<close>

named_theorems model_defs "definitions of the operations, for unfolding"
named_theorems model_inv "an operation keeps its component's invariant"
named_theorems model_abs "what an operation does to the abstract value of its state"

section \<open>Machine integers\<close>

text \<open>
  Go's \<open>int64\<close> wraps around in two's complement. A value of the type is an \<open>int\<close>
  between \<open>- (2 ^ 63)\<close> and \<open>2 ^ 63 - 1\<close>, and every addition of the source that may
  leave the range is written under \<open>wrap64\<close>.
\<close>

definition wrap64 :: "int \<Rightarrow> int" where
  "wrap64 x = (x + 2 ^ 63) mod 2 ^ 64 - 2 ^ 63"

definition int64 :: "int \<Rightarrow> bool" where
  "int64 x \<longleftrightarrow> - (2 ^ 63) \<le> x \<and> x < 2 ^ 63"

definition wrap32u :: "int \<Rightarrow> int" where
  "wrap32u x = x mod 2 ^ 32"

lemma wrap64_range [simp]: "int64 (wrap64 x)"
proof -
  have "0 \<le> (x + 2 ^ 63) mod 2 ^ 64" and "(x + 2 ^ 63) mod 2 ^ 64 < (2::int) ^ 64"
    by simp_all
  then show ?thesis by (simp add: wrap64_def int64_def)
qed

lemma wrap64_id [simp]: "int64 x \<Longrightarrow> wrap64 x = x"
  by (simp add: wrap64_def int64_def)

lemma wrap64_plus [simp]: "wrap64 (wrap64 x + y) = wrap64 (x + y)"
proof -
  have "wrap64 x + y + 2 ^ 63 = (x + 2 ^ 63) mod 2 ^ 64 + y" by (simp add: wrap64_def)
  then have "(wrap64 x + y + 2 ^ 63) mod 2 ^ 64 = ((x + 2 ^ 63) mod 2 ^ 64 + y) mod 2 ^ 64" by (rule arg_cong)
  also have "\<dots> = (x + y + 2 ^ 63) mod 2 ^ 64"
    unfolding mod_add_left_eq by (rule arg_cong [where f = "\<lambda>z. z mod 2 ^ 64"]) simp
  finally show ?thesis by (simp only: wrap64_def)
qed

lemma wrap64_plus2 [simp]: "wrap64 (y + wrap64 x) = wrap64 (y + x)"
  using wrap64_plus [of x y] by (simp only: add.commute)

text \<open>Go's \<open>/\<close> and \<open>%\<close> truncate towards zero.\<close>

definition go_quot :: "int \<Rightarrow> int \<Rightarrow> int" where
  "go_quot a b = sgn a * sgn b * (\<bar>a\<bar> div \<bar>b\<bar>)"

definition go_rem :: "int \<Rightarrow> int \<Rightarrow> int" where
  "go_rem a b = a - b * go_quot a b"

lemma go_quot_nonneg [simp]: "0 \<le> a \<Longrightarrow> 0 < b \<Longrightarrow> go_quot a b = a div b"
  by (cases "a = 0") (simp_all add: go_quot_def)

lemma go_rem_nonneg [simp]: "0 \<le> a \<Longrightarrow> 0 < b \<Longrightarrow> go_rem a b = a mod b"
  by (simp add: go_rem_def minus_mult_div_eq_mod)

lemma go_rem_neg: "a < 0 \<Longrightarrow> 0 < b \<Longrightarrow> go_rem a b = - (- a mod b)"
  by (simp add: go_rem_def go_quot_def minus_mult_div_eq_mod [symmetric])

lemma go_rem_bound: "0 < b \<Longrightarrow> \<bar>go_rem a b\<bar> < b"
  by (cases "0 \<le> a") (simp_all add: go_rem_neg)

section \<open>Slices\<close>

text \<open>
  A slice is a list; every index is checked and an index out of range panics. A slice
  expression \<open>xs[i:j]\<close> is checked against the length: the sources modelled here only
  slice values whose length is their capacity, and say so where it is not.
\<close>

definition slice_get :: "'a list \<Rightarrow> int \<Rightarrow> 'a option" where
  "slice_get xs i = (if 0 \<le> i \<and> i < int (length xs) then Some (xs ! nat i) else None)"

definition slice_set :: "'a list \<Rightarrow> int \<Rightarrow> 'a \<Rightarrow> 'a list option" where
  "slice_set xs i v = (if 0 \<le> i \<and> i < int (length xs) then Some (xs[nat i := v]) else None)"

definition slice_range :: "'a list \<Rightarrow> int \<Rightarrow> int \<Rightarrow> 'a list option" where
  "slice_range xs i j =
     (if 0 \<le> i \<and> i \<le> j \<and> j \<le> int (length xs)
      then Some (take (nat (j - i)) (drop (nat i) xs)) else None)"

text \<open>\<open>copy(dst, src)\<close>: the new contents of \<open>dst\<close>; it copies the shorter length.\<close>

definition slice_copy :: "'a list \<Rightarrow> 'a list \<Rightarrow> 'a list" where
  "slice_copy dst src =
     take (min (length dst) (length src)) src @ drop (min (length dst) (length src)) dst"

lemma slice_get_Some [simp]:
  "0 \<le> i \<Longrightarrow> i < int (length xs) \<Longrightarrow> slice_get xs i = Some (xs ! nat i)"
  by (simp add: slice_get_def)

lemma slice_set_Some [simp]:
  "0 \<le> i \<Longrightarrow> i < int (length xs) \<Longrightarrow> slice_set xs i v = Some (xs[nat i := v])"
  by (simp add: slice_set_def)

lemma slice_range_Some [simp]:
  "0 \<le> i \<Longrightarrow> i \<le> j \<Longrightarrow> j \<le> int (length xs) \<Longrightarrow>
   slice_range xs i j = Some (take (nat (j - i)) (drop (nat i) xs))"
  by (simp add: slice_range_def)

lemma length_slice_copy [simp]: "length (slice_copy dst src) = length dst"
  by (simp add: slice_copy_def min_def)

lemma take_slice_copy:
  "length src \<le> length dst \<Longrightarrow> take (length src) (slice_copy dst src) = src"
  by (simp add: slice_copy_def min_def)

section \<open>Lists and finite maps\<close>

text \<open>The window \<open>xs[b:e]\<close> of a list, as the list operations below need it.\<close>

definition window :: "nat \<Rightarrow> nat \<Rightarrow> 'a list \<Rightarrow> 'a list" where
  "window b e xs = take (e - b) (drop b xs)"

lemma length_window [simp]: "e \<le> length xs \<Longrightarrow> length (window b e xs) = e - b"
  by (simp add: window_def)

lemma window_empty [simp]: "window b b xs = []"
  by (simp add: window_def)

lemma window_Cons: "b < e \<Longrightarrow> e \<le> length xs \<Longrightarrow> window b e xs = xs ! b # window (Suc b) e xs"
  by (simp add: window_def Cons_nth_drop_Suc [symmetric] take_Cons' Suc_diff_Suc)

lemma window_update_before [simp]: "i < b \<Longrightarrow> window b e (xs[i := v]) = window b e xs"
  by (simp add: window_def)

lemma window_snoc:
  assumes "b \<le> e" and "e < length xs"
  shows "window b (Suc e) (xs[e := v]) = window b e xs @ [v]"
proof -
  have "window b (Suc e) (xs[e := v]) = take (Suc (e - b)) ((drop b xs)[e - b := v])"
    using assms by (simp add: window_def drop_update_swap Suc_diff_le)
  also have "\<dots> = take (e - b) (drop b xs) @ [v]"
    using assms by (simp add: take_Suc_conv_app_nth)
  finally show ?thesis by (simp add: window_def)
qed

lemma sum_list_update_less:
  "i < length xs \<Longrightarrow> f y < f (xs ! i) \<Longrightarrow> sum_list (map f (xs[i := y])) < (sum_list (map f xs) :: nat)"
proof (induction xs arbitrary: i)
  case (Cons x xs)
  then show ?case by (cases i) auto
qed simp

text \<open>Integer sums over a list of goroutines, one of which has made a step.\<close>

lemma sum_update: "i < length xs \<Longrightarrow> sum_list (map f (xs[i := y])) = sum_list (map f xs) - f (xs ! i) + (f y :: int)"
proof (induction xs arbitrary: i)
  case (Cons x xs)
  then show ?case by (cases i) auto
qed simp

lemma sum_nonneg: "(\<And>x. 0 \<le> f x) \<Longrightarrow> (0::int) \<le> sum_list (map f xs)"
  by (induction xs) auto

lemma sum_elem: "(\<And>x. 0 \<le> f x) \<Longrightarrow> i < length xs \<Longrightarrow> f (xs ! i) \<le> (sum_list (map f xs) :: int)"
proof (induction xs arbitrary: i)
  case (Cons x xs)
  then show ?case using sum_nonneg [of f xs] by (cases i) (force intro: add_increasing)+
qed simp

text \<open>
  The iteration order of a Go map is not specified. A loop \<open>for k := range m\<close> takes an
  enumeration of the keys as an argument, and its properties hold for all of them.
\<close>

definition enumerates :: "'k list \<Rightarrow> ('k, 'v) fmap \<Rightarrow> bool" where
  "enumerates ks m \<longleftrightarrow> distinct ks \<and> fset_of_list ks = fmdom m"

definition map_len :: "('k, 'v) fmap \<Rightarrow> int" where
  "map_len m = int (fcard (fmdom m))"

lemma map_len_empty [simp]: "map_len fmempty = 0"
  by (simp add: map_len_def)

lemma map_len_nonneg [simp]: "0 \<le> map_len m"
  by (simp add: map_len_def)

lemma map_len_upd: "map_len (fmupd k v m) = (if k |\<in>| fmdom m then map_len m else map_len m + 1)"
  by (simp add: map_len_def fcard_finsert_if finsert_absorb)

lemma map_len_drop: "map_len (fmdrop k m) = (if k |\<in>| fmdom m then map_len m - 1 else map_len m)"
proof (cases "k |\<in>| fmdom m")
  case True
  then have "Suc (fcard (fmdom m |-| {|k|})) = fcard (fmdom m)"
    by (rule fcard_Suc_fminus1)
  with True show ?thesis by (simp add: map_len_def)
qed (simp add: map_len_def)

lemma enumerates_length: "enumerates ks m \<Longrightarrow> int (length ks) = map_len m"
  by (metis distinct_card enumerates_def fcard.rep_eq fset_of_list.rep_eq map_len_def)

lemma enumerates_set: "enumerates ks m \<Longrightarrow> set ks = fset (fmdom m)"
  by (metis enumerates_def fset_of_list.rep_eq)

lemma fmdom_iff: "k |\<in>| fmdom m \<longleftrightarrow> fmlookup m k \<noteq> None"
  by (simp add: fmlookup_dom_iff)

section \<open>Running a component\<close>

text \<open>
  A client calls the operations of a component one after the other. \<open>run_ops\<close> runs a
  list of calls on the code's model, collecting what each call returns; a panic ends the run.
  \<open>run_spec\<close> runs them on an abstract specification, which is total.
\<close>

fun run_ops :: "('s \<Rightarrow> 'op \<Rightarrow> ('o \<times> 's) option) \<Rightarrow> 's \<Rightarrow> 'op list \<Rightarrow> ('o list \<times> 's) option" where
  "run_ops step s [] = Some ([], s)"
| "run_ops step s (x # xs) = do {
     (r, t) \<leftarrow> step s x;
     (rs, u) \<leftarrow> run_ops step t xs;
     Some (r # rs, u) }"

fun run_spec :: "('a \<Rightarrow> 'op \<Rightarrow> 'o \<times> 'a) \<Rightarrow> 'a \<Rightarrow> 'op list \<Rightarrow> 'o list \<times> 'a" where
  "run_spec step a [] = ([], a)"
| "run_spec step a (x # xs) =
     (let (r, b) = step a x; (rs, c) = run_spec step b xs in (r # rs, c))"

lemma run_spec_append:
  "run_spec step a (xs @ ys) =
     (let (rs, b) = run_spec step a xs; (qs, c) = run_spec step b ys in (rs @ qs, c))"
  by (induction xs arbitrary: a) (simp_all add: Let_def split: prod.splits)

lemma run_spec_state_append:
  "snd (run_spec step a (xs @ ys)) = snd (run_spec step (snd (run_spec step a xs)) ys)"
  by (simp add: run_spec_append Let_def split: prod.splits)

lemma run_spec_last:
  "last (fst (run_spec step a (xs @ [y]))) = fst (step (snd (run_spec step a xs)) y)"
  by (simp add: run_spec_append Let_def split: prod.splits)

lemma run_ops_append:
  "run_ops step s (xs @ ys) = do {
     (rs, t) \<leftarrow> run_ops step s xs; (qs, u) \<leftarrow> run_ops step t ys; Some (rs @ qs, u) }"
  by (induction xs arbitrary: s) (simp_all add: split_def Option.bind_assoc)

text \<open>
  The contract between a component and its specification: from a state that satisfies the
  invariant no operation panics, each keeps the invariant, and each returns what the
  specification returns on the abstract value of the state. Whole runs then agree.
\<close>

locale data_refinement =
  fixes inv :: "'s \<Rightarrow> bool"
    and abs_of :: "'s \<Rightarrow> 'a"
    and step :: "'s \<Rightarrow> 'op \<Rightarrow> ('o \<times> 's) option"
    and spec :: "'a \<Rightarrow> 'op \<Rightarrow> 'o \<times> 'a"
  assumes step_refines:
    "inv s \<Longrightarrow> \<exists>t. step s x = Some (fst (spec (abs_of s) x), t) \<and> inv t \<and>
       abs_of t = snd (spec (abs_of s) x)"
begin

lemma run_refines:
  "inv s \<Longrightarrow> \<exists>t. run_ops step s xs = Some (fst (run_spec spec (abs_of s) xs), t) \<and>
     inv t \<and> abs_of t = snd (run_spec spec (abs_of s) xs)"
proof (induction xs arbitrary: s)
  case Nil
  then show ?case by simp
next
  case (Cons x xs)
  obtain t where t: "step s x = Some (fst (spec (abs_of s) x), t)" "inv t"
    "abs_of t = snd (spec (abs_of s) x)"
    using step_refines [OF Cons.prems] by blast
  from Cons.IH [OF \<open>inv t\<close>] t show ?case
    by (auto simp: Let_def split: prod.splits)
qed

lemma run_never_panics: "inv s \<Longrightarrow> run_ops step s xs \<noteq> None"
  using run_refines by fastforce

lemma run_inv: "inv s \<Longrightarrow> run_ops step s xs = Some (rs, t) \<Longrightarrow> inv t"
  using run_refines [of s xs] by auto

end

text \<open>
  The contract of something that winds down: whatever goroutine goes on, the work that is left gets less, and as
  long as it is not over some goroutine can go on. Then it comes to its end in every order of the steps.
\<close>

locale winding_down =
  fixes step :: "'s \<Rightarrow> 's \<Rightarrow> bool"
    and inv :: "'s \<Rightarrow> bool"
    and work :: "'s \<Rightarrow> nat"
    and over :: "'s \<Rightarrow> bool"
  assumes step_keeps: "inv s \<Longrightarrow> step s t \<Longrightarrow> inv t"
    and step_works: "inv s \<Longrightarrow> step s t \<Longrightarrow> work t < work s"
    and step_ready: "inv s \<Longrightarrow> \<not> over s \<Longrightarrow> \<exists>t. step s t"
begin

lemma run_bound: "(step ^^ n) s t \<Longrightarrow> inv s \<Longrightarrow> inv t \<and> n + work t \<le> work s"
proof (induction n arbitrary: t)
  case (Suc n)
  then obtain u where u: "(step ^^ n) s u" "step u t" by auto
  with Suc.IH [OF u(1) Suc.prems(2)] step_keeps [of u t] step_works [of u t] show ?case by simp
qed simp

lemma run_not_stuck: "(step ^^ n) s t \<Longrightarrow> inv s \<Longrightarrow> over t \<or> (\<exists>u. step t u)"
  using run_bound step_ready by blast

lemma run_keeps: "step\<^sup>*\<^sup>* s t \<Longrightarrow> inv s \<Longrightarrow> inv t"
  by (induction rule: rtranclp_induct) (blast intro: step_keeps)+

lemma run_ends: "inv s \<Longrightarrow> \<exists>t. step\<^sup>*\<^sup>* s t \<and> inv t \<and> over t"
proof (induction "work s" arbitrary: s rule: less_induct)
  case less
  show ?case
  proof (cases "over s")
    case False
    then obtain u where u: "step s u" using step_ready [OF less.prems] by blast
    from less.hyps [OF step_works [OF less.prems u] step_keeps [OF less.prems u]] u show ?thesis
      by (meson converse_rtranclp_into_rtranclp)
  qed (use less.prems in blast)
qed

end

end
