(* ===== verification/Queue_Model.thy ===== *)
theory Queue_Model
  imports Go_Prelude
begin

text \<open>
  \<^verbatim>\<open>common/container/queue.go\<close>: the slice-backed queue. The state is the
  struct with its four fields; \<open>z\<close> is the zero value of the element type, with which Go
  fills a new slice and which \<open>Pop\<close> returns on an empty queue. Sizes are mathematical
  integers: a slice whose length comes near \<open>2 ^ 62\<close> does not fit in memory.
\<close>

section \<open>State and operations\<close>

record 'a queue =
  q_data :: "'a list"
  q_begin :: int
  q_end :: int
  q_capacity :: int

definition initCapacity :: int where
  "initCapacity = 8"

definition new_queue :: "'a \<Rightarrow> 'a queue" where
  "new_queue z = \<lparr>q_data = replicate (nat initCapacity) z, q_begin = 0, q_end = 0,
                  q_capacity = initCapacity\<rparr>"

definition queue_size :: "'a queue \<Rightarrow> int" where
  "queue_size q = q_end q - q_begin q"

definition queue_empty :: "'a queue \<Rightarrow> bool" where
  "queue_empty q \<longleftrightarrow> queue_size q \<le> 0"

definition queue_clear :: "'a \<Rightarrow> 'a queue \<Rightarrow> 'a queue" where
  "queue_clear z q = q\<lparr>q_begin := 0, q_end := 0, q_data := replicate (nat initCapacity) z,
                       q_capacity := initCapacity\<rparr>"

text \<open>The loop of \<open>Value\<close>: \<open>for i := q.begin; i < q.end; i++\<close>.\<close>

function value_loop :: "'a list \<Rightarrow> int \<Rightarrow> int \<Rightarrow> 'a list \<Rightarrow> 'a list option" where
  "value_loop d i e acc =
     (if i < e then do { v \<leftarrow> slice_get d i; value_loop d (i + 1) e (acc @ [v]) }
      else Some acc)"
  by pat_completeness auto
termination
  by (relation "measure (\<lambda>(d, i, e, acc). nat (e - i))") auto

declare value_loop.simps [simp del]

definition queue_value :: "'a queue \<Rightarrow> 'a list option" where
  "queue_value q =
     (if queue_size q < 0 then None else value_loop (q_data q) (q_begin q) (q_end q) [])"

text \<open>\<open>expend\<close>: move the elements to the front if there is room there, else grow.\<close>

definition queue_expend :: "'a \<Rightarrow> 'a queue \<Rightarrow> 'a queue option" where
  "queue_expend z q =
     (if q_begin q > 0 then do {
        w \<leftarrow> slice_range (q_data q) (q_begin q) (q_end q);
        Some (q\<lparr>q_data := slice_copy (q_data q) w, q_begin := 0, q_end := queue_size q\<rparr>) }
      else do {
        let newCapacity = (if q_capacity q \<ge> 1024 then go_quot (q_capacity q) 4 + q_capacity q
                           else q_capacity q * 2);
        let newData = replicate (nat newCapacity) z;
        w \<leftarrow> slice_range (q_data q) (q_begin q) (q_end q);
        let len = int (min (length newData) (length w));
        _ \<leftarrow> slice_range (q_data q) len (q_end q);
        Some (q\<lparr>q_begin := 0, q_end := len, q_data := slice_copy newData w,
                q_capacity := newCapacity\<rparr>) })"

definition queue_push :: "'a \<Rightarrow> 'a \<Rightarrow> 'a queue \<Rightarrow> 'a queue option" where
  "queue_push z x q = do {
     q1 \<leftarrow> (if q_end q \<ge> q_capacity q then queue_expend z q else Some q);
     d \<leftarrow> slice_set (q_data q1) (q_end q1) x;
     Some (q1\<lparr>q_data := d, q_end := q_end q1 + 1\<rparr>) }"

text \<open>\<open>shrink\<close>: halve the slice when at most a quarter of it is in use.\<close>

definition queue_shrink :: "'a \<Rightarrow> 'a queue \<Rightarrow> 'a queue option" where
  "queue_shrink z q =
     (if queue_size q \<le> go_quot (q_capacity q) 4 \<and> q_capacity q > initCapacity then do {
        let half = go_quot (q_capacity q) 2;
        let newCapacity = (if half < initCapacity then initCapacity else half);
        w \<leftarrow> slice_range (q_data q) (q_begin q) (q_end q);
        Some (q\<lparr>q_begin := 0, q_end := queue_size q,
                q_data := slice_copy (replicate (nat newCapacity) z) w,
                q_capacity := newCapacity\<rparr>) }
      else Some q)"

definition queue_pop :: "'a \<Rightarrow> 'a queue \<Rightarrow> ('a \<times> 'a queue) option" where
  "queue_pop z q =
     (if queue_empty q then Some (z, q)
      else do {
        v \<leftarrow> slice_get (q_data q) (q_begin q);
        d \<leftarrow> slice_set (q_data q) (q_begin q) z;
        let q1 = q\<lparr>q_data := d, q_begin := q_begin q + 1\<rparr>;
        q2 \<leftarrow> (if q_begin q1 \<ge> go_quot (q_capacity q1) 2 then queue_shrink z q1 else Some q1);
        Some (v, q2) })"

section \<open>Invariant and abstract value\<close>

definition queue_inv :: "'a queue \<Rightarrow> bool" where
  "queue_inv q \<longleftrightarrow> initCapacity \<le> q_capacity q \<and> int (length (q_data q)) = q_capacity q \<and>
     0 \<le> q_begin q \<and> q_begin q \<le> q_end q \<and> q_end q \<le> q_capacity q"

definition queue_list :: "'a queue \<Rightarrow> 'a list" where
  "queue_list q = window (nat (q_begin q)) (nat (q_end q)) (q_data q)"

lemma queue_size_list: "queue_inv q \<Longrightarrow> queue_size q = int (length (queue_list q))"
  by (simp add: queue_inv_def queue_size_def queue_list_def nat_diff_distrib [symmetric] nat_le_iff)

lemma queue_empty_list: "queue_inv q \<Longrightarrow> queue_empty q \<longleftrightarrow> queue_list q = []"
  by (simp add: queue_empty_def queue_size_list)

lemma queue_range_list:
  "queue_inv q \<Longrightarrow> slice_range (q_data q) (q_begin q) (q_end q) = Some (queue_list q)"
  by (simp add: queue_inv_def queue_list_def window_def nat_diff_distrib)

lemma new_queue_inv [model_inv]: "queue_inv (new_queue z)"
  by (simp add: queue_inv_def new_queue_def initCapacity_def)

lemma new_queue_list [simp]: "queue_list (new_queue z) = []"
  by (simp add: queue_list_def new_queue_def)

lemma new_queue_capacity [simp]: "q_capacity (new_queue z) = initCapacity"
  by (simp add: new_queue_def)

lemma queue_clear_inv [model_inv]: "queue_inv (queue_clear z q)"
  by (simp add: queue_inv_def queue_clear_def initCapacity_def)

lemma queue_clear_list [simp]: "queue_list (queue_clear z q) = []"
  by (simp add: queue_list_def queue_clear_def)

text \<open>The result of moving the contents to the front of a slice with room for them.\<close>

lemma queue_list_front:
  assumes "length xs \<le> length d" and "q_data q = slice_copy d xs" and "q_begin q = 0"
    and "q_end q = int (length xs)"
  shows "queue_list q = xs"
  using assms by (simp add: queue_list_def window_def take_slice_copy)

lemma value_loop_window:
  "0 \<le> i \<Longrightarrow> i \<le> e \<Longrightarrow> e \<le> int (length d) \<Longrightarrow>
   value_loop d i e acc = Some (acc @ window (nat i) (nat e) d)"
proof (induction d i e acc rule: value_loop.induct)
  case (1 d i e acc)
  show ?case
  proof (cases "i < e")
    case True
    with "1.prems" have w: "window (nat i) (nat e) d = d ! nat i # window (nat (i + 1)) (nat e) d"
      using window_Cons [of "nat i" "nat e" d] by (simp add: nat_add_distrib)
    from True "1.prems" have get: "slice_get d i = Some (d ! nat i)" by simp
    from "1.IH" [OF True, of "d ! nat i"] "1.prems" True
    have "value_loop d (i + 1) e (acc @ [d ! nat i]) =
        Some ((acc @ [d ! nat i]) @ window (nat (i + 1)) (nat e) d)"
      by simp
    with True get w show ?thesis by (simp add: value_loop.simps [of d i])
  next
    case False
    with "1.prems" show ?thesis by (simp add: value_loop.simps [of d e e])
  qed
qed

lemma queue_value_list: "queue_inv q \<Longrightarrow> queue_value q = Some (queue_list q)"
  by (simp add: queue_value_def queue_inv_def queue_size_def queue_list_def value_loop_window)

section \<open>The operations refine a list\<close>

lemma queue_expend_ok:
  assumes inv: "queue_inv q" and full: "q_capacity q \<le> q_end q"
  shows "\<exists>p. queue_expend z q = Some p \<and> queue_inv p \<and> queue_list p = queue_list q \<and>
     q_end p < q_capacity p \<and> q_capacity p \<le> max (q_capacity q) (2 * queue_size q)"
proof (cases "q_begin q > 0")
  case True
  let ?p = "q\<lparr>q_data := slice_copy (q_data q) (queue_list q), q_begin := 0, q_end := queue_size q\<rparr>"
  have len: "length (queue_list q) \<le> length (q_data q)"
    using inv queue_size_list [OF inv] by (simp add: queue_inv_def queue_size_def)
  have "queue_expend z q = Some ?p"
    using True by (simp add: queue_expend_def queue_range_list [OF inv])
  moreover have "queue_list ?p = queue_list q"
    by (rule queue_list_front [OF len]) (simp_all add: queue_size_list [OF inv])
  moreover have "queue_inv ?p \<and> q_end ?p < q_capacity ?p"
    using inv True by (simp add: queue_inv_def queue_size_def)
  ultimately show ?thesis by auto
next
  case False
  define c where "c = (if q_capacity q \<ge> 1024 then go_quot (q_capacity q) 4 + q_capacity q
                       else q_capacity q * 2)"
  let ?p = "q\<lparr>q_begin := 0, q_end := q_end q,
              q_data := slice_copy (replicate (nat c) z) (queue_list q), q_capacity := c\<rparr>"
  from False inv full have b: "q_begin q = 0" "q_end q = q_capacity q" "8 \<le> q_capacity q"
    by (simp_all add: queue_inv_def initCapacity_def)
  have c: "q_capacity q < c" "c \<le> 2 * q_capacity q"
    using b by (auto simp: c_def)
  have size: "int (length (queue_list q)) = q_capacity q"
    using queue_size_list [OF inv] b by (simp add: queue_size_def)
  have len: "length (queue_list q) \<le> length (replicate (nat c) z)"
    using size c by simp
  then have m: "int (min (nat c) (length (queue_list q))) = q_end q"
    using size b by (simp add: min_def)
  have full_range: "slice_range (q_data q) 0 (q_capacity q) = Some (queue_list q)"
    using queue_range_list [OF inv] b by simp
  have rest: "slice_range (q_data q) (q_capacity q) (q_capacity q) = Some []"
    using inv b by (simp add: queue_inv_def)
  have "queue_expend z q = Some ?p"
    using False b m full_range rest
    by (simp add: queue_expend_def c_def [symmetric] Let_def del: slice_range_Some)
  moreover have "queue_list ?p = queue_list q"
    by (rule queue_list_front [OF len]) (simp_all add: size b)
  moreover have "queue_inv ?p \<and> q_end ?p < q_capacity ?p"
    using inv b c by (simp add: queue_inv_def)
  ultimately show ?thesis using b c by (auto simp: queue_size_def)
qed

lemma queue_push_ok:
  assumes inv: "queue_inv q"
  shows "\<exists>p. queue_push z x q = Some p \<and> queue_inv p \<and> queue_list p = queue_list q @ [x] \<and>
     q_capacity p \<le> max (q_capacity q) (2 * queue_size q)"
proof -
  obtain p where p: "(if q_end q \<ge> q_capacity q then queue_expend z q else Some q) = Some p"
    "queue_inv p" "queue_list p = queue_list q" "q_end p < q_capacity p"
    "q_capacity p \<le> max (q_capacity q) (2 * queue_size q)"
    using queue_expend_ok [OF inv] inv by (cases "q_end q \<ge> q_capacity q") force+
  let ?r = "p\<lparr>q_data := (q_data p)[nat (q_end p) := x], q_end := q_end p + 1\<rparr>"
  have "queue_push z x q = Some ?r"
    using p by (simp add: queue_push_def queue_inv_def)
  moreover have "queue_inv ?r"
    using p by (simp add: queue_inv_def)
  moreover have "queue_list ?r = queue_list p @ [x]"
  proof -
    have "window (nat (q_begin p)) (Suc (nat (q_end p))) ((q_data p)[nat (q_end p) := x]) =
        queue_list p @ [x]"
      unfolding queue_list_def
      using p(2,4) by (intro window_snoc nat_mono) (auto simp: queue_inv_def)
    then show ?thesis
      using p(2) by (simp add: queue_list_def queue_inv_def nat_add_distrib)
  qed
  ultimately show ?thesis using p by simp
qed

lemma queue_shrink_ok:
  assumes inv: "queue_inv q"
  shows "\<exists>p. queue_shrink z q = Some p \<and> queue_inv p \<and> queue_list p = queue_list q \<and>
     q_capacity p \<le> q_capacity q"
proof (cases "queue_size q \<le> go_quot (q_capacity q) 4 \<and> q_capacity q > initCapacity")
  case True
  define c where "c = (if go_quot (q_capacity q) 2 < initCapacity then initCapacity
                       else go_quot (q_capacity q) 2)"
  let ?p = "q\<lparr>q_begin := 0, q_end := queue_size q,
              q_data := slice_copy (replicate (nat c) z) (queue_list q), q_capacity := c\<rparr>"
  have c: "initCapacity \<le> c" "queue_size q \<le> c" "c \<le> q_capacity q"
    using True by (auto simp: c_def initCapacity_def)
  have len: "length (queue_list q) \<le> length (replicate (nat c) z)"
    using queue_size_list [OF inv] c by simp
  have "queue_shrink z q = Some ?p"
    using True by (simp add: queue_shrink_def queue_range_list [OF inv] c_def Let_def)
  moreover have "queue_list ?p = queue_list q"
    by (rule queue_list_front [OF len]) (simp_all add: queue_size_list [OF inv])
  moreover have "queue_inv ?p"
    using inv c by (simp add: queue_inv_def queue_size_def initCapacity_def)
  ultimately show ?thesis using c by auto
next
  case False
  then show ?thesis using inv by (auto simp: queue_shrink_def)
qed

lemma queue_pop_empty: "queue_inv q \<Longrightarrow> queue_list q = [] \<Longrightarrow> queue_pop z q = Some (z, q)"
  by (simp add: queue_pop_def queue_empty_list)

lemma queue_pop_ok:
  assumes inv: "queue_inv q" and xs: "queue_list q = x # xs"
  shows "\<exists>p. queue_pop z q = Some (x, p) \<and> queue_inv p \<and> queue_list p = xs \<and>
     q_capacity p \<le> q_capacity q"
proof -
  let ?p = "q\<lparr>q_data := (q_data q)[nat (q_begin q) := z], q_begin := q_begin q + 1\<rparr>"
  have ne: "\<not> queue_empty q" using queue_empty_list [OF inv] xs by simp
  then have b: "q_begin q < q_end q" by (simp add: queue_empty_def queue_size_def)
  have "window (nat (q_begin q)) (nat (q_end q)) (q_data q) =
      q_data q ! nat (q_begin q) # window (Suc (nat (q_begin q))) (nat (q_end q)) (q_data q)"
    using b inv by (intro window_Cons) (auto simp: queue_inv_def)
  then have x: "q_data q ! nat (q_begin q) = x" and w: "queue_list ?p = xs"
    using xs inv by (simp_all add: queue_list_def queue_inv_def nat_add_distrib)
  have p: "queue_inv ?p" using b inv by (simp add: queue_inv_def)
  obtain r where r: "(if q_begin ?p \<ge> go_quot (q_capacity ?p) 2 then queue_shrink z ?p else Some ?p) = Some r"
    "queue_inv r" "queue_list r = xs" "q_capacity r \<le> q_capacity q"
    using queue_shrink_ok [OF p, of z] p w by (cases "q_begin ?p \<ge> go_quot (q_capacity ?p) 2") auto
  have "queue_pop z q = Some (x, r)"
    using ne b inv x r(1) by (simp add: queue_pop_def queue_inv_def Let_def)
  with r show ?thesis by blast
qed

section \<open>The interface its clients rely on\<close>

text \<open>
  What a client of the queue may assume, over the list of the queued elements: the timer
  manager is such a client and proves its drain loop from these laws alone.
\<close>

locale fifo_queue =
  fixes inv :: "'q \<Rightarrow> bool"
    and contents :: "'q \<Rightarrow> 'a list"
    and fresh :: 'q
    and enq :: "'a \<Rightarrow> 'q \<Rightarrow> 'q option"
    and deq :: "'q \<Rightarrow> ('a \<times> 'q) option"
    and size_of :: "'q \<Rightarrow> int"
  assumes fresh_ok: "inv fresh" "contents fresh = []"
    and enq_ok: "inv q \<Longrightarrow> \<exists>p. enq x q = Some p \<and> inv p \<and> contents p = contents q @ [x]"
    and deq_ok: "inv q \<Longrightarrow> contents q = x # xs \<Longrightarrow>
      \<exists>p. deq q = Some (x, p) \<and> inv p \<and> contents p = xs"
    and size_ok: "inv q \<Longrightarrow> size_of q = int (length (contents q))"
begin

lemma size_pos: "inv q \<Longrightarrow> 0 < size_of q \<longleftrightarrow> contents q \<noteq> []"
  by (simp add: size_ok)

lemma enq_size: "inv q \<Longrightarrow> enq x q = Some p \<Longrightarrow> size_of p = size_of q + 1"
  using enq_ok [of q x] by (auto simp: size_ok)

lemma deq_size: "inv q \<Longrightarrow> 0 < size_of q \<Longrightarrow> deq q = Some (x, p) \<Longrightarrow> size_of p = size_of q - 1"
  using deq_ok [of q] by (cases "contents q") (force simp: size_ok)+

lemma enq_deq_fresh: "\<exists>p q. enq x fresh = Some p \<and> deq p = Some (x, q) \<and> contents q = []"
  using enq_ok [OF fresh_ok(1), of x] deq_ok [of _ x "[]"] by (fastforce simp: fresh_ok)

end

interpretation lq: fifo_queue queue_inv queue_list "new_queue z" "queue_push z" "queue_pop z" queue_size
  by unfold_locales
    (auto simp: new_queue_inv queue_size_list dest: queue_push_ok queue_pop_ok)

section \<open>Runs of calls\<close>

datatype 'a queue_op = QPush 'a | QPop | QClear | QSize | QEmpty | QValue

datatype 'a queue_obs = QDone | QElem 'a | QInt int | QBool bool | QList "'a list"

fun queue_step :: "'a \<Rightarrow> 'a queue \<Rightarrow> 'a queue_op \<Rightarrow> ('a queue_obs \<times> 'a queue) option" where
  "queue_step z q (QPush x) = map_option (\<lambda>p. (QDone, p)) (queue_push z x q)"
| "queue_step z q QPop = map_option (\<lambda>(v, p). (QElem v, p)) (queue_pop z q)"
| "queue_step z q QClear = Some (QDone, queue_clear z q)"
| "queue_step z q QSize = Some (QInt (queue_size q), q)"
| "queue_step z q QEmpty = Some (QBool (queue_empty q), q)"
| "queue_step z q QValue = map_option (\<lambda>vs. (QList vs, q)) (queue_value q)"

text \<open>The specification: a first-in first-out list.\<close>

fun fifo_step :: "'a \<Rightarrow> 'a list \<Rightarrow> 'a queue_op \<Rightarrow> 'a queue_obs \<times> 'a list" where
  "fifo_step z xs (QPush x) = (QDone, xs @ [x])"
| "fifo_step z xs QPop = (case xs of [] \<Rightarrow> (QElem z, []) | x # ys \<Rightarrow> (QElem x, ys))"
| "fifo_step z xs QClear = (QDone, [])"
| "fifo_step z xs QSize = (QInt (int (length xs)), xs)"
| "fifo_step z xs QEmpty = (QBool (xs = []), xs)"
| "fifo_step z xs QValue = (QList xs, xs)"

lemma queue_step_refines:
  assumes "queue_inv q"
  shows "\<exists>p. queue_step z q c = Some (fst (fifo_step z (queue_list q) c), p) \<and> queue_inv p \<and>
     queue_list p = snd (fifo_step z (queue_list q) c)"
proof (cases c)
  case (QPush x)
  with queue_push_ok [OF assms, of z x] show ?thesis by auto
next
  case QPop
  with assms show ?thesis
    using queue_pop_empty [OF assms, of z] queue_pop_ok [OF assms, of _ _ z]
    by (cases "queue_list q") fastforce+
qed (use assms in \<open>auto simp: queue_size_list queue_empty_list queue_value_list model_inv\<close>)

interpretation rq: data_refinement queue_inv queue_list "queue_step z" "fifo_step z"
  by unfold_locales (rule queue_step_refines)

text \<open>The greatest number of elements the specification holds at any point of a run.\<close>

fun peak :: "'a \<Rightarrow> 'a list \<Rightarrow> 'a queue_op list \<Rightarrow> nat" where
  "peak z xs [] = length xs"
| "peak z xs (c # cs) = max (length xs) (peak z (snd (fifo_step z xs c)) cs)"

lemma queue_step_capacity:
  assumes inv: "queue_inv q" and step: "queue_step z q c = Some (r, p)"
  shows "q_capacity p \<le> max (q_capacity q) (2 * int (length (queue_list q)))"
proof (cases c)
  case (QPush x)
  with step queue_push_ok [OF inv, of z x] show ?thesis by (auto simp: queue_size_list [OF inv])
next
  case QPop
  with step show ?thesis
    using queue_pop_empty [OF inv, of z] queue_pop_ok [OF inv, of _ _ z]
    by (cases "queue_list q") fastforce+
next
  case QClear
  with step inv show ?thesis by (auto simp: queue_clear_def queue_inv_def)
qed (use step in auto)

lemma run_capacity:
  "queue_inv q \<Longrightarrow> run_ops (queue_step z) q cs = Some (rs, p) \<Longrightarrow>
   q_capacity p \<le> max (q_capacity q) (2 * int (peak z (queue_list q) cs))"
proof (induction cs arbitrary: q rs)
  case Nil
  then show ?case by simp
next
  case (Cons c cs)
  obtain q1 where q1: "queue_step z q c = Some (fst (fifo_step z (queue_list q) c), q1)"
    "queue_inv q1" "queue_list q1 = snd (fifo_step z (queue_list q) c)"
    using queue_step_refines [OF Cons.prems(1), of z c] by blast
  with Cons.prems(2) obtain rs' where "run_ops (queue_step z) q1 cs = Some (rs', p)"
    by (auto split: bind_splits)
  from Cons.IH [OF q1(2) this] queue_step_capacity [OF Cons.prems(1) q1(1)] q1(3)
  show ?case by auto
qed

section \<open>Properties\<close>

text \<open>
  C3: every sequence of calls on a new queue runs without a panic and returns exactly what a
  first-in first-out list returns, through every growth, compaction and shrinking of the
  slice; the queue then holds the elements of that list.
\<close>

theorem queue_run_is_fifo:
  "\<exists>q. run_ops (queue_step z) (new_queue z) cs = Some (fst (run_spec (fifo_step z) [] cs), q) \<and>
     queue_inv q \<and> queue_list q = snd (run_spec (fifo_step z) [] cs)"
  using rq.run_refines [OF new_queue_inv, where z = z and xs = cs] by simp

text \<open>
  the slice of a queue never outgrows its use: after any sequence of calls on a new queue
  its capacity is at most twice the greatest number of elements held at any point of the run
  (and never less than the initial eight).
\<close>

theorem queue_capacity_bound:
  "\<exists>rs q. run_ops (queue_step z) (new_queue z) cs = Some (rs, q) \<and> initCapacity \<le> q_capacity q \<and>
     q_capacity q \<le> max initCapacity (2 * int (peak z [] cs))"
proof -
  obtain rs q where q: "run_ops (queue_step z) (new_queue z) cs = Some (rs, q)" "queue_inv q"
    using rq.run_refines [OF new_queue_inv, where z = z and xs = cs] by blast
  from run_capacity [OF new_queue_inv q(1)] q show ?thesis
    by (auto simp: queue_inv_def)
qed

end
