(* ===== verification/Set_Model.thy ===== *)
theory Set_Model
  imports Go_Prelude
begin

text \<open>
  \<^verbatim>\<open>common/container/set.go\<close>: a set as a Go map from its elements to the empty
  struct \<^verbatim>\<open>None\<close> of \<^verbatim>\<open>define.go\<close> (here \<open>unit\<close>). The two methods
  that iterate the map take the enumeration of its keys as an argument.
\<close>

section \<open>State and operations\<close>

type_synonym go_none = unit

record 'a goset =
  s_data :: "('a, go_none) fmap"

definition new_set :: "'a goset" where
  "new_set = \<lparr>s_data = fmempty\<rparr>"

definition set_isEmpty :: "'a goset \<Rightarrow> bool" where
  "set_isEmpty s \<longleftrightarrow> map_len (s_data s) \<le> 0"

definition set_size :: "'a goset \<Rightarrow> int" where
  "set_size s = map_len (s_data s)"

definition set_clear :: "'a goset \<Rightarrow> 'a goset" where
  "set_clear s = s\<lparr>s_data := fmempty\<rparr>"

text \<open>\<open>for k := range s.data { values = append(values, k) }\<close>\<close>

fun set_value_loop :: "'a list \<Rightarrow> 'a list \<Rightarrow> 'a list" where
  "set_value_loop [] values = values"
| "set_value_loop (k # ks) values = set_value_loop ks (values @ [k])"

definition set_value :: "'a list \<Rightarrow> 'a goset \<Rightarrow> 'a list" where
  "set_value ks s = set_value_loop ks []"

definition set_push :: "'a \<Rightarrow> 'a goset \<Rightarrow> 'a goset" where
  "set_push val s = s\<lparr>s_data := fmupd val () (s_data s)\<rparr>"

definition set_contains :: "'a \<Rightarrow> 'a goset \<Rightarrow> bool" where
  "set_contains val s \<longleftrightarrow> fmlookup (s_data s) val \<noteq> None"

fun set_add :: "'a list \<Rightarrow> 'a goset \<Rightarrow> 'a goset" where
  "set_add [] s = s"
| "set_add (v # vs) s = set_add vs (s\<lparr>s_data := fmupd v () (s_data s)\<rparr>)"

definition set_remove :: "'a \<Rightarrow> 'a goset \<Rightarrow> 'a goset" where
  "set_remove val s = s\<lparr>s_data := fmdrop val (s_data s)\<rparr>"

text \<open>
  \<open>Iter\<close> passes the elements to \<open>yield\<close> until it returns false. The caller's state is
  threaded through the calls.
\<close>

fun set_iter :: "'a list \<Rightarrow> ('a \<Rightarrow> 'b \<Rightarrow> bool \<times> 'b) \<Rightarrow> 'b \<Rightarrow> 'b" where
  "set_iter [] yield b = b"
| "set_iter (k # ks) yield b = (case yield k b of (go, c) \<Rightarrow> if go then set_iter ks yield c else c)"

section \<open>The set of its elements\<close>

definition set_abs :: "'a goset \<Rightarrow> 'a fset" where
  "set_abs s = fmdom (s_data s)"

lemma set_abs_simps [simp]:
  "set_abs new_set = {||}"
  "set_abs (set_clear s) = {||}"
  "set_abs (set_push v s) = finsert v (set_abs s)"
  "set_abs (set_remove v s) = set_abs s |-| {|v|}"
  by (simp_all add: set_abs_def new_set_def set_clear_def set_push_def set_remove_def)

lemma set_abs_add [simp]: "set_abs (set_add vs s) = fset_of_list vs |\<union>| set_abs s"
  by (induction vs s rule: set_add.induct) (auto simp: set_abs_def)

lemma set_contains_abs: "set_contains v s \<longleftrightarrow> v |\<in>| set_abs s"
  by (simp only: set_contains_def set_abs_def fmdom_iff)

lemma set_size_abs: "set_size s = int (fcard (set_abs s))"
  by (simp add: set_size_def set_abs_def map_len_def)

lemma set_isEmpty_abs: "set_isEmpty s \<longleftrightarrow> set_abs s = {||}"
  by (simp add: set_isEmpty_def set_abs_def map_len_def)

lemma set_value_loop_append: "set_value_loop ks vs = vs @ ks"
  by (induction ks arbitrary: vs) simp_all

lemma set_value_enum:
  assumes "enumerates ks (s_data s)"
  shows "distinct (set_value ks s) \<and> fset_of_list (set_value ks s) = set_abs s"
  using assms by (simp add: set_value_def set_value_loop_append enumerates_def set_abs_def)

lemma set_iter_foldl:
  "(\<And>k b. k \<in> set ks \<Longrightarrow> fst (yield k b)) \<Longrightarrow> set_iter ks yield b = foldl (\<lambda>b k. snd (yield k b)) b ks"
  by (induction ks arbitrary: b) (simp_all add: case_prod_beta)

lemma set_iter_stops:
  "set_iter ks yield b = set_iter (ks @ ks') yield b \<or>
   (\<exists>c. set_iter (ks @ ks') yield b = set_iter ks' yield c \<and> set_iter ks yield b = c)"
  by (induction ks arbitrary: b) (simp_all add: case_prod_beta)

section \<open>Runs of calls\<close>

datatype 'a set_op = SPush 'a | SAdd "'a list" | SRemove 'a | SContains 'a | SSize | SEmpty | SClear

datatype set_obs = SDone | SBool bool | SInt int

fun set_step :: "'a goset \<Rightarrow> 'a set_op \<Rightarrow> (set_obs \<times> 'a goset) option" where
  "set_step s (SPush v) = Some (SDone, set_push v s)"
| "set_step s (SAdd vs) = Some (SDone, set_add vs s)"
| "set_step s (SRemove v) = Some (SDone, set_remove v s)"
| "set_step s (SContains v) = Some (SBool (set_contains v s), s)"
| "set_step s SSize = Some (SInt (set_size s), s)"
| "set_step s SEmpty = Some (SBool (set_isEmpty s), s)"
| "set_step s SClear = Some (SDone, set_clear s)"

fun fset_step :: "'a fset \<Rightarrow> 'a set_op \<Rightarrow> set_obs \<times> 'a fset" where
  "fset_step A (SPush v) = (SDone, finsert v A)"
| "fset_step A (SAdd vs) = (SDone, fset_of_list vs |\<union>| A)"
| "fset_step A (SRemove v) = (SDone, A |-| {|v|})"
| "fset_step A (SContains v) = (SBool (v |\<in>| A), A)"
| "fset_step A SSize = (SInt (int (fcard A)), A)"
| "fset_step A SEmpty = (SBool (A = {||}), A)"
| "fset_step A SClear = (SDone, {||})"

interpretation rs: data_refinement "\<lambda>s. True" set_abs set_step fset_step
proof unfold_locales
  fix s :: "'a goset" and c
  show "\<exists>t. set_step s c = Some (fst (fset_step (set_abs s) c), t) \<and> True \<and>
      set_abs t = snd (fset_step (set_abs s) c)"
    by (cases c) (simp_all add: set_contains_abs set_size_abs set_isEmpty_abs)
qed

section \<open>Properties\<close>

text \<open>
  every sequence of calls on a new set answers as a mathematical set does, and whatever the
  order in which Go iterates the map at the end, \<open>Value\<close> lists each element exactly once.
\<close>

theorem set_run_is_set:
  "\<exists>s. run_ops set_step new_set ops = Some (fst (run_spec fset_step {||} ops), s) \<and>
     set_abs s = snd (run_spec fset_step {||} ops) \<and>
     (\<forall>ks. enumerates ks (s_data s) \<longrightarrow>
        distinct (set_value ks s) \<and> fset_of_list (set_value ks s) = set_abs s)"
  using rs.run_refines [of new_set ops] set_value_enum by auto

theorem set_run_is_set_witness:
  "\<exists>s. run_ops set_step new_set [SAdd [1::nat, 2], SRemove 2, SContains 1] =
       Some ([SDone, SDone, SBool True], s) \<and> enumerates [1] (s_data s) \<and>
       distinct (set_value [1] s) \<and> fset_of_list (set_value [1] s) = {|1|}"
proof -
  let ?ops = "[SAdd [1::nat, 2], SRemove 2, SContains 1]"
  have out: "run_spec fset_step {||} ?ops = ([SDone, SDone, SBool True], {|1|})"
    by auto
  obtain s where s: "run_ops set_step new_set ?ops = Some ([SDone, SDone, SBool True], s)"
    "set_abs s = {|1|}"
    "enumerates [1] (s_data s) \<longrightarrow>
       distinct (set_value [1] s) \<and> fset_of_list (set_value [1] s) = set_abs s"
    using set_run_is_set [of ?ops] unfolding out fst_conv snd_conv by blast
  then have "enumerates [1] (s_data s)" by (simp add: enumerates_def set_abs_def)
  with s show ?thesis by metis
qed

end
