(* ===== verification/Sorted_Map_Model.thy ===== *)
theory Sorted_Map_Model
  imports Go_Prelude
begin

text \<open>
  \<^verbatim>\<open>common/container/sorted_map.go\<close>: a Go map with a singly linked list of its
  keys in ascending order. The chain of \<^verbatim>\<open>KeyElement\<close> nodes that starts at a pointer
  is the list of their keys, \<open>[]\<close> is the nil pointer, and advancing a cursor takes the tail.
  The loops of the source count to \<open>Size()\<close>: their models take that count, and a cursor
  that is nil inside a loop is a panic. The keys are linearly ordered: a NaN key of a Go float
  type is outside the model.
\<close>

section \<open>State and operations\<close>

record ('k, 'v) sorted_map =
  sm_mapElements :: "('k, 'v) fmap"
  sm_ptrHead :: "'k list"

definition new_sorted_map :: "('k, 'v) sorted_map" where
  "new_sorted_map = \<lparr>sm_mapElements = fmempty, sm_ptrHead = []\<rparr>"

definition sm_size :: "('k, 'v) sorted_map \<Rightarrow> int" where
  "sm_size s = map_len (sm_mapElements s)"

definition sm_clear :: "('k, 'v) sorted_map \<Rightarrow> ('k, 'v) sorted_map" where
  "sm_clear s = s\<lparr>sm_mapElements := fmempty, sm_ptrHead := []\<rparr>"

definition sm_begin :: "('k, 'v) sorted_map \<Rightarrow> 'k list" where
  "sm_begin s = sm_ptrHead s"

definition sm_exist :: "'k \<Rightarrow> ('k, 'v) sorted_map \<Rightarrow> bool" where
  "sm_exist key s \<longleftrightarrow> fmlookup (sm_mapElements s) key \<noteq> None"

fun find_loop :: "nat \<Rightarrow> 'k \<Rightarrow> 'k list \<Rightarrow> 'k list option" where
  "find_loop 0 key cursor = Some []"
| "find_loop (Suc n) key [] = None"
| "find_loop (Suc n) key (k # ks) = (if k = key then Some (k # ks) else find_loop n key ks)"

definition sm_find :: "'k \<Rightarrow> ('k, 'v) sorted_map \<Rightarrow> 'k list option" where
  "sm_find key s =
     (if sm_ptrHead s = [] then Some [] else find_loop (nat (sm_size s)) key (sm_ptrHead s))"

text \<open>\<open>Get\<close> reads the Go map directly: a missing key gives the zero value \<open>z\<close>.\<close>

definition sm_get :: "'v \<Rightarrow> 'k \<Rightarrow> ('k, 'v) sorted_map \<Rightarrow> 'v" where
  "sm_get z key s = (case fmlookup (sm_mapElements s) key of Some v \<Rightarrow> v | None \<Rightarrow> z)"

text \<open>
  The loops of \<open>Delete\<close> and \<open>Insert\<close> update the \<open>Next\<close> field of the cursor's node; the
  result is the chain from the cursor on. The cursor is never nil there: the loops advance it
  only after the nil test on its \<open>Next\<close>.
\<close>

fun delete_loop :: "nat \<Rightarrow> 'k \<Rightarrow> 'k list \<Rightarrow> 'k list" where
  "delete_loop (Suc n) key (c # d # ks) =
     (if d = key then c # ks else c # delete_loop n key (d # ks))"
| "delete_loop n key cursor = cursor"

definition sm_delete :: "'k \<Rightarrow> ('k, 'v) sorted_map \<Rightarrow> ('k, 'v) sorted_map" where
  "sm_delete key s =
     (if fmlookup (sm_mapElements s) key \<noteq> None then
        let s1 = s\<lparr>sm_mapElements := fmdrop key (sm_mapElements s)\<rparr> in
        (case sm_ptrHead s1 of
           [] \<Rightarrow> s1
         | c # ks \<Rightarrow>
             if c = key then s1\<lparr>sm_ptrHead := ks\<rparr>
             else s1\<lparr>sm_ptrHead := delete_loop (nat (sm_size s1)) key (c # ks)\<rparr>)
      else s)"

fun insert_loop :: "nat \<Rightarrow> 'k::linorder \<Rightarrow> 'k list \<Rightarrow> 'k list" where
  "insert_loop (Suc n) key [c] = [c, key]"
| "insert_loop (Suc n) key (c # d # ks) =
     (if d \<ge> key then c # key # d # ks else c # insert_loop n key (d # ks))"
| "insert_loop n key cursor = cursor"

definition sm_insert :: "'k::linorder \<Rightarrow> 'v \<Rightarrow> ('k, 'v) sorted_map \<Rightarrow> ('k, 'v) sorted_map" where
  "sm_insert key val s =
     (let ok = (fmlookup (sm_mapElements s) key \<noteq> None);
          s1 = s\<lparr>sm_mapElements := fmupd key val (sm_mapElements s)\<rparr> in
      if ok then s1
      else (case sm_ptrHead s1 of
              [] \<Rightarrow> s1\<lparr>sm_ptrHead := [key]\<rparr>
            | c # ks \<Rightarrow>
                if c \<ge> key then s1\<lparr>sm_ptrHead := key # c # ks\<rparr>
                else s1\<lparr>sm_ptrHead := insert_loop (nat (sm_size s1)) key (c # ks)\<rparr>))"

section \<open>Invariant\<close>

definition sm_inv :: "('k::linorder, 'v) sorted_map \<Rightarrow> bool" where
  "sm_inv s \<longleftrightarrow> sorted_wrt (<) (sm_ptrHead s) \<and>
     set (sm_ptrHead s) = fset (fmdom (sm_mapElements s))"

abbreviation sorted_keys :: "('k::linorder, 'v) fmap \<Rightarrow> 'k list" where
  "sorted_keys m \<equiv> sorted_list_of_set (fset (fmdom m))"

lemma strict_sorted_unique: "sorted_wrt (<) xs \<Longrightarrow> xs = sorted_list_of_set (set xs)"
  for xs :: "'k::linorder list"
  by (simp add: sorted_list_of_set.idem_if_sorted_distinct strict_sorted_iff)

lemma sm_head: "sm_inv s \<Longrightarrow> sm_ptrHead s = sorted_keys (sm_mapElements s)"
  by (metis sm_inv_def strict_sorted_unique)

lemma sm_size_length:
  assumes "sm_inv s"
  shows "sm_size s = int (length (sm_ptrHead s))"
proof -
  have "distinct (sm_ptrHead s)" using assms by (simp add: sm_inv_def strict_sorted_iff)
  then show ?thesis
    using assms by (metis distinct_card fcard.rep_eq map_len_def sm_inv_def sm_size_def)
qed

lemma find_loop_ok: "find_loop (length ks) key ks = Some (dropWhile (\<lambda>k. k \<noteq> key) ks)"
  by (induction ks) auto

lemma delete_loop_ok:
  "sorted_wrt (<) (c # ks) \<Longrightarrow> c \<noteq> key \<Longrightarrow> length ks \<le> n \<Longrightarrow>
   delete_loop n key (c # ks) = filter (\<lambda>k. k \<noteq> key) (c # ks)"
  for key :: "'k::linorder"
proof (induction ks arbitrary: n c)
  case (Cons d ks)
  then obtain m where m: "n = Suc m" "length ks \<le> m" by (cases n) auto
  show ?case
  proof (cases "d = key")
    case True
    with Cons.prems(1) have "filter (\<lambda>k. k \<noteq> key) ks = ks" by (auto simp: filter_id_conv)
    with True m Cons.prems show ?thesis by simp
  next
    case False
    with m Cons.IH [of d m] Cons.prems show ?thesis by simp
  qed
qed (cases n; simp)

lemma insert_loop_ok:
  "sorted_wrt (<) (c # ks) \<Longrightarrow> c < key \<Longrightarrow> key \<notin> set ks \<Longrightarrow> length ks < n \<Longrightarrow>
   sorted_wrt (<) (insert_loop n key (c # ks)) \<and>
   set (insert_loop n key (c # ks)) = insert key (set (c # ks))"
proof (induction ks arbitrary: n c)
  case Nil
  then show ?case by (cases n) auto
next
  case (Cons d ks)
  then obtain m where m: "n = Suc m" "length ks < m" by (cases n) auto
  show ?case
  proof (cases "d \<ge> key")
    case True
    with m Cons.prems show ?thesis by (auto simp: le_less intro: less_trans)
  next
    case False
    with Cons.prems m Cons.IH [of d m]
    have "sorted_wrt (<) (insert_loop m key (d # ks)) \<and>
        set (insert_loop m key (d # ks)) = insert key (set (d # ks))"
      by auto
    with False m Cons.prems show ?thesis by auto
  qed
qed

section \<open>The operations refine a finite map\<close>

lemma new_sorted_map_inv [model_inv]: "sm_inv new_sorted_map"
  by (simp add: sm_inv_def new_sorted_map_def)

lemma sm_clear_inv [model_inv]: "sm_inv (sm_clear s)"
  by (simp add: sm_inv_def sm_clear_def)

lemma sm_clear_elements [simp]: "sm_mapElements (sm_clear s) = fmempty"
  by (simp add: sm_clear_def)

lemma sm_find_ok:
  "sm_inv s \<Longrightarrow> sm_find key s = Some (dropWhile (\<lambda>k. k \<noteq> key) (sorted_keys (sm_mapElements s)))"
  by (simp add: sm_find_def sm_size_length find_loop_ok sm_head [symmetric])

lemma sm_delete_elements [simp]:
  "sm_mapElements (sm_delete key s) = fmdrop key (sm_mapElements s)"
proof (cases "fmlookup (sm_mapElements s) key")
  case None
  then have "fmdrop key (sm_mapElements s) = sm_mapElements s"
    by (intro fmap_ext) simp
  with None show ?thesis by (simp add: sm_delete_def)
qed (simp add: sm_delete_def Let_def split: list.split)

lemma sm_delete_inv [model_inv]:
  assumes inv: "sm_inv s"
  shows "sm_inv (sm_delete key s)"
proof (cases "fmlookup (sm_mapElements s) key \<noteq> None")
  case True
  then have mem: "key \<in> set (sm_ptrHead s)"
    using inv by (simp add: sm_inv_def fmdom_iff)
  then obtain c ks where head: "sm_ptrHead s = c # ks" by (cases "sm_ptrHead s") auto
  have sorted: "sorted_wrt (<) (c # ks)" using inv head by (simp add: sm_inv_def)
  let ?s1 = "s\<lparr>sm_mapElements := fmdrop key (sm_mapElements s)\<rparr>"
  have "sm_size ?s1 = sm_size s - 1"
    using True by (simp add: sm_size_def map_len_drop fmdom_iff del: not_None_eq)
  then have size: "nat (sm_size ?s1) = length ks"
    using sm_size_length [OF inv] head by simp
  have "sm_ptrHead (sm_delete key s) = filter (\<lambda>k. k \<noteq> key) (c # ks)"
  proof (cases "c = key")
    case c: True
    with sorted have "filter (\<lambda>k. k \<noteq> key) ks = ks" by (auto simp: filter_id_conv)
    with c True head show ?thesis by (simp add: sm_delete_def Let_def)
  next
    case False
    with True head delete_loop_ok [OF sorted False order_refl] size show ?thesis
      by (simp add: sm_delete_def Let_def)
  qed
  then show ?thesis
    using sorted_wrt_filter [OF sorted] inv head by (auto simp: sm_inv_def simp del: filter.simps)
next
  case False
  with inv show ?thesis by (simp add: sm_delete_def)
qed

lemma sm_insert_elements [simp]:
  "sm_mapElements (sm_insert key val s) = fmupd key val (sm_mapElements s)"
  by (simp add: sm_insert_def Let_def split: list.split)

lemma sm_insert_inv [model_inv]:
  assumes inv: "sm_inv s"
  shows "sm_inv (sm_insert key val s)"
proof (cases "fmlookup (sm_mapElements s) key")
  case None
  then have new: "key \<notin> set (sm_ptrHead s)"
    using inv by (simp add: sm_inv_def fmdom_iff)
  let ?s1 = "s\<lparr>sm_mapElements := fmupd key val (sm_mapElements s)\<rparr>"
  have "sm_size ?s1 = sm_size s + 1"
    using None by (simp add: sm_size_def map_len_upd fmdom_iff)
  then have size: "nat (sm_size ?s1) = Suc (length (sm_ptrHead s))"
    using sm_size_length [OF inv] by simp
  have "sorted_wrt (<) (sm_ptrHead (sm_insert key val s)) \<and>
      set (sm_ptrHead (sm_insert key val s)) = insert key (set (sm_ptrHead s))"
  proof (cases "sm_ptrHead s")
    case Nil
    with None show ?thesis by (simp add: sm_insert_def Let_def)
  next
    case (Cons c ks)
    then have sorted: "sorted_wrt (<) (c # ks)" using inv by (simp add: sm_inv_def)
    show ?thesis
    proof (cases "c \<ge> key")
      case True
      with None Cons sorted new show ?thesis
        by (auto simp: sm_insert_def Let_def le_less intro: less_trans)
    next
      case False
      with insert_loop_ok [OF sorted, of key "Suc (Suc (length ks))"] None Cons new size
      show ?thesis by (simp add: sm_insert_def Let_def)
    qed
  qed
  then show ?thesis using inv by (simp add: sm_inv_def)
next
  case (Some v)
  then have "key |\<in>| fmdom (sm_mapElements s)" by (rule fmdomI)
  with Some inv show ?thesis by (auto simp: sm_insert_def Let_def sm_inv_def)
qed

section \<open>Runs of calls\<close>

datatype ('k, 'v) smap_op =
  MInsert 'k 'v | MDelete 'k | MGet 'k | MExist 'k | MFind 'k | MSize | MBegin | MClear

datatype ('k, 'v) smap_obs = MDone | MVal 'v | MBool bool | MInt int | MKeys "'k list"

fun smap_step :: "'v \<Rightarrow> ('k::linorder, 'v) sorted_map \<Rightarrow> ('k, 'v) smap_op \<Rightarrow>
    (('k, 'v) smap_obs \<times> ('k, 'v) sorted_map) option" where
  "smap_step z s (MInsert k v) = Some (MDone, sm_insert k v s)"
| "smap_step z s (MDelete k) = Some (MDone, sm_delete k s)"
| "smap_step z s (MGet k) = Some (MVal (sm_get z k s), s)"
| "smap_step z s (MExist k) = Some (MBool (sm_exist k s), s)"
| "smap_step z s (MFind k) = map_option (\<lambda>ks. (MKeys ks, s)) (sm_find k s)"
| "smap_step z s MSize = Some (MInt (sm_size s), s)"
| "smap_step z s MBegin = Some (MKeys (sm_begin s), s)"
| "smap_step z s MClear = Some (MDone, sm_clear s)"

text \<open>
  The specification is a finite map alone: the chain of keys that \<open>Begin\<close> and \<open>Find\<close> return
  is recomputed by sorting the map's keys.
\<close>

fun fmap_step :: "'v \<Rightarrow> ('k::linorder, 'v) fmap \<Rightarrow> ('k, 'v) smap_op \<Rightarrow>
    ('k, 'v) smap_obs \<times> ('k, 'v) fmap" where
  "fmap_step z m (MInsert k v) = (MDone, fmupd k v m)"
| "fmap_step z m (MDelete k) = (MDone, fmdrop k m)"
| "fmap_step z m (MGet k) = (MVal (case fmlookup m k of Some v \<Rightarrow> v | None \<Rightarrow> z), m)"
| "fmap_step z m (MExist k) = (MBool (k |\<in>| fmdom m), m)"
| "fmap_step z m (MFind k) = (MKeys (dropWhile (\<lambda>j. j \<noteq> k) (sorted_keys m)), m)"
| "fmap_step z m MSize = (MInt (map_len m), m)"
| "fmap_step z m MBegin = (MKeys (sorted_keys m), m)"
| "fmap_step z m MClear = (MDone, fmempty)"

interpretation rm: data_refinement sm_inv sm_mapElements "smap_step z" "fmap_step z"
proof unfold_locales
  fix s :: "('a, 'b) sorted_map" and c
  assume "sm_inv s"
  then show "\<exists>t. smap_step z s c = Some (fst (fmap_step z (sm_mapElements s) c), t) \<and> sm_inv t \<and>
      sm_mapElements t = snd (fmap_step z (sm_mapElements s) c)"
    by (cases c) (simp_all add: model_inv sm_get_def sm_exist_def fmdom_iff sm_find_ok sm_size_def
        sm_begin_def sm_head)
qed

section \<open>Properties\<close>

text \<open>
  C8: every sequence of calls on a new sorted map runs without dereferencing nil and answers as
  a finite map whose keys are sorted afresh for every \<open>Begin\<close> and \<open>Find\<close>: the linked list of
  keys is at every moment the ascending list of exactly the map's keys.
\<close>

theorem sorted_map_run_is_sorted:
  "\<exists>s. run_ops (smap_step z) new_sorted_map ops = Some (fst (run_spec (fmap_step z) fmempty ops), s) \<and>
     sm_mapElements s = snd (run_spec (fmap_step z) fmempty ops) \<and>
     sm_begin s = sorted_keys (sm_mapElements s)"
  using rm.run_refines [OF new_sorted_map_inv, where z = z and xs = ops]
  by (auto simp: sm_begin_def sm_head new_sorted_map_def)

end
