(* ===== verification/Go_List.thy ===== *)
theory Go_List
  imports Go_Prelude
begin

text \<open>
  What the sources use of Go's \<^verbatim>\<open>container/list\<close>: a doubly linked list whose
  elements have an identity. An element pointer is a number, handed out by a counter and never
  used twice; the list is the sequence of its elements from the front to the back. A pointer
  that is no longer in the list reads as \<^term>\<open>None\<close>.
\<close>

section \<open>Operations\<close>

record 'v golist =
  gl_elems :: "(nat \<times> 'v) list"
  gl_next :: nat

definition gl_new :: "'v golist" where
  "gl_new = \<lparr>gl_elems = [], gl_next = 0\<rparr>"

definition gl_len :: "'v golist \<Rightarrow> int" where
  "gl_len l = int (length (gl_elems l))"

definition gl_value :: "nat \<Rightarrow> 'v golist \<Rightarrow> 'v option" where
  "gl_value e l = map_of (gl_elems l) e"

definition gl_assign :: "nat \<Rightarrow> 'v \<Rightarrow> 'v golist \<Rightarrow> 'v golist" where
  "gl_assign e v l = l\<lparr>gl_elems := map (\<lambda>(i, w). (i, if i = e then v else w)) (gl_elems l)\<rparr>"

definition gl_push_front :: "'v \<Rightarrow> 'v golist \<Rightarrow> nat \<times> 'v golist" where
  "gl_push_front v l =
     (gl_next l, l\<lparr>gl_elems := (gl_next l, v) # gl_elems l, gl_next := Suc (gl_next l)\<rparr>)"

definition gl_remove :: "nat \<Rightarrow> 'v golist \<Rightarrow> 'v golist" where
  "gl_remove e l = l\<lparr>gl_elems := filter (\<lambda>p. fst p \<noteq> e) (gl_elems l)\<rparr>"

definition gl_move_to_front :: "nat \<Rightarrow> 'v golist \<Rightarrow> 'v golist" where
  "gl_move_to_front e l =
     (case map_of (gl_elems l) e of
        None \<Rightarrow> l
      | Some v \<Rightarrow> l\<lparr>gl_elems := (e, v) # filter (\<lambda>p. fst p \<noteq> e) (gl_elems l)\<rparr>)"

definition gl_back :: "'v golist \<Rightarrow> nat option" where
  "gl_back l = (if gl_elems l = [] then None else Some (fst (last (gl_elems l))))"

section \<open>Well-formed lists\<close>

definition gl_inv :: "'v golist \<Rightarrow> bool" where
  "gl_inv l \<longleftrightarrow> distinct (map fst (gl_elems l)) \<and> (\<forall>i \<in> set (map fst (gl_elems l)). i < gl_next l)"

text \<open>The values of the list, front first.\<close>

definition gl_list :: "'v golist \<Rightarrow> 'v list" where
  "gl_list l = map snd (gl_elems l)"

lemma gl_new_inv [model_inv]: "gl_inv gl_new"
  by (simp add: gl_inv_def gl_new_def)

lemma gl_new_list [simp]: "gl_list gl_new = []"
  by (simp add: gl_list_def gl_new_def)

lemma gl_len_list [simp]: "gl_len l = int (length (gl_list l))"
  by (simp add: gl_len_def gl_list_def)

lemma gl_value_iff: "gl_inv l \<Longrightarrow> gl_value e l = Some v \<longleftrightarrow> (e, v) \<in> set (gl_elems l)"
  by (simp add: gl_inv_def gl_value_def)

lemma gl_push_front_inv [model_inv]: "gl_inv l \<Longrightarrow> gl_inv (snd (gl_push_front v l))"
  by (auto simp: gl_inv_def gl_push_front_def less_Suc_eq)

lemma gl_push_front_list [simp]: "gl_list (snd (gl_push_front v l)) = v # gl_list l"
  by (simp add: gl_list_def gl_push_front_def)

lemma gl_remove_inv [model_inv]: "gl_inv l \<Longrightarrow> gl_inv (gl_remove e l)"
  by (auto simp: gl_inv_def gl_remove_def distinct_map_filter)

lemma map_fst_assign [simp]: "map fst (map (\<lambda>(i, w). (i, if i = e then v else w)) xs) = map fst xs"
  by (induction xs) auto

lemma gl_assign_inv [model_inv]: "gl_inv l \<Longrightarrow> gl_inv (gl_assign e v l)"
  by (cases l) (auto simp only: gl_inv_def gl_assign_def golist.select_convs golist.update_convs map_fst_assign)

lemma gl_move_to_front_inv [model_inv]: "gl_inv l \<Longrightarrow> gl_inv (gl_move_to_front e l)"
  by (force simp: gl_inv_def gl_move_to_front_def distinct_map_filter split: option.splits
      dest: map_of_SomeD)

text \<open>
  Removing, and moving to the front with a new value, when the elements are told apart by a
  key that is unique in the list: the sources keep such a key in every list they use.
\<close>

lemma filter_fst_key:
  assumes "distinct (map fst xs)" and "distinct (map (key \<circ> snd) xs)" and "(i, v) \<in> set xs"
  shows "filter (\<lambda>p. fst p \<noteq> i) xs = filter (\<lambda>p. key (snd p) \<noteq> key v) xs"
proof (rule filter_cong)
  fix p assume p: "p \<in> set xs"
  from assms(1,2) have inj: "inj_on fst (set xs)" "inj_on (key \<circ> snd) (set xs)"
    by (auto simp: distinct_map)
  from inj_onD [OF inj(1) _ p assms(3)] inj_onD [OF inj(2) _ p assms(3)]
  show "fst p \<noteq> i \<longleftrightarrow> key (snd p) \<noteq> key v" by (cases p) auto
qed simp

lemma gl_remove_list:
  assumes "gl_inv l" and "distinct (map key (gl_list l))" and "(i, v) \<in> set (gl_elems l)"
  shows "gl_list (gl_remove i l) = filter (\<lambda>w. key w \<noteq> key v) (gl_list l)"
  using assms filter_fst_key [of "gl_elems l" key i v]
  by (simp add: gl_list_def gl_remove_def gl_inv_def filter_map comp_def)

lemma gl_touch_list:
  assumes "gl_inv l" and "distinct (map key (gl_list l))" and "(i, v) \<in> set (gl_elems l)"
  shows "gl_list (gl_move_to_front i l) = v # filter (\<lambda>w. key w \<noteq> key v) (gl_list l)"
  using assms filter_fst_key [of "gl_elems l" key i v]
  by (simp add: gl_list_def gl_move_to_front_def gl_inv_def filter_map comp_def)

end
