(* ===== verification/Lru_Model.thy ===== *)
theory Lru_Model
  imports Go_List
begin

text \<open>
  \<^verbatim>\<open>LruCache\<close> of \<^verbatim>\<open>common/container/lru_cache.go\<close>: a list of
  cache entries, most recently used first, and a map from a key to its element of the list.
  The exported methods take the lock around the private ones, so one call is one step. The
  clock reading of a call (\<open>time.Now().UnixNano()\<close>) is the argument \<open>now\<close>. The pair
  \<open>(val, ok)\<close> of \<open>Get\<close> is an option.
\<close>

section \<open>State and operations\<close>

record ('k, 'v) cache_entry =
  e_key :: 'k
  e_value :: 'v
  e_expireAt :: int

record ('k, 'v) lru =
  lru_list :: "('k, 'v) cache_entry golist"
  lru_index :: "('k, nat) fmap"
  lru_capacity :: int

definition defaultLruCacheCapacity :: int where
  "defaultLruCacheCapacity = 1000"

definition new_lru :: "int \<Rightarrow> ('k, 'v) lru" where
  "new_lru capacity =
     (let capacity = (if capacity \<le> 0 then defaultLruCacheCapacity else capacity)
      in \<lparr>lru_list = gl_new, lru_index = fmempty, lru_capacity = capacity\<rparr>)"

text \<open>\<open>put\<close> evicts the element at the back, if the cache is full and there is one.\<close>

definition lru_evict :: "('k, 'v) lru \<Rightarrow> ('k, 'v) lru option" where
  "lru_evict l =
     (if map_len (lru_index l) \<ge> lru_capacity l then
        (case gl_back (lru_list l) of
           None \<Rightarrow> Some l
         | Some el \<Rightarrow> do {
             entry \<leftarrow> gl_value el (lru_list l);
             Some (l\<lparr>lru_index := fmdrop (e_key entry) (lru_index l),
                     lru_list := gl_remove el (lru_list l)\<rparr>) })
      else Some l)"

definition lru_put :: "'k \<Rightarrow> 'v \<Rightarrow> int \<Rightarrow> ('k, 'v) lru \<Rightarrow> ('k, 'v) lru option" where
  "lru_put key val expireAt l =
     (case fmlookup (lru_index l) key of
        Some el \<Rightarrow> do {
          entry \<leftarrow> gl_value el (lru_list l);
          let entry' = entry\<lparr>e_value := val, e_expireAt := expireAt\<rparr>;
          Some (l\<lparr>lru_list := gl_move_to_front el (gl_assign el entry' (lru_list l))\<rparr>) }
      | None \<Rightarrow> do {
          l1 \<leftarrow> lru_evict l;
          let (el, gl) = gl_push_front
            \<lparr>e_key = key, e_value = val, e_expireAt = expireAt\<rparr> (lru_list l1);
          Some (l1\<lparr>lru_list := gl, lru_index := fmupd key el (lru_index l1)\<rparr>) })"

definition entry_live :: "int \<Rightarrow> ('k, 'v) cache_entry \<Rightarrow> bool" where
  "entry_live now e \<longleftrightarrow> e_expireAt e \<le> 0 \<or> now < e_expireAt e"

definition lru_get :: "int \<Rightarrow> 'k \<Rightarrow> ('k, 'v) lru \<Rightarrow> ('v option \<times> ('k, 'v) lru) option" where
  "lru_get now key l =
     (case fmlookup (lru_index l) key of
        Some el \<Rightarrow> do {
          entry \<leftarrow> gl_value el (lru_list l);
          if entry_live now entry
          then Some (Some (e_value entry), l\<lparr>lru_list := gl_move_to_front el (lru_list l)\<rparr>)
          else Some (None, l\<lparr>lru_index := fmdrop key (lru_index l),
                              lru_list := gl_remove el (lru_list l)\<rparr>) }
      | None \<Rightarrow> Some (None, l))"

definition lru_remove :: "'k \<Rightarrow> ('k, 'v) lru \<Rightarrow> ('k, 'v) lru" where
  "lru_remove key l =
     (case fmlookup (lru_index l) key of
        Some el \<Rightarrow> l\<lparr>lru_index := fmdrop key (lru_index l),
                     lru_list := gl_remove el (lru_list l)\<rparr>
      | None \<Rightarrow> l)"

section \<open>Invariant and abstract value\<close>

text \<open>
  The map and the list agree: the map takes a key to the element that holds the key's entry,
  for exactly the keys of the list, no key occurs twice, and the list is within its capacity.
\<close>

definition lru_inv :: "('k, 'v) lru \<Rightarrow> bool" where
  "lru_inv l \<longleftrightarrow> gl_inv (lru_list l) \<and> distinct (map e_key (gl_list (lru_list l))) \<and>
     (\<forall>k i. fmlookup (lru_index l) k = Some i \<longleftrightarrow>
        (\<exists>e. (i, e) \<in> set (gl_elems (lru_list l)) \<and> e_key e = k)) \<and>
     0 < lru_capacity l \<and> int (length (gl_list (lru_list l))) \<le> lru_capacity l"

definition lru_entries :: "('k, 'v) lru \<Rightarrow> ('k, 'v) cache_entry list" where
  "lru_entries l = gl_list (lru_list l)"

text \<open>The specification, over the list of entries, most recent first.\<close>

abbreviation others :: "'k \<Rightarrow> ('k, 'v) cache_entry list \<Rightarrow> ('k, 'v) cache_entry list" where
  "others k es \<equiv> filter (\<lambda>e. e_key e \<noteq> k) es"

definition spec_put :: "int \<Rightarrow> 'k \<Rightarrow> 'v \<Rightarrow> int \<Rightarrow> ('k, 'v) cache_entry list \<Rightarrow>
    ('k, 'v) cache_entry list" where
  "spec_put cap k v x es =
     \<lparr>e_key = k, e_value = v, e_expireAt = x\<rparr> #
     (if k \<in> e_key ` set es then others k es
      else if int (length es) \<ge> cap then butlast es else es)"

definition spec_get :: "int \<Rightarrow> 'k \<Rightarrow> ('k, 'v) cache_entry list \<Rightarrow>
    'v option \<times> ('k, 'v) cache_entry list" where
  "spec_get now k es =
     (case find (\<lambda>e. e_key e = k) es of
        None \<Rightarrow> (None, es)
      | Some e \<Rightarrow> if entry_live now e then (Some (e_value e), e # others k es)
                  else (None, others k es))"

lemma new_lru_inv [model_inv]: "lru_inv (new_lru c)"
  by (simp add: lru_inv_def new_lru_def defaultLruCacheCapacity_def Let_def gl_new_inv)
    (simp add: gl_new_def)

lemma new_lru_entries [simp]: "lru_entries (new_lru c) = []"
  by (simp add: lru_entries_def new_lru_def Let_def)

lemma lru_lookupD:
  assumes "lru_inv l" and "fmlookup (lru_index l) k = Some i"
  obtains e where "(i, e) \<in> set (gl_elems (lru_list l))" "e_key e = k"
    "gl_value i (lru_list l) = Some e" "e \<in> set (lru_entries l)"
proof -
  from assms obtain e where e: "(i, e) \<in> set (gl_elems (lru_list l))" "e_key e = k"
    by (auto simp: lru_inv_def)
  moreover from e assms(1) have "gl_value i (lru_list l) = Some e"
    by (simp add: lru_inv_def gl_value_iff)
  moreover from e have "e \<in> set (lru_entries l)"
    by (force simp: lru_entries_def gl_list_def)
  ultimately show thesis using that by blast
qed

lemma lru_index_keys:
  assumes "lru_inv l"
  shows "fmlookup (lru_index l) k = None \<longleftrightarrow> k \<notin> e_key ` set (lru_entries l)"
proof
  assume n: "fmlookup (lru_index l) k = None"
  show "k \<notin> e_key ` set (lru_entries l)"
  proof
    assume "k \<in> e_key ` set (lru_entries l)"
    then obtain i e where "(i, e) \<in> set (gl_elems (lru_list l))" "e_key e = k"
      by (auto simp: lru_entries_def gl_list_def)
    with assms have "fmlookup (lru_index l) k = Some i" by (auto simp: lru_inv_def)
    with n show False by simp
  qed
next
  assume "k \<notin> e_key ` set (lru_entries l)"
  then show "fmlookup (lru_index l) k = None"
    by (cases "fmlookup (lru_index l) k") (auto elim: lru_lookupD [OF assms])
qed

lemma lru_index_len:
  assumes "lru_inv l"
  shows "map_len (lru_index l) = int (length (lru_entries l))"
proof -
  have "fmdom (lru_index l) = fset_of_list (map e_key (lru_entries l))"
    using lru_index_keys [OF assms]
    by (intro fset_eqI) (auto simp: fmdom_iff fset_of_list_elem simp del: not_None_eq)
  then have "fset (fmdom (lru_index l)) = set (map e_key (lru_entries l))"
    by (simp add: fset_of_list.rep_eq)
  moreover have "distinct (map e_key (lru_entries l))"
    using assms by (simp add: lru_inv_def lru_entries_def)
  ultimately show ?thesis
    by (metis distinct_card fcard.rep_eq length_map map_len_def)
qed

lemma lru_find:
  assumes "lru_inv l" and "e \<in> set (lru_entries l)" and "e_key e = k"
  shows "find (\<lambda>e. e_key e = k) (lru_entries l) = Some e"
proof -
  have "distinct (map e_key es) \<Longrightarrow> e \<in> set es \<Longrightarrow> find (\<lambda>e. e_key e = k) es = Some e" for es
    using assms(3) by (induction es) (auto simp: image_iff)
  with assms show ?thesis by (simp add: lru_inv_def lru_entries_def)
qed

section \<open>The operations refine the specification\<close>

text \<open>The two state changes that the operations share: dropping an element and touching one.\<close>

lemma lru_drop_ok:
  assumes inv: "lru_inv l" and i: "fmlookup (lru_index l) k = Some i"
  defines "m \<equiv> l\<lparr>lru_index := fmdrop k (lru_index l), lru_list := gl_remove i (lru_list l)\<rparr>"
  shows "lru_inv m \<and> lru_entries m = others k (lru_entries l)"
proof -
  obtain e where e: "(i, e) \<in> set (gl_elems (lru_list l))" "e_key e = k"
    using lru_lookupD [OF inv i] by blast
  have dist: "gl_inv (lru_list l)" "distinct (map e_key (gl_list (lru_list l)))"
    using inv by (simp_all add: lru_inv_def)
  have es: "gl_list (gl_remove i (lru_list l)) = others k (gl_list (lru_list l))"
    using gl_remove_list [OF dist e(1)] e(2) by simp
  have elems: "gl_elems (gl_remove i (lru_list l)) =
      filter (\<lambda>p. e_key (snd p) \<noteq> k) (gl_elems (lru_list l))"
    using filter_fst_key [of "gl_elems (lru_list l)" e_key i e] dist e
    by (simp add: gl_remove_def gl_inv_def gl_list_def comp_def)
  have "lru_inv m"
    using inv gl_remove_inv [OF dist(1), of i]
    by (auto simp: lru_inv_def m_def es elems distinct_map_filter intro: order_trans [rotated]
        order_trans [OF of_nat_mono [OF length_filter_le]])
  then show ?thesis by (simp add: m_def lru_entries_def es)
qed

lemma gl_assign_touch:
  assumes "gl_inv l" and "distinct (map key (gl_list l))" and "(i, v) \<in> set (gl_elems l)"
    and "key w = key v"
  shows "gl_elems (gl_move_to_front i (gl_assign i w l)) =
    (i, w) # filter (\<lambda>p. key (snd p) \<noteq> key v) (gl_elems l)"
proof -
  let ?f = "\<lambda>(j, u). (j, if j = i then w else u)"
  have ids: "distinct (map fst (gl_elems l))" using assms(1) by (simp add: gl_inv_def)
  have "map_of (map ?f (gl_elems l)) i = Some w"
    using ids assms(3) by (intro map_of_is_SomeI) (force simp: comp_def split_def)+
  moreover have "filter (\<lambda>p. fst p \<noteq> i) (map ?f xs) = filter (\<lambda>p. fst p \<noteq> i) xs" for xs
    by (induction xs) auto
  ultimately show ?thesis
    using assms ids filter_fst_key [of "gl_elems l" key i v]
    by (simp add: gl_move_to_front_def gl_assign_def gl_list_def comp_def)
qed

lemma lru_touch_ok:
  assumes inv: "lru_inv l" and e: "(i, e) \<in> set (gl_elems (lru_list l))" and k: "e_key e' = e_key e"
    and gl: "gl_inv gl" "gl_elems gl =
      (i, e') # filter (\<lambda>p. e_key (snd p) \<noteq> e_key e) (gl_elems (lru_list l))"
  defines "m \<equiv> l\<lparr>lru_list := gl\<rparr>"
  shows "lru_inv m \<and> lru_entries m = e' # others (e_key e) (lru_entries l)"
proof -
  let ?xs = "gl_elems (lru_list l)"
  have es: "gl_list gl = e' # others (e_key e) (gl_list (lru_list l))"
    by (simp add: gl_list_def gl filter_map comp_def)
  have mem: "e \<in> set (gl_list (lru_list l))"
    using e by (force simp: gl_list_def)
  then have "length (others (e_key e) (gl_list (lru_list l))) < length (gl_list (lru_list l))"
    by (rule length_filter_less) simp
  moreover have "fmlookup (lru_index l) k = Some j \<longleftrightarrow> (\<exists>u. (j, u) \<in> set (gl_elems gl) \<and> e_key u = k)"
    for k j
  proof (cases "k = e_key e")
    case True
    have "fmlookup (lru_index l) (e_key e) = Some i"
      using inv e by (auto simp: lru_inv_def)
    with True \<open>e_key e' = e_key e\<close> show ?thesis by (auto simp: gl)
  next
    case False
    then show ?thesis using inv \<open>e_key e' = e_key e\<close> by (auto simp: gl lru_inv_def)
  qed
  ultimately have "lru_inv m"
    using inv gl(1) k by (auto simp: lru_inv_def m_def es distinct_map_filter)
  then show ?thesis by (simp add: m_def lru_entries_def es)
qed

lemma lru_get_ok:
  assumes inv: "lru_inv l"
  shows "\<exists>m. lru_get now k l = Some (fst (spec_get now k (lru_entries l)), m) \<and> lru_inv m \<and>
    lru_entries m = snd (spec_get now k (lru_entries l)) \<and> lru_capacity m = lru_capacity l"
proof (cases "fmlookup (lru_index l) k")
  case None
  then have "k \<notin> e_key ` set (lru_entries l)" by (simp add: lru_index_keys [OF inv])
  then have "find (\<lambda>e. e_key e = k) (lru_entries l) = None"
    by (auto simp: find_None_iff)
  with None inv show ?thesis by (simp add: lru_get_def spec_get_def)
next
  case (Some i)
  from lru_lookupD [OF inv Some] obtain e where e: "(i, e) \<in> set (gl_elems (lru_list l))"
    "e_key e = k" "gl_value i (lru_list l) = Some e" "e \<in> set (lru_entries l)" .
  note f = lru_find [OF inv e(4,2)]
  show ?thesis
  proof (cases "entry_live now e")
    case True
    have dist: "gl_inv (lru_list l)" "distinct (map e_key (gl_list (lru_list l)))"
      using inv by (simp_all add: lru_inv_def)
    have "gl_elems (gl_move_to_front i (lru_list l)) =
        (i, e) # filter (\<lambda>p. e_key (snd p) \<noteq> e_key e) (gl_elems (lru_list l))"
      using filter_fst_key [of "gl_elems (lru_list l)" e_key i e] dist e
      by (simp add: gl_move_to_front_def gl_inv_def gl_list_def comp_def)
    from lru_touch_ok [OF inv e(1) refl gl_move_to_front_inv [OF dist(1)] this] True Some e f
    show ?thesis by (simp add: lru_get_def spec_get_def)
  next
    case False
    with lru_drop_ok [OF inv Some] Some e f show ?thesis
      by (simp add: lru_get_def spec_get_def)
  qed
qed

lemma lru_remove_ok:
  assumes inv: "lru_inv l"
  shows "lru_inv (lru_remove k l) \<and> lru_entries (lru_remove k l) = others k (lru_entries l) \<and>
    lru_capacity (lru_remove k l) = lru_capacity l"
proof (cases "fmlookup (lru_index l) k")
  case None
  then have "k \<notin> e_key ` set (lru_entries l)" by (simp add: lru_index_keys [OF inv])
  then have "others k (lru_entries l) = lru_entries l"
    by (auto simp: filter_id_conv)
  with None inv show ?thesis by (simp add: lru_remove_def)
next
  case (Some i)
  with lru_drop_ok [OF inv Some] show ?thesis by (simp add: lru_remove_def)
qed

lemma others_last:
  assumes "distinct (map e_key es)" and "es \<noteq> []"
  shows "others (e_key (last es)) es = butlast es"
proof -
  obtain ys y where es: "es = ys @ [y]" using assms(2) by (metis append_butlast_last_id)
  with assms(1) have "others (e_key y) ys = ys"
    by (intro filter_True) (auto simp: es image_iff)
  with es show ?thesis by simp
qed

lemma lru_evict_ok:
  assumes inv: "lru_inv l"
  shows "\<exists>m. lru_evict l = Some m \<and> lru_inv m \<and> lru_capacity m = lru_capacity l \<and>
    lru_entries m = (if int (length (lru_entries l)) \<ge> lru_capacity l
                     then butlast (lru_entries l) else lru_entries l)"
proof (cases "int (length (lru_entries l)) \<ge> lru_capacity l")
  case True
  let ?xs = "gl_elems (lru_list l)"
  have ne: "?xs \<noteq> []"
    using True inv by (auto simp: lru_inv_def lru_entries_def gl_list_def)
  define i e where "i = fst (last ?xs)" and "e = snd (last ?xs)"
  then have mem: "(i, e) \<in> set ?xs" using ne by simp
  then have idx: "fmlookup (lru_index l) (e_key e) = Some i"
    using inv by (auto simp: lru_inv_def)
  have val: "gl_value i (lru_list l) = Some e"
    using mem inv by (simp add: lru_inv_def gl_value_iff)
  have "last (lru_entries l) = e"
    using ne by (simp add: lru_entries_def gl_list_def e_def last_map)
  then have "others (e_key e) (lru_entries l) = butlast (lru_entries l)"
    using others_last [of "lru_entries l"] inv ne by (simp add: lru_inv_def lru_entries_def gl_list_def)
  with lru_drop_ok [OF inv idx] True ne val show ?thesis
    by (simp add: lru_evict_def lru_index_len [OF inv] gl_back_def i_def)
next
  case False
  with inv show ?thesis by (simp add: lru_evict_def lru_index_len [OF inv])
qed

lemma lru_put_ok:
  assumes inv: "lru_inv l"
  shows "\<exists>m. lru_put k v x l = Some m \<and> lru_inv m \<and> lru_capacity m = lru_capacity l \<and>
    lru_entries m = spec_put (lru_capacity l) k v x (lru_entries l)"
proof (cases "fmlookup (lru_index l) k")
  case None
  then have new: "k \<notin> e_key ` set (lru_entries l)" by (simp add: lru_index_keys [OF inv])
  let ?e = "\<lparr>e_key = k, e_value = v, e_expireAt = x\<rparr>"
  obtain m where m: "lru_evict l = Some m" "lru_inv m" "lru_capacity m = lru_capacity l"
    "lru_entries m = (if int (length (lru_entries l)) \<ge> lru_capacity l
                     then butlast (lru_entries l) else lru_entries l)"
    using lru_evict_ok [OF inv] by blast
  have new': "k \<notin> e_key ` set (lru_entries m)"
    using new m(4) by (auto dest: in_set_butlastD split: if_splits)
  have room: "int (length (lru_entries m)) < lru_capacity m"
    using m(3,4) inv by (auto simp: lru_inv_def lru_entries_def)
  let ?gl = "snd (gl_push_front ?e (lru_list m))"
  let ?r = "m\<lparr>lru_list := ?gl, lru_index := fmupd k (gl_next (lru_list m)) (lru_index m)\<rparr>"
  have "lru_put k v x l = Some ?r"
    using None m(1) by (simp add: lru_put_def gl_push_front_def Let_def)
  moreover have "fmlookup (lru_index ?r) k' = Some j \<longleftrightarrow>
      (\<exists>u. (j, u) \<in> set (gl_elems ?gl) \<and> e_key u = k')" for k' j
  proof (cases "k' = k")
    case True
    with new' show ?thesis
      by (force simp: gl_push_front_def lru_entries_def gl_list_def)
  next
    case False
    with m(2) show ?thesis by (auto simp: gl_push_front_def lru_inv_def)
  qed
  then have "lru_inv ?r"
    using m(2) new' room gl_push_front_inv [of "lru_list m" ?e]
    by (simp add: lru_inv_def lru_entries_def)
  moreover have "lru_entries ?r = ?e # lru_entries m"
    by (simp add: lru_entries_def)
  ultimately show ?thesis using m new by (auto simp: spec_put_def)
next
  case (Some i)
  from lru_lookupD [OF inv Some] obtain e where e: "(i, e) \<in> set (gl_elems (lru_list l))"
    "e_key e = k" "gl_value i (lru_list l) = Some e" "e \<in> set (lru_entries l)" .
  have dist: "gl_inv (lru_list l)" "distinct (map e_key (gl_list (lru_list l)))"
    using inv by (simp_all add: lru_inv_def)
  let ?e = "e\<lparr>e_value := v, e_expireAt := x\<rparr>"
  let ?gl = "gl_move_to_front i (gl_assign i ?e (lru_list l))"
  have "gl_elems ?gl = (i, ?e) # filter (\<lambda>p. e_key (snd p) \<noteq> e_key e) (gl_elems (lru_list l))"
    by (rule gl_assign_touch [OF dist e(1)]) simp
  from lru_touch_ok [OF inv e(1) _ _ this] gl_move_to_front_inv [OF gl_assign_inv [OF dist(1)]]
  have "lru_inv (l\<lparr>lru_list := ?gl\<rparr>) \<and> lru_entries (l\<lparr>lru_list := ?gl\<rparr>) = ?e # others k (lru_entries l)"
    using e(2) by simp
  moreover have "\<lparr>e_key = k, e_value = v, e_expireAt = x\<rparr> = ?e"
    using e(2) by (cases e) simp
  moreover have "k \<in> e_key ` set (lru_entries l)" using e by blast
  moreover have "lru_put k v x l = Some (l\<lparr>lru_list := ?gl\<rparr>)"
    using Some e by (simp add: lru_put_def Let_def)
  ultimately show ?thesis by (simp add: spec_put_def)
qed

section \<open>The interface its clients rely on\<close>

text \<open>
  The sharded cache and the 2Q cache use the operations through these laws, over the value and
  expiry that the cache holds for a key: a call touches its own key; storing a key may cost the
  cache another one, but never changes what another key is bound to. The time argument of a
  store is the expiry itself for an LRU cache and the clock for a sharded one: \<open>stamp\<close> says
  which expiry it leads to.
\<close>

definition valid_at :: "int \<Rightarrow> int \<Rightarrow> bool" where
  "valid_at now x \<longleftrightarrow> x \<le> 0 \<or> now < x"

locale entry_cache =
  fixes inv :: "'c \<Rightarrow> bool"
    and view :: "'c \<Rightarrow> 'k \<Rightarrow> ('v \<times> int) option"
    and stamp :: "'c \<Rightarrow> int \<Rightarrow> int"
    and put :: "'k \<Rightarrow> 'v \<Rightarrow> int \<Rightarrow> 'c \<Rightarrow> 'c option"
    and get :: "int \<Rightarrow> 'k \<Rightarrow> 'c \<Rightarrow> ('v option \<times> 'c) option"
    and remove :: "'k \<Rightarrow> 'c \<Rightarrow> 'c option"
  assumes put_ok: "inv c \<Longrightarrow> \<exists>d. put k v x c = Some d \<and> inv d \<and> view d k = Some (v, stamp c x) \<and>
      (\<forall>k'. k' \<noteq> k \<longrightarrow> view d k' = view c k' \<or> view d k' = None)"
    and get_ok: "inv c \<Longrightarrow> \<exists>d. inv d \<and>
      (case view c k of
         Some (v, x) \<Rightarrow> if valid_at now x then get now k c = Some (Some v, d) \<and> view d = view c
                        else get now k c = Some (None, d) \<and> view d = (view c)(k := None)
       | None \<Rightarrow> get now k c = Some (None, d) \<and> view d = view c)"
    and remove_ok: "inv c \<Longrightarrow> \<exists>d. remove k c = Some d \<and> inv d \<and> view d = (view c)(k := None)"
begin

lemma get_total: "inv c \<Longrightarrow> \<exists>r d. get now k c = Some (r, d) \<and> inv d"
  using get_ok [where c = c and k = k and now = now]
  by (fastforce split: option.splits prod.splits if_splits)

lemma put_get:
  "inv c \<Longrightarrow> \<exists>d e. put k v x c = Some d \<and> inv e \<and>
     get now k d = Some (if valid_at now (stamp c x) then Some v else None, e)"
  using put_ok [of c k v x] get_ok [where k = k and now = now]
  by (fastforce split: if_splits)

lemma get_hit:
  "inv c \<Longrightarrow> get now k c = Some (Some v, d) \<Longrightarrow> \<exists>x. view c k = Some (v, x) \<and> valid_at now x \<and> view d = view c"
  using get_ok [where c = c and k = k and now = now]
  by (fastforce split: option.splits prod.splits if_splits)

lemma get_miss:
  "inv c \<Longrightarrow> get now k c = Some (None, d) \<Longrightarrow> inv d \<and> view d = (view c)(k := None)"
  using get_ok [where c = c and k = k and now = now]
  by (fastforce split: option.splits prod.splits if_splits)

lemma remove_get: "inv c \<Longrightarrow> \<exists>d e. remove k c = Some d \<and> get now k d = Some (None, e)"
  using remove_ok [of c k] get_ok [where k = k and now = now] by fastforce

end

definition lru_view :: "('k, 'v) lru \<Rightarrow> 'k \<Rightarrow> ('v \<times> int) option" where
  "lru_view l k =
     map_option (\<lambda>e. (e_value e, e_expireAt e)) (find (\<lambda>e. e_key e = k) (lru_entries l))"

lemma entry_live_valid: "entry_live now e \<longleftrightarrow> valid_at now (e_expireAt e)"
  by (simp add: entry_live_def valid_at_def)

lemma find_others: "find (\<lambda>e. e_key e = k') (others k es) =
    (if k' = k then None else find (\<lambda>e. e_key e = k') es)"
  by (induction es) auto

lemma find_butlast:
  "find P (butlast es) = find P es \<or> find P (butlast es) = None"
  by (induction es) auto

lemma find_key: "find (\<lambda>e. e_key e = k) es = Some e \<Longrightarrow> e_key e = k"
  by (auto simp: find_Some_iff)

lemma lru_put_view:
  assumes "lru_inv l"
  shows "\<exists>d. lru_put k v x l = Some d \<and> lru_inv d \<and> lru_view d k = Some (v, x) \<and>
      (\<forall>k'. k' \<noteq> k \<longrightarrow> lru_view d k' = lru_view l k' \<or> lru_view d k' = None)"
proof -
  obtain d where d: "lru_put k v x l = Some d" "lru_inv d"
    "lru_entries d = spec_put (lru_capacity l) k v x (lru_entries l)"
    using lru_put_ok [OF assms, of k v x] by blast
  moreover have "lru_view d k' = lru_view l k' \<or> lru_view d k' = None" if "k' \<noteq> k" for k'
    using that find_butlast [of "\<lambda>e. e_key e = k'" "lru_entries l"]
    by (auto simp: lru_view_def d(3) spec_put_def find_others)
  ultimately show ?thesis by (auto simp: lru_view_def spec_put_def)
qed

lemma lru_get_view:
  assumes "lru_inv l"
  shows "\<exists>d. lru_inv d \<and>
      (case lru_view l k of
         Some (v, x) \<Rightarrow> if valid_at now x then lru_get now k l = Some (Some v, d) \<and> lru_view d = lru_view l
                        else lru_get now k l = Some (None, d) \<and> lru_view d = (lru_view l)(k := None)
       | None \<Rightarrow> lru_get now k l = Some (None, d) \<and> lru_view d = lru_view l)"
proof -
  obtain d where d: "lru_get now k l = Some (fst (spec_get now k (lru_entries l)), d)" "lru_inv d"
    "lru_entries d = snd (spec_get now k (lru_entries l))"
    using lru_get_ok [OF assms] by blast
  show ?thesis
  proof (cases "find (\<lambda>e. e_key e = k) (lru_entries l)")
    case None
    with d show ?thesis by (auto simp: lru_view_def spec_get_def fun_eq_iff)
  next
    case (Some e)
    note key = find_key [OF Some]
    have "lru_view d = (if entry_live now e then lru_view l else (lru_view l)(k := None))"
      using d(3) Some key by (auto simp: lru_view_def spec_get_def fun_eq_iff find_others)
    with d Some show ?thesis
      by (auto simp: lru_view_def [of l k] spec_get_def entry_live_valid intro!: exI [of _ d])
  qed
qed

lemma lru_remove_view:
  "lru_inv l \<Longrightarrow> lru_inv (lru_remove k l) \<and> lru_view (lru_remove k l) = (lru_view l)(k := None)"
  using lru_remove_ok [of l k] by (auto simp: lru_view_def fun_eq_iff find_others)

interpretation lc: entry_cache lru_inv lru_view "\<lambda>l x. x" lru_put lru_get "\<lambda>k l. Some (lru_remove k l)"
  by unfold_locales (rule lru_put_view lru_get_view; assumption | simp add: lru_remove_view)+

section \<open>Runs of calls\<close>

datatype ('k, 'v) cache_op = CPut 'k 'v int | CGet int 'k | CRemove 'k

datatype 'v cache_obs = CDone | CFound "'v option"

fun lru_step :: "('k, 'v) lru \<Rightarrow> ('k, 'v) cache_op \<Rightarrow> ('v cache_obs \<times> ('k, 'v) lru) option" where
  "lru_step l (CPut k v x) = map_option (\<lambda>m. (CDone, m)) (lru_put k v x l)"
| "lru_step l (CGet now k) = map_option (\<lambda>(r, m). (CFound r, m)) (lru_get now k l)"
| "lru_step l (CRemove k) = Some (CDone, lru_remove k l)"

text \<open>The specification keeps the entries in the order of their last use.\<close>

fun recency_step :: "int \<times> ('k, 'v) cache_entry list \<Rightarrow> ('k, 'v) cache_op \<Rightarrow>
    'v cache_obs \<times> int \<times> ('k, 'v) cache_entry list" where
  "recency_step (cap, es) (CPut k v x) = (CDone, cap, spec_put cap k v x es)"
| "recency_step (cap, es) (CGet now k) = (CFound (fst (spec_get now k es)), cap, snd (spec_get now k es))"
| "recency_step (cap, es) (CRemove k) = (CDone, cap, others k es)"

definition lru_abs :: "('k, 'v) lru \<Rightarrow> int \<times> ('k, 'v) cache_entry list" where
  "lru_abs l = (lru_capacity l, lru_entries l)"

lemma lru_step_refines:
  assumes "lru_inv l"
  shows "\<exists>m. lru_step l c = Some (fst (recency_step (lru_abs l) c), m) \<and> lru_inv m \<and>
    lru_abs m = snd (recency_step (lru_abs l) c)"
proof (cases c)
  case (CPut k v x)
  with lru_put_ok [OF assms, of k v x] show ?thesis by (auto simp: lru_abs_def)
next
  case (CGet now k)
  with lru_get_ok [OF assms, of now k] show ?thesis by (auto simp: lru_abs_def)
next
  case (CRemove k)
  with lru_remove_ok [OF assms, of k] show ?thesis by (auto simp: lru_abs_def)
qed

interpretation rl: data_refinement lru_inv lru_abs lru_step recency_step
  by unfold_locales (rule lru_step_refines)

section \<open>The least recently used entry goes first\<close>

fun op_key :: "('k, 'v) cache_op \<Rightarrow> 'k" where
  "op_key (CPut k v x) = k"
| "op_key (CGet now k) = k"
| "op_key (CRemove k) = k"

lemma others_split:
  "e_key e \<noteq> k \<Longrightarrow> others k (xs @ e # ys) = others k xs @ e # others k ys"
  by simp

lemma spec_keys_distinct:
  "distinct (map e_key es) \<Longrightarrow> distinct (map e_key (snd (snd (recency_step (cap, es) c))))"
proof (cases c)
  case (CPut k v x)
  assume "distinct (map e_key es)"
  with CPut show ?thesis
    by (auto simp: spec_put_def distinct_map_filter map_butlast distinct_butlast dest: in_set_butlastD)
next
  case (CGet now k)
  assume "distinct (map e_key es)"
  with CGet show ?thesis
    by (auto simp: spec_get_def distinct_map_filter dest: find_key split: option.splits)
qed (simp add: distinct_map_filter)

text \<open>
  While fewer than \<open>cap\<close> other keys are used, everything in front of an entry is one of
  them, so the entry is never the last one of a full cache.
\<close>

lemma recency_step_keeps:
  assumes dist: "distinct (map e_key es)" and es: "es = xs @ e # ys" and ahead: "e_key ` set xs \<subseteq> T"
    and T: "finite T" "int (card T) < cap" and k: "op_key c \<in> T" "op_key c \<noteq> e_key e"
  shows "\<exists>xs' ys'. snd (snd (recency_step (cap, es) c)) = xs' @ e # ys' \<and> e_key ` set xs' \<subseteq> T"
proof (cases c)
  case (CPut k v x)
  let ?n = "\<lparr>e_key = k, e_value = v, e_expireAt = x\<rparr>"
  have kT: "k \<in> T" "e_key e \<noteq> k" using CPut assms by auto
  show ?thesis
  proof (cases "k \<in> e_key ` set es")
    case True
    then have "snd (snd (recency_step (cap, es) c)) = (?n # others k xs) @ e # others k ys"
      using CPut kT by (simp add: spec_put_def es)
    moreover have "e_key ` set (?n # others k xs) \<subseteq> T" using kT ahead by auto
    ultimately show ?thesis by blast
  next
    case False
    show ?thesis
    proof (cases "int (length es) \<ge> cap")
      case True
      have "card (e_key ` set xs) = length xs"
        using dist by (metis distinct_append distinct_card es length_map list.set_map map_append)
      moreover have "e_key ` set xs \<subseteq> T - {k}" using False ahead es by auto
      ultimately have "length xs \<le> card (T - {k})" using T by (metis card_mono finite_Diff)
      then have "Suc (length xs) \<le> card T"
        using kT T by (simp add: card_gt_0_iff Suc_le_eq) (metis card_Diff_singleton card_gt_0_iff diff_Suc_less empty_iff le_less_trans)
      with True T(2) have "ys \<noteq> []" by (auto simp: es)
      then have "butlast es = xs @ e # butlast ys" by (simp add: es butlast_append)
      with True False CPut have "snd (snd (recency_step (cap, es) c)) = (?n # xs) @ e # butlast ys"
        by (simp add: spec_put_def)
      moreover have "e_key ` set (?n # xs) \<subseteq> T" using kT ahead by auto
      ultimately show ?thesis by blast
    next
      case less: False
      with False CPut have "snd (snd (recency_step (cap, es) c)) = (?n # xs) @ e # ys"
        by (simp add: spec_put_def es)
      moreover have "e_key ` set (?n # xs) \<subseteq> T" using kT ahead by auto
      ultimately show ?thesis by blast
    qed
  qed
next
  case (CGet now k)
  have kT: "k \<in> T" "e_key e \<noteq> k" using CGet assms by auto
  have sub: "e_key ` set (others k xs) \<subseteq> T" using ahead by auto
  show ?thesis
  proof (cases "find (\<lambda>u. e_key u = k) es")
    case None
    with CGet es ahead show ?thesis by (auto simp: spec_get_def)
  next
    case (Some u)
    show ?thesis
    proof (cases "entry_live now u")
      case True
      with CGet Some kT have "snd (snd (recency_step (cap, es) c)) = (u # others k xs) @ e # others k ys"
        by (simp add: spec_get_def es)
      moreover have "e_key ` set (u # others k xs) \<subseteq> T" using kT sub find_key [OF Some] by auto
      ultimately show ?thesis by blast
    next
      case False
      with CGet Some kT have "snd (snd (recency_step (cap, es) c)) = others k xs @ e # others k ys"
        by (simp add: spec_get_def es)
      with sub show ?thesis by blast
    qed
  qed
next
  case (CRemove k)
  have "e_key e \<noteq> k" using CRemove assms by auto
  with CRemove have "snd (snd (recency_step (cap, es) c)) = others k xs @ e # others k ys"
    by (simp add: es)
  moreover have "e_key ` set (others k xs) \<subseteq> T" using ahead by auto
  ultimately show ?thesis by blast
qed

lemma recency_cap [simp]: "fst (snd (recency_step a c)) = fst a"
  by (cases a; cases c) auto

lemma recency_run_cap [simp]: "fst (snd (run_spec recency_step a cs)) = fst a"
  by (induction cs arbitrary: a) (simp_all add: Let_def case_prod_beta)

lemma recency_run_distinct:
  "distinct (map e_key (snd a)) \<Longrightarrow> distinct (map e_key (snd (snd (run_spec recency_step a cs))))"
proof (induction cs arbitrary: a)
  case (Cons c cs)
  obtain cap es where a: "a = (cap, es)" by fastforce
  from Cons spec_keys_distinct [of es cap c] show ?case
    by (auto simp: a Let_def split: prod.splits) (metis snd_conv)
qed simp

lemma recency_run_keeps:
  assumes "distinct (map e_key es)" and "es = xs @ e # ys" and "e_key ` set xs \<subseteq> T"
    and "finite T" and "int (card T) < cap" and "op_key ` set cs \<subseteq> T" and "e_key e \<notin> T"
  shows "\<exists>xs' ys'. snd (snd (run_spec recency_step (cap, es) cs)) = xs' @ e # ys'"
  using assms
proof (induction cs arbitrary: es xs ys)
  case (Cons c cs)
  obtain r es1 where s: "recency_step (cap, es) c = (r, cap, es1)"
    using recency_cap [of "(cap, es)" c] by (metis fst_conv prod.exhaust_sel)
  then have d1: "distinct (map e_key es1)"
    using spec_keys_distinct [OF Cons.prems(1), of cap c] by simp
  have "op_key c \<in> T" "op_key c \<noteq> e_key e" using Cons.prems(6,7) by auto
  then obtain xs1 ys1 where "es1 = xs1 @ e # ys1" "e_key ` set xs1 \<subseteq> T"
    using recency_step_keeps [OF Cons.prems(1-5), of c] s by auto
  with Cons.IH [OF d1] Cons.prems(4-7) show ?case
    by (simp add: s Let_def split: prod.splits) (metis snd_conv)
qed auto

section \<open>Properties\<close>

lemma new_lru_abs: "lru_abs (new_lru c) = (if c \<le> 0 then defaultLruCacheCapacity else c, [])"
  by (simp add: lru_abs_def) (simp add: new_lru_def Let_def)

text \<open>
  C4: every sequence of \<open>Put\<close>, \<open>Get\<close> and \<open>Remove\<close> on a new cache runs without a panic
  and answers as the list of entries in the order of their last use does: the map and the
  linked list never disagree, and the cache never holds more entries than its capacity.
\<close>

theorem lru_run_is_recency_list:
  "\<exists>l. run_ops lru_step (new_lru c) ops =
       Some (fst (run_spec recency_step (if c \<le> 0 then defaultLruCacheCapacity else c, []) ops), l) \<and>
     lru_abs l = snd (run_spec recency_step (if c \<le> 0 then defaultLruCacheCapacity else c, []) ops) \<and>
     lru_inv l \<and> int (length (lru_entries l)) \<le> (if c \<le> 0 then defaultLruCacheCapacity else c)"
proof -
  obtain l where l: "run_ops lru_step (new_lru c) ops =
      Some (fst (run_spec recency_step (lru_abs (new_lru c)) ops), l)" "lru_inv l"
    "lru_abs l = snd (run_spec recency_step (lru_abs (new_lru c)) ops)"
    using rl.run_refines [OF new_lru_inv] by blast
  have "fst (lru_abs l) = (if c \<le> 0 then defaultLruCacheCapacity else c)"
    unfolding l(3) recency_run_cap by (simp add: new_lru_abs)
  moreover have "int (length (lru_entries l)) \<le> lru_capacity l"
    using l(2) by (simp add: lru_inv_def lru_entries_def)
  ultimately show ?thesis
    using l unfolding new_lru_abs by (auto simp: lru_abs_def)
qed

text \<open>
  a key that was just stored is found with its value as long as fewer than \<open>capacity\<close>
  other keys are used after it (stored, read or removed, in any order and number), whatever
  happened before, until its expiry.
\<close>

theorem lru_recent_key_survives:
  assumes "k \<notin> op_key ` set later" and "int (card (op_key ` set later)) < cap" and "valid_at now x"
  shows "\<exists>rs l. run_ops lru_step (new_lru cap) (before @ CPut k v x # later @ [CGet now k]) = Some (rs, l) \<and>
     last rs = CFound (Some v)"
proof -
  have cap: "0 < cap" using assms(2) by simp
  let ?all = "before @ CPut k v x # later"
  define es0 where "es0 = snd (snd (run_spec recency_step (cap, []) before))"
  define es1 where "es1 = spec_put cap k v x es0"
  define e where "e = \<lparr>e_key = k, e_value = v, e_expireAt = x\<rparr>"
  have s0: "snd (run_spec recency_step (cap, []) before) = (cap, es0)"
    by (metis es0_def fst_conv prod.collapse recency_run_cap)
  have d0: "distinct (map e_key es0)"
    using recency_run_distinct [of "(cap, [])"] by (simp add: es0_def)
  have d1: "distinct (map e_key es1)"
    using spec_keys_distinct [OF d0, of cap "CPut k v x"] by (simp add: es1_def)
  obtain ys where es1: "es1 = [] @ e # ys" by (simp add: es1_def spec_put_def e_def)
  obtain xs ys' where es2: "snd (snd (run_spec recency_step (cap, es1) later)) = xs @ e # ys'"
    using recency_run_keeps [OF d1 es1 _ _ assms(2), of later] assms(1) by (auto simp: e_def)
  have d2: "distinct (map e_key (xs @ e # ys'))"
    using recency_run_distinct [of "(cap, es1)" later] d1 es2 by simp
  have st: "snd (run_spec recency_step (cap, []) ?all) = (cap, xs @ e # ys')"
    using es2 recency_run_cap [of "(cap, es1)" later]
    by (simp add: run_spec_state_append s0 es1_def Let_def case_prod_beta prod_eq_iff)
  have "find (\<lambda>u. e_key u = k) (xs @ e # ys') = Some e"
    using d2 by (induction xs) (auto simp: e_def)
  then have "fst (recency_step (cap, xs @ e # ys') (CGet now k)) = CFound (Some v)"
    using assms(3) by (simp add: spec_get_def entry_live_valid) (simp add: e_def)
  then have "last (fst (run_spec recency_step (cap, []) (?all @ [CGet now k]))) = CFound (Some v)"
    by (simp only: run_spec_last st)
  then show ?thesis
    using rl.run_refines [OF new_lru_inv, where xs = "?all @ [CGet now k]"] cap
    by (fastforce simp: new_lru_abs)
qed

theorem lru_recent_key_survives_witness:
  "\<exists>rs l. run_ops lru_step (new_lru 2)
       ([CPut (1::nat) ''a'' 0, CPut 2 ''b'' 0] @ CPut 3 ''c'' 50 # [CGet 7 1, CPut 1 ''d'' 0] @ [CGet 49 3]) =
       Some (rs, l) \<and> last rs = CFound (Some ''c'')"
  by (rule lru_recent_key_survives) (simp_all add: valid_at_def)

end
