(* ===== verification/Shard_Lru_Model.thy ===== *)
theory Shard_Lru_Model
  imports Lru_Model "HOL-Library.Word"
begin

unbundle bit_operations_syntax

text \<open>
  \<^verbatim>\<open>ShardLruCache\<close> of \<^verbatim>\<open>common/container/lru_cache.go\<close>: an array
  of LRU caches, with a hash function that picks the shard of a key. The keys are Go strings, a
  list of bytes here. The hash function is any function to \<open>int\<close>: the default is FNV-1a, and
  \<open>SetHashFunc\<close> installs the caller's. The shards are used through the laws of
  \<^const>\<open>entry_cache\<close>.
\<close>

section \<open>State and operations\<close>

definition defaultShardLruCacheBucketCount :: int where
  "defaultShardLruCacheBucketCount = 10"

text \<open>\<open>fnv.New32a\<close> of the standard library, and the conversion of the 32-bit sum to \<open>int\<close>.\<close>

definition fnv_step :: "32 word \<Rightarrow> char \<Rightarrow> 32 word" where
  "fnv_step h c = (h XOR of_char c) * 16777619"

definition fnv_hash :: "string \<Rightarrow> int" where
  "fnv_hash s = uint (foldl fnv_step 2166136261 s)"

record 'v shard_lru =
  sh_shards :: "(string, 'v) lru list"
  sh_shardCount :: int
  sh_expiration :: int
  sh_hashFunc :: "string \<Rightarrow> int"

definition new_shard_lru :: "int \<Rightarrow> int \<Rightarrow> int \<Rightarrow> 'v shard_lru" where
  "new_shard_lru bucketCnt bucketCapacity expiration =
     (let bucketCnt = (if bucketCnt \<le> 0 then defaultShardLruCacheBucketCount else bucketCnt);
          bucketCapacity = (if bucketCapacity \<le> 0 then defaultLruCacheCapacity else bucketCapacity)
      in \<lparr>sh_shards = map (\<lambda>i. new_lru bucketCapacity) [0..<nat bucketCnt],
          sh_shardCount = bucketCnt, sh_expiration = expiration, sh_hashFunc = fnv_hash\<rparr>)"

definition set_hash_func :: "(string \<Rightarrow> int) option \<Rightarrow> 'v shard_lru \<Rightarrow> 'v shard_lru" where
  "set_hash_func fn c = (case fn of None \<Rightarrow> c | Some h \<Rightarrow> c\<lparr>sh_hashFunc := h\<rparr>)"

definition shard_index :: "'v shard_lru \<Rightarrow> string \<Rightarrow> int" where
  "shard_index c key =
     (let shardIndex = go_rem (sh_hashFunc c key) (sh_shardCount c)
      in if shardIndex < 0 then - shardIndex else shardIndex)"

definition get_shard :: "string \<Rightarrow> 'v shard_lru \<Rightarrow> (string, 'v) lru option" where
  "get_shard key c = slice_get (sh_shards c) (shard_index c key)"

text \<open>A shard is a pointer to its cache: an operation on it updates the array in place.\<close>

definition set_shard :: "string \<Rightarrow> (string, 'v) lru \<Rightarrow> 'v shard_lru \<Rightarrow> 'v shard_lru" where
  "set_shard key s c = c\<lparr>sh_shards := (sh_shards c)[nat (shard_index c key) := s]\<rparr>"

definition shard_expiry :: "int \<Rightarrow> 'v shard_lru \<Rightarrow> int" where
  "shard_expiry now c = (if sh_expiration c > 0 then wrap64 (now + sh_expiration c) else 0)"

definition shard_put :: "int \<Rightarrow> string \<Rightarrow> 'v \<Rightarrow> 'v shard_lru \<Rightarrow> 'v shard_lru option" where
  "shard_put now key val c = do {
     shard \<leftarrow> get_shard key c;
     shard' \<leftarrow> lru_put key val (shard_expiry now c) shard;
     Some (set_shard key shard' c) }"

definition shard_get :: "int \<Rightarrow> string \<Rightarrow> 'v shard_lru \<Rightarrow> ('v option \<times> 'v shard_lru) option" where
  "shard_get now key c = do {
     shard \<leftarrow> get_shard key c;
     (r, shard') \<leftarrow> lru_get now key shard;
     Some (r, set_shard key shard' c) }"

definition shard_remove :: "string \<Rightarrow> 'v shard_lru \<Rightarrow> 'v shard_lru option" where
  "shard_remove key c = do {
     shard \<leftarrow> get_shard key c;
     Some (set_shard key (lru_remove key shard) c) }"

section \<open>Invariant\<close>

definition shard_inv :: "'v shard_lru \<Rightarrow> bool" where
  "shard_inv c \<longleftrightarrow> 0 < sh_shardCount c \<and> int (length (sh_shards c)) = sh_shardCount c \<and>
     (\<forall>s \<in> set (sh_shards c). lru_inv s)"

text \<open>The shard of a key: the index is in range for every hash function.\<close>

lemma shard_index_range: "0 < sh_shardCount c \<Longrightarrow> 0 \<le> shard_index c key \<and> shard_index c key < sh_shardCount c"
  using go_rem_bound [of "sh_shardCount c" "sh_hashFunc c key"] by (auto simp: shard_index_def Let_def)

definition shard_of :: "'v shard_lru \<Rightarrow> string \<Rightarrow> (string, 'v) lru" where
  "shard_of c key = sh_shards c ! nat (shard_index c key)"

lemma shard_index_nat: "shard_inv c \<Longrightarrow> nat (shard_index c key) < length (sh_shards c)"
  using shard_index_range [of c key] by (auto simp: shard_inv_def nat_less_iff)

lemma get_shard_ok: "shard_inv c \<Longrightarrow> get_shard key c = Some (shard_of c key)"
  using shard_index_range [of c key] by (simp add: get_shard_def shard_inv_def shard_of_def)

lemma shard_of_inv: "shard_inv c \<Longrightarrow> lru_inv (shard_of c key)"
  using shard_index_nat [of c key] by (simp add: shard_inv_def shard_of_def)

lemma set_shard_inv [model_inv]: "shard_inv c \<Longrightarrow> lru_inv s \<Longrightarrow> shard_inv (set_shard key s c)"
  by (auto simp: shard_inv_def set_shard_def dest: set_update_subset_insert [THEN subsetD])

lemma shard_index_set [simp]: "shard_index (set_shard key s c) k = shard_index c k"
  by (simp add: shard_index_def set_shard_def)

lemma shard_of_set:
  "shard_inv c \<Longrightarrow> shard_of (set_shard key s c) k =
     (if shard_index c k = shard_index c key then s else shard_of c k)"
  using shard_index_nat [of c key] shard_index_range [of c k] shard_index_range [of c key]
  by (auto simp: shard_of_def) (auto simp: set_shard_def shard_inv_def nth_list_update nat_eq_iff2)

lemma new_shard_inv [model_inv]: "shard_inv (new_shard_lru n cap x)"
  by (auto simp: shard_inv_def new_shard_lru_def Let_def defaultShardLruCacheBucketCount_def
      intro: new_lru_inv)

lemma set_hash_func_inv [model_inv]: "shard_inv c \<Longrightarrow> shard_inv (set_hash_func fn c)"
  by (auto simp: shard_inv_def set_hash_func_def split: option.split)

section \<open>A sharded cache is an entry cache\<close>

text \<open>What the cache holds for a key is what the key's shard holds for it.\<close>

definition shard_view :: "'v shard_lru \<Rightarrow> string \<Rightarrow> ('v \<times> int) option" where
  "shard_view c key = lru_view (shard_of c key) key"

lemma shard_view_same:
  "shard_index c k' = shard_index c k \<Longrightarrow> lru_view (shard_of c k) k' = shard_view c k'"
  by (simp add: shard_view_def shard_of_def)

lemma shard_view_set:
  "shard_inv c \<Longrightarrow> shard_view (set_shard k s c) k' =
     (if shard_index c k' = shard_index c k then lru_view s k' else shard_view c k')"
  by (simp add: shard_view_def shard_of_set)

lemma shard_put_ok:
  assumes "shard_inv c"
  shows "\<exists>d. shard_put now k v c = Some d \<and> shard_inv d \<and>
     shard_view d k = Some (v, shard_expiry now c) \<and>
     (\<forall>k'. k' \<noteq> k \<longrightarrow> shard_view d k' = shard_view c k' \<or> shard_view d k' = None)"
proof -
  obtain s where s: "lru_put k v (shard_expiry now c) (shard_of c k) = Some s" "lru_inv s"
    "lru_view s k = Some (v, shard_expiry now c)"
    "\<forall>k'. k' \<noteq> k \<longrightarrow> lru_view s k' = lru_view (shard_of c k) k' \<or> lru_view s k' = None"
    using lc.put_ok [OF shard_of_inv [OF assms]] by blast
  have "shard_put now k v c = Some (set_shard k s c)"
    using s(1) by (simp add: shard_put_def get_shard_ok [OF assms])
  with s(2-4) show ?thesis
    using shard_view_same [of c _ k]
    by (simp add: set_shard_inv [OF assms] shard_view_set [OF assms]) metis
qed

lemma shard_get_ok:
  assumes "shard_inv c"
  shows "\<exists>d. shard_inv d \<and>
     (case shard_view c k of
        Some (v, x) \<Rightarrow> if valid_at now x then shard_get now k c = Some (Some v, d) \<and> shard_view d = shard_view c
                       else shard_get now k c = Some (None, d) \<and> shard_view d = (shard_view c)(k := None)
      | None \<Rightarrow> shard_get now k c = Some (None, d) \<and> shard_view d = shard_view c)"
proof -
  let ?s = "shard_of c k"
  obtain r s where s: "lru_get now k ?s = Some (r, s)" "lru_inv s"
    using lc.get_total [OF shard_of_inv [OF assms]] by blast
  have get: "shard_get now k c = Some (r, set_shard k s c)"
    using s(1) by (simp add: shard_get_def get_shard_ok [OF assms])
  have same: "shard_view (set_shard k s c) = shard_view c" if "lru_view s = lru_view ?s"
    using that shard_view_same [of c _ k] by (auto simp: fun_eq_iff shard_view_set [OF assms])
  have drop: "shard_view (set_shard k s c) = (shard_view c)(k := None)"
    if "lru_view s = (lru_view ?s)(k := None)"
    using that shard_view_same [of c _ k] by (auto simp: fun_eq_iff shard_view_set [OF assms])
  show ?thesis
    using lc.get_ok [OF shard_of_inv [OF assms, of k], where now = now and k = k] s set_shard_inv [OF assms s(2), of k]
      same drop get shard_view_same [of c k k]
    by (intro exI [of _ "set_shard k s c"]) (auto split: option.splits if_splits)
qed

lemma shard_remove_ok:
  assumes "shard_inv c"
  shows "\<exists>d. shard_remove k c = Some d \<and> shard_inv d \<and> shard_view d = (shard_view c)(k := None)"
proof -
  note s = lru_remove_view [OF shard_of_inv [OF assms], of k k]
  then show ?thesis
    using set_shard_inv [OF assms] shard_view_same [of c _ k]
    by (simp add: shard_remove_def get_shard_ok [OF assms] fun_eq_iff shard_view_set [OF assms])
qed

interpretation sc: entry_cache shard_inv shard_view "\<lambda>c now. shard_expiry now c"
  "\<lambda>k v now. shard_put now k v" shard_get shard_remove
  by unfold_locales (rule shard_put_ok shard_get_ok shard_remove_ok; assumption)+

section \<open>Runs of calls\<close>

datatype 'v shard_op = HPut int string 'v | HGet int string | HRemove string
  | HSetHashFunc "(string \<Rightarrow> int) option"

fun shard_step :: "'v shard_lru \<Rightarrow> 'v shard_op \<Rightarrow> ('v cache_obs \<times> 'v shard_lru) option" where
  "shard_step c (HPut now k v) = map_option (\<lambda>d. (CDone, d)) (shard_put now k v c)"
| "shard_step c (HGet now k) = map_option (\<lambda>(r, d). (CFound r, d)) (shard_get now k c)"
| "shard_step c (HRemove k) = map_option (\<lambda>d. (CDone, d)) (shard_remove k c)"
| "shard_step c (HSetHashFunc fn) = Some (CDone, set_hash_func fn c)"

text \<open>
  The specification: independent recency lists, each call answered by the list that the current
  hash function picks for its key.
\<close>

type_synonym 'v shards_spec =
  "(string \<Rightarrow> int) \<times> int \<times> int \<times> (int \<times> (string, 'v) cache_entry list) list"

definition spec_index :: "(string \<Rightarrow> int) \<Rightarrow> int \<Rightarrow> string \<Rightarrow> nat" where
  "spec_index h n k = nat \<bar>go_rem (h k) n\<bar>"

definition at_shard :: "'v shards_spec \<Rightarrow> string \<Rightarrow> (string, 'v) cache_op \<Rightarrow>
    'v cache_obs \<times> 'v shards_spec" where
  "at_shard a k c = (case a of (h, n, x, rs) \<Rightarrow>
     (let i = spec_index h n k; (r, s) = recency_step (rs ! i) c in (r, h, n, x, rs[i := s])))"

fun shards_step :: "'v shards_spec \<Rightarrow> 'v shard_op \<Rightarrow> 'v cache_obs \<times> 'v shards_spec" where
  "shards_step a (HPut now k v) =
     (case a of (h, n, x, rs) \<Rightarrow> at_shard a k (CPut k v (if x > 0 then wrap64 (now + x) else 0)))"
| "shards_step a (HGet now k) = at_shard a k (CGet now k)"
| "shards_step a (HRemove k) = at_shard a k (CRemove k)"
| "shards_step a (HSetHashFunc fn) =
     (case a of (h, n, x, rs) \<Rightarrow> (CDone, (case fn of None \<Rightarrow> h | Some g \<Rightarrow> g), n, x, rs))"

definition shard_abs :: "'v shard_lru \<Rightarrow> 'v shards_spec" where
  "shard_abs c = (sh_hashFunc c, sh_shardCount c, sh_expiration c, map lru_abs (sh_shards c))"

lemma shard_index_spec: "nat (shard_index c k) = spec_index (sh_hashFunc c) (sh_shardCount c) k"
  by (simp add: shard_index_def spec_index_def Let_def)

lemma shard_abs_set:
  "shard_abs (set_shard k s c) = (sh_hashFunc c, sh_shardCount c, sh_expiration c,
     (map lru_abs (sh_shards c))[spec_index (sh_hashFunc c) (sh_shardCount c) k := lru_abs s])"
  by (simp add: shard_abs_def set_shard_def map_update shard_index_spec)

text \<open>One call on a shard, in the terms of the specification.\<close>

lemma at_shard_ok:
  assumes inv: "shard_inv c" and step: "lru_step (shard_of c k) op = Some (r, s)"
  shows "lru_inv s \<and> r = fst (at_shard (shard_abs c) k op) \<and>
    shard_abs (set_shard k s c) = snd (at_shard (shard_abs c) k op)"
proof -
  let ?i = "spec_index (sh_hashFunc c) (sh_shardCount c) k"
  have nth: "map lru_abs (sh_shards c) ! ?i = lru_abs (shard_of c k)"
    using shard_index_nat [OF inv, of k] by (simp add: shard_of_def shard_index_spec)
  have s: "lru_inv s" "r = fst (recency_step (lru_abs (shard_of c k)) op)"
    "lru_abs s = snd (recency_step (lru_abs (shard_of c k)) op)"
    using lru_step_refines [OF shard_of_inv [OF inv], of k op] step by auto
  have "at_shard (shard_abs c) k op =
      (r, sh_hashFunc c, sh_shardCount c, sh_expiration c, (map lru_abs (sh_shards c))[?i := lru_abs s])"
    unfolding at_shard_def shard_abs_def prod.case nth Let_def s(2,3) by (simp add: case_prod_beta)
  then show ?thesis using s(1) by (simp add: shard_abs_set)
qed

lemma shard_step_refines:
  assumes inv: "shard_inv c"
  shows "\<exists>d. shard_step c op = Some (fst (shards_step (shard_abs c) op), d) \<and> shard_inv d \<and>
    shard_abs d = snd (shards_step (shard_abs c) op)"
proof -
  have shard: "\<exists>s. lru_step (shard_of c k) o' = Some (fst (at_shard (shard_abs c) k o'), s) \<and>
      shard_inv (set_shard k s c) \<and> shard_abs (set_shard k s c) = snd (at_shard (shard_abs c) k o')"
    for k o'
  proof -
    obtain r s where s: "lru_step (shard_of c k) o' = Some (r, s)"
      using lru_step_refines [OF shard_of_inv [OF inv], of k o'] by blast
    from at_shard_ok [OF inv s] s set_shard_inv [OF inv, of s k] show ?thesis by simp
  qed
  show ?thesis
  proof (cases op)
    case (HPut now k v)
    have "shards_step (shard_abs c) op = at_shard (shard_abs c) k (CPut k v (shard_expiry now c))"
      by (simp add: HPut shard_abs_def shard_expiry_def)
    with HPut shard [of k "CPut k v (shard_expiry now c)"] show ?thesis
      by (auto simp: shard_put_def get_shard_ok [OF inv])
  next
    case (HGet now k)
    with shard [of k "CGet now k"] show ?thesis
      by (auto simp: shard_get_def get_shard_ok [OF inv])
  next
    case (HRemove k)
    with shard [of k "CRemove k"] show ?thesis
      by (auto simp: shard_remove_def get_shard_ok [OF inv])
  next
    case (HSetHashFunc fn)
    then show ?thesis
      using set_hash_func_inv [OF inv, of fn]
      by (auto simp: set_hash_func_def shard_abs_def split: option.split)
  qed
qed

lemma shards_step_expiration: "fst (snd (snd (snd (shards_step a o')))) = fst (snd (snd a))"
  by (cases a; cases o') (auto simp: at_shard_def Let_def case_prod_beta)

lemma shards_run_expiration: "fst (snd (snd (snd (run_spec shards_step a ops)))) = fst (snd (snd a))"
  by (induction ops arbitrary: a) (simp_all add: Let_def case_prod_beta shards_step_expiration)

interpretation rh: data_refinement shard_inv shard_abs shard_step shards_step
  by unfold_locales (rule shard_step_refines)

lemma new_shard_abs:
  "shard_abs (new_shard_lru n cap x) =
     (fnv_hash, if n \<le> 0 then defaultShardLruCacheBucketCount else n, x,
      replicate (nat (if n \<le> 0 then defaultShardLruCacheBucketCount else n))
        (if cap \<le> 0 then defaultLruCacheCapacity else cap, []))"
  by (simp add: shard_abs_def new_shard_lru_def Let_def new_lru_abs comp_def map_replicate_const
      defaultLruCacheCapacity_def)

section \<open>Properties\<close>

text \<open>
  C9: whatever hash functions are installed on the way (their values may be negative), every
  sequence of calls on a new sharded cache finds its shard without an index out of range and
  answers as the independent recency lists of the shards do.
\<close>

theorem shard_run_is_independent_lists:
  "\<exists>c. run_ops shard_step (new_shard_lru n cap x) ops =
       Some (fst (run_spec shards_step (shard_abs (new_shard_lru n cap x)) ops), c) \<and>
     shard_abs c = snd (run_spec shards_step (shard_abs (new_shard_lru n cap x)) ops) \<and>
     (\<forall>k. 0 \<le> shard_index c k \<and> shard_index c k < int (length (sh_shards c)))"
proof -
  obtain c where c: "run_ops shard_step (new_shard_lru n cap x) ops =
      Some (fst (run_spec shards_step (shard_abs (new_shard_lru n cap x)) ops), c)" "shard_inv c"
    "shard_abs c = snd (run_spec shards_step (shard_abs (new_shard_lru n cap x)) ops)"
    using rh.run_refines [OF new_shard_inv] by blast
  then show ?thesis
    using shard_index_range [of c] by (auto simp: shard_inv_def)
qed

text \<open>
  After any sequence of calls, a value that is stored and then read under the same key comes
  back, exactly until the expiry that the cache computed from its clock reading at the store.
\<close>

lemma shard_put_then_get:
  "\<exists>rs c. run_ops shard_step (new_shard_lru n cap x) (ops @ [HPut t k v, HGet now k]) = Some (rs, c) \<and>
     last rs = CFound (if valid_at now (if x > 0 then wrap64 (t + x) else 0) then Some v else None)"
proof -
  obtain rs c where c: "run_ops shard_step (new_shard_lru n cap x) ops = Some (rs, c)" "shard_inv c"
    "shard_abs c = snd (run_spec shards_step (shard_abs (new_shard_lru n cap x)) ops)"
    using rh.run_refines [OF new_shard_inv] by blast
  have "fst (snd (snd (shard_abs c))) = x"
    unfolding c(3) shards_run_expiration by (simp add: new_shard_abs)
  then have "shard_expiry t c = (if x > 0 then wrap64 (t + x) else 0)"
    by (simp add: shard_expiry_def shard_abs_def)
  with sc.put_get [OF c(2), where k = k and v = v and x = t and now = now] c(1) show ?thesis
    by (fastforce simp: run_ops_append)
qed

end
