(* ===== verification/Lru2q_Model.thy ===== *)
theory Lru2q_Model
  imports Lru_Model
begin

text \<open>
  \<^verbatim>\<open>LruCache2Q\<close> of \<^verbatim>\<open>common/container/lru_cache.go\<close>: an LRU cache
  with a first-in first-out list in front of it. A key enters the FIFO list and moves to the LRU
  cache when it is used a second time. One call reads the clock up to three times: the readings
  are the arguments \<open>now1\<close> (the lookup in the LRU cache), \<open>now2\<close> and \<open>now3\<close>.
\<close>

section \<open>State and operations\<close>

record ('k, 'v) lru2q =
  tq_lru :: "('k, 'v) lru"
  tq_fifo :: "('k, 'v) cache_entry golist"
  tq_expiration :: int

definition new_lru2q :: "int \<Rightarrow> int \<Rightarrow> ('k, 'v) lru2q" where
  "new_lru2q capacity expiration =
     \<lparr>tq_lru = new_lru capacity, tq_fifo = gl_new, tq_expiration = expiration\<rparr>"

text \<open>The loop over the FIFO list, from the front: the first element with the key.\<close>

fun fifo_scan :: "'k \<Rightarrow> (nat \<times> ('k, 'v) cache_entry) list \<Rightarrow> (nat \<times> ('k, 'v) cache_entry) option" where
  "fifo_scan key [] = None"
| "fifo_scan key ((cursor, entry) # rest) =
     (if e_key entry = key then Some (cursor, entry) else fifo_scan key rest)"

definition fresh_expiry :: "int \<Rightarrow> ('k, 'v) lru2q \<Rightarrow> int" where
  "fresh_expiry now c = (if tq_expiration c > 0 then wrap64 (now + tq_expiration c) else 0)"

definition twoq_put :: "int \<Rightarrow> int \<Rightarrow> 'k \<Rightarrow> 'v \<Rightarrow> ('k, 'v) lru2q \<Rightarrow> ('k, 'v) lru2q option" where
  "twoq_put now1 now2 key value c = do {
     (r, lru1) \<leftarrow> lru_get now1 key (tq_lru c);
     case r of
       Some _ \<Rightarrow> do {
         lru2 \<leftarrow> lru_put key value (wrap64 (now2 + tq_expiration c)) lru1;
         Some (c\<lparr>tq_lru := lru2\<rparr>) }
     | None \<Rightarrow>
         (case fifo_scan key (gl_elems (tq_fifo c)) of
            Some (cursor, entry) \<Rightarrow> do {
              lru2 \<leftarrow> lru_put key value (wrap64 (e_expireAt entry + tq_expiration c)) lru1;
              Some (c\<lparr>tq_lru := lru2, tq_fifo := gl_remove cursor (tq_fifo c)\<rparr>) }
          | None \<Rightarrow> do {
              fifo1 \<leftarrow> (if gl_len (tq_fifo c) \<ge> lru_capacity lru1
                       then map_option (\<lambda>b. gl_remove b (tq_fifo c)) (gl_back (tq_fifo c))
                       else Some (tq_fifo c));
              let entry = \<lparr>e_key = key, e_value = value, e_expireAt = fresh_expiry now2 c\<rparr>;
              Some (c\<lparr>tq_lru := lru1, tq_fifo := snd (gl_push_front entry fifo1)\<rparr>) }) }"

definition twoq_get :: "int \<Rightarrow> int \<Rightarrow> int \<Rightarrow> 'k \<Rightarrow> ('k, 'v) lru2q \<Rightarrow>
    ('v option \<times> ('k, 'v) lru2q) option" where
  "twoq_get now1 now2 now3 key c = do {
     (r, lru1) \<leftarrow> lru_get now1 key (tq_lru c);
     case r of
       Some v \<Rightarrow> Some (Some v, c\<lparr>tq_lru := lru1\<rparr>)
     | None \<Rightarrow>
         (case fifo_scan key (gl_elems (tq_fifo c)) of
            Some (cursor, entry) \<Rightarrow>
              (if e_expireAt entry > 0 \<and> now2 \<ge> e_expireAt entry
               then Some (None, c\<lparr>tq_lru := lru1, tq_fifo := gl_remove cursor (tq_fifo c)\<rparr>)
               else do {
                 lru2 \<leftarrow> lru_put key (e_value entry) (fresh_expiry now3 c) lru1;
                 Some (Some (e_value entry),
                   c\<lparr>tq_lru := lru2, tq_fifo := gl_remove cursor (tq_fifo c)\<rparr>) })
          | None \<Rightarrow> Some (None, c\<lparr>tq_lru := lru1\<rparr>)) }"

definition twoq_remove :: "'k \<Rightarrow> ('k, 'v) lru2q \<Rightarrow> ('k, 'v) lru2q" where
  "twoq_remove key c =
     (let c1 = c\<lparr>tq_lru := lru_remove key (tq_lru c)\<rparr> in
      case fifo_scan key (gl_elems (tq_fifo c1)) of
        Some (cursor, entry) \<Rightarrow> c1\<lparr>tq_fifo := gl_remove cursor (tq_fifo c1)\<rparr>
      | None \<Rightarrow> c1)"

section \<open>Invariant and specification\<close>

abbreviation keys_of :: "('k, 'v) cache_entry list \<Rightarrow> 'k set" where
  "keys_of es \<equiv> e_key ` set es"

definition twoq_inv :: "('k, 'v) lru2q \<Rightarrow> bool" where
  "twoq_inv c \<longleftrightarrow> lru_inv (tq_lru c) \<and> gl_inv (tq_fifo c) \<and>
     distinct (map e_key (gl_list (tq_fifo c))) \<and>
     keys_of (lru_entries (tq_lru c)) \<inter> keys_of (gl_list (tq_fifo c)) = {} \<and>
     int (length (gl_list (tq_fifo c))) \<le> lru_capacity (tq_lru c)"

text \<open>The abstract state: capacity, expiration, the LRU entries and the FIFO entries.\<close>

type_synonym ('k, 'v) twoq_spec =
  "int \<times> int \<times> ('k, 'v) cache_entry list \<times> ('k, 'v) cache_entry list"

definition twoq_abs :: "('k, 'v) lru2q \<Rightarrow> ('k, 'v) twoq_spec" where
  "twoq_abs c = (lru_capacity (tq_lru c), tq_expiration c, lru_entries (tq_lru c), gl_list (tq_fifo c))"

definition spec_fresh :: "int \<Rightarrow> int \<Rightarrow> int" where
  "spec_fresh x now = (if x > 0 then wrap64 (now + x) else 0)"

definition spec_enter :: "int \<Rightarrow> ('k, 'v) cache_entry \<Rightarrow> ('k, 'v) cache_entry list \<Rightarrow>
    ('k, 'v) cache_entry list" where
  "spec_enter cap e fs = e # (if int (length fs) \<ge> cap then butlast fs else fs)"

datatype ('k, 'v) twoq_op = TPut int int 'k 'v | TGet int int int 'k | TRemove 'k

fun spec_twoq :: "('k, 'v) twoq_spec \<Rightarrow> ('k, 'v) twoq_op \<Rightarrow> 'v cache_obs \<times> ('k, 'v) twoq_spec" where
  "spec_twoq (cap, x, es, fs) (TPut now1 now2 k v) =
     (case spec_get now1 k es of
        (Some _, es1) \<Rightarrow> (CDone, cap, x, spec_put cap k v (wrap64 (now2 + x)) es1, fs)
      | (None, es1) \<Rightarrow>
          (case find (\<lambda>e. e_key e = k) fs of
             Some e \<Rightarrow> (CDone, cap, x, spec_put cap k v (wrap64 (e_expireAt e + x)) es1, others k fs)
           | None \<Rightarrow> (CDone, cap, x, es1,
               spec_enter cap \<lparr>e_key = k, e_value = v, e_expireAt = spec_fresh x now2\<rparr> fs)))"
| "spec_twoq (cap, x, es, fs) (TGet now1 now2 now3 k) =
     (case spec_get now1 k es of
        (Some v, es1) \<Rightarrow> (CFound (Some v), cap, x, es1, fs)
      | (None, es1) \<Rightarrow>
          (case find (\<lambda>e. e_key e = k) fs of
             Some e \<Rightarrow>
               (if e_expireAt e > 0 \<and> now2 \<ge> e_expireAt e
                then (CFound None, cap, x, es1, others k fs)
                else (CFound (Some (e_value e)), cap, x,
                  spec_put cap k (e_value e) (spec_fresh x now3) es1, others k fs))
           | None \<Rightarrow> (CFound None, cap, x, es1, fs)))"
| "spec_twoq (cap, x, es, fs) (TRemove k) = (CDone, cap, x, others k es, others k fs)"

fun twoq_step :: "('k, 'v) lru2q \<Rightarrow> ('k, 'v) twoq_op \<Rightarrow> ('v cache_obs \<times> ('k, 'v) lru2q) option" where
  "twoq_step c (TPut now1 now2 k v) = map_option (\<lambda>d. (CDone, d)) (twoq_put now1 now2 k v c)"
| "twoq_step c (TGet now1 now2 now3 k) = map_option (\<lambda>(r, d). (CFound r, d)) (twoq_get now1 now2 now3 k c)"
| "twoq_step c (TRemove k) = Some (CDone, twoq_remove k c)"

section \<open>The operations refine the specification\<close>

lemma new_lru2q_inv [model_inv]: "twoq_inv (new_lru2q cap x :: ('a, 'b) lru2q)"
proof -
  have inv: "lru_inv (new_lru cap :: ('a, 'b) lru)" by (rule new_lru_inv)
  then have "0 \<le> lru_capacity (new_lru cap :: ('a, 'b) lru)" by (simp add: lru_inv_def)
  with inv show ?thesis by (simp add: twoq_inv_def new_lru2q_def gl_new_inv)
qed

lemma fifo_scan_find:
  "map_option snd (fifo_scan k xs) = find (\<lambda>e. e_key e = k) (map snd xs)"
  by (induction k xs rule: fifo_scan.induct) auto

lemma fifo_scan_mem: "fifo_scan k xs = Some (i, e) \<Longrightarrow> (i, e) \<in> set xs \<and> e_key e = k"
  by (induction k xs rule: fifo_scan.induct) (auto split: if_splits)

lemma fifo_scan_None: "fifo_scan k (gl_elems gl) = None \<longleftrightarrow> find (\<lambda>e. e_key e = k) (gl_list gl) = None"
  using fifo_scan_find [of k "gl_elems gl"] by (metis gl_list_def option.map_disc_iff)

lemma fifo_scan_Some:
  "fifo_scan k (gl_elems gl) = Some (i, e) \<Longrightarrow> find (\<lambda>e. e_key e = k) (gl_list gl) = Some e"
  using fifo_scan_find [of k "gl_elems gl"] by (simp add: gl_list_def)

lemma fifo_drop:
  assumes "gl_inv gl" and "distinct (map e_key (gl_list gl))" and "fifo_scan k (gl_elems gl) = Some (i, e)"
  shows "gl_inv (gl_remove i gl) \<and> gl_list (gl_remove i gl) = others k (gl_list gl)"
  using gl_remove_list [OF assms(1,2), of i e] fifo_scan_mem [OF assms(3)] gl_remove_inv [OF assms(1)]
  by auto

lemma gl_back_drop:
  fixes gl :: "('k, 'v) cache_entry golist"
  assumes "gl_inv gl" and "distinct (map e_key (gl_list gl))" and "gl_list gl \<noteq> []"
  shows "\<exists>b. gl_back gl = Some b \<and> gl_inv (gl_remove b gl) \<and> gl_list (gl_remove b gl) = butlast (gl_list gl)"
proof -
  obtain i e where l: "last (gl_elems gl) = (i, e)" by fastforce
  have ne: "gl_elems gl \<noteq> []" using assms(3) by (simp add: gl_list_def)
  then have mem: "(i, e) \<in> set (gl_elems gl)" using l by (metis last_in_set)
  have "last (gl_list gl) = e" using ne l by (simp add: gl_list_def last_map)
  then have "others (e_key e) (gl_list gl) = butlast (gl_list gl)"
    using others_last [OF assms(2,3)] by simp
  with gl_remove_list [OF assms(1,2) mem] gl_remove_inv [OF assms(1), of i] ne l show ?thesis
    by (simp add: gl_back_def)
qed

lemma find_key_mem: "find (\<lambda>e. e_key e = k) es = Some e \<Longrightarrow> k \<in> keys_of es"
  by (auto simp: find_Some_iff)

lemma keys_spec_get: "keys_of (snd (spec_get now k es)) \<subseteq> keys_of es"
  by (auto simp: spec_get_def find_Some_iff split: option.split)

lemma find_None_keys: "find (\<lambda>e. e_key e = k) es = None \<longleftrightarrow> k \<notin> keys_of es"
  by (auto simp: find_None_iff)

lemma spec_get_None_key: "fst (spec_get now k es) = None \<Longrightarrow> k \<notin> keys_of (snd (spec_get now k es))"
proof (cases "find (\<lambda>e. e_key e = k) es")
  case None
  then have "k \<notin> keys_of es" by (metis find_None_keys)
  with None show ?thesis by (simp add: spec_get_def)
next
  case (Some e)
  assume "fst (spec_get now k es) = None"
  with Some show ?thesis by (auto simp: spec_get_def split: if_splits)
qed

lemma spec_get_Some_key: "fst (spec_get now k es) = Some v \<Longrightarrow> k \<in> keys_of es"
  by (cases "find (\<lambda>e. e_key e = k) es") (simp_all add: spec_get_def find_key_mem)

lemma keys_spec_put: "keys_of (spec_put cap k v x es) \<subseteq> insert k (keys_of es)"
  by (auto simp: spec_put_def dest: in_set_butlastD)

lemma keys_others: "keys_of (others k es) = keys_of es - {k}"
  by auto

lemma disjoint_sub: "A \<inter> B = {} \<Longrightarrow> A' \<subseteq> A \<Longrightarrow> B' \<subseteq> B \<Longrightarrow> A' \<inter> B' = {}"
  by blast

lemma keys_others_sub: "keys_of (others k es) \<subseteq> keys_of es"
  by auto

lemma len_others: "int (length es) \<le> n \<Longrightarrow> int (length (others k es)) \<le> n"
  using length_filter_le [of "\<lambda>e. e_key e \<noteq> k" es] by linarith

lemma twoq_invI:
  assumes "lru_inv l" and "lru_capacity l = lru_capacity (tq_lru c)" and "gl_inv g"
    and "distinct (map e_key (gl_list g))"
    and "keys_of (lru_entries l) \<inter> keys_of (gl_list g) = {}"
    and "int (length (gl_list g)) \<le> lru_capacity (tq_lru c)"
  shows "twoq_inv (c\<lparr>tq_lru := l, tq_fifo := g\<rparr>)"
  using assms by (simp add: twoq_inv_def)

lemma twoq_invD:
  assumes "twoq_inv c"
  shows "lru_inv (tq_lru c)" "gl_inv (tq_fifo c)" "distinct (map e_key (gl_list (tq_fifo c)))"
    "keys_of (lru_entries (tq_lru c)) \<inter> keys_of (gl_list (tq_fifo c)) = {}"
    "int (length (gl_list (tq_fifo c))) \<le> lru_capacity (tq_lru c)" "0 < lru_capacity (tq_lru c)"
  using assms by (simp_all add: twoq_inv_def lru_inv_def)

text \<open>An element moves from the FIFO list into the LRU cache, or only leaves the FIFO list.\<close>

lemma twoq_promote:
  assumes inv: "twoq_inv c" and scan: "fifo_scan k (gl_elems (tq_fifo c)) = Some (i, e)"
    and lru1: "lru_inv lru1" "lru_capacity lru1 = lru_capacity (tq_lru c)"
      "keys_of (lru_entries lru1) \<subseteq> keys_of (lru_entries (tq_lru c))"
  shows "\<exists>lru2. lru_put k v x lru1 = Some lru2 \<and>
      twoq_inv (c\<lparr>tq_lru := lru2, tq_fifo := gl_remove i (tq_fifo c)\<rparr>) \<and>
      lru_capacity lru2 = lru_capacity (tq_lru c) \<and>
      lru_entries lru2 = spec_put (lru_capacity (tq_lru c)) k v x (lru_entries lru1)"
proof -
  note c = twoq_invD [OF inv]
  note drop = fifo_drop [OF c(2,3) scan]
  obtain lru2 where l2: "lru_put k v x lru1 = Some lru2" "lru_inv lru2"
    "lru_entries lru2 = spec_put (lru_capacity lru1) k v x (lru_entries lru1)"
    "lru_capacity lru2 = lru_capacity lru1"
    using lru_put_ok [OF lru1(1), of k v x] by blast
  have "keys_of (lru_entries lru2) \<subseteq> insert k (keys_of (lru_entries (tq_lru c)))"
    unfolding l2(3) by (rule order_trans [OF keys_spec_put insert_mono [OF lru1(3)]])
  then have "keys_of (lru_entries lru2) \<inter> keys_of (others k (gl_list (tq_fifo c))) = {}"
    unfolding keys_others using c(4) by blast
  then have "twoq_inv (c\<lparr>tq_lru := lru2, tq_fifo := gl_remove i (tq_fifo c)\<rparr>)"
    using drop l2(2,4) lru1(2) c(3) len_others [OF c(5)]
    by (intro twoq_invI) (simp_all add: distinct_map_filter)
  with l2 lru1(2) show ?thesis by simp
qed

lemma twoq_drop_fifo:
  assumes inv: "twoq_inv c" and scan: "fifo_scan k (gl_elems (tq_fifo c)) = Some (i, e)"
    and lru1: "lru_inv lru1" "lru_capacity lru1 = lru_capacity (tq_lru c)"
      "keys_of (lru_entries lru1) \<subseteq> keys_of (lru_entries (tq_lru c))"
  shows "twoq_inv (c\<lparr>tq_lru := lru1, tq_fifo := gl_remove i (tq_fifo c)\<rparr>)"
proof -
  note c = twoq_invD [OF inv]
  note drop = fifo_drop [OF c(2,3) scan]
  have "keys_of (lru_entries lru1) \<inter> keys_of (others k (gl_list (tq_fifo c))) = {}"
    by (rule disjoint_sub [OF c(4) lru1(3) keys_others_sub])
  with drop lru1(1,2) c(3) len_others [OF c(5)] show ?thesis
    by (intro twoq_invI) (simp_all add: distinct_map_filter)
qed

lemma twoq_keep_fifo:
  assumes inv: "twoq_inv c" and lru1: "lru_inv lru1" "lru_capacity lru1 = lru_capacity (tq_lru c)"
      "keys_of (lru_entries lru1) \<subseteq> keys_of (lru_entries (tq_lru c))"
  shows "twoq_inv (c\<lparr>tq_lru := lru1\<rparr>)"
proof -
  have "keys_of (lru_entries lru1) \<inter> keys_of (gl_list (tq_fifo c)) = {}"
    using twoq_invD(4) [OF inv] lru1(3) by blast
  with lru1 twoq_invD [OF inv] show ?thesis by (simp add: twoq_inv_def)
qed

text \<open>A new key enters the FIFO list, which drops its oldest element when it is full.\<close>

lemma twoq_enter:
  assumes inv: "twoq_inv c" and scan: "fifo_scan (e_key n) (gl_elems (tq_fifo c)) = None"
    and lru1: "lru_inv lru1" "lru_capacity lru1 = lru_capacity (tq_lru c)"
      "keys_of (lru_entries lru1) \<subseteq> keys_of (lru_entries (tq_lru c))"
      "e_key n \<notin> keys_of (lru_entries lru1)"
  shows "\<exists>fifo1. (if gl_len (tq_fifo c) \<ge> lru_capacity lru1
        then map_option (\<lambda>b. gl_remove b (tq_fifo c)) (gl_back (tq_fifo c))
        else Some (tq_fifo c)) = Some fifo1 \<and>
      twoq_inv (c\<lparr>tq_lru := lru1, tq_fifo := snd (gl_push_front n fifo1)\<rparr>) \<and>
      gl_list (snd (gl_push_front n fifo1)) =
        spec_enter (lru_capacity (tq_lru c)) n (gl_list (tq_fifo c))"
proof -
  note c = twoq_invD [OF inv]
  define fs where "fs = gl_list (tq_fifo c)"
  define cap where "cap = lru_capacity (tq_lru c)"
  define fs1 where "fs1 = (if int (length fs) \<ge> cap then butlast fs else fs)"
  note c' = c(3,4,5,6) [folded fs_def cap_def]
  have "\<exists>fifo1. (if gl_len (tq_fifo c) \<ge> lru_capacity lru1
        then map_option (\<lambda>b. gl_remove b (tq_fifo c)) (gl_back (tq_fifo c))
        else Some (tq_fifo c)) = Some fifo1 \<and> gl_inv fifo1 \<and> gl_list fifo1 = fs1"
  proof (cases "int (length fs) \<ge> cap")
    case True
    then have "fs \<noteq> []" using c'(4) by auto
    then obtain b where "gl_back (tq_fifo c) = Some b" "gl_inv (gl_remove b (tq_fifo c))"
      "gl_list (gl_remove b (tq_fifo c)) = butlast fs"
      using gl_back_drop [OF c(2,3)] by (auto simp: fs_def)
    with True show ?thesis by (simp add: fs1_def fs_def cap_def lru1(2))
  next
    case False
    with c(2) show ?thesis by (simp add: fs1_def fs_def cap_def lru1(2))
  qed
  then obtain fifo1 where f1: "(if gl_len (tq_fifo c) \<ge> lru_capacity lru1
        then map_option (\<lambda>b. gl_remove b (tq_fifo c)) (gl_back (tq_fifo c))
        else Some (tq_fifo c)) = Some fifo1" "gl_inv fifo1" "gl_list fifo1 = fs1"
    by blast
  have sub: "keys_of fs1 \<subseteq> keys_of fs" by (auto simp: fs1_def dest: in_set_butlastD)
  have "e_key n \<notin> keys_of fs"
    using scan by (simp add: fifo_scan_None find_None_keys fs_def)
  moreover have "distinct (map e_key fs1)" using c'(1) by (simp add: fs1_def map_butlast distinct_butlast)
  ultimately have dist: "distinct (map e_key (n # fs1))" using sub by auto
  have dis: "keys_of (lru_entries lru1) \<inter> keys_of (n # fs1) = {}"
    using disjoint_sub [OF c'(2) lru1(3) sub] lru1(4) by simp
  have len: "int (length (n # fs1)) \<le> cap" using c'(3,4) by (auto simp: fs1_def)
  have "twoq_inv (c\<lparr>tq_lru := lru1, tq_fifo := snd (gl_push_front n fifo1)\<rparr>)"
    using dist dis len f1(2,3) lru1(2)
    by (intro twoq_invI gl_push_front_inv lru1(1,2)) (simp_all only: gl_push_front_list cap_def)
  with f1(1,3) show ?thesis by (simp add: spec_enter_def fs1_def fs_def cap_def)
qed


lemma twoq_put_ok:
  assumes inv: "twoq_inv c"
  shows "\<exists>d. twoq_put now1 now2 k v c = Some d \<and> twoq_inv d \<and>
    (CDone, twoq_abs d) = spec_twoq (twoq_abs c) (TPut now1 now2 k v)"
proof -
  note c = twoq_invD [OF inv]
  obtain lru1 where l1: "lru_get now1 k (tq_lru c) = Some (fst (spec_get now1 k (lru_entries (tq_lru c))), lru1)"
    "lru_inv lru1" "lru_entries lru1 = snd (spec_get now1 k (lru_entries (tq_lru c)))"
    "lru_capacity lru1 = lru_capacity (tq_lru c)"
    using lru_get_ok [OF c(1)] by blast
  have sub: "keys_of (lru_entries lru1) \<subseteq> keys_of (lru_entries (tq_lru c))"
    unfolding l1(3) by (rule keys_spec_get)
  show ?thesis
  proof (cases "fst (spec_get now1 k (lru_entries (tq_lru c)))")
    case None
    then have g: "spec_get now1 k (lru_entries (tq_lru c)) = (None, lru_entries lru1)"
      by (simp add: l1(3) prod_eq_iff)
    show ?thesis
    proof (cases "fifo_scan k (gl_elems (tq_fifo c))")
      case scan: None
      let ?n = "\<lparr>e_key = k, e_value = v, e_expireAt = fresh_expiry now2 c\<rparr>"
      have "k \<notin> keys_of (lru_entries lru1)" using spec_get_None_key [OF None] by (simp add: l1(3))
      with twoq_enter [OF inv, of ?n, OF _ l1(2,4) sub] scan obtain fifo1 where
        "(if gl_len (tq_fifo c) \<ge> lru_capacity lru1
          then map_option (\<lambda>b. gl_remove b (tq_fifo c)) (gl_back (tq_fifo c))
          else Some (tq_fifo c)) = Some fifo1"
        "twoq_inv (c\<lparr>tq_lru := lru1, tq_fifo := snd (gl_push_front ?n fifo1)\<rparr>)"
        "gl_list (snd (gl_push_front ?n fifo1)) =
           spec_enter (lru_capacity (tq_lru c)) ?n (gl_list (tq_fifo c))"
        by auto
      moreover have "find (\<lambda>e. e_key e = k) (gl_list (tq_fifo c)) = None"
        using scan by (simp add: fifo_scan_None)
      ultimately show ?thesis using l1(1,4) g scan
        by (simp add: twoq_put_def twoq_abs_def Let_def fresh_expiry_def spec_fresh_def)
    next
      case scan: (Some a)
      obtain i e where a: "a = (i, e)" by fastforce
      from twoq_promote [OF inv scan [unfolded a] l1(2,4) sub,
          of v "wrap64 (e_expireAt e + tq_expiration c)"] obtain lru2 where
        "lru_put k v (wrap64 (e_expireAt e + tq_expiration c)) lru1 = Some lru2"
        "twoq_inv (c\<lparr>tq_lru := lru2, tq_fifo := gl_remove i (tq_fifo c)\<rparr>)"
        "lru_capacity lru2 = lru_capacity (tq_lru c)"
        "lru_entries lru2 = spec_put (lru_capacity (tq_lru c)) k v
           (wrap64 (e_expireAt e + tq_expiration c)) (lru_entries lru1)"
        by blast
      with l1(1) g scan fifo_scan_Some [OF scan [unfolded a]] fifo_drop [OF c(2,3) scan [unfolded a]]
      show ?thesis by (simp add: twoq_put_def twoq_abs_def a)
    qed
  next
    case (Some w)
    then have g: "spec_get now1 k (lru_entries (tq_lru c)) = (Some w, lru_entries lru1)"
      by (simp add: l1(3) prod_eq_iff)
    obtain lru2 where l2: "lru_put k v (wrap64 (now2 + tq_expiration c)) lru1 = Some lru2" "lru_inv lru2"
      "lru_entries lru2 = spec_put (lru_capacity lru1) k v (wrap64 (now2 + tq_expiration c)) (lru_entries lru1)"
      "lru_capacity lru2 = lru_capacity lru1"
      using lru_put_ok [OF l1(2), of k v "wrap64 (now2 + tq_expiration c)"] by blast
    have ins: "insert k (keys_of (lru_entries lru1)) \<subseteq> keys_of (lru_entries (tq_lru c))"
      using sub spec_get_Some_key [OF Some] by (rule insert_subsetI [rotated])
    have "keys_of (lru_entries lru2) \<subseteq> keys_of (lru_entries (tq_lru c))"
      unfolding l2(3) by (rule order_trans [OF keys_spec_put ins])
    from twoq_keep_fifo [OF inv l2(2) _ this] l1(4) l2(4)
    have "twoq_inv (c\<lparr>tq_lru := lru2\<rparr>)" by simp
    with l1(1,4) l2(1,3,4) g show ?thesis
      by (simp add: twoq_put_def twoq_abs_def)
  qed
qed

lemma twoq_get_ok:
  assumes inv: "twoq_inv c"
  shows "\<exists>r d. twoq_get now1 now2 now3 k c = Some (r, d) \<and> twoq_inv d \<and>
    (CFound r, twoq_abs d) = spec_twoq (twoq_abs c) (TGet now1 now2 now3 k)"
proof -
  note c = twoq_invD [OF inv]
  obtain lru1 where l1: "lru_get now1 k (tq_lru c) = Some (fst (spec_get now1 k (lru_entries (tq_lru c))), lru1)"
    "lru_inv lru1" "lru_entries lru1 = snd (spec_get now1 k (lru_entries (tq_lru c)))"
    "lru_capacity lru1 = lru_capacity (tq_lru c)"
    using lru_get_ok [OF c(1)] by blast
  have sub: "keys_of (lru_entries lru1) \<subseteq> keys_of (lru_entries (tq_lru c))"
    unfolding l1(3) by (rule keys_spec_get)
  show ?thesis
  proof (cases "fst (spec_get now1 k (lru_entries (tq_lru c)))")
    case None
    then have g: "spec_get now1 k (lru_entries (tq_lru c)) = (None, lru_entries lru1)"
      by (simp add: l1(3) prod_eq_iff)
    show ?thesis
    proof (cases "fifo_scan k (gl_elems (tq_fifo c))")
      case scan: None
      then have "find (\<lambda>e. e_key e = k) (gl_list (tq_fifo c)) = None" by (simp add: fifo_scan_None)
      with l1(1,4) g scan twoq_keep_fifo [OF inv l1(2,4) sub] show ?thesis
        by (simp add: twoq_get_def twoq_abs_def)
    next
      case scan: (Some a)
      obtain i e where a: "a = (i, e)" by fastforce
      note f = scan [unfolded a] fifo_scan_Some [OF scan [unfolded a]] fifo_drop [OF c(2,3) scan [unfolded a]]
      show ?thesis
      proof (cases "e_expireAt e > 0 \<and> now2 \<ge> e_expireAt e")
        case True
        with l1(1,4) g f twoq_drop_fifo [OF inv f(1) l1(2,4) sub] show ?thesis
          by (simp add: twoq_get_def twoq_abs_def)
      next
        case False
        from twoq_promote [OF inv f(1) l1(2,4) sub, of "e_value e" "fresh_expiry now3 c"] obtain lru2 where
          "lru_put k (e_value e) (fresh_expiry now3 c) lru1 = Some lru2"
          "twoq_inv (c\<lparr>tq_lru := lru2, tq_fifo := gl_remove i (tq_fifo c)\<rparr>)"
          "lru_capacity lru2 = lru_capacity (tq_lru c)"
          "lru_entries lru2 = spec_put (lru_capacity (tq_lru c)) k (e_value e)
             (fresh_expiry now3 c) (lru_entries lru1)"
          by blast
        with False l1(1) g f show ?thesis
          by (cases "0 < e_expireAt e") (simp_all add: twoq_get_def twoq_abs_def fresh_expiry_def spec_fresh_def)
      qed
    qed
  next
    case (Some w)
    then have "spec_get now1 k (lru_entries (tq_lru c)) = (Some w, lru_entries lru1)"
      by (simp add: l1(3) prod_eq_iff)
    with l1(1,4) twoq_keep_fifo [OF inv l1(2,4) sub] show ?thesis
      by (simp add: twoq_get_def twoq_abs_def)
  qed
qed

lemma twoq_remove_ok:
  assumes inv: "twoq_inv c"
  shows "twoq_inv (twoq_remove k c) \<and>
    (CDone, twoq_abs (twoq_remove k c)) = spec_twoq (twoq_abs c) (TRemove k)"
proof -
  note c = twoq_invD [OF inv]
  note r = lru_remove_ok [OF c(1), of k]
  then have l1: "lru_inv (lru_remove k (tq_lru c))"
    "lru_capacity (lru_remove k (tq_lru c)) = lru_capacity (tq_lru c)"
    "keys_of (lru_entries (lru_remove k (tq_lru c))) \<subseteq> keys_of (lru_entries (tq_lru c))"
    using keys_others_sub by auto
  show ?thesis
  proof (cases "fifo_scan k (gl_elems (tq_fifo c))")
    case None
    then have "k \<notin> keys_of (gl_list (tq_fifo c))" by (simp add: fifo_scan_None find_None_keys)
    then have "others k (gl_list (tq_fifo c)) = gl_list (tq_fifo c)" by (intro filter_True) auto
    with None r twoq_keep_fifo [OF inv l1] show ?thesis
      by (simp add: twoq_remove_def twoq_abs_def Let_def)
  next
    case (Some a)
    obtain i e where a: "a = (i, e)" by fastforce
    from Some r twoq_drop_fifo [OF inv Some [unfolded a] l1] fifo_drop [OF c(2,3) Some [unfolded a]]
    show ?thesis by (simp add: twoq_remove_def twoq_abs_def Let_def a)
  qed
qed

lemma twoq_step_refines:
  assumes "twoq_inv c"
  shows "\<exists>d. twoq_step c x = Some (fst (spec_twoq (twoq_abs c) x), d) \<and> twoq_inv d \<and>
    twoq_abs d = snd (spec_twoq (twoq_abs c) x)"
proof (cases x)
  case (TPut now1 now2 k v)
  from twoq_put_ok [OF assms, of now1 now2 k v] show ?thesis
    by (auto simp: TPut) (metis fst_conv snd_conv)+
next
  case (TGet now1 now2 now3 k)
  from twoq_get_ok [OF assms, of now1 now2 now3 k] show ?thesis
    by (auto simp: TGet) (metis fst_conv snd_conv)+
next
  case (TRemove k)
  from twoq_remove_ok [OF assms, of k] show ?thesis
    by (auto simp: TRemove) (metis fst_conv snd_conv)+
qed

interpretation r2: data_refinement twoq_inv twoq_abs twoq_step spec_twoq
  by unfold_locales (rule twoq_step_refines)

section \<open>Properties\<close>

lemma new_lru2q_abs: "twoq_abs (new_lru2q cap x) = (if cap \<le> 0 then defaultLruCacheCapacity else cap, x, [], [])"
  by (simp add: twoq_abs_def new_lru2q_def) (simp add: new_lru_def Let_def)

lemma spec_twoq_cap [simp]: "fst (snd (spec_twoq a op)) = fst a"
  by (cases a; cases op) (auto split: option.split prod.split)

lemma spec_twoq_run_cap [simp]: "fst (snd (run_spec spec_twoq a ops)) = fst a"
  by (induction ops arbitrary: a) (simp_all add: Let_def case_prod_beta)

text \<open>
  C6: every sequence of \<open>Put\<close>, \<open>Get\<close> and \<open>Remove\<close> on a new 2Q cache runs without a
  panic and answers as the two ordered lists of the specification do. No key is in both
  lists, and neither list is ever longer than the capacity.
\<close>

theorem twoq_run_is_two_lists:
  "\<exists>c. run_ops twoq_step (new_lru2q cap x) ops =
       Some (fst (run_spec spec_twoq (if cap \<le> 0 then defaultLruCacheCapacity else cap, x, [], []) ops), c) \<and>
     twoq_abs c = snd (run_spec spec_twoq (if cap \<le> 0 then defaultLruCacheCapacity else cap, x, [], []) ops) \<and>
     keys_of (lru_entries (tq_lru c)) \<inter> keys_of (gl_list (tq_fifo c)) = {} \<and>
     max (int (length (lru_entries (tq_lru c)))) (int (length (gl_list (tq_fifo c))))
       \<le> (if cap \<le> 0 then defaultLruCacheCapacity else cap)"
proof -
  obtain c where c: "run_ops twoq_step (new_lru2q cap x) ops =
      Some (fst (run_spec spec_twoq (twoq_abs (new_lru2q cap x)) ops), c)" "twoq_inv c"
    "twoq_abs c = snd (run_spec spec_twoq (twoq_abs (new_lru2q cap x)) ops)"
    using r2.run_refines [OF new_lru2q_inv] by blast
  have "fst (twoq_abs c) = (if cap \<le> 0 then defaultLruCacheCapacity else cap)"
    unfolding c(3) spec_twoq_run_cap by (simp add: new_lru2q_abs)
  moreover have "int (length (lru_entries (tq_lru c))) \<le> lru_capacity (tq_lru c)"
    using twoq_invD(1) [OF c(2)] by (simp add: lru_inv_def lru_entries_def)
  ultimately show ?thesis
    using c(1,3) twoq_invD(4,5) [OF c(2)] unfolding new_lru2q_abs by (auto simp: twoq_abs_def)
qed

text \<open>One pass over new keys goes through the FIFO list only.\<close>

lemma spec_put_new_key:
  "k \<notin> keys_of es \<union> keys_of fs \<Longrightarrow>
   \<exists>fs'. spec_twoq (cap, x, es, fs) (TPut n m k v) = (CDone, cap, x, es, fs') \<and>
     keys_of fs' \<subseteq> insert k (keys_of fs)"
  by (simp add: spec_get_def iffD2 [OF find_None_keys] spec_enter_def)
    (auto dest: in_set_butlastD)

lemma spec_scan:
  assumes "distinct (map (\<lambda>(n, m, k, v). k) ps)"
    and "\<forall>(n, m, k, v) \<in> set ps. k \<notin> keys_of es \<union> keys_of fs"
  shows "\<exists>fs'. snd (run_spec spec_twoq (cap, x, es, fs) (map (\<lambda>(n, m, k, v). TPut n m k v) ps)) =
    (cap, x, es, fs')"
  using assms
proof (induction ps arbitrary: fs)
  case (Cons p ps)
  obtain n m k v where p: "p = (n, m, k, v)" by (cases p)
  have "k \<notin> keys_of es \<union> keys_of fs" using Cons.prems(2) by (simp add: p)
  then obtain fs' where
    s: "spec_twoq (cap, x, es, fs) (TPut n m k v) = (CDone, cap, x, es, fs')"
      "keys_of fs' \<subseteq> insert k (keys_of fs)"
    using spec_put_new_key [of k es fs cap x n m v] by blast
  have "(\<lambda>(n, m, k, v). k) q \<notin> keys_of es \<union> keys_of fs'" if "q \<in> set ps" for q
  proof -
    have "(\<lambda>(n, m, k, v). k) q \<noteq> k" using Cons.prems(1) that by (force simp: p)
    moreover have "(\<lambda>(n, m, k, v). k) q \<notin> keys_of es \<union> keys_of fs"
      using Cons.prems(2) that by (auto simp: split_def)
    ultimately show ?thesis using s(2) by blast
  qed
  then have "\<forall>(n, m, k, v) \<in> set ps. k \<notin> keys_of es \<union> keys_of fs'" by fast
  moreover have "distinct (map (\<lambda>(n, m, k, v). k) ps)" using Cons.prems(1) by simp
  ultimately obtain fs'' where "snd (run_spec spec_twoq (cap, x, es, fs')
      (map (\<lambda>(n, m, k, v). TPut n m k v) ps)) = (cap, x, es, fs'')"
    using Cons.IH [of fs'] by blast
  then show ?case by (simp add: p s(1) Let_def split_def del: spec_twoq.simps)
qed simp

text \<open>
  scan resistance. Storing any number of keys that are new to the cache, each once, leaves
  the LRU part as it is: its entries, their values and their order.
\<close>

theorem twoq_scan_resistant:
  assumes "run_ops twoq_step (new_lru2q cap x) before = Some (rs, c)"
    and "distinct (map (\<lambda>(n, m, k, v). k) ps)"
    and "\<forall>(n, m, k, v) \<in> set ps. k \<notin> keys_of (lru_entries (tq_lru c)) \<union> keys_of (gl_list (tq_fifo c))"
  shows "\<exists>qs d. run_ops twoq_step c (map (\<lambda>(n, m, k, v). TPut n m k v) ps) = Some (qs, d) \<and>
    lru_entries (tq_lru d) = lru_entries (tq_lru c)"
proof -
  have inv: "twoq_inv c" using r2.run_inv [OF new_lru2q_inv assms(1)] .
  obtain cap' x' es fs where a: "twoq_abs c = (cap', x', es, fs)" by (cases "twoq_abs c")
  then have c: "lru_entries (tq_lru c) = es" "gl_list (tq_fifo c) = fs" by (simp_all add: twoq_abs_def)
  obtain fs' where fs: "snd (run_spec spec_twoq (cap', x', es, fs) (map (\<lambda>(n, m, k, v). TPut n m k v) ps)) =
      (cap', x', es, fs')"
    using spec_scan [OF assms(2,3) [unfolded c], of cap' x'] by blast
  obtain qs d where d: "run_ops twoq_step c (map (\<lambda>(n, m, k, v). TPut n m k v) ps) = Some (qs, d)"
    "twoq_abs d = (cap', x', es, fs')"
    using r2.run_refines [OF inv, where xs = "map (\<lambda>(n, m, k, v). TPut n m k v) ps"] fs
    unfolding a by metis
  then have "lru_entries (tq_lru d) = es" by (simp add: twoq_abs_def)
  with d(1) c(1) show ?thesis by blast
qed

theorem twoq_scan_resistant_witness:
  "\<exists>rs c. run_ops twoq_step (new_lru2q 2 0) [TPut 1 1 (7::nat) ''a'', TGet 2 2 2 7] = Some (rs, c) \<and>
     (\<exists>qs d. run_ops twoq_step c (map (\<lambda>(n, m, k, v). TPut n m k v)
          [(3, 3, 1, ''x''), (4, 4, 2, ''y''), (5, 5, 3, ''z'')]) = Some (qs, d) \<and>
       lru_entries (tq_lru d) = lru_entries (tq_lru c))"
proof -
  obtain rs c where c: "run_ops twoq_step (new_lru2q 2 0) [TPut 1 1 (7::nat) ''a'', TGet 2 2 2 7] = Some (rs, c)"
    "twoq_abs c = snd (run_spec spec_twoq (twoq_abs (new_lru2q 2 0)) [TPut 1 1 7 ''a'', TGet 2 2 2 7])"
    using r2.run_refines [OF new_lru2q_inv] by blast
  then have "lru_entries (tq_lru c) = [\<lparr>e_key = 7, e_value = ''a'', e_expireAt = 0\<rparr>]" "gl_list (tq_fifo c) = []"
    by (simp_all add: new_lru2q_abs) (simp_all add: twoq_abs_def spec_get_def spec_enter_def spec_fresh_def spec_put_def)
  with twoq_scan_resistant [OF c(1), of "[(3, 3, 1, ''x''), (4, 4, 2, ''y''), (5, 5, 3, ''z'')]"] c(1)
  show ?thesis by auto
qed

text \<open>
  a 2Q cache without expiry (\<open>expiration\<close> not positive: entries of the FIFO list and
  entries promoted by \<open>Get\<close> never expire) loses a key that is stored a third time: \<open>Put\<close>
  on a key of the LRU part stamps it with the clock reading itself, so the next \<open>Get\<close> misses.
\<close>

theorem twoq_third_put_is_lost:
  assumes "0 < t" and "t \<le> now" and "int64 t"
  shows "\<exists>c. run_ops twoq_step (new_lru2q cap 0)
      [TPut n1 n2 k v, TGet g1 g2 g3 k, TPut t t k w, TGet now now now k] =
      Some ([CDone, CFound (Some v), CDone, CFound None], c)"
proof -
  have "fst (run_spec spec_twoq (twoq_abs (new_lru2q cap 0))
      [TPut n1 n2 k v, TGet g1 g2 g3 k, TPut t t k w, TGet now now now k]) =
      [CDone, CFound (Some v), CDone, CFound None]"
    using assms
    by (auto simp: new_lru2q_abs spec_get_def spec_enter_def spec_fresh_def spec_put_def
        entry_live_def Let_def defaultLruCacheCapacity_def)
  with r2.run_refines [OF new_lru2q_inv] show ?thesis by metis
qed

theorem twoq_third_put_is_lost_witness:
  "\<exists>c. run_ops twoq_step (new_lru2q 10 0)
      [TPut 1 2 (5::nat) ''v'', TGet 3 3 3 5, TPut 4 4 5 ''w'', TGet 4 4 4 5] =
      Some ([CDone, CFound (Some ''v''), CDone, CFound None], c)"
  by (rule twoq_third_put_is_lost) (simp_all add: int64_def)

text \<open>
  \<open>Put\<close> on a key of the FIFO list dates the new value from the first \<open>Put\<close>, not from
  now: a value stored long after the first one, at any time \<open>t\<close> from twice the expiration on,
  is already expired for the \<open>Get\<close> that follows.
\<close>

lemma twoq_second_put_keeps_old_clock:
  assumes "0 < x" and "0 < n" and "n + 2 * x < 2 ^ 63" and "n + 2 * x \<le> t"
  shows "\<exists>c. run_ops twoq_step (new_lru2q cap x) [TPut n n k v, TPut t t k w, TGet t t t k] =
      Some ([CDone, CDone, CFound None], c)"
proof -
  have "int64 (n + x)" "int64 (n + x + x)" using assms by (simp_all add: int64_def)
  then have "fst (run_spec spec_twoq (twoq_abs (new_lru2q cap x)) [TPut n n k v, TPut t t k w, TGet t t t k]) =
      [CDone, CDone, CFound None]"
    using assms
    by (auto simp: new_lru2q_abs spec_get_def spec_enter_def spec_fresh_def spec_put_def
        entry_live_def Let_def defaultLruCacheCapacity_def)
  with r2.run_refines [OF new_lru2q_inv] show ?thesis by metis
qed

theorem twoq_second_put_keeps_old_clock_witness:
  "\<exists>c. run_ops twoq_step (new_lru2q 10 5) [TPut 1 1 (5::nat) ''v'', TPut 11 11 5 ''w'', TGet 11 11 11 5] =
      Some ([CDone, CDone, CFound None], c)"
  by (rule twoq_second_put_keeps_old_clock) simp_all

end
