(* ===== verification/Timer_Heap.thy ===== *)
theory Timer_Heap
  imports Go_Prelude "HOL-Library.Multiset"
begin

text \<open>
  \<^verbatim>\<open>common/timer/timer.go\<close>: timers, the \<open>TimerQueue\<close> that implements
  \<^verbatim>\<open>heap.Interface\<close>, and the operations of Go's \<^verbatim>\<open>container/heap\<close>
  that the timer manager applies to it. Timers are shared by pointer: a pointer is a position
  in the store, a new timer is put at its end. The slice \<open>tq\<close> is made once with its
  capacity and never grows beyond it.
\<close>

section \<open>State\<close>

record 'c timer =
  t_outer :: 'c
  t_id :: int
  t_end :: int
  t_interval :: int
  t_index :: int

record 'c timer_heap =
  th_store :: "'c timer list"
  th_tq :: "nat list"
  th_cap :: int

section \<open>The methods of TimerQueue\<close>

definition tq_len :: "'c timer_heap \<Rightarrow> int" where
  "tq_len s = int (length (th_tq s))"

definition tq_less :: "'c timer_heap \<Rightarrow> int \<Rightarrow> int \<Rightarrow> bool option" where
  "tq_less s i j = do {
     p \<leftarrow> slice_get (th_tq s) i;
     q \<leftarrow> slice_get (th_tq s) j;
     Some (t_end (th_store s ! p) < t_end (th_store s ! q)) }"

definition set_index :: "nat \<Rightarrow> int \<Rightarrow> 'c timer_heap \<Rightarrow> 'c timer_heap" where
  "set_index p i s = s\<lparr>th_store := (th_store s)[p := (th_store s ! p)\<lparr>t_index := i\<rparr>]\<rparr>"

definition tq_swap :: "'c timer_heap \<Rightarrow> int \<Rightarrow> int \<Rightarrow> 'c timer_heap option" where
  "tq_swap s i j = do {
     p \<leftarrow> slice_get (th_tq s) i;
     q \<leftarrow> slice_get (th_tq s) j;
     tq1 \<leftarrow> slice_set (th_tq s) i q;
     tq2 \<leftarrow> slice_set tq1 j p;
     pi \<leftarrow> slice_get tq2 i;
     pj \<leftarrow> slice_get tq2 j;
     Some (set_index pj j (set_index pi i (s\<lparr>th_tq := tq2\<rparr>))) }"

text \<open>\<open>Push\<close> extends the slice within its capacity: beyond it the slice expression panics.\<close>

definition tq_push :: "nat \<Rightarrow> 'c timer_heap \<Rightarrow> 'c timer_heap option" where
  "tq_push p s =
     (if tq_len s + 1 \<le> th_cap s
      then Some ((set_index p (tq_len s) s)\<lparr>th_tq := th_tq s @ [p]\<rparr>)
      else None)"

definition tq_pop :: "'c timer_heap \<Rightarrow> nat option \<times> 'c timer_heap" where
  "tq_pop s =
     (if tq_len s = 0 then (None, s)
      else let p = last (th_tq s)
           in (Some p, (set_index p (-1) s)\<lparr>th_tq := butlast (th_tq s)\<rparr>))"

section \<open>container/heap\<close>

text \<open>
  \<open>up\<close> and \<open>down\<close> of Go's standard library. \<open>down\<close> returns the place where it stopped;
  its callers compare it with the place where it began.
\<close>

function heap_up :: "'c timer_heap \<Rightarrow> nat \<Rightarrow> 'c timer_heap option" where
  "heap_up s j =
     (let i = (j - 1) div 2 in
      if i = j then Some s
      else do {
        less \<leftarrow> tq_less s (int j) (int i);
        if \<not> less then Some s
        else do { s1 \<leftarrow> tq_swap s (int i) (int j); heap_up s1 i } })"
  by pat_completeness auto
termination by (relation "measure snd") auto

function heap_down :: "'c timer_heap \<Rightarrow> nat \<Rightarrow> nat \<Rightarrow> ('c timer_heap \<times> nat) option" where
  "heap_down s i n =
     (let j1 = 2 * i + 1 in
      if j1 \<ge> n then Some (s, i)
      else do {
        right \<leftarrow> (if j1 + 1 < n then tq_less s (int (j1 + 1)) (int j1) else Some False);
        let j = (if right then j1 + 1 else j1);
        less \<leftarrow> tq_less s (int j) (int i);
        if \<not> less then Some (s, i)
        else do { s1 \<leftarrow> tq_swap s (int i) (int j); heap_down s1 j n } })"
  by pat_completeness auto
termination by (relation "measure (\<lambda>(s, i, n). n - i)") (auto split: if_splits)

declare heap_up.simps [simp del] heap_down.simps [simp del]

definition heap_push :: "nat \<Rightarrow> 'c timer_heap \<Rightarrow> 'c timer_heap option" where
  "heap_push p s = do { s1 \<leftarrow> tq_push p s; heap_up s1 (nat (tq_len s1 - 1)) }"

definition heap_pop :: "'c timer_heap \<Rightarrow> (nat option \<times> 'c timer_heap) option" where
  "heap_pop s = do {
     let n = tq_len s - 1;
     s1 \<leftarrow> tq_swap s 0 n;
     (s2, _) \<leftarrow> heap_down s1 0 (nat n);
     Some (tq_pop s2) }"

definition heap_remove :: "int \<Rightarrow> 'c timer_heap \<Rightarrow> (nat option \<times> 'c timer_heap) option" where
  "heap_remove i s = do {
     let n = tq_len s - 1;
     s3 \<leftarrow> (if n \<noteq> i then do {
               s1 \<leftarrow> tq_swap s i n;
               (s2, k) \<leftarrow> heap_down s1 (nat i) (nat n);
               if k > nat i then Some s2 else heap_up s2 (nat i) }
            else Some s);
     Some (tq_pop s3) }"

section \<open>Invariants\<close>

text \<open>Every timer of the queue knows its place in it.\<close>

definition th_inv :: "'c timer_heap \<Rightarrow> bool" where
  "th_inv s \<longleftrightarrow> distinct (th_tq s) \<and> (\<forall>p \<in> set (th_tq s). p < length (th_store s)) \<and>
     (\<forall>i < length (th_tq s). t_index (th_store s ! (th_tq s ! i)) = int i) \<and>
     int (length (th_tq s)) \<le> th_cap s"

text \<open>The keys by position, and the heap order on the first \<open>n\<close> of them.\<close>

definition tkey :: "'c timer_heap \<Rightarrow> nat \<Rightarrow> int" where
  "tkey s i = (if i < length (th_tq s) then t_end (th_store s ! (th_tq s ! i)) else 0)"

definition par :: "nat \<Rightarrow> nat" where
  "par i = (i - 1) div 2"

definition heap_order :: "(nat \<Rightarrow> int) \<Rightarrow> nat \<Rightarrow> bool" where
  "heap_order K n \<longleftrightarrow> (\<forall>c. 0 < c \<and> c < n \<longrightarrow> K (par c) \<le> K c)"

definition timer_heap_ok :: "'c timer_heap \<Rightarrow> bool" where
  "timer_heap_ok s \<longleftrightarrow> th_inv s \<and> heap_order (tkey s) (length (th_tq s))"

text \<open>Two states with the same timers up to their order in the queue and their index.\<close>

definition t_core :: "'c timer \<Rightarrow> 'c \<times> int \<times> int \<times> int" where
  "t_core t = (t_outer t, t_id t, t_end t, t_interval t)"

definition same_timers :: "'c timer_heap \<Rightarrow> 'c timer_heap \<Rightarrow> bool" where
  "same_timers s s' \<longleftrightarrow> mset (th_tq s') = mset (th_tq s) \<and> th_cap s' = th_cap s \<and>
     length (th_store s') = length (th_store s) \<and>
     (\<forall>p. t_core (th_store s' ! p) = t_core (th_store s ! p)) \<and>
     (\<forall>p. p \<notin> set (th_tq s) \<longrightarrow> th_store s' ! p = th_store s ! p)"

text \<open>The heap order with one exception, going up from \<open>j\<close> and going down from \<open>i\<close>.\<close>

definition up_order :: "(nat \<Rightarrow> int) \<Rightarrow> nat \<Rightarrow> nat \<Rightarrow> bool" where
  "up_order K n j \<longleftrightarrow> (\<forall>c. 0 < c \<and> c < n \<and> c \<noteq> j \<longrightarrow> K (par c) \<le> K c) \<and>
     (\<forall>c. 0 < c \<and> c < n \<and> par c = j \<and> 0 < j \<longrightarrow> K (par j) \<le> K c)"

definition down_order :: "(nat \<Rightarrow> int) \<Rightarrow> nat \<Rightarrow> nat \<Rightarrow> bool" where
  "down_order K n i \<longleftrightarrow> (\<forall>c. 0 < c \<and> c < n \<and> par c \<noteq> i \<longrightarrow> K (par c) \<le> K c) \<and>
     (\<forall>c. 0 < c \<and> c < n \<and> par c = i \<and> 0 < i \<longrightarrow> K (par i) \<le> K c)"

lemma par_iff: "0 < c \<Longrightarrow> par c = i \<longleftrightarrow> c = 2 * i + 1 \<or> c = 2 * i + 2"
  by (cases c) (auto simp: par_def)

lemma par_less: "0 < c \<Longrightarrow> par c < c"
  by (cases c) (auto simp: par_def)

lemma par_0 [simp]: "par 0 = 0"
  by (simp add: par_def)

lemma up_order_stop:
  "up_order K n j \<Longrightarrow> par j = j \<or> K (par j) \<le> K j \<Longrightarrow> heap_order K n"
  unfolding up_order_def heap_order_def by (metis less_irrefl par_less)

lemma up_order_step:
  assumes "up_order K n j" and "par j \<noteq> j" and "j < n" and "K j < K (par j)"
  shows "up_order (K(par j := K j, j := K (par j))) n (par j)"
proof -
  have j: "0 < j" using assms(2) by (cases j) auto
  have pj: "par j < j" using par_less [OF j] .
  let ?K = "K(par j := K j, j := K (par j))"
  have ord: "K (par c) \<le> K c" if "0 < c" "c < n" "c \<noteq> j" for c
    using assms(1) that by (simp add: up_order_def)
  have kid: "K (par j) \<le> K c" if "0 < c" "c < n" "par c = j" for c
    using assms(1) that j by (simp add: up_order_def)
  have "?K (par c) \<le> ?K c" if c: "0 < c" "c < n" "c \<noteq> par j" for c
  proof -
    consider "c = j" | "c \<noteq> j" "par c = j" | "c \<noteq> j" "par c = par j" | "c \<noteq> j" "par c \<noteq> j" "par c \<noteq> par j"
      by blast
    then show ?thesis
      using c j pj ord [OF c(1,2)] kid [OF c(1,2)] assms(4) by cases auto
  qed
  moreover have "?K (par (par j)) \<le> ?K c" if c: "0 < c" "c < n" "par c = par j" "0 < par j" for c
  proof -
    have "K (par (par j)) \<le> K (par j)" using ord [of "par j"] c pj assms(3) by simp
    moreover have "c \<noteq> j \<Longrightarrow> K (par j) \<le> K c" using ord [of c] c by simp
    moreover have "par (par j) \<noteq> par j" "par (par j) \<noteq> j" "c \<noteq> par j"
      using par_less [of "par j"] par_less [of c] c pj by auto
    ultimately show ?thesis using c(3) by auto
  qed
  ultimately show ?thesis by (simp add: up_order_def)
qed

lemma down_order_stop:
  "down_order K n i \<Longrightarrow> (\<And>c. 0 < c \<Longrightarrow> c < n \<Longrightarrow> par c = i \<Longrightarrow> K i \<le> K c) \<Longrightarrow> heap_order K n"
  unfolding down_order_def heap_order_def by metis

lemma down_order_step:
  assumes "down_order K n i" and j: "0 < j" "j < n" "par j = i" and "K j < K i"
    and least: "\<And>c. 0 < c \<Longrightarrow> c < n \<Longrightarrow> par c = i \<Longrightarrow> K j \<le> K c"
  shows "down_order (K(i := K j, j := K i)) n j"
proof -
  let ?K = "K(i := K j, j := K i)"
  have ij: "i < j" using par_less [OF j(1)] j(3) by simp
  have ord: "K (par c) \<le> K c" if "0 < c" "c < n" "par c \<noteq> i" for c
    using assms(1) that by (simp add: down_order_def)
  have kid: "K (par i) \<le> K c" if "0 < c" "c < n" "par c = i" "0 < i" for c
    using assms(1) that by (simp add: down_order_def)
  have "?K (par c) \<le> ?K c" if c: "0 < c" "c < n" "par c \<noteq> j" for c
  proof -
    have "par c < c" using par_less c by blast
    consider "c = j" | "c \<noteq> j" "par c = i" | "c = i" "par c \<noteq> i" | "c \<noteq> j" "c \<noteq> i" "par c \<noteq> i" by blast
    then show ?thesis
      using c j ij ord [OF c(1,2)] least [OF c(1,2)] kid [OF j] assms(5) \<open>par c < c\<close> by cases auto
  qed
  moreover have "?K (par j) \<le> ?K c" if c: "0 < c" "c < n" "par c = j" for c
    using ord [OF c(1,2)] c ij j par_less [OF c(1)] by auto
  ultimately show ?thesis by (simp add: down_order_def)
qed

lemma heap_order_min: "heap_order K n \<Longrightarrow> i < n \<Longrightarrow> K 0 \<le> K i"
proof (induction i rule: less_induct)
  case (less i)
  show ?case
  proof (cases "i = 0")
    case False
    then have "par i < i" using par_less [of i] by simp
    with less False have "K 0 \<le> K (par i)" "K (par i) \<le> K i" by (auto simp: heap_order_def)
    then show ?thesis by simp
  qed simp
qed

section \<open>Swapping\<close>

lemma set_index_simps [simp]:
  "th_tq (set_index p i s) = th_tq s"
  "th_cap (set_index p i s) = th_cap s"
  "length (th_store (set_index p i s)) = length (th_store s)"
  by (simp_all add: set_index_def)

lemma set_index_core [simp]: "t_core (th_store (set_index p i s) ! q) = t_core (th_store s ! q)"
  by (cases "p < length (th_store s)")
    (auto simp: set_index_def t_core_def nth_list_update list_update_beyond)

lemma t_end_core: "t_end t = fst (snd (snd (t_core t)))"
  by (simp add: t_core_def)

lemma set_index_end [simp]: "t_end (th_store (set_index p i s) ! q) = t_end (th_store s ! q)"
  by (simp add: t_end_core)

lemma set_index_other: "q \<noteq> p \<Longrightarrow> th_store (set_index p i s) ! q = th_store s ! q"
  by (simp add: set_index_def)

lemma set_index_index:
  "p < length (th_store s) \<Longrightarrow> t_index (th_store (set_index p i s) ! q) =
     (if q = p then i else t_index (th_store s ! q))"
  by (simp add: set_index_def nth_list_update)

lemma same_refl [simp]: "same_timers s s"
  by (simp add: same_timers_def)

lemma same_set: "same_timers s s' \<Longrightarrow> set (th_tq s') = set (th_tq s)"
  unfolding same_timers_def by (metis set_mset_mset)

lemma same_length: "same_timers s s' \<Longrightarrow> length (th_tq s') = length (th_tq s)"
  unfolding same_timers_def by (metis size_mset)

lemma same_trans: "same_timers s s' \<Longrightarrow> same_timers s' s'' \<Longrightarrow> same_timers s s''"
  using same_set [of s s'] by (simp add: same_timers_def)

lemma same_end: "same_timers s s' \<Longrightarrow> t_end (th_store s' ! p) = t_end (th_store s ! p)"
  by (simp add: same_timers_def t_end_core)

lemma tq_less_ok:
  "i < length (th_tq s) \<Longrightarrow> j < length (th_tq s) \<Longrightarrow>
   tq_less s (int i) (int j) = Some (tkey s i < tkey s j)"
  by (simp add: tq_less_def tkey_def)

lemma mset_swap2:
  "i < length xs \<Longrightarrow> j < length xs \<Longrightarrow> mset (xs[i := xs ! j, j := xs ! i]) = mset xs"
  using mset_swap [of i xs j] by (metis list_update_swap)

lemma tq_swap_ok:
  assumes inv: "th_inv s" and ij: "i < length (th_tq s)" "j < length (th_tq s)"
  shows "\<exists>s'. tq_swap s (int i) (int j) = Some s' \<and> th_inv s' \<and> same_timers s s' \<and>
     tkey s' = (tkey s)(i := tkey s j, j := tkey s i) \<and>
     th_tq s' = (th_tq s)[i := th_tq s ! j, j := th_tq s ! i]"
proof -
  let ?tq = "(th_tq s)[i := th_tq s ! j, j := th_tq s ! i]"
  define s' where "s' = set_index (?tq ! j) (int j) (set_index (?tq ! i) (int i) (s\<lparr>th_tq := ?tq\<rparr>))"
  have step: "tq_swap s (int i) (int j) = Some s'"
    using ij by (simp add: tq_swap_def s'_def)
  have tq: "th_tq s' = ?tq" by (simp add: s'_def)
  have ms: "mset ?tq = mset (th_tq s)" by (rule mset_swap2 [OF ij])
  then have st: "set ?tq = set (th_tq s)" by (metis set_mset_mset)
  have dist: "distinct ?tq" using inv ms by (metis mset_eq_imp_distinct_iff th_inv_def)
  have val: "\<forall>p \<in> set ?tq. p < length (th_store s)" using inv st by (simp add: th_inv_def)
  have mem: "?tq ! i \<in> set ?tq" "?tq ! j \<in> set ?tq" by (metis ij length_list_update nth_mem)+
  have bnd: "?tq ! i < length (th_store s)" "?tq ! j < length (th_store s)" using mem val by blast+
  have core: "t_core (th_store s' ! p) = t_core (th_store s ! p)" for p
    by (simp add: s'_def)
  have idx: "t_index (th_store s' ! (?tq ! k)) = int k" if k: "k < length (th_tq s)" for k
  proof -
    have same: "?tq ! k = ?tq ! m \<longleftrightarrow> k = m" if "m < length (th_tq s)" for m
      using dist k that by (metis length_list_update nth_eq_iff_index_eq)
    have "k \<noteq> i \<Longrightarrow> k \<noteq> j \<Longrightarrow> t_index (th_store s ! (?tq ! k)) = int k"
      using inv k by (simp add: th_inv_def)
    then show ?thesis
      using same [OF ij(1)] same [OF ij(2)] bnd
      by (simp add: s'_def set_index_index del: nth_list_update nth_list_update_eq nth_list_update_neq)
  qed
  have oth: "th_store s' ! p = th_store s ! p" if "p \<notin> set (th_tq s)" for p
  proof -
    have "p \<noteq> ?tq ! i" "p \<noteq> ?tq ! j" using mem st that by metis+
    then show ?thesis
      by (simp add: s'_def set_index_other del: nth_list_update nth_list_update_eq nth_list_update_neq)
  qed
  have "th_inv s'"
    using inv dist val idx unfolding th_inv_def tq by (simp add: s'_def)
  moreover have "same_timers s s'"
    using ms core oth unfolding same_timers_def tq by (simp add: s'_def)
  moreover have "tkey s' k = ((tkey s)(i := tkey s j, j := tkey s i)) k" for k
    using ij core unfolding tkey_def tq t_end_core by (auto simp: nth_list_update)
  ultimately show ?thesis using step tq by blast
qed

section \<open>The loops restore the heap order\<close>

lemma heap_up_ok:
  "th_inv s \<Longrightarrow> n \<le> length (th_tq s) \<Longrightarrow> j < n \<Longrightarrow> up_order (tkey s) n j \<Longrightarrow>
   \<exists>s'. heap_up s j = Some s' \<and> th_inv s' \<and> same_timers s s' \<and> heap_order (tkey s') n \<and>
     (\<forall>m \<ge> n. th_tq s' ! m = th_tq s ! m)"
proof (induction j arbitrary: s rule: less_induct)
  case (less j)
  have i: "(j - Suc 0) div 2 = par j" "(j - 1) div 2 = par j" by (simp_all add: par_def)
  have jn: "j < length (th_tq s)" using less.prems by simp
  show ?case
  proof (cases "par j = j \<or> tkey s (par j) \<le> tkey s j")
    case True
    note order = up_order_stop [OF less.prems(4) True]
    have "heap_up s j = Some s"
    proof (cases "par j = j")
      case False
      then have "par j < length (th_tq s)" using par_less [of j] jn by (cases j) auto
      with False True jn show ?thesis
        by (simp add: heap_up.simps [of s j] i tq_less_ok Let_def)
    qed (simp add: heap_up.simps [of s j] i Let_def)
    with order less.prems(1) show ?thesis by auto
  next
    case False
    then have p: "par j < j" "par j < n" "par j < length (th_tq s)"
      using par_less [of j] less.prems(3) jn by (cases j; auto)+
    obtain s1 where s1: "tq_swap s (int (par j)) (int j) = Some s1" "th_inv s1" "same_timers s s1"
      "tkey s1 = (tkey s)(par j := tkey s j, j := tkey s (par j))"
      "th_tq s1 = (th_tq s)[par j := th_tq s ! j, j := th_tq s ! par j]"
      using tq_swap_ok [OF less.prems(1) p(3) jn] by blast
    have "up_order (tkey s1) n (par j)"
      using up_order_step [OF less.prems(4) _ less.prems(3)] False by (simp add: s1(4))
    moreover have "n \<le> length (th_tq s1)" using less.prems(2) same_length [OF s1(3)] by simp
    ultimately obtain s2 where
      s2: "heap_up s1 (par j) = Some s2" "th_inv s2" "same_timers s1 s2" "heap_order (tkey s2) n"
        "\<forall>m \<ge> n. th_tq s2 ! m = th_tq s1 ! m"
      using less.IH [OF p(1) s1(2) _ p(2)] by blast
    have "heap_up s j = Some s2"
      using False p jn s1(1) s2(1)
      by (simp add: heap_up.simps [of s j] i tq_less_ok Let_def)
    moreover have "th_tq s2 ! m = th_tq s ! m" if "n \<le> m" for m
      using s2(5) that p less.prems(3) by (simp add: s1(5))
    ultimately show ?thesis using s2(2,4) same_trans [OF s1(3) s2(3)] by blast
  qed
qed

text \<open>\<open>down\<close> only looks at the first \<open>n\<close> places and leaves the others alone.\<close>

definition least_child :: "(nat \<Rightarrow> int) \<Rightarrow> nat \<Rightarrow> nat \<Rightarrow> nat" where
  "least_child K i n = (if 2 * i + 2 < n \<and> K (2 * i + 2) < K (2 * i + 1) then 2 * i + 2 else 2 * i + 1)"

lemma least_child_ok:
  assumes "2 * i + 1 < n"
  shows "0 < least_child K i n" "least_child K i n < n" "par (least_child K i n) = i"
    "0 < c \<Longrightarrow> c < n \<Longrightarrow> par c = i \<Longrightarrow> K (least_child K i n) \<le> K c"
  using assms by (auto simp: least_child_def par_iff)

lemma heap_down_unfold:
  assumes "n \<le> length (th_tq s)" and "2 * i + 1 < n"
  shows "heap_down s i n =
    (let j = least_child (tkey s) i n in
     if \<not> tkey s j < tkey s i then Some (s, i)
     else do { s1 \<leftarrow> tq_swap s (int i) (int j); heap_down s1 j n })"
proof -
  have right: "(if 2 * i + 1 + 1 < n then tq_less s (int (2 * i + 1 + 1)) (int (2 * i + 1)) else Some False) =
      Some (2 * i + 2 < n \<and> tkey s (2 * i + 2) < tkey s (2 * i + 1))"
    using assms tq_less_ok [of "2 * i + 2" s "2 * i + 1"] by (auto simp del: of_nat_Suc of_nat_add of_nat_mult)
  have j: "(if 2 * i + 2 < n \<and> tkey s (2 * i + 2) < tkey s (2 * i + 1) then 2 * i + 1 + 1 else 2 * i + 1) =
      least_child (tkey s) i n"
    by (simp add: least_child_def)
  have "least_child (tkey s) i n < length (th_tq s)" "i < length (th_tq s)"
    using least_child_ok(2) [OF assms(2), where K = "tkey s"] assms by simp_all
  then have less: "tq_less s (int (least_child (tkey s) i n)) (int i) =
      Some (tkey s (least_child (tkey s) i n) < tkey s i)" by (rule tq_less_ok)
  show ?thesis
    unfolding heap_down.simps [of s i n] right Let_def Option.bind.bind_lunit j less
    using assms(2) by simp
qed

lemma heap_down_ok:
  "th_inv s \<Longrightarrow> n \<le> length (th_tq s) \<Longrightarrow> i \<le> n \<Longrightarrow> down_order (tkey s) n i \<Longrightarrow>
   \<exists>s' k. heap_down s i n = Some (s', k) \<and> th_inv s' \<and> same_timers s s' \<and> heap_order (tkey s') n \<and>
     (\<forall>m \<ge> n. th_tq s' ! m = th_tq s ! m) \<and> (k = i \<longrightarrow> s' = s) \<and> i \<le> k"
proof (induction "n - i" arbitrary: s i rule: less_induct)
  case less
  show ?case
  proof (cases "2 * i + 1 < n")
    case False
    have "\<not> c < n" if "0 < c" "par c = i" for c
      using par_iff [of c i] that False by linarith
    then have "heap_order (tkey s) n"
      using down_order_stop [OF less.prems(4)] by blast
    moreover have "heap_down s i n = Some (s, i)" using False by (simp add: heap_down.simps [of s i n] Let_def)
    ultimately show ?thesis using less.prems(1) by (intro exI [of _ s] exI [of _ i]) simp
  next
    case True
    define j where "j = least_child (tkey s) i n"
    note j = least_child_ok [OF True, where K = "tkey s", folded j_def]
    have ij: "i < j" using par_less [OF j(1)] j(3) by simp
    note unf = heap_down_unfold [OF less.prems(2) True, folded j_def, unfolded Let_def]
    show ?thesis
    proof (cases "tkey s j < tkey s i")
      case False
      then have "tkey s i \<le> tkey s j" by simp
      then have "tkey s i \<le> tkey s c" if "0 < c" "c < n" "par c = i" for c
        using j(4) [OF that] by simp
      then have "heap_order (tkey s) n"
        using down_order_stop [OF less.prems(4)] by blast
      moreover have "heap_down s i n = Some (s, i)" using unf False by simp
      ultimately show ?thesis using less.prems(1) by (intro exI [of _ s] exI [of _ i]) simp
    next
      case smaller: True
      have bnd: "i < length (th_tq s)" "j < length (th_tq s)" using j(2) ij less.prems(2) by auto
      obtain s1 where s1: "tq_swap s (int i) (int j) = Some s1" "th_inv s1" "same_timers s s1"
        "tkey s1 = (tkey s)(i := tkey s j, j := tkey s i)"
        "th_tq s1 = (th_tq s)[i := th_tq s ! j, j := th_tq s ! i]"
        using tq_swap_ok [OF less.prems(1) bnd] by blast
      have d1: "down_order (tkey s1) n j"
        unfolding s1(4) by (rule down_order_step [OF less.prems(4) j(1-3) smaller j(4)])
      have "n - j < n - i" "n \<le> length (th_tq s1)" "j \<le> n"
        using ij j(2) less.prems(2) same_length [OF s1(3)] by auto
      from less.hyps [OF this(1) s1(2) this(2,3) d1] obtain s2 k where
        s2: "heap_down s1 j n = Some (s2, k)" "th_inv s2" "same_timers s1 s2"
        "heap_order (tkey s2) n" "\<forall>m \<ge> n. th_tq s2 ! m = th_tq s1 ! m" "j \<le> k"
        by blast
      have "th_tq s2 ! m = th_tq s ! m" if "n \<le> m" for m
        using s2(5) that ij j(2) by (simp add: s1(5))
      moreover have "heap_down s i n = Some (s2, k)" using unf smaller s1(1) s2(1) by simp
      moreover have "k \<noteq> i" "i \<le> k" using s2(6) ij by auto
      ultimately show ?thesis using s2(2,4) same_trans [OF s1(3) s2(3)] by blast
    qed
  qed
qed

section \<open>Push, Pop and Remove\<close>

text \<open>No operation changes anything of a timer but its index.\<close>

definition kept :: "'c timer_heap \<Rightarrow> 'c timer_heap \<Rightarrow> bool" where
  "kept s s' \<longleftrightarrow> th_cap s' = th_cap s \<and> length (th_store s') = length (th_store s) \<and>
     (\<forall>p. t_core (th_store s' ! p) = t_core (th_store s ! p))"

lemma kept_refl [simp]: "kept s s"
  by (simp add: kept_def)

lemma kept_trans: "kept s s' \<Longrightarrow> kept s' s'' \<Longrightarrow> kept s s''"
  by (simp add: kept_def)

lemma same_kept: "same_timers s s' \<Longrightarrow> kept s s'"
  by (simp add: same_timers_def kept_def)

lemma kept_end: "kept s s' \<Longrightarrow> t_end (th_store s' ! p) = t_end (th_store s ! p)"
  by (simp add: kept_def t_end_core)

lemma tkey_store:
  "th_tq s' = th_tq s \<Longrightarrow> kept s s' \<Longrightarrow> tkey s' = tkey s"
  by (auto simp: tkey_def kept_end)

lemma heap_push_ok:
  assumes ok: "timer_heap_ok s" and p: "p < length (th_store s)" "p \<notin> set (th_tq s)"
    and room: "tq_len s < th_cap s"
  shows "\<exists>s'. heap_push p s = Some s' \<and> timer_heap_ok s' \<and> kept s s' \<and>
    mset (th_tq s') = add_mset p (mset (th_tq s))"
proof -
  let ?n = "length (th_tq s)"
  define s1 where "s1 = (set_index p (tq_len s) s)\<lparr>th_tq := th_tq s @ [p]\<rparr>"
  have inv: "th_inv s" and ord: "heap_order (tkey s) ?n" using ok by (simp_all add: timer_heap_ok_def)
  have push: "tq_push p s = Some s1" using room by (simp add: tq_push_def s1_def)
  have tq: "th_tq s1 = th_tq s @ [p]" by (simp add: s1_def)
  have k: "kept s s1" by (simp add: kept_def s1_def)
  have idx: "t_index (th_store s1 ! ((th_tq s @ [p]) ! i)) = int i" if "i < Suc ?n" for i
  proof (cases "i = ?n")
    case True
    then show ?thesis using p(1) by (simp add: s1_def set_index_index tq_len_def)
  next
    case False
    with that have i: "i < ?n" by simp
    then have "th_tq s ! i \<noteq> p" using p(2) nth_mem by blast
    with i p(1) inv show ?thesis by (simp add: s1_def set_index_index nth_append th_inv_def)
  qed
  have inv1: "th_inv s1"
    using inv p room idx by (auto simp: th_inv_def tq) (simp_all add: s1_def tq_len_def)
  have "tkey s1 i = tkey s i" if "i < ?n" for i
    using that kept_end [OF k] by (simp add: tkey_def tq nth_append)
  then have below: "tkey s1 (par c) \<le> tkey s1 c" if "0 < c" "c < ?n" for c
    using ord that par_less [OF that(1)] by (simp add: heap_order_def)
  have no: "par c \<noteq> ?n" if "0 < c" "c < Suc ?n" for c
    using par_less [OF that(1)] that(2) by linarith
  have "up_order (tkey s1) (Suc ?n) ?n"
    unfolding up_order_def using below no by (meson less_SucE)
  then obtain s2 where s2: "heap_up s1 ?n = Some s2" "th_inv s2" "same_timers s1 s2"
    "heap_order (tkey s2) (Suc ?n)"
    using heap_up_ok [OF inv1, of "Suc ?n" ?n] by (auto simp: tq)
  have ok2: "timer_heap_ok s2"
    using s2(2,4) same_length [OF s2(3)] by (simp add: timer_heap_ok_def tq)
  have "heap_push p s = Some s2"
    using push s2(1) by (simp add: heap_push_def tq_len_def tq)
  moreover have "mset (th_tq s2) = add_mset p (mset (th_tq s))"
    using s2(3) by (simp add: same_timers_def tq)
  ultimately show ?thesis using ok2 kept_trans [OF k same_kept [OF s2(3)]] by blast
qed

lemma tq_pop_ok:
  assumes inv: "th_inv s" and ne: "th_tq s \<noteq> []" and ord: "heap_order (tkey s) (length (th_tq s) - 1)"
  shows "\<exists>s'. tq_pop s = (Some (last (th_tq s)), s') \<and> timer_heap_ok s' \<and> kept s s' \<and>
    th_tq s' = butlast (th_tq s) \<and> t_index (th_store s' ! last (th_tq s)) = -1"
proof -
  let ?p = "last (th_tq s)"
  define s' where "s' = (set_index ?p (-1) s)\<lparr>th_tq := butlast (th_tq s)\<rparr>"
  have pop: "tq_pop s = (Some ?p, s')" using ne by (simp add: tq_pop_def tq_len_def s'_def Let_def)
  have tq: "th_tq s' = butlast (th_tq s)" by (simp add: s'_def)
  have k: "kept s s'" by (simp add: kept_def s'_def)
  have split: "th_tq s = butlast (th_tq s) @ [?p]" using ne by simp
  have "distinct (butlast (th_tq s) @ [?p])" using inv split by (simp add: th_inv_def)
  moreover have "?p < length (th_store s)" using inv ne by (simp add: th_inv_def)
  ultimately have p: "?p < length (th_store s)" "?p \<notin> set (butlast (th_tq s))" "distinct (butlast (th_tq s))"
    by simp_all
  have "t_index (th_store s' ! (butlast (th_tq s) ! i)) = int i" if i: "i < length (butlast (th_tq s))" for i
  proof -
    have "butlast (th_tq s) ! i \<noteq> ?p" using p(2) i nth_mem by metis
    with i p(1) inv show ?thesis by (simp add: s'_def set_index_index nth_butlast th_inv_def)
  qed
  then have "th_inv s'"
    using inv p(3) by (auto simp: th_inv_def tq s'_def dest: in_set_butlastD)
  moreover have "heap_order (tkey s') (length (th_tq s'))"
  proof -
    have "tkey s' i = tkey s i" if "i < length (th_tq s) - 1" for i
      using that less_le_trans [OF that diff_le_self] kept_end [OF k] by (simp add: tkey_def tq nth_butlast)
    then show ?thesis using ord unfolding heap_order_def tq length_butlast by (metis less_trans par_less)
  qed
  moreover have "t_index (th_store s' ! ?p) = -1" using p(1) by (simp add: s'_def set_index_index)
  ultimately show ?thesis using pop tq k by (simp add: timer_heap_ok_def)
qed

lemma heap_order_le: "heap_order K n \<Longrightarrow> m \<le> n \<Longrightarrow> heap_order K m"
  by (auto simp: heap_order_def)

lemma heap_order_cong: "(\<And>i. i < n \<Longrightarrow> K i = L i) \<Longrightarrow> heap_order K n = heap_order L n"
  unfolding heap_order_def by (metis less_trans par_less)

text \<open>Removing swaps the last timer into the freed place and repairs the order from there.\<close>

lemma swapped_last_order:
  assumes ord: "heap_order K (Suc n)" and i: "i < n"
  defines "L \<equiv> K(i := K n, n := K i)"
  shows "L i < L (par i) \<or> down_order L n i"
    and "L i < L (par i) \<Longrightarrow> up_order L n i"
    and "L i < L (par i) \<Longrightarrow> 0 < c \<Longrightarrow> c < n \<Longrightarrow> par c = i \<Longrightarrow> L i \<le> L c"
proof -
  have o: "K (par c) \<le> K c" if "0 < c" "c < n" for c using ord that by (simp add: heap_order_def)
  have kid: "L (par i) \<le> L c" if c: "0 < c" "c < n" "par c = i" "0 < i" for c
    using o [OF c(1,2)] o [of i] c i par_less [OF c(1)] par_less [of i] by (auto simp: L_def)
  have away: "L (par c) \<le> L c" if c: "0 < c" "c < n" "c \<noteq> i" "par c \<noteq> i" for c
    using o [OF c(1,2)] c par_less [OF c(1)] by (simp add: L_def)
  show "L i < L (par i) \<or> down_order L n i"
    using kid away unfolding down_order_def by (metis not_less)
  {
    assume less: "L i < L (par i)"
    then have i0: "0 < i" by (cases i) auto
    have le: "L i \<le> L c" if "0 < c" "c < n" "par c = i" for c
      using less kid [OF that i0] by simp
    then show "0 < c \<Longrightarrow> c < n \<Longrightarrow> par c = i \<Longrightarrow> L i \<le> L c" by blast
    show "up_order L n i" unfolding up_order_def
    proof (intro conjI allI impI)
      fix c assume "0 < c \<and> c < n \<and> c \<noteq> i"
      then show "L (par c) \<le> L c" using away [of c] le [of c] by (cases "par c = i") auto
    qed (use kid in blast)
  }
qed

lemma butlast_mset: "xs \<noteq> [] \<Longrightarrow> mset xs = add_mset (last xs) (mset (butlast xs))"
  by (metis append_butlast_last_id mset.simps(1,2) mset_append union_mset_add_mset_right add_0_right)

text \<open>What remains to be done once the timer to remove is in the last place.\<close>

lemma pop_last:
  assumes inv: "th_inv s1" and same: "same_timers s s1" and ne: "th_tq s \<noteq> []"
    and ord: "heap_order (tkey s1) (length (th_tq s) - 1)" and p: "th_tq s1 ! (length (th_tq s) - 1) = p"
  shows "\<exists>s'. tq_pop s1 = (Some p, s') \<and> timer_heap_ok s' \<and> kept s s' \<and>
    mset (th_tq s) = add_mset p (mset (th_tq s')) \<and> t_index (th_store s' ! p) = -1"
proof -
  have len: "length (th_tq s1) = length (th_tq s)" by (rule same_length [OF same])
  then have ne1: "th_tq s1 \<noteq> []" using ne by auto
  then have last: "last (th_tq s1) = p" using p len by (simp add: last_conv_nth)
  from tq_pop_ok [OF inv ne1 ord [folded len]] obtain s' where
    s': "tq_pop s1 = (Some p, s')" "timer_heap_ok s'" "kept s1 s'" "th_tq s' = butlast (th_tq s1)"
      "t_index (th_store s' ! p) = -1"
    unfolding last by blast
  have "mset (th_tq s) = add_mset p (mset (th_tq s'))"
    using same butlast_mset [OF ne1] by (simp add: same_timers_def s'(4) last)
  with s' kept_trans [OF same_kept [OF same] s'(3)] show ?thesis by blast
qed

lemma heap_pop_ok:
  assumes ok: "timer_heap_ok s" and ne: "th_tq s \<noteq> []"
  shows "\<exists>s'. heap_pop s = Some (Some (th_tq s ! 0), s') \<and> timer_heap_ok s' \<and> kept s s' \<and>
    mset (th_tq s) = add_mset (th_tq s ! 0) (mset (th_tq s')) \<and>
    t_index (th_store s' ! (th_tq s ! 0)) = -1"
proof -
  let ?m = "length (th_tq s) - 1"
  have inv: "th_inv s" and ord: "heap_order (tkey s) (Suc ?m)"
    using ok ne by (simp_all add: timer_heap_ok_def)
  have b: "0 < length (th_tq s)" "?m < length (th_tq s)" using ne by simp_all
  have n: "tq_len s - 1 = int ?m" using b(1) by (simp add: tq_len_def of_nat_diff Suc_leI)
  obtain s1 where s1: "tq_swap s (int 0) (int ?m) = Some s1" "th_inv s1" "same_timers s s1"
    "tkey s1 = (tkey s)(0 := tkey s ?m, ?m := tkey s 0)"
    "th_tq s1 = (th_tq s)[0 := th_tq s ! ?m, ?m := th_tq s ! 0]"
    using tq_swap_ok [OF inv b] by blast
  have "down_order (tkey s1) ?m 0"
    using ord par_less unfolding down_order_def heap_order_def s1(4)
    by (auto simp: less_SucI) (metis less_trans not_less_iff_gr_or_eq par_less)
  then obtain s2 k where s2: "heap_down s1 0 ?m = Some (s2, k)" "th_inv s2" "same_timers s1 s2"
    "heap_order (tkey s2) ?m" "\<forall>m \<ge> ?m. th_tq s2 ! m = th_tq s1 ! m"
    using heap_down_ok [OF s1(2), of ?m 0] same_length [OF s1(3)] by auto
  have "th_tq s2 ! ?m = th_tq s ! 0" using s2(5) b by (simp add: s1(5))
  from pop_last [OF s2(2) same_trans [OF s1(3) s2(3)] ne s2(4) this] s1(1) s2(1)
  show ?thesis by (auto simp: heap_pop_def Let_def n)
qed

lemma heap_pop_least:
  "timer_heap_ok s \<Longrightarrow> p \<in> set (th_tq s) \<Longrightarrow>
   t_end (th_store s ! (th_tq s ! 0)) \<le> t_end (th_store s ! p)"
proof -
  assume ok: "timer_heap_ok s" and "p \<in> set (th_tq s)"
  then obtain i where i: "i < length (th_tq s)" "th_tq s ! i = p" by (auto simp: in_set_conv_nth)
  from i(1) have "0 < length (th_tq s)" by linarith
  with i ok heap_order_min [of "tkey s" "length (th_tq s)" i] show ?thesis
    by (simp add: timer_heap_ok_def tkey_def)
qed

lemma heap_order_grand:
  assumes "heap_order K n" and "0 < c" "c < n" "par c = j" "0 < j"
  shows "K (par j) \<le> K c"
proof -
  have "j < n" using par_less [OF assms(2)] assms(3,4) by simp
  then have "K (par j) \<le> K j" "K j \<le> K c" using assms by (auto simp: heap_order_def)
  then show ?thesis by simp
qed

lemma heap_remove_ok:
  assumes ok: "timer_heap_ok s" and i: "i < length (th_tq s)"
  shows "\<exists>s'. heap_remove (int i) s = Some (Some (th_tq s ! i), s') \<and> timer_heap_ok s' \<and> kept s s' \<and>
    mset (th_tq s) = add_mset (th_tq s ! i) (mset (th_tq s'))"
proof -
  define m where "m = length (th_tq s) - 1"
  have len: "length (th_tq s) = Suc m" using i by (simp add: m_def)
  have inv: "th_inv s" and ord: "heap_order (tkey s) (Suc m)" and ne: "th_tq s \<noteq> []"
    using ok len by (auto simp: timer_heap_ok_def)
  have n: "tq_len s - 1 = int m" using len by (simp add: tq_len_def)
  show ?thesis
  proof (cases "i = m")
    case True
    from pop_last [OF inv same_refl ne, of "th_tq s ! i"] heap_order_le [OF ord, of m]
    show ?thesis by (auto simp: heap_remove_def Let_def n True len)
  next
    case False
    then have im: "i < m" using i len by simp
    have b: "i < length (th_tq s)" "m < length (th_tq s)" using im len by simp_all
    obtain s1 where s1: "tq_swap s (int i) (int m) = Some s1" "th_inv s1" "same_timers s s1"
      "tkey s1 = (tkey s)(i := tkey s m, m := tkey s i)"
      "th_tq s1 = (th_tq s)[i := th_tq s ! m, m := th_tq s ! i]"
      using tq_swap_ok [OF inv b] by blast
    note sw = swapped_last_order [OF ord im, folded s1(4)]
    have len1: "m \<le> length (th_tq s1)" using same_length [OF s1(3)] len by simp
    have at: "th_tq s1 ! m = th_tq s ! i" using b by (simp add: s1(5))
    have "\<exists>s2 k s3. heap_down s1 i m = Some (s2, k) \<and>
      (if k > i then Some s2 else heap_up s2 i) = Some s3 \<and> th_inv s3 \<and> same_timers s1 s3 \<and>
      heap_order (tkey s3) m \<and> th_tq s3 ! m = th_tq s1 ! m"
    proof (cases "tkey s1 i < tkey s1 (par i)")
      case False
      then have "down_order (tkey s1) m i" using sw(1) by blast
      then obtain s2 k where s2: "heap_down s1 i m = Some (s2, k)" "th_inv s2" "same_timers s1 s2"
        "heap_order (tkey s2) m" "\<forall>j \<ge> m. th_tq s2 ! j = th_tq s1 ! j"
        using heap_down_ok [OF s1(2) len1, of i] im by auto
      have len2: "m \<le> length (th_tq s2)" using len1 same_length [OF s2(3)] by simp
      have "up_order (tkey s2) m i"
        using s2(4) heap_order_grand [OF s2(4)] by (simp add: up_order_def heap_order_def)
      from heap_up_ok [OF s2(2) len2 im this] obtain s3 where
        s3: "heap_up s2 i = Some s3" "th_inv s3" "same_timers s2 s3" "heap_order (tkey s3) m"
          "th_tq s3 ! m = th_tq s2 ! m" by blast
      show ?thesis
      proof (cases "k > i")
        case True
        with s2 show ?thesis by (intro exI [of _ s2] exI [of _ k]) simp
      next
        case False
        with s2 s3 same_trans [OF s2(3) s3(3)] show ?thesis
          by (intro exI [of _ s2] exI [of _ k] exI [of _ s3]) simp
      qed
    next
      case True
      have "heap_down s1 i m = Some (s1, i)"
      proof (cases "2 * i + 1 < m")
        case inner: True
        note c = least_child_ok [OF inner, where K = "tkey s1"]
        from sw(3) [OF True c(1,2,3)] show ?thesis by (simp add: heap_down_unfold [OF len1 inner] Let_def)
      next
        case False
        then show ?thesis by (simp add: heap_down.simps [of s1 i m] Let_def)
      qed
      moreover obtain s3 where "heap_up s1 i = Some s3" "th_inv s3" "same_timers s1 s3"
        "heap_order (tkey s3) m" "th_tq s3 ! m = th_tq s1 ! m"
        using heap_up_ok [OF s1(2) len1 im sw(2) [OF True]] by blast
      ultimately show ?thesis by (intro exI [of _ s1] exI [of _ i] exI [of _ s3]) simp
    qed
    then obtain s2 k s3 where s3: "heap_down s1 i m = Some (s2, k)"
      "(if k > i then Some s2 else heap_up s2 i) = Some s3" "th_inv s3" "same_timers s1 s3"
      "heap_order (tkey s3) m" "th_tq s3 ! m = th_tq s ! i"
      unfolding at by blast
    from pop_last [OF s3(3) same_trans [OF s1(3) s3(4)] ne, of "th_tq s ! i"] s3(5,6) s3(1,2) s1(1) False
    show ?thesis by (auto simp: heap_remove_def Let_def n len)
  qed
qed

end
