(* ===== verification/Timer_Model.thy ===== *)
theory Timer_Model
  imports Timer_Heap Queue_Model
begin

text \<open>
  \<^verbatim>\<open>common/timer/timer_manager.go\<close>: the timer manager over the heap of timers
  and the queue of timers to execute. A pointer in the queue is an option: \<^term>\<open>None\<close> is
  the nil pointer, the zero value of its element type. The callback \<open>TimeOut\<close> is code of the
  client: it is the parameter \<open>cb\<close>, a function of the timer's callback object, the time, the
  client's own state and the manager, which it may change; it tells with \<^term>\<open>False\<close>
  that it panicked. The loops of \<open>Run\<close> take fuel, so that not returning is a value.
\<close>

section \<open>State and operations\<close>

record 'c timer_manager =
  tm_id :: int
  tm_tq :: "'c timer_heap"
  tm_queue :: "nat option queue"

definition DefaultTimerQueueSize :: int where
  "DefaultTimerQueueSize = 1024"

definition new_timer_manager :: "int \<Rightarrow> 'c timer_manager" where
  "new_timer_manager n =
     (let n = (if n \<le> 0 then DefaultTimerQueueSize else n)
      in \<lparr>tm_id = 0, tm_tq = \<lparr>th_store = [], th_tq = [], th_cap = n\<rparr>, tm_queue = new_queue None\<rparr>)"

definition add_timer :: "'c \<Rightarrow> int \<Rightarrow> int \<Rightarrow> 'c timer_manager \<Rightarrow> (int \<times> 'c timer_manager) option" where
  "add_timer outer end interval tm =
     (if th_cap (tm_tq tm) \<le> tq_len (tm_tq tm) then Some (0, tm)
      else do {
        let id = wrap64 (tm_id tm + 1);
        let timer = \<lparr>t_outer = outer, t_id = id, t_end = end, t_interval = interval, t_index = 0\<rparr>;
        let p = length (th_store (tm_tq tm));
        h \<leftarrow> heap_push p ((tm_tq tm)\<lparr>th_store := th_store (tm_tq tm) @ [timer]\<rparr>);
        Some (id, tm\<lparr>tm_id := id, tm_tq := h\<rparr>) })"

definition remove_timer :: "int \<Rightarrow> 'c timer_manager \<Rightarrow> 'c timer_manager option" where
  "remove_timer timerId tm =
     (case find (\<lambda>p. t_id (th_store (tm_tq tm) ! p) = timerId) (th_tq (tm_tq tm)) of
        Some p \<Rightarrow> do {
          (_, h) \<leftarrow> heap_remove (t_index (th_store (tm_tq tm) ! p)) (tm_tq tm);
          Some (tm\<lparr>tm_tq := h\<rparr>) }
      | None \<Rightarrow> Some tm)"

definition set_end :: "nat \<Rightarrow> int \<Rightarrow> 'c timer_heap \<Rightarrow> 'c timer_heap" where
  "set_end p e s = s\<lparr>th_store := (th_store s)[p := (th_store s ! p)\<lparr>t_end := e\<rparr>]\<rparr>"

text \<open>The first loop of \<open>Run\<close>: move the due timers to the execution queue.\<close>

fun run_collect :: "nat \<Rightarrow> int \<Rightarrow> int \<Rightarrow> int \<Rightarrow> 'c timer_manager \<Rightarrow> (int \<times> 'c timer_manager) option" where
  "run_collect 0 nowTm limit checkCount tm = None"
| "run_collect (Suc fuel) nowTm limit checkCount tm =
     (if tq_len (tm_tq tm) > 0 then do {
        let checkCount = wrap32u (checkCount + 1);
        tmp \<leftarrow> slice_get (th_tq (tm_tq tm)) 0;
        if t_end (th_store (tm_tq tm) ! tmp) > nowTm then Some (checkCount, tm)
        else do {
          (popped, h1) \<leftarrow> heap_pop (tm_tq tm);
          p \<leftarrow> popped;
          q1 \<leftarrow> queue_push None (Some p) (tm_queue tm);
          h2 \<leftarrow> (if t_interval (th_store h1 ! p) > 0
               then heap_push p (set_end p (wrap64 (nowTm + t_interval (th_store h1 ! p))) h1)
               else Some h1);
          let tm1 = tm\<lparr>tm_tq := h2, tm_queue := q1\<rparr>;
          if limit > 0 \<and> queue_size q1 \<ge> limit then Some (checkCount, tm1)
          else run_collect fuel nowTm limit checkCount tm1 } }
      else Some (checkCount, tm))"

text \<open>
  The second loop: call the timers of the execution queue. The count is \<^term>\<open>None\<close> when a
  callback panicked: the timers behind it stay in the queue.
\<close>

fun run_execute :: "('c \<Rightarrow> int \<Rightarrow> 'e \<Rightarrow> 'c timer_manager \<Rightarrow> bool \<times> 'e \<times> 'c timer_manager) \<Rightarrow>
    nat \<Rightarrow> int \<Rightarrow> int \<Rightarrow> 'e \<Rightarrow> 'c timer_manager \<Rightarrow> (int option \<times> 'e \<times> 'c timer_manager) option" where
  "run_execute cb 0 nowTm callCount env tm = None"
| "run_execute cb (Suc fuel) nowTm callCount env tm =
     (if queue_size (tm_queue tm) > 0 then do {
        let callCount = wrap32u (callCount + 1);
        (popped, q1) \<leftarrow> queue_pop None (tm_queue tm);
        p \<leftarrow> popped;
        let (returned, env1, tm1) =
          cb (t_outer (th_store (tm_tq tm) ! p)) nowTm env (tm\<lparr>tm_queue := q1\<rparr>);
        if returned then run_execute cb fuel nowTm callCount env1 tm1
        else Some (None, env1, tm1) }
      else Some (Some callCount, env, tm))"

text \<open>\<open>Run\<close>: a recovered panic leaves both results at their zero value.\<close>

definition run_timers :: "('c \<Rightarrow> int \<Rightarrow> 'e \<Rightarrow> 'c timer_manager \<Rightarrow> bool \<times> 'e \<times> 'c timer_manager) \<Rightarrow>
    nat \<Rightarrow> int \<Rightarrow> int \<Rightarrow> 'e \<Rightarrow> 'c timer_manager \<Rightarrow> ((int \<times> int) \<times> 'e \<times> 'c timer_manager) option" where
  "run_timers cb fuel nowTm limit env tm = do {
     (checkCount, tm1) \<leftarrow> run_collect fuel nowTm limit 0 tm;
     (calls, env2, tm2) \<leftarrow> run_execute cb fuel nowTm 0 env tm1;
     Some ((case calls of None \<Rightarrow> (0, 0) | Some callCount \<Rightarrow> (checkCount, callCount)), env2, tm2) }"

section \<open>Invariant and abstract value\<close>

text \<open>
  The heap is in order and its timers know their places; the queue is well formed and holds
  timers; the ids are those the counter has handed out, in order of creation.
\<close>

definition tm_inv :: "'c timer_manager \<Rightarrow> bool" where
  "tm_inv tm \<longleftrightarrow> timer_heap_ok (tm_tq tm) \<and> queue_inv (tm_queue tm) \<and>
     (\<exists>ps. queue_list (tm_queue tm) = map Some ps \<and> (\<forall>p \<in> set ps. p < length (th_store (tm_tq tm)))) \<and>
     tm_id tm = wrap64 (int (length (th_store (tm_tq tm)))) \<and>
     (\<forall>p < length (th_store (tm_tq tm)). t_id (th_store (tm_tq tm) ! p) = wrap64 (int p + 1))"

text \<open>The timers that wait, as (callback object, id, end, interval).\<close>

definition timers_of :: "'c timer_heap \<Rightarrow> ('c \<times> int \<times> int \<times> int) multiset" where
  "timers_of s = image_mset (\<lambda>p. t_core (th_store s ! p)) (mset (th_tq s))"

abbreviation pending :: "'c timer_manager \<Rightarrow> ('c \<times> int \<times> int \<times> int) multiset" where
  "pending tm \<equiv> timers_of (tm_tq tm)"

abbreviation core_end :: "'c \<times> int \<times> int \<times> int \<Rightarrow> int" where
  "core_end x \<equiv> fst (snd (snd x))"

abbreviation core_interval :: "'c \<times> int \<times> int \<times> int \<Rightarrow> int" where
  "core_interval x \<equiv> snd (snd (snd x))"

abbreviation due :: "int \<Rightarrow> ('c \<times> int \<times> int \<times> int) multiset \<Rightarrow> ('c \<times> int \<times> int \<times> int) multiset" where
  "due now P \<equiv> filter_mset (\<lambda>x. core_end x \<le> now) P"

text \<open>What the repeating timers of a list become when they are put back at \<open>now\<close>.\<close>

definition rearm :: "int \<Rightarrow> ('c \<times> int \<times> int \<times> int) list \<Rightarrow> ('c \<times> int \<times> int \<times> int) list" where
  "rearm now fs = map (\<lambda>(c, i, e, v). (c, i, wrap64 (now + v), v)) (filter (\<lambda>x. core_interval x > 0) fs)"

lemma kept_timers:
  "kept s s' \<Longrightarrow> image_mset (\<lambda>p. t_core (th_store s' ! p)) A = image_mset (\<lambda>p. t_core (th_store s ! p)) A"
  by (simp add: kept_def)

lemma push_timers:
  assumes "timer_heap_ok s" and "p < length (th_store s)" and "p \<notin> set (th_tq s)" and "tq_len s < th_cap s"
  shows "\<exists>s'. heap_push p s = Some s' \<and> timer_heap_ok s' \<and> kept s s' \<and>
    timers_of s' = add_mset (t_core (th_store s ! p)) (timers_of s) \<and> length (th_tq s') = Suc (length (th_tq s))"
proof -
  obtain s' where s': "heap_push p s = Some s'" "timer_heap_ok s'" "kept s s'"
    "mset (th_tq s') = add_mset p (mset (th_tq s))"
    using heap_push_ok [OF assms] by blast
  moreover have "length (th_tq s') = Suc (length (th_tq s))"
    using arg_cong [OF s'(4), of size] by simp
  ultimately show ?thesis using kept_timers [OF s'(3)] by (simp add: timers_of_def)
qed

text \<open>Changing the store of a timer that is not in the queue keeps the heap.\<close>

lemma store_update_ok:
  assumes "timer_heap_ok s" and "length (th_store s) \<le> length st"
    and "\<And>p. p \<in> set (th_tq s) \<Longrightarrow> st ! p = th_store s ! p"
  shows "timer_heap_ok (s\<lparr>th_store := st\<rparr>) \<and> timers_of (s\<lparr>th_store := st\<rparr>) = timers_of s"
proof -
  have "tkey (s\<lparr>th_store := st\<rparr>) = tkey s" using assms(3) by (auto simp: tkey_def)
  moreover have "th_inv (s\<lparr>th_store := st\<rparr>)"
    using assms by (force simp: timer_heap_ok_def th_inv_def)
  moreover have "timers_of (s\<lparr>th_store := st\<rparr>) = timers_of s"
    using assms(3) by (auto simp: timers_of_def intro: image_mset_cong)
  ultimately show ?thesis using assms(1) by (simp add: timer_heap_ok_def)
qed

lemma tm_invD:
  assumes "tm_inv tm"
  shows "timer_heap_ok (tm_tq tm)" "queue_inv (tm_queue tm)" "th_inv (tm_tq tm)"
    "\<And>p. p \<in> set (th_tq (tm_tq tm)) \<Longrightarrow> p < length (th_store (tm_tq tm))"
  using assms by (auto simp: tm_inv_def timer_heap_ok_def th_inv_def)

lemma kept_id: "kept s s' \<Longrightarrow> t_id (th_store s' ! p) = t_id (th_store s ! p)"
  by (simp add: kept_def t_core_def)

lemma tm_inv_heap:
  assumes "tm_inv tm" and "timer_heap_ok h" and "kept (tm_tq tm) h"
  shows "tm_inv (tm\<lparr>tm_tq := h\<rparr>)"
  using assms kept_id [OF assms(3)] by (simp add: tm_inv_def kept_def)

lemma new_timer_manager_inv [model_inv]: "tm_inv (new_timer_manager n)"
  by (simp add: tm_inv_def new_timer_manager_def Let_def timer_heap_ok_def th_inv_def heap_order_def
      new_queue_inv DefaultTimerQueueSize_def int64_def)

section \<open>Adding and removing\<close>

lemma add_timer_ok:
  assumes inv: "tm_inv tm" and room: "tq_len (tm_tq tm) < th_cap (tm_tq tm)"
  shows "\<exists>tm'. add_timer c e v tm = Some (wrap64 (tm_id tm + 1), tm') \<and> tm_inv tm' \<and>
    pending tm' = add_mset (c, wrap64 (tm_id tm + 1), e, v) (pending tm) \<and>
    tm_queue tm' = tm_queue tm \<and> tm_id tm' = wrap64 (tm_id tm + 1) \<and> th_cap (tm_tq tm') = th_cap (tm_tq tm)"
proof -
  let ?s = "tm_tq tm"
  define id where "id = wrap64 (tm_id tm + 1)"
  define timer where "timer = \<lparr>t_outer = c, t_id = id, t_end = e, t_interval = v, t_index = 0\<rparr>"
  define p where "p = length (th_store ?s)"
  define s1 where "s1 = ?s\<lparr>th_store := th_store ?s @ [timer]\<rparr>"
  note D = tm_invD [OF inv]
  have ok1: "timer_heap_ok s1" and P1: "timers_of s1 = pending tm"
    using store_update_ok [OF D(1), of "th_store ?s @ [timer]"] D(4) by (simp_all add: s1_def nth_append)
  have new: "p < length (th_store s1)" "p \<notin> set (th_tq s1)" "tq_len s1 < th_cap s1"
    using room D(4) by (auto simp: p_def s1_def tq_len_def)
  obtain h where h: "heap_push p s1 = Some h" "timer_heap_ok h" "kept s1 h"
    "timers_of h = add_mset (t_core (th_store s1 ! p)) (timers_of s1)"
    using push_timers [OF ok1 new] by blast
  define tm' where "tm' = tm\<lparr>tm_id := id, tm_tq := h\<rparr>"
  have step: "add_timer c e v tm = Some (id, tm')"
    using room h(1) by (simp add: add_timer_def Let_def tm'_def s1_def timer_def p_def id_def)
  have core: "t_core (th_store s1 ! p) = (c, id, e, v)"
    by (simp add: s1_def p_def timer_def t_core_def)
  have len: "length (th_store h) = Suc p" using h(3) by (simp add: kept_def s1_def p_def)
  have "t_id (th_store h ! q) = wrap64 (int q + 1)" if "q < Suc p" for q
  proof (cases "q = p")
    case True
    have "id = wrap64 (int p + 1)" using inv by (simp add: id_def p_def tm_inv_def)
    with True kept_id [OF h(3), of p] show ?thesis by (simp add: s1_def p_def timer_def)
  next
    case False
    with that have "q < length (th_store ?s)" by (simp add: p_def)
    with inv kept_id [OF h(3), of q] show ?thesis by (simp add: s1_def nth_append tm_inv_def)
  qed
  moreover have "id = wrap64 (int (Suc p))" using inv by (simp add: id_def tm_inv_def p_def add.commute)
  ultimately have "tm_inv tm'"
    using inv h(2) len unfolding tm_inv_def by (auto simp: tm'_def p_def less_Suc_eq)
  moreover have "th_cap h = th_cap ?s" using h(3) by (simp add: kept_def s1_def)
  ultimately show ?thesis using step h(4) core P1 by (simp add: tm'_def id_def)
qed

lemma add_timer_full:
  "th_cap (tm_tq tm) \<le> tq_len (tm_tq tm) \<Longrightarrow> add_timer c e v tm = Some (0, tm)"
  by (simp add: add_timer_def)

lemma pending_id_inj:
  assumes inv: "tm_inv tm" and few: "int (length (th_store (tm_tq tm))) < 2 ^ 63"
    and p: "p \<in> set (th_tq (tm_tq tm))" and q: "q \<in> set (th_tq (tm_tq tm))"
    and same: "t_id (th_store (tm_tq tm) ! p) = t_id (th_store (tm_tq tm) ! q)"
  shows "p = q"
proof -
  have "p < length (th_store (tm_tq tm))" "q < length (th_store (tm_tq tm))"
    using tm_invD(4) [OF inv] p q by blast+
  moreover from this have "wrap64 (int p + 1) = wrap64 (int q + 1)"
    using inv same by (simp add: tm_inv_def)
  ultimately show ?thesis using few by (simp add: int64_def)
qed

lemma remove_timer_ok:
  assumes inv: "tm_inv tm"
  shows "\<exists>tm'. remove_timer i tm = Some tm' \<and> tm_inv tm' \<and> tm_queue tm' = tm_queue tm \<and>
    (int (length (th_store (tm_tq tm))) < 2 ^ 63 \<longrightarrow>
      pending tm' = filter_mset (\<lambda>x. fst (snd x) \<noteq> i) (pending tm)) \<and>
    pending tm' \<subseteq># pending tm \<and> kept (tm_tq tm) (tm_tq tm')"
proof -
  let ?s = "tm_tq tm" and ?st = "th_store (tm_tq tm)"
  note D = tm_invD [OF inv]
  show ?thesis
  proof (cases "find (\<lambda>p. t_id (?st ! p) = i) (th_tq ?s)")
    case None
    then have "\<forall>x \<in># pending tm. fst (snd x) \<noteq> i"
      by (auto simp: timers_of_def find_None_iff t_core_def)
    then have "filter_mset (\<lambda>x. fst (snd x) \<noteq> i) (pending tm) = pending tm"
      by (simp add: filter_mset_eq_conv)
    with None inv show ?thesis by (simp add: remove_timer_def)
  next
    case (Some p)
    then obtain k where k: "k < length (th_tq ?s)" "th_tq ?s ! k = p" "t_id (?st ! p) = i"
      by (auto simp: find_Some_iff)
    then have idx: "t_index (?st ! p) = int k" using D(3) by (auto simp: th_inv_def)
    obtain h where h: "heap_remove (int k) ?s = Some (Some p, h)" "timer_heap_ok h" "kept ?s h"
      "mset (th_tq ?s) = add_mset p (mset (th_tq h))"
      using heap_remove_ok [OF D(1) k(1)] k(2) by auto
    have P: "pending tm = add_mset (t_core (?st ! p)) (timers_of h)"
      using kept_timers [OF h(3)] by (simp add: timers_of_def h(4))
    have "filter_mset (\<lambda>x. fst (snd x) \<noteq> i) (pending tm) = timers_of h"
      if few: "int (length ?st) < 2 ^ 63"
    proof -
      have "distinct (th_tq ?s)" using D(3) by (simp add: th_inv_def)
      moreover have "mset (th_tq ?s) = mset (p # th_tq h)" using h(4) by simp
      ultimately have "distinct (p # th_tq h)" by (metis mset_eq_imp_distinct_iff)
      then have gone: "p \<notin> set (th_tq h)" by simp
      have sub: "set (th_tq h) \<subseteq> set (th_tq ?s)"
        using arg_cong [OF h(4), of set_mset] by auto
      have "fst (snd x) \<noteq> i" if "x \<in># timers_of h" for x
      proof -
        from that obtain q where q: "q \<in> set (th_tq h)" "x = t_core (th_store h ! q)"
          by (auto simp: timers_of_def)
        then have "q \<in> set (th_tq ?s)" using sub by blast
        moreover have "q \<noteq> p" using q(1) gone by blast
        moreover have "p \<in> set (th_tq ?s)" using k by auto
        ultimately have "t_id (?st ! q) \<noteq> i" using pending_id_inj [OF inv few] k(3) by blast
        then show ?thesis using kept_id [OF h(3), of q] by (simp add: q(2) t_core_def)
      qed
      then have "filter_mset (\<lambda>x. fst (snd x) \<noteq> i) (timers_of h) = timers_of h"
        by (simp add: filter_mset_eq_conv)
      then show ?thesis using k(3) by (simp add: P t_core_def)
    qed
    with Some idx h(1) tm_inv_heap [OF inv h(2,3)] h(3) P show ?thesis
      by (simp add: remove_timer_def)
  qed
qed

section \<open>The first loop of Run\<close>

abbreviation outer_at :: "'c timer_manager \<Rightarrow> nat \<Rightarrow> 'c" where
  "outer_at tm p \<equiv> t_outer (th_store (tm_tq tm) ! p)"

lemma kept_core: "kept s s' \<Longrightarrow> t_core (th_store s' ! p) = t_core (th_store s ! p)"
  by (simp add: kept_def)

lemma core_eqD:
  "t_core t = t_core u \<Longrightarrow> t_outer t = t_outer u \<and> t_id t = t_id u \<and> t_end t = t_end u \<and> t_interval t = t_interval u"
  by (simp add: t_core_def)

text \<open>A popped timer goes back with a new end when it repeats.\<close>

lemma rearm_ok:
  assumes ok: "timer_heap_ok h1" and p: "p < length (th_store h1)" "p \<notin> set (th_tq h1)"
    and room: "tq_len h1 < th_cap h1"
  shows "\<exists>h2. (if t_interval (th_store h1 ! p) > 0
        then heap_push p (set_end p (wrap64 (now + t_interval (th_store h1 ! p))) h1)
        else Some h1) = Some h2 \<and> timer_heap_ok h2 \<and>
      timers_of h2 = timers_of h1 + mset (rearm now [t_core (th_store h1 ! p)]) \<and>
      length (th_store h2) = length (th_store h1) \<and> th_cap h2 = th_cap h1 \<and>
      (\<forall>q. t_outer (th_store h2 ! q) = t_outer (th_store h1 ! q) \<and> t_id (th_store h2 ! q) = t_id (th_store h1 ! q))"
proof (cases "t_interval (th_store h1 ! p) > 0")
  case False
  with ok show ?thesis by (auto simp: rearm_def t_core_def)
next
  case True
  let ?e = "wrap64 (now + t_interval (th_store h1 ! p))"
  let ?s = "set_end p ?e h1"
  have "(th_store h1)[p := (th_store h1 ! p)\<lparr>t_end := ?e\<rparr>] ! q = th_store h1 ! q"
    if "q \<in> set (th_tq h1)" for q
    using that p(2) by (metis nth_list_update_neq)
  then have st: "timer_heap_ok ?s \<and> timers_of ?s = timers_of h1"
    unfolding set_end_def by (intro store_update_ok [OF ok]) simp_all
  have "th_tq ?s = th_tq h1" "th_cap ?s = th_cap h1" "length (th_store ?s) = length (th_store h1)"
    by (simp_all add: set_end_def)
  with st p room obtain h2 where h2: "heap_push p ?s = Some h2" "timer_heap_ok h2" "kept ?s h2"
    "timers_of h2 = add_mset (t_core (th_store ?s ! p)) (timers_of ?s)"
    using push_timers [of ?s p] by (auto simp: tq_len_def)
  have new: "t_core (th_store ?s ! p) = (t_outer (th_store h1 ! p), t_id (th_store h1 ! p), ?e, t_interval (th_store h1 ! p))"
    using p(1) by (simp add: set_end_def t_core_def)
  have "t_outer (th_store ?s ! q) = t_outer (th_store h1 ! q) \<and> t_id (th_store ?s ! q) = t_id (th_store h1 ! q)" for q
    using p(1) by (cases "q = p") (simp_all add: set_end_def)
  moreover have "t_outer (th_store h2 ! q) = t_outer (th_store ?s ! q) \<and> t_id (th_store h2 ! q) = t_id (th_store ?s ! q)" for q
    using core_eqD [OF kept_core [OF h2(3), of q]] by simp
  ultimately show ?thesis
    using True h2 st new by (simp add: rearm_def t_core_def kept_def set_end_def)
qed

lemma collect_step:
  assumes inv: "tm_inv tm" and ne: "th_tq (tm_tq tm) \<noteq> []"
    and root: "t_end (th_store (tm_tq tm) ! (th_tq (tm_tq tm) ! 0)) \<le> now"
  shows "\<exists>x p tm1. (\<forall>fuel. run_collect (Suc fuel) now limit chk tm =
        (if limit > 0 \<and> queue_size (tm_queue tm1) \<ge> limit then Some (wrap32u (chk + 1), tm1)
         else run_collect fuel now limit (wrap32u (chk + 1)) tm1)) \<and>
      tm_inv tm1 \<and> x \<in># pending tm \<and> core_end x \<le> now \<and> (\<forall>y \<in># pending tm. core_end x \<le> core_end y) \<and>
      pending tm1 = pending tm - {#x#} + mset (rearm now [x]) \<and>
      queue_list (tm_queue tm1) = queue_list (tm_queue tm) @ [Some p] \<and>
      outer_at tm p = fst x \<and> (\<forall>q. outer_at tm1 q = outer_at tm q) \<and> th_cap (tm_tq tm1) = th_cap (tm_tq tm)"
proof -
  let ?s = "tm_tq tm"
  define p where "p = th_tq ?s ! 0"
  define x where "x = t_core (th_store ?s ! p)"
  note D = tm_invD [OF inv]
  have pin: "p \<in> set (th_tq ?s)" using ne by (simp add: p_def)
  obtain h1 where h1: "heap_pop ?s = Some (Some p, h1)" "timer_heap_ok h1" "kept ?s h1"
    "mset (th_tq ?s) = add_mset p (mset (th_tq h1))"
    using heap_pop_ok [OF D(1) ne] by (auto simp: p_def)
  obtain q1 where q1: "queue_push None (Some p) (tm_queue tm) = Some q1" "queue_inv q1"
    "queue_list q1 = queue_list (tm_queue tm) @ [Some p]"
    using lq.enq_ok [OF D(2), where x = "Some p"] by blast
  have "distinct (th_tq ?s)" using D(3) by (simp add: th_inv_def)
  moreover have "mset (th_tq ?s) = mset (p # th_tq h1)" using h1(4) by simp
  ultimately have "distinct (p # th_tq h1)" by (metis mset_eq_imp_distinct_iff)
  then have gone: "p \<notin> set (th_tq h1)" by simp
  have len: "length (th_tq ?s) = Suc (length (th_tq h1))" using arg_cong [OF h1(4), of size] by simp
  have x1: "t_core (th_store h1 ! p) = x" using kept_core [OF h1(3)] by (simp add: x_def)
  have plen: "p < length (th_store h1)" using D(4) [OF pin] h1(3) by (simp add: kept_def)
  have room: "tq_len h1 < th_cap h1" using D(3) len h1(3) by (simp add: tq_len_def th_inv_def kept_def)
  obtain h2 where h2: "(if t_interval (th_store h1 ! p) > 0
        then heap_push p (set_end p (wrap64 (now + t_interval (th_store h1 ! p))) h1)
        else Some h1) = Some h2" "timer_heap_ok h2" "timers_of h2 = timers_of h1 + mset (rearm now [x])"
      "length (th_store h2) = length (th_store h1)" "th_cap h2 = th_cap h1"
      "\<And>q. t_outer (th_store h2 ! q) = t_outer (th_store h1 ! q)" "\<And>q. t_id (th_store h2 ! q) = t_id (th_store h1 ! q)"
    using rearm_ok [OF h1(2) plen gone room, of now] unfolding x1 by blast
  define tm1 where "tm1 = tm\<lparr>tm_tq := h2, tm_queue := q1\<rparr>"
  have P: "pending tm = add_mset x (timers_of h1)"
    using kept_timers [OF h1(3)] by (simp add: timers_of_def h1(4) x_def)
  have step: "run_collect (Suc fuel) now limit chk tm =
        (if limit > 0 \<and> queue_size (tm_queue tm1) \<ge> limit then Some (wrap32u (chk + 1), tm1)
         else run_collect fuel now limit (wrap32u (chk + 1)) tm1)" for fuel
  proof -
    have "tq_len ?s > 0" "slice_get (th_tq ?s) 0 = Some p" using ne by (simp_all add: tq_len_def p_def)
    moreover have "\<not> t_end (th_store ?s ! p) > now" using root by (simp add: p_def)
    ultimately show ?thesis
      by (simp only: run_collect.simps h1(1) q1(1) h2(1) Let_def Option.bind.bind_lunit if_True if_False
          case_prod_conv tm1_def) simp
  qed
  obtain ps where ps: "queue_list (tm_queue tm) = map Some ps" "\<forall>p \<in> set ps. p < length (th_store ?s)"
    using inv by (auto simp: tm_inv_def)
  have slen: "length (th_store h2) = length (th_store ?s)" using h2(4) h1(3) by (simp add: kept_def)
  have "\<exists>ps. queue_list q1 = map Some ps \<and> (\<forall>q \<in> set ps. q < length (th_store ?s))"
    using ps q1(3) D(4) [OF pin] by (intro exI [of _ "ps @ [p]"]) auto
  moreover have "t_id (th_store h2 ! q) = t_id (th_store ?s ! q)" for q
    using h2(7) kept_id [OF h1(3)] by simp
  ultimately have inv1: "tm_inv tm1"
    using inv h2(2) q1(2) by (simp add: tm_inv_def tm1_def slen)
  have least: "core_end x \<le> core_end y" if "y \<in># pending tm" for y
  proof -
    from that obtain q where "q \<in> set (th_tq ?s)" "y = t_core (th_store ?s ! q)" by (auto simp: timers_of_def)
    with heap_pop_least [OF D(1), of q] show ?thesis by (simp add: x_def p_def t_core_def)
  qed
  have "outer_at tm1 q = outer_at tm q" for q
    using h2(6) core_eqD [OF kept_core [OF h1(3), of q]] by (simp add: tm1_def)
  moreover have "core_end x \<le> now" "outer_at tm p = fst x" using root by (simp_all add: x_def t_core_def p_def)
  moreover have "pending tm1 = pending tm - {#x#} + mset (rearm now [x])" using h2(3) P by (simp add: tm1_def)
  moreover have "th_cap (tm_tq tm1) = th_cap ?s" using h2(5) h1(3) by (simp add: tm1_def kept_def)
  moreover have "x \<in># pending tm" by (simp add: P)
  moreover have "queue_list (tm_queue tm1) = queue_list (tm_queue tm) @ [Some p]" by (simp add: tm1_def q1(3))
  ultimately show ?thesis using step inv1 least by blast
qed

text \<open>
  What the loop moves to the queue: the timers \<open>fs\<close>, all due and each once, in the order of
  their end, the earliest ones if the limit leaves some behind. Repeating timers go back with
  their next end. The bound on the sums says that \<open>nowTm + interval\<close> does not wrap around.
\<close>

definition collected :: "int \<Rightarrow> int \<Rightarrow> 'c timer_manager \<Rightarrow> ('c \<times> int \<times> int \<times> int) list \<Rightarrow>
    ('c \<times> int \<times> int \<times> int) multiset \<Rightarrow> bool" where
  "collected now room tm fs Q \<longleftrightarrow>
     mset fs \<subseteq># due now (pending tm) \<and> sorted (map core_end fs) \<and>
     (\<forall>x \<in> set fs. \<forall>y \<in># pending tm - mset fs. core_end x \<le> core_end y) \<and>
     int (length fs) = (if room > 0 then min room (int (size (due now (pending tm))))
                        else int (size (due now (pending tm)))) \<and>
     Q = pending tm - mset fs + mset (rearm now fs)"

definition no_wrap :: "int \<Rightarrow> 'c timer_manager \<Rightarrow> bool" where
  "no_wrap now tm \<longleftrightarrow> (\<forall>x \<in># pending tm. core_interval x > 0 \<longrightarrow> int64 (now + core_interval x))"

lemma rearm_Cons: "rearm now (x # fs) = rearm now [x] @ rearm now fs"
  by (simp add: rearm_def)

lemma rearm_not_due:
  "core_interval x > 0 \<Longrightarrow> int64 (now + core_interval x) \<Longrightarrow> y \<in> set (rearm now [x]) \<Longrightarrow>
   now < core_end y \<and> core_interval y = core_interval x"
  by (cases x) (auto simp: rearm_def)

lemma rearm_once: "core_interval x \<le> 0 \<Longrightarrow> rearm now [x] = []"
  by (simp add: rearm_def)

lemma step_no_wrap:
  assumes "no_wrap now tm" and "x \<in># pending tm" and "pending tm1 = pending tm - {#x#} + mset (rearm now [x])"
  shows "no_wrap now tm1" and "due now (pending tm1) = due now (pending tm) - due now {#x#}"
proof -
  have bound: "core_interval x > 0 \<longrightarrow> int64 (now + core_interval x)"
    using assms(1,2) by (simp add: no_wrap_def)
  have late: "now < core_end y \<and> int64 (now + core_interval y)" if "y \<in> set (rearm now [x])" for y
    using rearm_not_due [of x now y] rearm_once [of x now] bound that by (cases "core_interval x > 0") auto
  then have "due now (mset (rearm now [x])) = {#}"
    by (force simp: filter_mset_eq_conv multiset_eq_iff not_in_iff [symmetric])
  then show "due now (pending tm1) = due now (pending tm) - due now {#x#}"
    by (simp only: assms(3) filter_union_mset filter_diff_mset add_0_right)
  show "no_wrap now tm1"
    using assms(1) late unfolding no_wrap_def assms(3) by (auto dest: in_diffD)
qed

lemma mem_size: "x \<in># A \<Longrightarrow> 0 < size A"
  by (cases "A = {#}") (simp_all add: nonempty_has_size)

lemma collected_none:
  "due now (pending tm) = {#} \<Longrightarrow> 0 \<le> room \<Longrightarrow> collected now room tm [] (pending tm)"
  by (simp add: collected_def rearm_def min_def del: filter_mset_eq_mempty_iff)

lemma collected_Cons:
  assumes x: "x \<in># pending tm" "core_end x \<le> now" "\<forall>y \<in># pending tm. core_end x \<le> core_end y"
    and P1: "pending tm1 = pending tm - {#x#} + mset (rearm now [x])"
    and d1: "due now (pending tm1) = due now (pending tm) - due now {#x#}"
    and rest: "collected now room1 tm1 fs Q"
    and room: "room = 0 \<and> room1 = 0 \<or> 0 < room1 \<and> room = room1 + 1"
  shows "collected now room tm (x # fs) Q"
proof -
  let ?P = "pending tm"
  have xdue: "x \<in># due now ?P" using x by simp
  have d2: "due now (pending tm1) = due now ?P - {#x#}" using d1 x(2) by simp
  have fsdue: "mset fs \<subseteq># due now ?P - {#x#}" using rest d2 by (simp add: collected_def)
  have fsP: "mset fs \<subseteq># ?P - {#x#}"
    using fsdue x(2) multiset_filter_subset [of "\<lambda>x. core_end x \<le> now" "?P - {#x#}"]
    by (simp add: filter_diff_mset)
  have sub: "mset (x # fs) \<subseteq># due now ?P"
    using fsdue xdue by (simp add: insert_subset_eq_iff)
  have ends: "core_end x \<le> core_end y" if "y \<in> set fs" for y
  proof -
    have "y \<in># ?P" using mset_subset_eqD [OF fsP, of y] that by (auto dest: in_diffD)
    then show ?thesis using x(3) by simp
  qed
  have behind: "core_end a \<le> core_end y" if "a \<in> set (x # fs)" "y \<in># ?P - mset (x # fs)" for a y
  proof -
    have y: "y \<in># ?P - {#x#} - mset fs" using that(2) by simp
    moreover have "?P - {#x#} - mset fs \<subseteq># pending tm1 - mset fs"
      unfolding P1 by (rule mset_subset_eqI) (simp only: count_diff count_union diff_le_mono le_add1)
    ultimately have "y \<in># pending tm1 - mset fs" by (rule mset_subset_eqD [rotated])
    moreover have "y \<in># ?P" using that(2) by (rule in_diffD)
    ultimately show ?thesis using that(1) x(3) rest by (auto simp: collected_def)
  qed
  have "int (length fs) = (if room1 > 0 then min room1 (int (size (due now ?P) - 1)) else int (size (due now ?P) - 1))"
    using rest xdue by (simp add: collected_def d2 size_Diff_singleton)
  moreover have "0 < size (due now ?P)" by (rule mem_size [OF xdue])
  ultimately have len: "int (length (x # fs)) = (if room > 0 then min room (int (size (due now ?P)))
      else int (size (due now ?P)))"
    using room by (auto simp: of_nat_diff Suc_leI min_def)
  have "Q = ?P - {#x#} + mset (rearm now [x]) - mset fs + mset (rearm now fs)"
    using rest by (simp add: collected_def P1)
  also have "\<dots> = ?P - mset (x # fs) + mset (rearm now (x # fs))"
    using multiset_diff_union_assoc [OF fsP, of "mset (rearm now [x])"]
    by (simp add: rearm_Cons [of now x fs] ac_simps)
  finally show ?thesis using sub ends behind len rest by (simp add: collected_def)
qed

text \<open>The last check of the loop finds a timer that is not due, unless the limit ended it.\<close>

definition last_check :: "int \<Rightarrow> 'c timer_manager \<Rightarrow> int" where
  "last_check limit tm =
     (if limit > 0 \<and> queue_size (tm_queue tm) \<ge> limit \<or> pending tm = {#} then 0 else 1)"

lemma wrap32u_plus [simp]: "wrap32u (wrap32u a + b) = wrap32u (a + b)"
  by (simp add: wrap32u_def mod_simps)

lemma wrap32u_idem [simp]: "wrap32u (wrap32u a) = wrap32u a"
  by (simp add: wrap32u_def)

lemma not_due:
  assumes "tm_inv tm" and "th_tq (tm_tq tm) \<noteq> [] \<Longrightarrow> now < t_end (th_store (tm_tq tm) ! (th_tq (tm_tq tm) ! 0))"
  shows "due now (pending tm) = {#}"
proof (cases "th_tq (tm_tq tm) = []")
  case True
  then show ?thesis by (simp add: timers_of_def)
next
  case False
  have "\<not> core_end x \<le> now" if x: "x \<in># pending tm" for x
  proof -
    obtain q where q: "q \<in> set (th_tq (tm_tq tm))" "x = t_core (th_store (tm_tq tm) ! q)"
      using x by (auto simp: timers_of_def)
    from heap_pop_least [OF tm_invD(1) [OF assms(1)] q(1)] assms(2) [OF False] show ?thesis
      by (simp add: q(2) t_core_def)
  qed
  then show ?thesis by simp
qed

lemma collect_ok:
  "tm_inv tm \<Longrightarrow> no_wrap now tm \<Longrightarrow> size (due now (pending tm)) < fuel \<Longrightarrow> wrap32u chk = chk \<Longrightarrow>
   (0 < limit \<Longrightarrow> queue_size (tm_queue tm) < limit) \<Longrightarrow>
   \<exists>fs ps tm'. run_collect fuel now limit chk tm =
       Some (wrap32u (chk + int (length fs) + last_check limit tm'), tm') \<and> tm_inv tm' \<and>
     collected now (if limit > 0 then limit - queue_size (tm_queue tm) else 0) tm fs (pending tm') \<and>
     queue_list (tm_queue tm') = queue_list (tm_queue tm) @ map Some ps \<and>
     map (outer_at tm) ps = map fst fs \<and> (\<forall>q. outer_at tm' q = outer_at tm q) \<and>
     th_cap (tm_tq tm') = th_cap (tm_tq tm)"
proof (induction fuel arbitrary: tm chk)
  case (Suc fuel)
  let ?tq = "th_tq (tm_tq tm)"
  show ?case
  proof (cases "?tq \<noteq> [] \<and> t_end (th_store (tm_tq tm) ! (?tq ! 0)) \<le> now")
    case False
    then have "due now (pending tm) = {#}" by (intro not_due [OF Suc.prems(1)]) simp
    then have none: "collected now (if limit > 0 then limit - queue_size (tm_queue tm) else 0) tm [] (pending tm)"
      using Suc.prems(5) by (intro collected_none) auto
    have "last_check limit tm = (if ?tq = [] then 0 else 1)"
      using Suc.prems(5) by (auto simp: last_check_def timers_of_def)
    then have "run_collect (Suc fuel) now limit chk tm = Some (wrap32u (chk + int (length []) + last_check limit tm), tm)"
      using False Suc.prems(4) by (cases "?tq = []") (simp_all add: tq_len_def Let_def)
    with none Suc.prems(1) show ?thesis
      by (intro exI [of _ "[]"] exI [of _ "[]"] exI [of _ tm]) simp
  next
    case True
    then obtain x p tm1 where st: "\<And>fuel. run_collect (Suc fuel) now limit chk tm =
        (if limit > 0 \<and> queue_size (tm_queue tm1) \<ge> limit then Some (wrap32u (chk + 1), tm1)
         else run_collect fuel now limit (wrap32u (chk + 1)) tm1)"
      and tm1: "tm_inv tm1" "x \<in># pending tm" "core_end x \<le> now" "\<forall>y \<in># pending tm. core_end x \<le> core_end y"
        "pending tm1 = pending tm - {#x#} + mset (rearm now [x])"
        "queue_list (tm_queue tm1) = queue_list (tm_queue tm) @ [Some p]"
        "outer_at tm p = fst x" "\<And>q. outer_at tm1 q = outer_at tm q" "th_cap (tm_tq tm1) = th_cap (tm_tq tm)"
      using collect_step [OF Suc.prems(1), of now limit chk] by blast
    note nw = step_no_wrap [OF Suc.prems(2) tm1(2,5)]
    have qs: "queue_size (tm_queue tm1) = queue_size (tm_queue tm) + 1"
      using lq.size_ok [OF tm_invD(2) [OF tm1(1)]] lq.size_ok [OF tm_invD(2) [OF Suc.prems(1)]] tm1(6) by simp
    have xdue: "x \<in># due now (pending tm)" using tm1(2,3) by simp
    show ?thesis
    proof (cases "limit > 0 \<and> queue_size (tm_queue tm1) \<ge> limit")
      case stop: True
      then have room: "limit - queue_size (tm_queue tm) = 1" using Suc.prems(5) qs by simp
      have "1 \<le> size (due now (pending tm))" using mem_size [OF xdue] by linarith
      then have "collected now 1 tm [x] (pending tm1)"
        using xdue tm1(4,5) by (auto simp: collected_def dest: in_diffD)
      moreover have "last_check limit tm1 = 0" using stop by (simp add: last_check_def)
      ultimately show ?thesis using st [of fuel] stop room tm1(1,6-9)
        by (intro exI [of _ "[x]"] exI [of _ "[p]"] exI [of _ tm1]) simp
    next
      case go: False
      have "size (due now (pending tm1)) < fuel"
        using Suc.prems(3) tm1(3) size_Diff_singleton [OF xdue] mem_size [OF xdue] by (simp add: nw(2))
      moreover have "0 < limit \<Longrightarrow> queue_size (tm_queue tm1) < limit" using go by simp
      ultimately obtain fs ps tm' where r: "run_collect fuel now limit (wrap32u (chk + 1)) tm1 =
          Some (wrap32u (wrap32u (chk + 1) + int (length fs) + last_check limit tm'), tm')" "tm_inv tm'"
        "collected now (if limit > 0 then limit - queue_size (tm_queue tm1) else 0) tm1 fs (pending tm')"
        "queue_list (tm_queue tm') = queue_list (tm_queue tm1) @ map Some ps"
        "map (outer_at tm1) ps = map fst fs" "\<And>q. outer_at tm' q = outer_at tm1 q"
        "th_cap (tm_tq tm') = th_cap (tm_tq tm1)"
        using Suc.IH [OF tm1(1) nw(1), of "wrap32u (chk + 1)"] by auto
      have "collected now (if limit > 0 then limit - queue_size (tm_queue tm) else 0) tm (x # fs) (pending tm')"
        using go qs by (intro collected_Cons [OF tm1(2-5) nw(2) r(3)]) auto
      moreover have "wrap32u (wrap32u (chk + 1) + int (length fs) + last_check limit tm') =
          wrap32u (chk + int (length (x # fs)) + last_check limit tm')"
        by (simp add: add.assoc)
      moreover have "map (outer_at tm) (p # ps) = map fst (x # fs)"
        using r(5) tm1(7,8) by simp
      ultimately show ?thesis using st [of fuel] go r(1,2,4,6,7) tm1(6,8,9)
        by (intro exI [of _ "x # fs"] exI [of _ "p # ps"] exI [of _ tm']) simp
    qed
  qed
qed simp

section \<open>The second loop of Run\<close>

text \<open>
  Callbacks that leave the manager alone: they change the client's state by \<open>ev\<close> and panic
  when \<open>ok\<close> does not hold for the callback object.
\<close>

definition plain_callback :: "('c \<Rightarrow> int \<Rightarrow> 'e \<Rightarrow> 'c timer_manager \<Rightarrow> bool \<times> 'e \<times> 'c timer_manager) \<Rightarrow>
    int \<Rightarrow> ('c \<Rightarrow> bool) \<Rightarrow> ('c \<Rightarrow> 'e \<Rightarrow> 'e) \<Rightarrow> bool" where
  "plain_callback cb now ok ev \<longleftrightarrow> (\<forall>c env tm. cb c now env tm = (ok c, ev c env, tm))"

text \<open>The callbacks that are called: up to the first one that panics, it included.\<close>

definition called :: "('c \<Rightarrow> bool) \<Rightarrow> 'c list \<Rightarrow> 'c list" where
  "called ok cs = takeWhile ok cs @ take 1 (dropWhile ok cs)"

lemma called_Cons: "called ok (c # cs) = c # (if ok c then called ok cs else [])"
  by (simp add: called_def)

lemma called_all: "\<forall>c \<in> set cs. ok c \<Longrightarrow> called ok cs = cs"
  by (induction cs) (auto simp: called_Cons called_def)

lemma execute_step:
  assumes "queue_inv (tm_queue tm)" and "queue_list (tm_queue tm) = Some p # xs"
  shows "\<exists>q. queue_inv q \<and> queue_list q = xs \<and>
    run_execute cb (Suc fuel) now n env tm =
      (let (returned, env1, tm1) = cb (outer_at tm p) now env (tm\<lparr>tm_queue := q\<rparr>) in
       if returned then run_execute cb fuel now (wrap32u (n + 1)) env1 tm1 else Some (None, env1, tm1))"
proof -
  obtain q where q: "queue_pop None (tm_queue tm) = Some (Some p, q)" "queue_inv q" "queue_list q = xs"
    using lq.deq_ok [OF assms] by blast
  moreover have "queue_size (tm_queue tm) > 0" using lq.size_ok [OF assms(1)] assms(2) by simp
  ultimately show ?thesis by (auto simp: Let_def)
qed

lemma execute_plain:
  "plain_callback cb now ok ev \<Longrightarrow> queue_inv (tm_queue tm) \<Longrightarrow> queue_list (tm_queue tm) = map Some ps \<Longrightarrow>
   length ps < fuel \<Longrightarrow> wrap32u n = n \<Longrightarrow>
   \<exists>q. run_execute cb fuel now n env tm =
      Some (if \<forall>c \<in> set (map (outer_at tm) ps). ok c then Some (wrap32u (n + int (length ps))) else None,
        fold ev (called ok (map (outer_at tm) ps)) env, tm\<lparr>tm_queue := q\<rparr>) \<and> queue_inv q \<and>
      queue_list q = map Some (tl (dropWhile (\<lambda>p. ok (outer_at tm p)) ps))"
proof (induction ps arbitrary: fuel n env tm)
  case Nil
  then obtain f where f: "fuel = Suc f" by (cases fuel) auto
  have "\<not> queue_size (tm_queue tm) > 0" using lq.size_ok [OF Nil.prems(2)] Nil.prems(3) by simp
  with Nil show ?case by (intro exI [of _ "tm_queue tm"]) (simp add: f called_def)
next
  case (Cons p ps)
  then obtain f where f: "fuel = Suc f" "length ps < f" by (cases fuel) auto
  obtain q where q: "queue_inv q" "queue_list q = map Some ps"
    "run_execute cb (Suc f) now n env tm =
      (let (returned, env1, tm1) = cb (outer_at tm p) now env (tm\<lparr>tm_queue := q\<rparr>) in
       if returned then run_execute cb f now (wrap32u (n + 1)) env1 tm1 else Some (None, env1, tm1))"
    using execute_step [OF Cons.prems(2), of p "map Some ps" cb f now n env] Cons.prems(3) by auto
  have cb: "cb (outer_at tm p) now env (tm\<lparr>tm_queue := q\<rparr>) = (ok (outer_at tm p), ev (outer_at tm p) env, tm\<lparr>tm_queue := q\<rparr>)"
    using Cons.prems(1) by (simp add: plain_callback_def)
  show ?case
  proof (cases "ok (outer_at tm p)")
    case True
    let ?tm1 = "tm\<lparr>tm_queue := q\<rparr>"
    obtain q' where "run_execute cb f now (wrap32u (n + 1)) (ev (outer_at tm p) env) ?tm1 =
        Some (if \<forall>c \<in> set (map (outer_at tm) ps). ok c then Some (wrap32u (wrap32u (n + 1) + int (length ps))) else None,
          fold ev (called ok (map (outer_at tm) ps)) (ev (outer_at tm p) env), tm\<lparr>tm_queue := q'\<rparr>)"
      "queue_inv q'" "queue_list q' = map Some (tl (dropWhile (\<lambda>p. ok (outer_at tm p)) ps))"
      using Cons.IH [OF Cons.prems(1), of ?tm1 f "wrap32u (n + 1)" "ev (outer_at tm p) env"] q f(2) by auto
    with True q(3) cb f(1) show ?thesis
      by (intro exI [of _ q']) (simp add: called_Cons add.assoc)
  next
    case False
    with q cb f(1) show ?thesis by (intro exI [of _ q]) (auto simp: called_Cons)
  qed
qed

section \<open>Callbacks that use the manager\<close>

text \<open>
  \<open>tm_ok M\<close>: the invariant, with no interval above \<open>M\<close>. A callback is well behaved when it
  keeps it and does not call \<open>Run\<close>, so that it leaves the execution queue alone: any use of
  \<open>AddTimer\<close> and \<open>RemoveTimer\<close> is allowed, and it may panic.
\<close>

definition tm_ok :: "int \<Rightarrow> 'c timer_manager \<Rightarrow> bool" where
  "tm_ok M tm \<longleftrightarrow> tm_inv tm \<and> (\<forall>x \<in># pending tm. core_interval x \<le> M)"

definition well_behaved :: "int \<Rightarrow> ('c \<Rightarrow> int \<Rightarrow> 'e \<Rightarrow> 'c timer_manager \<Rightarrow> bool \<times> 'e \<times> 'c timer_manager) \<Rightarrow> bool" where
  "well_behaved M cb \<longleftrightarrow> (\<forall>c now env tm b env' tm'. tm_ok M tm \<longrightarrow> cb c now env tm = (b, env', tm') \<longrightarrow>
     tm_ok M tm' \<and> tm_queue tm' = tm_queue tm)"

lemma execute_ok:
  "well_behaved M cb \<Longrightarrow> tm_ok M tm \<Longrightarrow> length (queue_list (tm_queue tm)) < fuel \<Longrightarrow>
   \<exists>r env' tm'. run_execute cb fuel now n env tm = Some (r, env', tm') \<and> tm_ok M tm'"
proof (induction fuel arbitrary: n env tm)
  case (Suc fuel)
  have inv: "tm_inv tm" using Suc.prems(2) by (simp add: tm_ok_def)
  then obtain ps where ps: "queue_list (tm_queue tm) = map Some ps" by (auto simp: tm_inv_def)
  show ?case
  proof (cases ps)
    case Nil
    then have "\<not> queue_size (tm_queue tm) > 0"
      using lq.size_ok [OF tm_invD(2) [OF inv]] ps by simp
    with Suc.prems(2) show ?thesis by simp
  next
    case (Cons p qs)
    obtain q where q: "queue_inv q" "queue_list q = map Some qs"
      "run_execute cb (Suc fuel) now n env tm =
        (let (returned, env1, tm1) = cb (outer_at tm p) now env (tm\<lparr>tm_queue := q\<rparr>) in
         if returned then run_execute cb fuel now (wrap32u (n + 1)) env1 tm1 else Some (None, env1, tm1))"
      using execute_step [OF tm_invD(2) [OF inv], of p "map Some qs" cb fuel now n env] ps Cons by auto
    have ok1: "tm_ok M (tm\<lparr>tm_queue := q\<rparr>)"
      using Suc.prems(2) q(1,2) ps Cons by (auto simp: tm_ok_def tm_inv_def)
    obtain b env1 tm1 where cb: "cb (outer_at tm p) now env (tm\<lparr>tm_queue := q\<rparr>) = (b, env1, tm1)"
      using prod_cases3 by blast
    then have tm1: "tm_ok M tm1" "tm_queue tm1 = q"
      using Suc.prems(1) ok1 unfolding well_behaved_def by fastforce+
    show ?thesis
    proof (cases b)
      case True
      have "length (queue_list (tm_queue tm1)) < fuel" using Suc.prems(3) tm1(2) q(2) ps Cons by simp
      from Suc.IH [OF Suc.prems(1) tm1(1) this] q(3) cb True show ?thesis by simp
    qed (use q(3) cb tm1 in simp)
  qed
qed simp

lemma step_interval:
  assumes "\<forall>y \<in># P. core_interval y \<le> M" and "x \<in># P" and "Q = P - {#x#} + mset (rearm now [x])"
  shows "\<forall>y \<in># Q. core_interval y \<le> M"
  using assms by (cases x) (auto simp: rearm_def dest: in_diffD)

lemma collect_total:
  "tm_ok M tm \<Longrightarrow> - (2 ^ 63) \<le> now \<Longrightarrow> now + M < 2 ^ 63 \<Longrightarrow> size (due now (pending tm)) < fuel \<Longrightarrow>
   \<exists>c tm'. run_collect fuel now limit chk tm = Some (c, tm') \<and> tm_ok M tm' \<and>
     length (queue_list (tm_queue tm')) \<le> length (queue_list (tm_queue tm)) + size (due now (pending tm))"
proof (induction fuel arbitrary: tm chk)
  case (Suc fuel)
  let ?tq = "th_tq (tm_tq tm)"
  have inv: "tm_inv tm" using Suc.prems(1) by (simp add: tm_ok_def)
  have nw: "no_wrap now tm"
    using Suc.prems(1-3) unfolding tm_ok_def no_wrap_def int64_def by fastforce
  show ?case
  proof (cases "?tq \<noteq> [] \<and> t_end (th_store (tm_tq tm) ! (?tq ! 0)) \<le> now")
    case False
    then show ?thesis using Suc.prems(1) by (cases "?tq = []") (simp_all add: tq_len_def Let_def)
  next
    case True
    then obtain x p tm1 where st: "\<And>fuel. run_collect (Suc fuel) now limit chk tm =
        (if limit > 0 \<and> queue_size (tm_queue tm1) \<ge> limit then Some (wrap32u (chk + 1), tm1)
         else run_collect fuel now limit (wrap32u (chk + 1)) tm1)"
      and tm1: "tm_inv tm1" "x \<in># pending tm" "core_end x \<le> now"
        "pending tm1 = pending tm - {#x#} + mset (rearm now [x])"
        "queue_list (tm_queue tm1) = queue_list (tm_queue tm) @ [Some p]"
      using collect_step [OF inv, of now limit chk] by blast
    have ok1: "tm_ok M tm1"
      using step_interval [OF _ tm1(2,4), of M] Suc.prems(1) tm1(1) by (simp add: tm_ok_def)
    have xdue: "x \<in># due now (pending tm)" using tm1(2,3) by simp
    have d: "size (due now (pending tm)) = Suc (size (due now (pending tm1)))"
      using step_no_wrap(2) [OF nw tm1(2,4)] tm1(3) size_Diff_singleton [OF xdue] mem_size [OF xdue] by simp
    show ?thesis
    proof (cases "limit > 0 \<and> queue_size (tm_queue tm1) \<ge> limit")
      case True
      with st [of fuel] ok1 tm1(5) d show ?thesis by simp
    next
      case False
      have "size (due now (pending tm1)) < fuel" using Suc.prems(4) d by simp
      from Suc.IH [OF ok1 Suc.prems(2,3) this, of "wrap32u (chk + 1)"] False st [of fuel] tm1(5) d
      show ?thesis by auto
    qed
  qed
qed simp

lemma run_total:
  assumes "well_behaved M cb" and "tm_ok M tm" and "- (2 ^ 63) \<le> now" and "now + M < 2 ^ 63"
    and "size (pending tm) + length (queue_list (tm_queue tm)) < fuel"
  shows "\<exists>r env' tm'. run_timers cb fuel now limit env tm = Some (r, env', tm') \<and> tm_ok M tm'"
proof -
  have le: "size (due now (pending tm)) \<le> size (pending tm)" by (simp add: size_mset_mono)
  then have "size (due now (pending tm)) < fuel" using assms(5) by linarith
  then obtain c tm1 where c: "run_collect fuel now limit 0 tm = Some (c, tm1)" "tm_ok M tm1"
    "length (queue_list (tm_queue tm1)) \<le> length (queue_list (tm_queue tm)) + size (due now (pending tm))"
    using collect_total [OF assms(2-4), of fuel limit 0] by blast
  then have "length (queue_list (tm_queue tm1)) < fuel" using le assms(5) by linarith
  from execute_ok [OF assms(1) c(2) this, of now 0 env] obtain r env' tm' where
    "run_execute cb fuel now 0 env tm1 = Some (r, env', tm')" "tm_ok M tm'" by blast
  with c(1) show ?thesis by (simp add: run_timers_def)
qed

text \<open>
  The managers a client can have: made by \<open>NewTimerManager\<close>, changed by \<open>AddTimer\<close>,
  \<open>RemoveTimer\<close> and \<open>Run\<close> with the callbacks \<open>cb\<close>, at times that leave room for the
  longest interval \<open>M\<close>.
\<close>

inductive tm_reachable :: "int \<Rightarrow> ('c \<Rightarrow> int \<Rightarrow> 'e \<Rightarrow> 'c timer_manager \<Rightarrow> bool \<times> 'e \<times> 'c timer_manager) \<Rightarrow>
    'c timer_manager \<Rightarrow> bool" for M cb where
  made: "tm_reachable M cb (new_timer_manager n)"
| added: "tm_reachable M cb tm \<Longrightarrow> v \<le> M \<Longrightarrow> add_timer c e v tm = Some (i, tm') \<Longrightarrow> tm_reachable M cb tm'"
| removed: "tm_reachable M cb tm \<Longrightarrow> remove_timer i tm = Some tm' \<Longrightarrow> tm_reachable M cb tm'"
| ran: "tm_reachable M cb tm \<Longrightarrow> - (2 ^ 63) \<le> now \<Longrightarrow> now + M < 2 ^ 63 \<Longrightarrow>
    size (pending tm) + length (queue_list (tm_queue tm)) < fuel \<Longrightarrow>
    run_timers cb fuel now limit env tm = Some (r, env', tm') \<Longrightarrow> tm_reachable M cb tm'"

lemma add_timer_keeps:
  "tm_ok M tm \<Longrightarrow> v \<le> M \<Longrightarrow> add_timer c e v tm = Some (i, tm') \<Longrightarrow> tm_ok M tm' \<and> tm_queue tm' = tm_queue tm"
proof (cases "tq_len (tm_tq tm) < th_cap (tm_tq tm)")
  case True
  assume ok: "tm_ok M tm" and v: "v \<le> M" and add: "add_timer c e v tm = Some (i, tm')"
  then obtain tm1 where "add_timer c e v tm = Some (wrap64 (tm_id tm + 1), tm1)" "tm_inv tm1"
    "pending tm1 = add_mset (c, wrap64 (tm_id tm + 1), e, v) (pending tm)" "tm_queue tm1 = tm_queue tm"
    using add_timer_ok [of tm c e v] True unfolding tm_ok_def by blast
  with ok v add show ?thesis by (simp add: tm_ok_def)
next
  case False
  assume "tm_ok M tm" and "add_timer c e v tm = Some (i, tm')"
  with False show ?thesis by (simp add: add_timer_full)
qed

lemma remove_timer_keeps:
  "tm_ok M tm \<Longrightarrow> remove_timer i tm = Some tm' \<Longrightarrow> tm_ok M tm' \<and> tm_queue tm' = tm_queue tm"
proof -
  assume ok: "tm_ok M tm" and rm: "remove_timer i tm = Some tm'"
  have inv: "tm_inv tm" using ok by (simp add: tm_ok_def)
  obtain tm1 where "remove_timer i tm = Some tm1" "tm_inv tm1" "tm_queue tm1 = tm_queue tm"
    "pending tm1 \<subseteq># pending tm"
    using remove_timer_ok [OF inv, of i] by blast
  with rm have *: "tm_inv tm'" "tm_queue tm' = tm_queue tm" "pending tm' \<subseteq># pending tm" by simp_all
  have "core_interval x \<le> M" if "x \<in># pending tm'" for x
    using ok mset_subset_eqD [OF *(3) that] by (simp add: tm_ok_def)
  with * show ?thesis by (simp add: tm_ok_def)
qed

lemma new_timer_manager_pending [simp]: "pending (new_timer_manager n) = {#}"
  by (simp add: new_timer_manager_def Let_def timers_of_def)

lemma reachable_ok: "tm_reachable M cb tm \<Longrightarrow> well_behaved M cb \<Longrightarrow> tm_ok M tm"
proof (induction rule: tm_reachable.induct)
  case (made n)
  show ?case by (simp add: tm_ok_def new_timer_manager_inv)
next
  case (ran tm now fuel limit env r env' tm')
  from run_total [OF ran(7) ran(6) [OF ran(7)] ran(2-4), of limit env] ran(5) show ?case by auto
next
  case (added tm v c e i tm')
  then show ?case using add_timer_keeps [of M tm v c e i tm'] by simp
next
  case (removed tm i tm')
  then show ?case using remove_timer_keeps [of M tm i tm'] by simp
qed

section \<open>Properties\<close>

text \<open>
  C7: consider the states that a client reaches with intervals of at most \<open>M\<close> and with \<open>Run\<close>s at times for
  which \<open>nowTm + M\<close> stays below \<open>2 ^ 63\<close>, by adding, removing and running timers, with well-behaved callbacks:
  they may add such timers, remove timers and panic, but they do not call \<open>Run\<close>. In every such state every timer
  of the queue stores its own position, so that \<open>RemoveTimer\<close> finds it, and the first one has the least end;
  \<open>AddTimer\<close> and \<open>RemoveTimer\<close> do not panic; and \<open>Run\<close>, at a time for which \<open>nowTm + M\<close> stays below \<open>2 ^ 63\<close>,
  returns within a number of rounds given by the timers that wait or are queued. Without the bound
  \<open>Run\<close> may not return, see \<open>run_overflow_spins\<close>.
\<close>

theorem timers_reachable_safe:
  assumes "well_behaved M cb" and "tm_reachable M cb tm"
  shows "(\<forall>i < length (th_tq (tm_tq tm)). t_index (th_store (tm_tq tm) ! (th_tq (tm_tq tm) ! i)) = int i \<and>
      t_end (th_store (tm_tq tm) ! (th_tq (tm_tq tm) ! 0)) \<le> t_end (th_store (tm_tq tm) ! (th_tq (tm_tq tm) ! i))) \<and>
    add_timer c e v tm \<noteq> None \<and> remove_timer i tm \<noteq> None \<and>
    (- (2 ^ 63) \<le> now \<and> now + M < 2 ^ 63 \<and> size (pending tm) + length (queue_list (tm_queue tm)) < fuel \<longrightarrow>
      run_timers cb fuel now limit env tm \<noteq> None)"
proof (intro conjI impI)
  have ok: "tm_ok M tm" by (rule reachable_ok [OF assms(2,1)])
  then have inv: "tm_inv tm" by (simp add: tm_ok_def)
  show "\<forall>i < length (th_tq (tm_tq tm)). t_index (th_store (tm_tq tm) ! (th_tq (tm_tq tm) ! i)) = int i \<and>
      t_end (th_store (tm_tq tm) ! (th_tq (tm_tq tm) ! 0)) \<le> t_end (th_store (tm_tq tm) ! (th_tq (tm_tq tm) ! i))"
    using tm_invD(3) [OF inv] heap_pop_least [OF tm_invD(1) [OF inv] nth_mem] by (simp add: th_inv_def)
  show "add_timer c e v tm \<noteq> None"
    using add_timer_ok [OF inv, of c e v] by (cases "tq_len (tm_tq tm) < th_cap (tm_tq tm)") (auto simp: add_timer_full)
  show "remove_timer i tm \<noteq> None" using remove_timer_ok [OF inv, of i] by auto
  show "run_timers cb fuel now limit env tm \<noteq> None"
    if "- (2 ^ 63) \<le> now \<and> now + M < 2 ^ 63 \<and> size (pending tm) + length (queue_list (tm_queue tm)) < fuel"
    using run_total [OF assms(1) ok, of now fuel limit env] that by auto
qed

text \<open>A callback that starts a new timer with a short interval: a use that is well behaved.\<close>

definition chain_callback :: "nat \<Rightarrow> int \<Rightarrow> nat \<Rightarrow> nat timer_manager \<Rightarrow> bool \<times> nat \<times> nat timer_manager" where
  "chain_callback c now n tm =
     (case add_timer c (now + 5) 5 tm of Some (i, tm') \<Rightarrow> (True, Suc n, tm') | None \<Rightarrow> (False, n, tm))"

lemma chain_callback_ok: "well_behaved 10 chain_callback"
  unfolding well_behaved_def chain_callback_def
  by (auto split: option.splits dest: add_timer_keeps [where M = 10 and v = 5])

lemma first_timer:
  "\<exists>tm. add_timer c e v (new_timer_manager 3) = Some (1, tm) \<and> tm_inv tm \<and>
     pending tm = {#(c, 1, e, v)#} \<and> queue_list (tm_queue tm) = []"
proof -
  have w: "wrap64 (tm_id (new_timer_manager 3) + 1) = 1"
    by (simp add: new_timer_manager_def Let_def int64_def)
  have room: "tq_len (tm_tq (new_timer_manager 3)) < th_cap (tm_tq (new_timer_manager 3))"
    and q: "queue_list (tm_queue (new_timer_manager 3)) = []"
    by (simp_all add: new_timer_manager_def tq_len_def Let_def)
  from add_timer_ok [OF new_timer_manager_inv room, of c e v] show ?thesis by (auto simp: w q)
qed

theorem timers_reachable_safe_witness:
  "\<exists>tm. add_timer 1 5 5 (new_timer_manager 3) = Some (1, tm) \<and> run_timers chain_callback 4 7 0 0 tm \<noteq> None"
proof -
  obtain tm where tm: "add_timer (1::nat) 5 5 (new_timer_manager 3) = Some (1, tm)"
    "pending tm = {#(1, 1, 5, 5)#}" "queue_list (tm_queue tm) = []"
    using first_timer [of "1::nat" 5 5] by blast
  have "tm_reachable 10 chain_callback tm"
    by (rule tm_reachable.added [OF tm_reachable.made _ tm(1)]) simp
  from timers_reachable_safe [OF chain_callback_ok this, of 0 0 0 0 7 4 0 0] tm show ?thesis by auto
qed

text \<open>
  C5: under two conditions, a \<open>Run\<close> without leftovers in its queue calls exactly the timers that are due,
  each once, in the order of their end, and with a positive limit the earliest \<open>limit\<close> of them; a timer that
  is not called stays as it is, a repeating one that is called waits again until
  \<open>nowTm + interval\<close>, any other that is called is gone. It returns how many timers it called and
  how many it looked at. The conditions: the callbacks neither panic nor touch the manager
  (\<^const>\<open>plain_callback\<close>; for callbacks that panic see \<open>run_panic_keeps_queue\<close>), and for no
  repeating timer does \<open>nowTm + interval\<close> leave the 64-bit range (\<^const>\<open>no_wrap\<close>; without it
  \<open>Run\<close> need not return, see \<open>run_overflow_spins\<close>).
\<close>

theorem run_calls_due_timers:
  assumes "tm_inv tm" and "queue_list (tm_queue tm) = []" and "no_wrap now tm"
    and "plain_callback cb now (\<lambda>c. True) ev" and "size (pending tm) < fuel"
  shows "\<exists>fs tm'. run_timers cb fuel now limit env tm =
      Some ((wrap32u (int (length fs) + (if 0 < limit \<and> limit \<le> int (length fs) \<or> pending tm' = {#} then 0 else 1)),
             wrap32u (int (length fs))),
            fold ev (map fst fs) env, tm') \<and>
    collected now limit tm fs (pending tm') \<and> tm_inv tm' \<and> queue_list (tm_queue tm') = []"
proof -
  have size0: "queue_size (tm_queue tm) = 0" using lq.size_ok [OF tm_invD(2) [OF assms(1)]] assms(2) by simp
  have le: "size (due now (pending tm)) \<le> size (pending tm)" by (simp add: size_mset_mono)
  have w0: "wrap32u 0 = 0" by (simp add: wrap32u_def)
  obtain fs ps tm1 where c: "run_collect fuel now limit 0 tm =
       Some (wrap32u (0 + int (length fs) + last_check limit tm1), tm1)" "tm_inv tm1"
     "collected now (if limit > 0 then limit - queue_size (tm_queue tm) else 0) tm fs (pending tm1)"
     "queue_list (tm_queue tm1) = queue_list (tm_queue tm) @ map Some ps"
     "map (outer_at tm) ps = map fst fs" "\<forall>q. outer_at tm1 q = outer_at tm q"
    using collect_ok [OF assms(1,3), of fuel 0 limit] size0 w0 le assms(5) by force
  have col: "collected now limit tm fs (pending tm1)"
    using c(3) by (auto simp: collected_def size0 split: if_splits)
  have len: "length ps = length fs" using c(5) by (metis length_map)
  have q: "queue_list (tm_queue tm1) = map Some ps" using c(4) assms(2) by simp
  have outs: "map (outer_at tm1) ps = map fst fs" using c(5,6) by simp
  have "length fs \<le> size (due now (pending tm))"
    using col size_mset_mono [of "mset fs"] by (simp add: collected_def)
  then have "length ps < fuel" using len le assms(5) by linarith
  from execute_plain [OF assms(4) tm_invD(2) [OF c(2)] q this w0, of env] obtain q1 where
    x: "run_execute cb fuel now 0 env tm1 = Some (Some (wrap32u (int (length fs))), fold ev (map fst fs) env,
        tm1\<lparr>tm_queue := q1\<rparr>)" "queue_inv q1" "queue_list q1 = []"
    by (auto simp: outs len called_all dropWhile_eq_Nil_conv [THEN iffD2])
  have "last_check limit tm1 = (if 0 < limit \<and> limit \<le> int (length fs) \<or> pending tm1 = {#} then 0 else 1)"
    using lq.size_ok [OF tm_invD(2) [OF c(2)]] q len by (simp add: last_check_def)
  with c(1) x(1) have "run_timers cb fuel now limit env tm =
      Some ((wrap32u (int (length fs) + (if 0 < limit \<and> limit \<le> int (length fs) \<or> pending tm1 = {#} then 0 else 1)),
             wrap32u (int (length fs))), fold ev (map fst fs) env, tm1\<lparr>tm_queue := q1\<rparr>)"
    by (simp add: run_timers_def)
  moreover have "tm_inv (tm1\<lparr>tm_queue := q1\<rparr>)" using c(2) x(2,3) by (simp add: tm_inv_def)
  ultimately show ?thesis using col x(3) by (intro exI [of _ fs] exI [of _ "tm1\<lparr>tm_queue := q1\<rparr>"]) simp
qed

text \<open>A callback that records its object and the time.\<close>

definition log_callback :: "nat \<Rightarrow> int \<Rightarrow> nat list \<Rightarrow> nat timer_manager \<Rightarrow> bool \<times> nat list \<times> nat timer_manager" where
  "log_callback c now env tm = (True, env @ [c], tm)"

theorem run_calls_due_timers_witness:
  "\<exists>tm fs tm'. add_timer 8 5 5 (new_timer_manager 3) = Some (1, tm) \<and>
     run_timers log_callback 9 7 0 [] tm = Some ((2, 1), [8], tm') \<and>
     pending tm' = {#(8, 1, 12, 5)#}"
proof -
  obtain tm where tm: "add_timer 8 5 5 (new_timer_manager 3) = Some (1, tm)" "tm_inv tm"
    "pending tm = {#(8::nat, 1, 5, 5)#}" "queue_list (tm_queue tm) = []"
    using first_timer [of "8::nat" 5 5] by blast
  have cb: "plain_callback log_callback 7 (\<lambda>c. True) (\<lambda>c env. env @ [c])"
    by (simp add: plain_callback_def log_callback_def)
  have "no_wrap 7 tm" by (simp add: no_wrap_def tm(3) int64_def)
  from run_calls_due_timers [OF tm(2,4) this cb, of 9 0 "[]"] tm(3) obtain fs tm' where
    r: "run_timers log_callback 9 7 0 [] tm = Some ((wrap32u (int (length fs) + (if pending tm' = {#} then 0 else 1)),
       wrap32u (int (length fs))), fold (\<lambda>c env. env @ [c]) (map fst fs) [], tm')"
    "collected 7 0 tm fs (pending tm')" by auto
  from r(2) have "length fs = 1" and sub: "mset fs \<subseteq># {#(8, 1, 5, 5)#}" by (simp_all add: collected_def tm(3))
  then obtain x where "fs = [x]" by (cases fs) auto
  with sub have fs: "fs = [(8, 1, 5, 5)]" by simp
  with r(2) have "pending tm' = {#(8, 1, 12, 5)#}" by (simp add: collected_def tm(3) rearm_def int64_def)
  with tm(1) r(1) fs show ?thesis by (auto simp: wrap32u_def)
qed

text \<open>
  a callback that panics does not lose the timers behind it. \<open>Run\<close> reports nothing, as
  \<open>(0, 0)\<close>, but those timers stay in the execution queue, in order, for the next \<open>Run\<close>;
  the ones in front of it and itself were called and are not called again.
\<close>

theorem run_panic_keeps_queue:
  assumes "tm_inv tm" and "queue_list (tm_queue tm) = []" and "no_wrap now tm"
    and "plain_callback cb now ok ev" and "size (pending tm) < fuel"
    and "run_timers cb fuel now limit env tm = Some (r, env', tm')"
  shows "\<exists>fs ps. collected now limit tm fs (pending tm') \<and> tm_inv tm' \<and>
     env' = fold ev (called ok (map fst fs)) env \<and>
     queue_list (tm_queue tm') = map Some ps \<and> map (outer_at tm') ps = tl (dropWhile ok (map fst fs)) \<and>
     (r = (0, 0) \<or> ps = [])"
proof -
  have size0: "queue_size (tm_queue tm) = 0" using lq.size_ok [OF tm_invD(2) [OF assms(1)]] assms(2) by simp
  have le: "size (due now (pending tm)) \<le> size (pending tm)" by (simp add: size_mset_mono)
  have w0: "wrap32u 0 = 0" by (simp add: wrap32u_def)
  obtain fs ps tm1 where c: "run_collect fuel now limit 0 tm =
       Some (wrap32u (0 + int (length fs) + last_check limit tm1), tm1)" "tm_inv tm1"
     "collected now (if limit > 0 then limit - queue_size (tm_queue tm) else 0) tm fs (pending tm1)"
     "queue_list (tm_queue tm1) = queue_list (tm_queue tm) @ map Some ps"
     "map (outer_at tm) ps = map fst fs" "\<forall>q. outer_at tm1 q = outer_at tm q"
    using collect_ok [OF assms(1,3), of fuel 0 limit] size0 w0 le assms(5) by force
  have col: "collected now limit tm fs (pending tm1)"
    using c(3) by (auto simp: collected_def size0 split: if_splits)
  have len: "length ps = length fs" using c(5) by (metis length_map)
  have q: "queue_list (tm_queue tm1) = map Some ps" using c(4) assms(2) by simp
  have outs: "map (outer_at tm1) ps = map fst fs" using c(5,6) by simp
  have "length fs \<le> size (due now (pending tm))"
    using col size_mset_mono [of "mset fs"] by (simp add: collected_def)
  then have "length ps < fuel" using len le assms(5) by linarith
  from execute_plain [OF assms(4) tm_invD(2) [OF c(2)] q this w0, of env] obtain q1 where
    x: "run_execute cb fuel now 0 env tm1 =
        Some (if \<forall>c \<in> set (map fst fs). ok c then Some (wrap32u (0 + int (length ps))) else None,
          fold ev (called ok (map fst fs)) env, tm1\<lparr>tm_queue := q1\<rparr>)" "queue_inv q1"
      "queue_list q1 = map Some (tl (dropWhile (\<lambda>p. ok (outer_at tm1 p)) ps))"
    unfolding outs by blast
  define rest where "rest = tl (dropWhile (\<lambda>p. ok (outer_at tm1 p)) ps)"
  have tm': "tm' = tm1\<lparr>tm_queue := q1\<rparr>" "env' = fold ev (called ok (map fst fs)) env"
    using assms(6) c(1) x(1) by (auto simp: run_timers_def)
  have "map (outer_at tm1) rest = tl (dropWhile ok (map fst fs))"
    unfolding outs [symmetric] dropWhile_map rest_def by (simp add: map_tl comp_def)
  moreover have "r = (0, 0) \<or> rest = []"
  proof (cases "\<forall>c \<in> set (map fst fs). ok c")
    case True
    then have "\<forall>c \<in> set (map (outer_at tm1) ps). ok c" by (simp only: outs)
    then show ?thesis by (simp add: rest_def dropWhile_eq_Nil_conv [THEN iffD2])
  next
    case False
    then have no: "(if \<forall>c \<in> set (map fst fs). ok c then Some (wrap32u (0 + int (length ps))) else None) = None"
      by (rule if_not_P)
    from assms(6) c(1) x(1) [unfolded no] show ?thesis by (auto simp: run_timers_def)
  qed
  moreover have "set rest \<subseteq> set ps" unfolding rest_def
    by (metis (no_types, lifting) list.set_sel(2) set_dropWhileD subsetI tl_Nil)
  then have "tm_inv tm'" using c(2) x(2,3) q by (auto simp: tm_inv_def tm' rest_def [symmetric])
  ultimately show ?thesis using col x(3) tm'
    by (intro exI [of _ fs] exI [of _ rest]) (simp add: rest_def)
qed

lemma plain_well_behaved:
  "(\<And>now. plain_callback cb now ok ev) \<Longrightarrow> well_behaved M cb"
  by (auto simp: plain_callback_def well_behaved_def)

lemma add_store:
  assumes "tm_inv tm" and "tq_len (tm_tq tm) < th_cap (tm_tq tm)" and "add_timer c e v tm = Some (i, tm1)"
  shows "length (th_store (tm_tq tm1)) = Suc (length (th_store (tm_tq tm)))"
proof -
  let ?st = "th_store (tm_tq tm)"
  let ?t = "\<lparr>t_outer = c, t_id = wrap64 (tm_id tm + 1), t_end = e, t_interval = v, t_index = 0\<rparr>"
  note D = tm_invD [OF assms(1)]
  have "timer_heap_ok ((tm_tq tm)\<lparr>th_store := ?st @ [?t]\<rparr>)"
    using store_update_ok [OF D(1), of "?st @ [?t]"] D(4) by (simp add: nth_append)
  then obtain h where "heap_push (length ?st) ((tm_tq tm)\<lparr>th_store := ?st @ [?t]\<rparr>) = Some h"
    "kept ((tm_tq tm)\<lparr>th_store := ?st @ [?t]\<rparr>) h"
    using push_timers [of "(tm_tq tm)\<lparr>th_store := ?st @ [?t]\<rparr>" "length ?st"] assms(2) D(4)
    by (fastforce simp: tq_len_def)
  with assms(2,3) show ?thesis by (auto simp: add_timer_def Let_def kept_def)
qed

lemma two_timers:
  fixes c d :: 'c
  shows "\<exists>tm. tm_inv tm \<and> pending tm = {#(c, 1, e, v), (d, 2, f, w)#} \<and> queue_list (tm_queue tm) = [] \<and>
     length (th_store (tm_tq tm)) = 2 \<and> th_cap (tm_tq tm) = 3 \<and>
     do { (i, tm1) \<leftarrow> add_timer c e v (new_timer_manager 3); add_timer d f w tm1 } = Some (2, tm)"
proof -
  let ?n = "new_timer_manager 3 :: 'c timer_manager"
  have n: "tm_id ?n = 0" "tq_len (tm_tq ?n) = 0" "th_cap (tm_tq ?n) = 3" "queue_list (tm_queue ?n) = []"
    by (simp_all add: new_timer_manager_def tq_len_def Let_def)
  have size_tq: "length (th_tq (tm_tq tm)) = size (pending tm)" for tm :: "'c timer_manager"
    by (simp add: timers_of_def)
  have w: "wrap64 (tm_id ?n + 1) = 1" by (simp add: n int64_def)
  have room0: "tq_len (tm_tq ?n) < th_cap (tm_tq ?n)" by (simp add: n)
  from add_timer_ok [OF new_timer_manager_inv room0, of c e v] obtain t1 where
    t1: "add_timer c e v ?n = Some (1, t1)" "tm_inv t1" "pending t1 = {#(c, 1, e, v)#}"
      "tm_queue t1 = tm_queue ?n" "tm_id t1 = 1" "th_cap (tm_tq t1) = th_cap (tm_tq ?n)"
    unfolding w new_timer_manager_pending by (elim exE conjE) (rule that; assumption)
  have room: "tq_len (tm_tq t1) < th_cap (tm_tq t1)" by (simp add: tq_len_def size_tq t1(3,6) n)
  have w2: "wrap64 (tm_id t1 + 1) = 2" by (simp add: t1(5) int64_def)
  from add_timer_ok [OF t1(2) room, of d f w] obtain t2 where
    t2: "add_timer d f w t1 = Some (2, t2)" "tm_inv t2" "pending t2 = {#(d, 2, f, w), (c, 1, e, v)#}"
      "tm_queue t2 = tm_queue t1" "th_cap (tm_tq t2) = th_cap (tm_tq t1)"
    unfolding w2 t1(3) by (elim exE conjE) (rule that; assumption)
  have "length (th_store (tm_tq t2)) = 2"
    using add_store [OF t1(2) room t2(1)] add_store [OF new_timer_manager_inv room0 t1(1)]
    by (simp add: new_timer_manager_def Let_def)
  with t1(1,4,6) t2 n(3,4) show ?thesis by (intro exI [of _ t2]) (simp add: add_mset_commute)
qed

lemma collected_two:
  assumes "collected now limit tm fs Q" and "pending tm = {#a, b#}" and "core_end a < core_end b"
    and "core_end b \<le> now" and "limit \<le> 0"
  shows "fs = [a, b]"
proof -
  have d: "due now (pending tm) = {#a, b#}" using assms(2-4) by simp
  have "length fs = 2" and "mset fs \<subseteq># {#a, b#}" and sorted: "sorted (map core_end fs)"
    using assms(1,5) by (simp_all add: collected_def d)
  moreover have "\<not> mset fs \<subset># {#a, b#}"
    using mset_subset_size [of "mset fs" "{#a, b#}"] \<open>length fs = 2\<close> by auto
  ultimately have "mset fs = {#a, b#}" by (simp add: subset_mset.less_le)
  with \<open>length fs = 2\<close> obtain x y where fs: "fs = [x, y]" "{#x, y#} = {#a, b#}"
    by (auto simp: length_Suc_conv numeral_2_eq_2)
  with sorted assms(3) show ?thesis by (auto simp: add_eq_conv_ex)
qed

definition picky_callback :: "nat \<Rightarrow> int \<Rightarrow> nat list \<Rightarrow> nat timer_manager \<Rightarrow> bool \<times> nat list \<times> nat timer_manager" where
  "picky_callback c now env tm = (c \<noteq> 1, env @ [c], tm)"

theorem run_panic_keeps_queue_witness:
  "\<exists>tm tm' p. do { (i, tm1) \<leftarrow> add_timer 1 5 0 (new_timer_manager 3); add_timer 2 6 0 tm1 } = Some (2, tm) \<and>
     run_timers picky_callback 9 7 0 [] tm = Some ((0, 0), [1], tm') \<and> pending tm' = {#} \<and>
     queue_list (tm_queue tm') = [Some p] \<and> outer_at tm' p = 2"
proof -
  obtain tm where tm: "tm_inv tm" "pending tm = {#(1::nat, 1, 5, 0), (2, 2, 6, 0)#}" "queue_list (tm_queue tm) = []"
    "do { (i, tm1) \<leftarrow> add_timer 1 5 0 (new_timer_manager 3); add_timer 2 6 0 tm1 } = Some (2, tm)"
    using two_timers [of "1::nat" 5 0 2 6 0] by blast
  have cb: "plain_callback picky_callback now (\<lambda>c. c \<noteq> 1) (\<lambda>c env. env @ [c])" for now
    by (simp add: plain_callback_def picky_callback_def)
  have nw: "no_wrap 7 tm" by (simp add: no_wrap_def tm(2))
  have "tm_ok 10 tm" using tm(1,2) by (simp add: tm_ok_def)
  from run_total [OF plain_well_behaved [OF cb] this, of 7 9 0 "[]"] obtain r env' tm' where
    run: "run_timers picky_callback 9 7 0 [] tm = Some (r, env', tm')" by (auto simp: tm(2,3))
  from run_panic_keeps_queue [OF tm(1,3) nw cb _ run] obtain fs ps where
    o: "collected 7 0 tm fs (pending tm')" "env' = fold (\<lambda>c env. env @ [c]) (called (\<lambda>c. c \<noteq> 1) (map fst fs)) []"
      "queue_list (tm_queue tm') = map Some ps" "map (outer_at tm') ps = tl (dropWhile (\<lambda>c. c \<noteq> 1) (map fst fs))"
      "r = (0, 0) \<or> ps = []"
    by (auto simp: tm(2))
  have fs: "fs = [(1, 1, 5, 0), (2, 2, 6, 0)]" by (rule collected_two [OF o(1) tm(2)]) simp_all
  then have "map (outer_at tm') ps = [2]" using o(4) by simp
  then obtain p where ps: "ps = [p]" "outer_at tm' p = 2" by (auto simp: map_eq_Cons_conv)
  moreover have "pending tm' = {#}" using o(1) by (simp add: collected_def fs tm(2) rearm_def)
  moreover have "env' = [1]" using o(2) by (simp add: fs called_Cons)
  ultimately show ?thesis using tm(4) run o(3,5) by auto
qed

text \<open>
  \<open>AddTimer\<close> on a full queue returns 0 and changes nothing; otherwise it returns a new
  positive id that no waiting timer has, and \<open>RemoveTimer\<close> with that id takes exactly that
  timer out again.
\<close>

theorem add_then_remove_timer:
  assumes "tm_inv tm" and "int (length (th_store (tm_tq tm))) < 2 ^ 63 - 1"
  shows "if th_cap (tm_tq tm) \<le> int (size (pending tm)) then add_timer c e v tm = Some (0, tm)
    else \<exists>i tm1 tm2. add_timer c e v tm = Some (i, tm1) \<and> 0 < i \<and> (\<forall>x \<in># pending tm. fst (snd x) \<noteq> i) \<and>
      pending tm1 = add_mset (c, i, e, v) (pending tm) \<and>
      remove_timer i tm1 = Some tm2 \<and> pending tm2 = pending tm"
proof -
  have size_tq: "tq_len (tm_tq tm) = int (size (pending tm))" by (simp add: timers_of_def tq_len_def)
  define n where "n = length (th_store (tm_tq tm))"
  define i where "i = int n + 1"
  have i: "wrap64 (tm_id tm + 1) = i" "0 < i"
    using assms by (simp_all add: tm_inv_def i_def n_def int64_def)
  have fresh: "fst (snd x) \<noteq> i" if x: "x \<in># pending tm" for x
  proof -
    obtain p where p: "p \<in> set (th_tq (tm_tq tm))" "x = t_core (th_store (tm_tq tm) ! p)"
      using x by (auto simp: timers_of_def)
    then have "p < n" using tm_invD(4) [OF assms(1)] by (simp add: n_def)
    then have "t_id (th_store (tm_tq tm) ! p) = int p + 1"
      using assms by (simp add: tm_inv_def n_def int64_def)
    with \<open>p < n\<close> show ?thesis by (simp add: p(2) t_core_def i_def)
  qed
  show ?thesis
  proof (cases "th_cap (tm_tq tm) \<le> int (size (pending tm))")
    case True
    then show ?thesis by (simp add: add_timer_full size_tq)
  next
    case False
    then have room: "tq_len (tm_tq tm) < th_cap (tm_tq tm)" by (simp add: size_tq)
    from add_timer_ok [OF assms(1) room, of c e v] obtain tm1 where
      t1: "add_timer c e v tm = Some (i, tm1)" "tm_inv tm1" "pending tm1 = add_mset (c, i, e, v) (pending tm)"
        "tm_id tm1 = i"
      unfolding i(1) by blast
    have len: "int (length (th_store (tm_tq tm1))) < 2 ^ 63"
      using add_store [OF assms(1) room t1(1)] assms(2) by simp
    from remove_timer_ok [OF t1(2), of i] len obtain tm2 where
      "remove_timer i tm1 = Some tm2" "pending tm2 = filter_mset (\<lambda>x. fst (snd x) \<noteq> i) (pending tm1)" by blast
    moreover have "filter_mset (\<lambda>x. fst (snd x) \<noteq> i) (pending tm) = pending tm"
      using fresh by (simp add: filter_mset_eq_conv)
    ultimately show ?thesis using False t1 i(2) fresh by (simp add: t1(3))
  qed
qed

theorem add_then_remove_timer_witness:
  "\<exists>tm i tm1 tm2. do { (i, tm1) \<leftarrow> add_timer 1 5 0 (new_timer_manager 3); add_timer 2 6 0 tm1 } = Some (2, tm) \<and>
     add_timer (7::nat) 9 4 tm = Some (i, tm1) \<and> remove_timer i tm1 = Some tm2 \<and>
     pending tm2 = {#(1, 1, 5, 0), (2, 2, 6, 0)#}"
proof -
  obtain tm where tm: "tm_inv tm" "pending tm = {#(1::nat, 1, 5, 0), (2, 2, 6, 0)#}"
    "length (th_store (tm_tq tm)) = 2" "th_cap (tm_tq tm) = 3"
    "do { (i, tm1) \<leftarrow> add_timer 1 5 0 (new_timer_manager 3); add_timer 2 6 0 tm1 } = Some (2, tm)"
    using two_timers [of "1::nat" 5 0 2 6 0] by blast
  have "int (length (th_store (tm_tq tm))) < 2 ^ 63 - 1" by (simp add: tm(3))
  from add_then_remove_timer [OF tm(1) this, of 7 9 4] tm show ?thesis by (simp add: tm(2)) blast
qed

text \<open>
  \<open>Run\<close> without a limit does not return when \<open>nowTm + interval\<close> leaves the 64-bit range
  for a due timer: the sum wraps around to a time in the past, the timer is due again at once and
  the loop goes on queueing it, for any amount of fuel.
\<close>

theorem run_overflow_spins:
  assumes "tm_inv tm" and "pending tm = {#(c, i, e, v)#}" and "e \<le> now" and "0 < v"
    and "wrap64 (now + v) \<le> now" and "limit \<le> 0"
  shows "run_timers cb fuel now limit env tm = None"
proof -
  have "run_collect fuel now limit chk tm = None" for chk
    using assms
  proof (induction fuel arbitrary: tm e chk)
    case (Suc fuel)
    have ne: "th_tq (tm_tq tm) \<noteq> []" using Suc.prems(2) by (auto simp: timers_of_def)
    then have "t_core (th_store (tm_tq tm) ! (th_tq (tm_tq tm) ! 0)) \<in># pending tm"
      by (simp add: timers_of_def)
    then have "t_end (th_store (tm_tq tm) ! (th_tq (tm_tq tm) ! 0)) \<le> now"
      using Suc.prems(2,3) by (simp add: t_core_def)
    from collect_step [OF Suc.prems(1) ne this, of limit chk] Suc.prems(2,6) obtain tm1 where
      st: "run_collect (Suc fuel) now limit chk tm = run_collect fuel now limit (wrap32u (chk + 1)) tm1"
        "tm_inv tm1" "pending tm1 = mset (rearm now [(c, i, e, v)])"
      by auto
    from st(3) have "pending tm1 = {#(c, i, wrap64 (now + v), v)#}" using Suc.prems(4) by (simp add: rearm_def)
    from Suc.IH [OF st(2) this Suc.prems(5,4,5,6)] st(1) show ?case by simp
  qed simp
  then show ?thesis by (simp add: run_timers_def)
qed

theorem run_overflow_spins_witness:
  "\<exists>tm. add_timer 8 5 (2 ^ 63 - 1) (new_timer_manager 3) = Some (1, tm) \<and>
     (\<forall>fuel. run_timers log_callback fuel 7 0 [] tm = None)"
proof -
  obtain tm where tm: "add_timer (8::nat) 5 (2 ^ 63 - 1) (new_timer_manager 3) = Some (1, tm)" "tm_inv tm"
    "pending tm = {#(8::nat, 1, 5, 2 ^ 63 - 1)#}"
    using first_timer [of "8::nat" 5 "2 ^ 63 - 1"] by blast
  have "wrap64 (7 + (2 ^ 63 - 1)) \<le> 7" by (simp add: wrap64_def)
  then have "run_timers log_callback fuel 7 0 [] tm = None" for fuel
    by (intro run_overflow_spins [OF tm(2,3)]) simp_all
  with tm(1) show ?thesis by blast
qed

end
