(* ===== verification/Go_Chan.thy ===== *)
theory Go_Chan
  imports Queue_Model
begin

text \<open>
  Go channels, as the sources use them. A channel has a buffer of a fixed capacity and, when it
  is full, senders that wait in the order of their arrival. An operation that would block has
  no result and the step that contains it is not enabled; sending on a closed channel and
  closing it twice panic, which is \<^term>\<open>None\<close>.
\<close>

section \<open>Operations\<close>

record 'a chan =
  ch_buf :: "'a list"
  ch_wait :: "'a list"
  ch_cap :: nat
  ch_closed :: bool

definition make_chan :: "nat \<Rightarrow> 'a chan" where
  "make_chan n = \<lparr>ch_buf = [], ch_wait = [], ch_cap = n, ch_closed = False\<rparr>"

text \<open>\<open>ch <- x\<close>: the value is in the buffer, or its sender waits.\<close>

definition chan_send :: "'a \<Rightarrow> 'a chan \<Rightarrow> 'a chan option" where
  "chan_send x c =
     (if ch_closed c then None
      else if length (ch_buf c) < ch_cap c then Some (c\<lparr>ch_buf := ch_buf c @ [x]\<rparr>)
      else Some (c\<lparr>ch_wait := ch_wait c @ [x]\<rparr>))"

text \<open>
  \<open>select\<close> with the send as its only case and a \<open>default\<close>: whether the value was sent. The
  sources use it on channels with a buffer only.
\<close>

definition chan_try_send :: "'a \<Rightarrow> 'a chan \<Rightarrow> (bool \<times> 'a chan) option" where
  "chan_try_send x c =
     (if ch_closed c then None
      else if length (ch_buf c) < ch_cap c then Some (True, c\<lparr>ch_buf := ch_buf c @ [x]\<rparr>)
      else Some (False, c))"

text \<open>
  \<open>x, ok := <-ch\<close>: \<^term>\<open>None\<close> if it blocks, \<open>Some (None, c)\<close> if the channel is closed
  and empty. The first waiting sender takes the place that becomes free.
\<close>

definition chan_recv :: "'a chan \<Rightarrow> ('a option \<times> 'a chan) option" where
  "chan_recv c =
     (case ch_buf c of
        x # xs \<Rightarrow> (case ch_wait c of
            [] \<Rightarrow> Some (Some x, c\<lparr>ch_buf := xs\<rparr>)
          | w # ws \<Rightarrow> Some (Some x, c\<lparr>ch_buf := xs @ [w], ch_wait := ws\<rparr>))
      | [] \<Rightarrow> (case ch_wait c of
            [] \<Rightarrow> if ch_closed c then Some (None, c) else None
          | w # ws \<Rightarrow> Some (Some w, c\<lparr>ch_wait := ws\<rparr>)))"

text \<open>\<open>close(ch)\<close>: the senders that wait panic; they are returned.\<close>

definition chan_close :: "'a chan \<Rightarrow> ('a list \<times> 'a chan) option" where
  "chan_close c = (if ch_closed c then None else Some (ch_wait c, c\<lparr>ch_closed := True, ch_wait := []\<rparr>))"

section \<open>Laws\<close>

definition chan_inv :: "'a chan \<Rightarrow> bool" where
  "chan_inv c \<longleftrightarrow> length (ch_buf c) \<le> ch_cap c \<and> (ch_wait c \<noteq> [] \<longrightarrow> length (ch_buf c) = ch_cap c) \<and>
     (ch_closed c \<longrightarrow> ch_wait c = [])"

text \<open>Everything on its way through the channel, in order.\<close>

definition ch_all :: "'a chan \<Rightarrow> 'a list" where
  "ch_all c = ch_buf c @ ch_wait c"

lemma make_chan_simps [simp]:
  "chan_inv (make_chan n)" "ch_all (make_chan n) = []" "\<not> ch_closed (make_chan n)" "ch_cap (make_chan n) = n"
  by (simp_all add: make_chan_def chan_inv_def ch_all_def)

lemma chan_send_ok:
  "chan_inv c \<Longrightarrow> \<not> ch_closed c \<Longrightarrow>
   \<exists>d. chan_send x c = Some d \<and> chan_inv d \<and> ch_all d = ch_all c @ [x] \<and> \<not> ch_closed d \<and> ch_cap d = ch_cap c"
  by (auto simp: chan_send_def chan_inv_def ch_all_def)

lemma chan_try_send_ok:
  "chan_inv c \<Longrightarrow> chan_try_send x c = Some (b, d) \<Longrightarrow>
   chan_inv d \<and> \<not> ch_closed d \<and> ch_cap d = ch_cap c \<and>
   (if b then ch_wait c = [] \<and> ch_wait d = [] \<and> ch_all d = ch_all c @ [x] else d = c \<and> length (ch_buf c) = ch_cap c)"
  by (auto simp: chan_try_send_def chan_inv_def ch_all_def split: if_splits)

lemma chan_recv_Some:
  "chan_inv c \<Longrightarrow> chan_recv c = Some (Some x, d) \<Longrightarrow>
   chan_inv d \<and> ch_all c = x # ch_all d \<and> ch_closed d = ch_closed c \<and> ch_cap d = ch_cap c"
  by (auto simp: chan_recv_def chan_inv_def ch_all_def split: list.splits if_splits)

lemma chan_recv_None:
  "chan_recv c = Some (None, d) \<longleftrightarrow> d = c \<and> ch_closed c \<and> ch_all c = []"
  by (auto simp: chan_recv_def ch_all_def split: list.splits if_splits)

lemma chan_recv_enabled: "chan_recv c = None \<longleftrightarrow> ch_all c = [] \<and> \<not> ch_closed c"
  by (auto simp: chan_recv_def ch_all_def split: list.splits)

lemma chan_recv_ok:
  "chan_inv c \<Longrightarrow> ch_all c = x # xs \<Longrightarrow>
   \<exists>d. chan_recv c = Some (Some x, d) \<and> chan_inv d \<and> ch_all d = xs \<and> ch_closed d = ch_closed c \<and> ch_cap d = ch_cap c"
  by (auto simp: chan_recv_def chan_inv_def ch_all_def split: list.splits)

lemma chan_close_ok:
  "chan_inv c \<Longrightarrow> chan_close c = Some (ws, d) \<Longrightarrow>
   chan_inv d \<and> ch_closed d \<and> ch_all c = ch_buf d @ ws \<and> ch_all d = ch_buf c \<and> ch_cap d = ch_cap c"
  by (auto simp: chan_close_def chan_inv_def ch_all_def split: if_splits)

text \<open>A channel that is not closed is a first-in first-out queue.\<close>

interpretation lch: fifo_queue "\<lambda>c. chan_inv c \<and> \<not> ch_closed c" ch_all "make_chan n" chan_send
    "\<lambda>c. do { (r, d) \<leftarrow> chan_recv c; x \<leftarrow> r; Some (x, d) }" "\<lambda>c. int (length (ch_all c))"
  by unfold_locales (auto dest: chan_send_ok chan_recv_ok)

end
