(* ===== verification/Worker_Pool.thy ===== *)
theory Worker_Pool
  imports Go_Chan "HOL-Library.Multiset"
begin

text \<open>
  \<^verbatim>\<open>Pool\<close> and its \<^verbatim>\<open>worker\<close>s (\<^verbatim>\<open>common/pool/gpool/pool.go\<close>,
  \<^verbatim>\<open>worker.go\<close>). Every worker is a goroutine over its own job channel; \<open>Close\<close> stops
  them one after the other and waits for them; a \<open>Close\<close> that finds the pool closed, or being closed by
  another one, returns at once. The goroutines are a step relation. As the code
  and its documentation ask, \<open>Submit\<close> does not run concurrently with \<open>Close\<close>: a \<open>Close\<close>
  wins the swap of the status when no \<open>Submit\<close> is blocked, and \<open>Submit\<close> is one step. Pool ids and logging are
  left out. The context and the handler of a job are the client's.
\<close>

section \<open>Jobs and workers\<close>

datatype handler_end = HReturned | HError | HPanicked

record 'c job =
  job_WorkerID :: int
  job_Ctx :: "'c option"
  job_Handler :: "('c option \<Rightarrow> handler_end) option"

text \<open>\<open>execute\<close> returns to its caller whatever the handler does.\<close>

datatype execution = NilHandler | Handled handler_end

definition worker_execute :: "'c job \<Rightarrow> execution" where
  "worker_execute job = (case job_Handler job of None \<Rightarrow> NilHandler | Some h \<Rightarrow> Handled (h (job_Ctx job)))"

definition zero_job :: "'c job" where
  "zero_job = \<lparr>job_WorkerID = 0, job_Ctx = None, job_Handler = None\<rparr>"

text \<open>Where a worker is in \<open>process\<close>: at the \<open>select\<close>, in a job, in the loop that drains.\<close>

datatype 'c phase = Serving | Running "'c job" | Draining | DrainRunning "'c job" | Stopped

record 'c worker =
  wk_jobChan :: "'c job chan"
  wk_phase :: "'c phase"
  wk_log :: "('c job \<times> execution) list"

definition new_worker :: "int \<Rightarrow> 'c worker" where
  "new_worker jobQueueSize = \<lparr>wk_jobChan = make_chan (nat jobQueueSize), wk_phase = Serving, wk_log = []\<rparr>"

text \<open>One step of \<open>process\<close> on its own; a closed job channel yields zero jobs.\<close>

definition worker_step :: "'c worker \<Rightarrow> 'c worker option" where
  "worker_step w =
     (case wk_phase w of
        Serving \<Rightarrow> map_option (\<lambda>(r, ch). w\<lparr>wk_jobChan := ch,
            wk_phase := Running (case r of Some job \<Rightarrow> job | None \<Rightarrow> zero_job)\<rparr>) (chan_recv (wk_jobChan w))
      | Running job \<Rightarrow> Some (w\<lparr>wk_log := wk_log w @ [(job, worker_execute job)], wk_phase := Serving\<rparr>)
      | Draining \<Rightarrow> map_option (\<lambda>(r, ch). w\<lparr>wk_jobChan := ch,
            wk_phase := (case r of Some job \<Rightarrow> DrainRunning job | None \<Rightarrow> Stopped)\<rparr>) (chan_recv (wk_jobChan w))
      | DrainRunning job \<Rightarrow> Some (w\<lparr>wk_log := wk_log w @ [(job, worker_execute job)], wk_phase := Draining\<rparr>)
      | Stopped \<Rightarrow> None)"

text \<open>The worker takes the stop signal at its \<open>select\<close> and closes its job channel.\<close>

definition worker_stop :: "'c worker \<Rightarrow> 'c worker option" where
  "worker_stop w =
     (case wk_phase w of
        Serving \<Rightarrow> map_option (\<lambda>(_, ch). w\<lparr>wk_jobChan := ch, wk_phase := Draining\<rparr>) (chan_close (wk_jobChan w))
      | _ \<Rightarrow> None)"

section \<open>The pool\<close>

datatype pool_status = PoolStatusOpen | PoolStatusClose

text \<open>
  \<open>p_closing\<close> is how many workers the \<open>Close\<close> that won the swap has signalled, \<open>p_closed\<close> that it
  has returned, \<open>p_lost\<close> how many calls of \<open>Close\<close> lost the swap and returned at once; \<open>p_hist\<close>
  records the jobs that were accepted, in order.
\<close>

record 'c pool =
  p_status :: pool_status
  p_capacity :: int
  p_workers :: "'c worker list"
  p_closing :: "nat option"
  p_closed :: bool
  p_lost :: nat
  p_hist :: "'c job list"

definition new_pool :: "int \<Rightarrow> int \<Rightarrow> 'c pool" where
  "new_pool capacity jobQueueSize =
     (let capacity = (if capacity \<le> 0 then 1 else capacity);
          jobQueueSize = (if jobQueueSize < 0 then 0 else jobQueueSize)
      in \<lparr>p_status = PoolStatusOpen, p_capacity = capacity,
          p_workers = map (\<lambda>i. new_worker jobQueueSize) [0..<nat capacity],
          p_closing = None, p_closed = False, p_lost = 0, p_hist = []\<rparr>)"

text \<open>\<open>r\<close> is the result of \<open>rand.Intn(p.capacity)\<close>.\<close>

definition submit_index :: "int \<Rightarrow> 'c job \<Rightarrow> 'c pool \<Rightarrow> int" where
  "submit_index r job p = (if job_WorkerID job < 0 then r else go_rem (job_WorkerID job) (p_capacity p))"

definition pool_submit :: "int \<Rightarrow> 'c job \<Rightarrow> 'c pool \<Rightarrow> 'c pool option" where
  "pool_submit r job p =
     (if p_status p = PoolStatusClose then Some p
      else do {
        w \<leftarrow> slice_get (p_workers p) (submit_index r job p);
        ch \<leftarrow> chan_send job (wk_jobChan w);
        ws \<leftarrow> slice_set (p_workers p) (submit_index r job p) (w\<lparr>wk_jobChan := ch\<rparr>);
        Some (p\<lparr>p_workers := ws, p_hist := p_hist p @ [job]\<rparr>) })"

text \<open>
  \<open>Close\<close> swaps the status: the call that closes the pool goes on to stop the workers, any other
  returns there.
\<close>

definition pool_close :: "'c pool \<Rightarrow> 'c pool" where
  "pool_close p =
     (if p_status p = PoolStatusOpen then p\<lparr>p_status := PoolStatusClose, p_closing := Some 0\<rparr>
      else p\<lparr>p_lost := Suc (p_lost p)\<rparr>)"

text \<open>The steps the pool takes by itself: its workers, and a \<open>Close\<close> that is under way.\<close>

inductive pool_internal :: "'c pool \<Rightarrow> 'c pool \<Rightarrow> bool" where
  work: "i < length (p_workers p) \<Longrightarrow> worker_step (p_workers p ! i) = Some w \<Longrightarrow>
    pool_internal p (p\<lparr>p_workers := (p_workers p)[i := w]\<rparr>)"
| stop: "p_closing p = Some i \<Longrightarrow> i < length (p_workers p) \<Longrightarrow> worker_stop (p_workers p ! i) = Some w \<Longrightarrow>
    pool_internal p (p\<lparr>p_workers := (p_workers p)[i := w], p_closing := Some (Suc i)\<rparr>)"
| returned: "p_closing p = Some (length (p_workers p)) \<Longrightarrow> \<forall>w \<in> set (p_workers p). wk_phase w = Stopped \<Longrightarrow>
    \<not> p_closed p \<Longrightarrow> pool_internal p (p\<lparr>p_closed := True\<rparr>)"

inductive pool_step :: "'c pool \<Rightarrow> 'c pool \<Rightarrow> bool" where
  internal: "pool_internal p q \<Longrightarrow> pool_step p q"
| submit: "0 \<le> r \<Longrightarrow> r < p_capacity p \<Longrightarrow> pool_submit r job p = Some q \<Longrightarrow> pool_step p q"
| close: "p_status p = PoolStatusOpen \<longrightarrow> (\<forall>w \<in> set (p_workers p). ch_wait (wk_jobChan w) = []) \<Longrightarrow>
    pool_step p (pool_close p)"

inductive pool_reachable :: "'c pool \<Rightarrow> bool" where
  made: "pool_reachable (new_pool n s)"
| step: "pool_reachable p \<Longrightarrow> pool_step p q \<Longrightarrow> pool_reachable q"

inductive_cases pool_internalE: "pool_internal p q"
inductive_cases pool_stepE: "pool_step p q"

section \<open>Invariant\<close>

text \<open>The jobs that went to a worker: executed, in execution, on their way.\<close>

fun in_hand :: "'c phase \<Rightarrow> 'c job list" where
  "in_hand (Running job) = [job]"
| "in_hand (DrainRunning job) = [job]"
| "in_hand _ = []"

definition worker_jobs :: "'c worker \<Rightarrow> 'c job list" where
  "worker_jobs w = map fst (wk_log w) @ in_hand (wk_phase w) @ ch_all (wk_jobChan w)"

fun is_stopping :: "'c phase \<Rightarrow> bool" where
  "is_stopping Serving = False"
| "is_stopping (Running job) = False"
| "is_stopping _ = True"

definition worker_ok :: "'c worker \<Rightarrow> bool" where
  "worker_ok w \<longleftrightarrow> chan_inv (wk_jobChan w) \<and> ch_closed (wk_jobChan w) = is_stopping (wk_phase w) \<and>
     (wk_phase w = Stopped \<longrightarrow> ch_all (wk_jobChan w) = []) \<and>
     (\<forall>e \<in> set (wk_log w). snd e = worker_execute (fst e))"

definition signalled :: "'c pool \<Rightarrow> nat" where
  "signalled p = (case p_closing p of None \<Rightarrow> 0 | Some i \<Rightarrow> i)"

abbreviation with_id :: "int \<Rightarrow> 'c job list \<Rightarrow> 'c job list" where
  "with_id k js \<equiv> filter (\<lambda>j. job_WorkerID j = k) js"

definition pool_inv :: "'c pool \<Rightarrow> bool" where
  "pool_inv p \<longleftrightarrow> 0 < p_capacity p \<and> length (p_workers p) = nat (p_capacity p) \<and>
     (\<forall>w \<in> set (p_workers p). worker_ok w) \<and>
     (p_status p = PoolStatusOpen \<longleftrightarrow> p_closing p = None) \<and> signalled p \<le> length (p_workers p) \<and>
     (\<forall>i < length (p_workers p). is_stopping (wk_phase (p_workers p ! i)) \<longleftrightarrow> i < signalled p) \<and>
     (p_status p = PoolStatusClose \<longrightarrow> (\<forall>w \<in> set (p_workers p). ch_wait (wk_jobChan w) = [])) \<and>
     (p_closed p \<longrightarrow> (\<forall>w \<in> set (p_workers p). wk_phase w = Stopped)) \<and>
     mset (concat (map worker_jobs (p_workers p))) = mset (p_hist p) \<and>
     (\<forall>i < length (p_workers p). \<forall>j \<in> set (worker_jobs (p_workers p ! i)).
        0 \<le> job_WorkerID j \<longrightarrow> job_WorkerID j mod p_capacity p = int i) \<and>
     (\<forall>k \<ge> 0. with_id k (worker_jobs (p_workers p ! nat (k mod p_capacity p))) = with_id k (p_hist p))"

lemma worker_step_ok:
  assumes "worker_ok w" and "worker_step w = Some v"
  shows "worker_ok v \<and> worker_jobs v = worker_jobs w \<and> is_stopping (wk_phase v) = is_stopping (wk_phase w) \<and>
    (ch_wait (wk_jobChan w) = [] \<longrightarrow> ch_wait (wk_jobChan v) = [])"
proof -
  note ok = assms(1) [unfolded worker_ok_def]
  have recv: "(case r of Some j \<Rightarrow> chan_inv d \<and> ch_all (wk_jobChan w) = j # ch_all d
      | None \<Rightarrow> d = wk_jobChan w \<and> ch_closed d \<and> ch_all d = []) \<and>
      ch_closed d = ch_closed (wk_jobChan w) \<and> (ch_wait (wk_jobChan w) = [] \<longrightarrow> ch_wait d = [])"
    if "chan_recv (wk_jobChan w) = Some (r, d)" for r d
    using that ok chan_recv_Some [of "wk_jobChan w" _ d] chan_recv_None [of "wk_jobChan w" d]
    by (cases r) (auto simp: chan_recv_def split: list.splits if_splits)
  show ?thesis
  proof (cases "wk_phase w")
    case Serving
    with assms(2) obtain r d where rd: "chan_recv (wk_jobChan w) = Some (r, d)"
      "v = w\<lparr>wk_jobChan := d, wk_phase := Running (case r of Some job \<Rightarrow> job | None \<Rightarrow> zero_job)\<rparr>"
      by (auto simp: worker_step_def)
    with recv [OF rd(1)] ok Serving show ?thesis
      by (cases r) (auto simp: worker_ok_def worker_jobs_def)
  next
    case Draining
    with assms(2) obtain r d where rd: "chan_recv (wk_jobChan w) = Some (r, d)"
      "v = w\<lparr>wk_jobChan := d, wk_phase := (case r of Some job \<Rightarrow> DrainRunning job | None \<Rightarrow> Stopped)\<rparr>"
      by (auto simp: worker_step_def)
    with recv [OF rd(1)] ok Draining show ?thesis
      by (cases r) (auto simp: worker_ok_def worker_jobs_def)
  next
    case (Running job)
    with assms(2) have "v = w\<lparr>wk_log := wk_log w @ [(job, worker_execute job)], wk_phase := Serving\<rparr>"
      by (simp add: worker_step_def)
    with ok Running show ?thesis by (auto simp: worker_ok_def worker_jobs_def)
  next
    case (DrainRunning job)
    with assms(2) have "v = w\<lparr>wk_log := wk_log w @ [(job, worker_execute job)], wk_phase := Draining\<rparr>"
      by (simp add: worker_step_def)
    with ok DrainRunning show ?thesis by (auto simp: worker_ok_def worker_jobs_def)
  next
    case Stopped
    with assms(2) show ?thesis by (simp add: worker_step_def)
  qed
qed

lemma worker_stop_ok:
  assumes "worker_ok w" and "worker_stop w = Some v" and "ch_wait (wk_jobChan w) = []"
  shows "worker_ok v \<and> worker_jobs v = worker_jobs w \<and> wk_phase v = Draining \<and> ch_wait (wk_jobChan v) = []"
  using assms by (auto simp: worker_stop_def worker_ok_def worker_jobs_def chan_close_def chan_inv_def ch_all_def
      split: phase.splits if_splits)

lemma worker_stop_serving: "worker_stop w = Some v \<Longrightarrow> wk_phase w = Serving"
  by (auto simp: worker_stop_def split: phase.splits)

text \<open>Replacing one worker by one with the same jobs changes neither the jobs nor the routing.\<close>

lemma map_update_same: "i < length xs \<Longrightarrow> f y = f (xs ! i) \<Longrightarrow> map f (xs[i := y]) = map f xs"
  by (simp add: map_update list_update_same_conv)

lemma pool_inv_update:
  assumes inv: "pool_inv p" and i: "i < length (p_workers p)"
    and v: "worker_ok v" "worker_jobs v = worker_jobs (p_workers p ! i)"
      "ch_wait (wk_jobChan (p_workers p ! i)) = [] \<longrightarrow> ch_wait (wk_jobChan v) = []"
    and q: "q = p\<lparr>p_workers := (p_workers p)[i := v], p_closing := c\<rparr>"
    and c: "(c = None) = (p_closing p = None)" "signalled q \<le> length (p_workers p)"
      "\<forall>k < length (p_workers p). is_stopping (wk_phase (p_workers q ! k)) \<longleftrightarrow> k < signalled q"
    and stopped: "p_closed p \<longrightarrow> wk_phase v = Stopped"
  shows "pool_inv q"
proof -
  have jobs: "map worker_jobs (p_workers q) = map worker_jobs (p_workers p)"
    unfolding q using map_update_same [OF i v(2)] by simp
  have nth: "worker_jobs (p_workers q ! k) = worker_jobs (p_workers p ! k)" if "k < length (p_workers p)" for k
    using v(2) that by (cases "k = i") (simp_all add: q)
  have len: "length (p_workers q) = length (p_workers p)" by (simp add: q)
  have mem: "w = v \<or> w \<in> set (p_workers p)" if "w \<in> set (p_workers q)" for w
    using that set_update_subset_insert [of "p_workers p" i v] by (auto simp: q)
  have cap: "0 < p_capacity p" "length (p_workers p) = nat (p_capacity p)" using inv by (simp_all add: pool_inv_def)
  have route: "nat (k mod p_capacity p) < length (p_workers p)" for k
    using cap by (simp add: nat_less_iff)
  have "p_workers p ! i \<in> set (p_workers p)" using i by simp
  then have wait: "p_status p = PoolStatusClose \<longrightarrow> (\<forall>w \<in> set (p_workers q). ch_wait (wk_jobChan w) = [])"
    using inv v(3) mem unfolding pool_inv_def by blast
  have ok: "\<forall>w \<in> set (p_workers q). worker_ok w" using inv v(1) mem unfolding pool_inv_def by blast
  have st: "p_closed p \<longrightarrow> (\<forall>w \<in> set (p_workers q). wk_phase w = Stopped)"
    using inv stopped mem unfolding pool_inv_def by blast
  have rest: "p_capacity q = p_capacity p" "p_status q = p_status p" "p_closed q = p_closed p" "p_hist q = p_hist p"
    "p_closing q = c" by (simp_all add: q)
  show ?thesis
    unfolding pool_inv_def rest jobs len
    using inv ok wait st c nth route by (simp add: pool_inv_def)
qed

lemma new_worker_ok:
  "worker_ok (new_worker z)" "worker_jobs (new_worker z) = []"
  "ch_wait (wk_jobChan (new_worker z)) = []" "wk_phase (new_worker z) = Serving"
  by (simp_all add: worker_ok_def new_worker_def worker_jobs_def) (simp add: make_chan_def)

lemma new_pool_inv [model_inv]: "pool_inv (new_pool n s)"
proof -
  define c where "c = (if n \<le> 0 then 1 else n)"
  define z where "z = (if s < 0 then 0 else s)"
  have c: "0 < c" by (simp add: c_def)
  have p: "new_pool n s = \<lparr>p_status = PoolStatusOpen, p_capacity = c, p_workers = map (\<lambda>i. new_worker z) [0..<nat c],
      p_closing = None, p_closed = False, p_lost = 0, p_hist = []\<rparr>"
    by (simp add: new_pool_def c_def z_def Let_def)
  have "worker_jobs (map (\<lambda>i. new_worker z) [0..<nat c] ! nat (k mod c)) = []" for k
    using c new_worker_ok(2) by (simp add: nat_less_iff)
  then show ?thesis
    using c by (simp add: p pool_inv_def signalled_def comp_def new_worker_ok)
qed

lemma pool_internal_inv:
  assumes "pool_inv p" and "pool_internal p q"
  shows "pool_inv q"
  using assms(2)
proof (cases rule: pool_internal.cases)
  case (work i w)
  have mem: "p_workers p ! i \<in> set (p_workers p)" using work(2) by simp
  have ok: "worker_ok (p_workers p ! i)" using assms(1) mem by (simp add: pool_inv_def)
  note w = worker_step_ok [OF ok work(3)]
  have "\<not> p_closed p"
    using assms(1) mem work(3) by (auto simp: pool_inv_def worker_step_def)
  moreover have "\<forall>k < length (p_workers p). is_stopping (wk_phase ((p_workers p)[i := w] ! k)) \<longleftrightarrow> k < signalled p"
    using assms(1) w work(2) by (auto simp: pool_inv_def nth_list_update)
  ultimately show ?thesis
    using w assms(1) work(1) unfolding work(1)
    by (intro pool_inv_update [OF assms(1) work(2), of w _ "p_closing p"])
      (auto simp: pool_inv_def signalled_def)
next
  case (stop i w)
  have mem: "p_workers p ! i \<in> set (p_workers p)" using stop(3) by simp
  have cl: "p_status p = PoolStatusClose" using assms(1) stop(2) by (cases "p_status p") (simp_all add: pool_inv_def)
  have ok: "worker_ok (p_workers p ! i)" "ch_wait (wk_jobChan (p_workers p ! i)) = []"
    using assms(1) mem cl by (simp_all add: pool_inv_def)
  note w = worker_stop_ok [OF ok(1) stop(4) ok(2)]
  have "\<not> p_closed p"
    using assms(1) mem worker_stop_serving [OF stop(4)] by (auto simp: pool_inv_def)
  moreover have "\<forall>k < length (p_workers p). is_stopping (wk_phase ((p_workers p)[i := w] ! k)) \<longleftrightarrow> k < Suc i"
    using assms(1) w stop(2,3) by (auto simp: pool_inv_def nth_list_update signalled_def)
  moreover have "signalled (p\<lparr>p_workers := (p_workers p)[i := w], p_closing := Some (Suc i)\<rparr>) = Suc i"
    by (simp add: signalled_def)
  ultimately show ?thesis
    using w stop(2,3) by (intro pool_inv_update [OF assms(1) stop(3) _ _ _ stop(1)]) (simp_all add: stop(1))
next
  case returned
  then show ?thesis using assms(1) by (simp add: pool_inv_def signalled_def)
qed

lemma mset_concat_update:
  assumes "i < length xs" and "f y = f (xs ! i) @ [j]"
  shows "mset (concat (map f (xs[i := y]))) = add_mset j (mset (concat (map f xs)))"
proof -
  have "map f xs = map f (take i xs) @ f (xs ! i) # map f (drop (Suc i) xs)"
    by (metis (no_types, lifting) assms(1) id_take_nth_drop list.simps(9) map_append)
  moreover have "map f (xs[i := y]) = map f (take i xs) @ f y # map f (drop (Suc i) xs)"
    by (simp add: assms(1) upd_conv_take_nth_drop)
  ultimately show ?thesis using assms(2) by simp
qed

lemma submit_index_ok:
  assumes "pool_inv p" and "0 \<le> r" and "r < p_capacity p"
  shows "0 \<le> submit_index r job p \<and> submit_index r job p < int (length (p_workers p)) \<and>
    (0 \<le> job_WorkerID job \<longrightarrow> submit_index r job p = job_WorkerID job mod p_capacity p)"
  using assms by (simp add: submit_index_def pool_inv_def)

lemma pool_submit_ok:
  assumes inv: "pool_inv p" and r: "0 \<le> r" "r < p_capacity p"
  shows "\<exists>q. pool_submit r job p = Some q \<and> pool_inv q \<and>
    (if p_status p = PoolStatusClose then q = p
     else p_hist q = p_hist p @ [job] \<and> p_status q = p_status p)"
proof (cases "p_status p")
  case PoolStatusClose
  with inv show ?thesis by (simp add: pool_submit_def)
next
  case PoolStatusOpen
  define i where "i = nat (submit_index r job p)"
  note idx = submit_index_ok [OF inv r, of job]
  have i: "i < length (p_workers p)" "submit_index r job p = int i" using idx by (auto simp: i_def)
  let ?w = "p_workers p ! i"
  have mem: "?w \<in> set (p_workers p)" using i by simp
  have none: "p_closing p = None" using inv PoolStatusOpen by (simp add: pool_inv_def)
  have serving: "\<not> is_stopping (wk_phase (p_workers p ! k))" if "k < length (p_workers p)" for k
    using inv none that by (simp add: pool_inv_def signalled_def)
  have ok: "worker_ok ?w" using inv mem by (simp add: pool_inv_def)
  obtain ch where ch: "chan_send job (wk_jobChan ?w) = Some ch" "chan_inv ch"
    "ch_all ch = ch_all (wk_jobChan ?w) @ [job]" "\<not> ch_closed ch"
    using chan_send_ok [of "wk_jobChan ?w" job] ok serving [OF i(1)] by (auto simp: worker_ok_def)
  define v where "v = ?w\<lparr>wk_jobChan := ch\<rparr>"
  define q where "q = p\<lparr>p_workers := (p_workers p)[i := v], p_hist := p_hist p @ [job]\<rparr>"
  have step: "pool_submit r job p = Some q"
    using PoolStatusOpen i ch(1) by (simp add: pool_submit_def q_def v_def)
  have vok: "worker_ok v" using ok ch serving [OF i(1)] by (auto simp: worker_ok_def v_def)
  have jobs: "worker_jobs v = worker_jobs ?w @ [job]" by (simp add: worker_jobs_def v_def ch(3))
  have phase: "wk_phase v = wk_phase ?w" by (simp add: v_def)
  have all_ok: "\<forall>w \<in> set (p_workers q). worker_ok w"
    using inv vok set_update_subset_insert [of "p_workers p" i v] unfolding pool_inv_def q_def by auto
  have ms: "mset (concat (map worker_jobs (p_workers q))) = mset (p_hist q)"
    using mset_concat_update [OF i(1), of worker_jobs v job] jobs inv by (simp add: q_def pool_inv_def)
  have route: "\<forall>k < length (p_workers p). \<forall>j \<in> set (worker_jobs (p_workers q ! k)).
      0 \<le> job_WorkerID j \<longrightarrow> job_WorkerID j mod p_capacity p = int k"
    using inv idx i by (auto simp: q_def nth_list_update jobs pool_inv_def)
  have ids: "with_id k (worker_jobs (p_workers q ! nat (k mod p_capacity p))) = with_id k (p_hist q)" if k: "k \<ge> 0" for k
  proof -
    have old: "with_id k (worker_jobs (p_workers p ! nat (k mod p_capacity p))) = with_id k (p_hist p)"
      using inv k by (simp add: pool_inv_def)
    have same: "nat (k mod p_capacity p) = i" if "job_WorkerID job = k"
      using idx k that by (simp add: i_def)
    show ?thesis
      using old same i(1) by (cases "nat (k mod p_capacity p) = i") (auto simp: q_def jobs)
  qed
  have stop: "is_stopping (wk_phase (p_workers q ! k)) \<longleftrightarrow> k < signalled q" if "k < length (p_workers p)" for k
    using serving [OF that] serving [OF i(1)] none phase by (cases "k = i") (simp_all add: q_def signalled_def that i(1))
  have "\<not> p_closed p" using inv serving [OF i(1)] mem by (auto simp: pool_inv_def)
  then have "pool_inv q"
    using inv all_ok ms route ids stop PoolStatusOpen none unfolding pool_inv_def
    by (simp add: q_def signalled_def)
  with step PoolStatusOpen show ?thesis by (simp add: q_def)
qed

lemma pool_close_inv:
  assumes "pool_inv p" and "p_status p = PoolStatusOpen \<longrightarrow> (\<forall>w \<in> set (p_workers p). ch_wait (wk_jobChan w) = [])"
  shows "pool_inv (pool_close p)"
proof (cases "p_status p")
  case PoolStatusOpen
  with assms show ?thesis by (auto simp: pool_close_def pool_inv_def signalled_def)
next
  case PoolStatusClose
  with assms(1) show ?thesis by (simp add: pool_close_def pool_inv_def signalled_def)
qed

lemma pool_step_inv:
  assumes "pool_inv p" and "pool_step p q"
  shows "pool_inv q"
  using assms(2)
proof (cases rule: pool_step.cases)
  case internal
  then show ?thesis using pool_internal_inv [OF assms(1)] by blast
next
  case (submit r job)
  then show ?thesis using pool_submit_ok [OF assms(1), of r job] by auto
next
  case close
  then show ?thesis using pool_close_inv [OF assms(1)] by blast
qed

lemma pool_reachable_inv: "pool_reachable p \<Longrightarrow> pool_inv p"
  by (induction rule: pool_reachable.induct) (auto intro: new_pool_inv pool_step_inv)

section \<open>A Close that has begun comes to its end\<close>

fun phase_work :: "'c phase \<Rightarrow> nat" where
  "phase_work Serving = 2"
| "phase_work (Running job) = 3"
| "phase_work Draining = 1"
| "phase_work (DrainRunning job) = 2"
| "phase_work Stopped = 0"

definition worker_work :: "'c worker \<Rightarrow> nat" where
  "worker_work w = 2 * length (ch_all (wk_jobChan w)) + phase_work (wk_phase w)"

definition pool_work :: "'c pool \<Rightarrow> nat" where
  "pool_work p = sum_list (map worker_work (p_workers p)) + (if p_closed p then 0 else 1)"

lemma worker_step_work: "worker_ok w \<Longrightarrow> worker_step w = Some v \<Longrightarrow> worker_work v < worker_work w"
proof (cases "wk_phase w")
  case Serving
  assume "worker_ok w" and "worker_step w = Some v"
  with Serving obtain r d where rd: "chan_recv (wk_jobChan w) = Some (r, d)"
    "v = w\<lparr>wk_jobChan := d, wk_phase := Running (case r of Some job \<Rightarrow> job | None \<Rightarrow> zero_job)\<rparr>"
    by (auto simp: worker_step_def)
  with Serving \<open>worker_ok w\<close> show ?thesis
    by (cases r) (auto simp: worker_ok_def worker_work_def chan_recv_None dest: chan_recv_Some)
next
  case Draining
  assume "worker_ok w" and "worker_step w = Some v"
  with Draining obtain r d where rd: "chan_recv (wk_jobChan w) = Some (r, d)"
    "v = w\<lparr>wk_jobChan := d, wk_phase := (case r of Some job \<Rightarrow> DrainRunning job | None \<Rightarrow> Stopped)\<rparr>"
    by (auto simp: worker_step_def)
  with Draining \<open>worker_ok w\<close> show ?thesis
    by (cases r) (auto simp: worker_ok_def worker_work_def chan_recv_None dest: chan_recv_Some)
qed (auto simp: worker_step_def worker_work_def)

lemma worker_stop_work:
  assumes "worker_ok w" and "worker_stop w = Some v" and "ch_wait (wk_jobChan w) = []"
  shows "worker_work v < worker_work w"
  using assms worker_stop_serving [OF assms(2)]
  by (auto simp: worker_stop_def worker_work_def chan_close_def ch_all_def split: if_splits)

lemma pool_internal_work:
  assumes "pool_inv p" and "pool_internal p q"
  shows "pool_work q < pool_work p"
  using assms(2)
proof (cases rule: pool_internal.cases)
  case (work i w)
  then have "worker_ok (p_workers p ! i)" using assms(1) by (simp add: pool_inv_def)
  from sum_list_update_less [OF work(2), of worker_work, OF worker_step_work [OF this work(3)]] show ?thesis
    by (simp add: work(1) pool_work_def)
next
  case (stop i w)
  have "p_status p = PoolStatusClose" using assms(1) stop(2) by (cases "p_status p") (simp_all add: pool_inv_def)
  then have "worker_ok (p_workers p ! i)" "ch_wait (wk_jobChan (p_workers p ! i)) = []"
    using assms(1) stop(3) by (simp_all add: pool_inv_def)
  from sum_list_update_less [OF stop(3), of worker_work, OF worker_stop_work [OF this(1) stop(4) this(2)]]
  show ?thesis by (simp add: stop(1) pool_work_def)
qed (simp add: pool_work_def)

lemma worker_progress:
  assumes "worker_ok w" and "wk_phase w \<noteq> Serving" and "wk_phase w \<noteq> Stopped"
  shows "worker_step w \<noteq> None"
  using assms chan_recv_enabled [of "wk_jobChan w"]
  by (cases "wk_phase w") (auto simp: worker_step_def worker_ok_def)

lemma pool_progress:
  assumes inv: "pool_inv p" and "p_status p = PoolStatusClose" and "\<not> p_closed p"
  shows "\<exists>q. pool_internal p q"
proof (cases "\<exists>i < length (p_workers p). worker_step (p_workers p ! i) \<noteq> None")
  case True
  then show ?thesis using pool_internal.work [of _ p] by blast
next
  case False
  then have still: "wk_phase (p_workers p ! i) = Serving \<or> wk_phase (p_workers p ! i) = Stopped"
    if "i < length (p_workers p)" for i
    using worker_progress [of "p_workers p ! i"] inv that by (auto simp: pool_inv_def)
  obtain c where c: "p_closing p = Some c" using inv assms(2) by (cases "p_closing p") (auto simp: pool_inv_def)
  show ?thesis
  proof (cases "c < length (p_workers p)")
    case True
    then have "\<not> is_stopping (wk_phase (p_workers p ! c))" using inv c by (simp add: pool_inv_def signalled_def)
    then have "wk_phase (p_workers p ! c) = Serving" using still [OF True] by auto
    moreover have "\<not> ch_closed (wk_jobChan (p_workers p ! c))"
      using inv True \<open>\<not> is_stopping _\<close> by (simp add: pool_inv_def worker_ok_def)
    ultimately obtain w where "worker_stop (p_workers p ! c) = Some w"
      by (auto simp: worker_stop_def chan_close_def)
    then show ?thesis using pool_internal.stop [OF c True] by blast
  next
    case False
    then have "c = length (p_workers p)" using inv c by (simp add: pool_inv_def signalled_def)
    moreover have "wk_phase (p_workers p ! i) = Stopped" if i: "i < length (p_workers p)" for i
    proof -
      have "is_stopping (wk_phase (p_workers p ! i))"
        using inv c False i by (simp add: pool_inv_def signalled_def)
      then show ?thesis using still [OF i] by auto
    qed
    then have "\<forall>w \<in> set (p_workers p). wk_phase w = Stopped" by (auto simp: in_set_conv_nth)
    ultimately show ?thesis using pool_internal.returned [of p] assms(3) c by auto
  qed
qed

lemma pool_internal_keeps:
  "pool_internal p q \<Longrightarrow> p_status q = p_status p \<and> p_hist q = p_hist p"
  by (auto elim: pool_internalE)

interpretation closing_pool: winding_down pool_internal "\<lambda>p. pool_reachable p \<and> p_status p = PoolStatusClose \<and> p_hist p = h" pool_work p_closed for h
proof
  fix p q
  assume p: "pool_reachable p \<and> p_status p = PoolStatusClose \<and> p_hist p = h" and q: "pool_internal p q"
  show "pool_reachable q \<and> p_status q = PoolStatusClose \<and> p_hist q = h"
    using p pool_reachable.step [OF _ pool_step.internal [OF q]] pool_internal_keeps [OF q] by auto
  show "pool_work q < pool_work p" using p pool_internal_work [OF _ q] pool_reachable_inv by blast
qed (use pool_progress pool_reachable_inv in blast)

lemma pool_close_runs:
  "pool_reachable p \<Longrightarrow> p_status p = PoolStatusClose \<Longrightarrow>
   \<exists>q. pool_internal\<^sup>*\<^sup>* p q \<and> pool_reachable q \<and> p_closed q \<and> p_hist q = p_hist p"
  using closing_pool.run_ends [of p "p_hist p"] by blast

section \<open>Properties\<close>

definition executed :: "'c worker \<Rightarrow> 'c job list" where
  "executed w = map fst (wk_log w)"

lemma pool_closed_status:
  assumes inv: "pool_inv p" and "p_closed p"
  shows "p_status p = PoolStatusClose"
proof -
  have len: "0 < length (p_workers p)" using inv by (simp add: pool_inv_def)
  then have "p_workers p ! 0 \<in> set (p_workers p)" by simp
  with inv assms(2) have "wk_phase (p_workers p ! 0) = Stopped" unfolding pool_inv_def by blast
  then have "is_stopping (wk_phase (p_workers p ! 0))" by simp
  then have "signalled p \<noteq> 0" using inv len unfolding pool_inv_def by auto
  then have "p_closing p \<noteq> None" by (cases "p_closing p") (simp_all add: signalled_def)
  then show ?thesis using inv by (cases "p_status p") (simp_all add: pool_inv_def)
qed

text \<open>
  C10: once the \<open>Close\<close> that closed the pool, the one call that won the swap of the status, has
  returned, every job that the pool accepted has been executed exactly once, whatever the handlers
  did, and nothing else was executed: no job is lost in the queues and no zero job is taken from
  a closed channel. Every other \<open>Close\<close>, repeated or concurrent, only returns: in a pool that is closed or
  being closed it leaves the workers and the jobs as they are. It does not wait for the jobs.
\<close>

theorem pool_close_runs_all_jobs:
  assumes "pool_reachable p" and "p_status p = PoolStatusClose"
  shows "(p_closed p \<longrightarrow> mset (concat (map executed (p_workers p))) = mset (p_hist p)) \<and>
    pool_reachable (pool_close p) \<and> p_workers (pool_close p) = p_workers p \<and> p_hist (pool_close p) = p_hist p \<and>
    p_closing (pool_close p) = p_closing p \<and> p_closed (pool_close p) = p_closed p"
proof -
  have inv: "pool_inv p" by (rule pool_reachable_inv [OF assms(1)])
  have "mset (concat (map executed (p_workers p))) = mset (p_hist p)" if "p_closed p"
  proof -
    have "worker_jobs w = executed w" if "w \<in> set (p_workers p)" for w
      using inv \<open>p_closed p\<close> that by (simp add: pool_inv_def worker_ok_def worker_jobs_def executed_def)
    then have eq: "map executed (p_workers p) = map worker_jobs (p_workers p)" by simp
    show ?thesis using inv unfolding eq by (simp add: pool_inv_def)
  qed
  moreover have "pool_reachable (pool_close p)"
    by (rule pool_reachable.step [OF assms(1) pool_step.close]) (simp add: assms(2))
  ultimately show ?thesis using assms(2) by (simp add: pool_close_def)
qed

text \<open>
  C11: jobs with the same id that is not negative run on one worker only, in the order in which
  they were submitted: what worker \<open>WorkerID % capacity\<close> has executed of them is an initial
  part of what was submitted, and no other worker has executed any.
\<close>

theorem pool_same_id_in_order:
  assumes "pool_reachable p" and "0 \<le> k" and "i < length (p_workers p)"
  shows "if int i = k mod p_capacity p
    then \<exists>rest. with_id k (p_hist p) = with_id k (executed (p_workers p ! i)) @ rest
    else with_id k (executed (p_workers p ! i)) = []"
proof -
  have inv: "pool_inv p" by (rule pool_reachable_inv [OF assms(1)])
  show ?thesis
  proof (cases "int i = k mod p_capacity p")
    case True
    then have "nat (k mod p_capacity p) = i" by simp
    then have "with_id k (p_hist p) = with_id k (worker_jobs (p_workers p ! i))"
      using inv assms(2) unfolding pool_inv_def by metis
    with True show ?thesis by (simp add: worker_jobs_def executed_def)
  next
    case False
    have "job_WorkerID j \<noteq> k" if "j \<in> set (worker_jobs (p_workers p ! i))" for j
      using inv assms(2,3) False that unfolding pool_inv_def by metis
    with False show ?thesis by (auto simp: worker_jobs_def executed_def filter_empty_conv)
  qed
qed

text \<open>
  C12: a \<open>Close\<close> that has begun returns: until it has, some worker or \<open>Close\<close> itself can take a
  step, no run of such steps is longer than the work that is left, and there is one that ends
  with \<open>Close\<close> returned. Jobs submitted in the meantime are dropped and change nothing.
\<close>

theorem pool_close_returns:
  assumes "pool_reachable p" and "p_status p = PoolStatusClose" and "\<not> p_closed p"
  shows "(\<exists>q. pool_internal p q) \<and> (\<forall>q. pool_internal p q \<longrightarrow> pool_work q < pool_work p) \<and>
    (\<exists>q. pool_internal\<^sup>*\<^sup>* p q \<and> p_closed q) \<and> pool_submit r job p = Some p"
  using pool_close_runs [OF assms(1,2)] pool_progress [OF pool_reachable_inv [OF assms(1)] assms(2,3)]
    pool_internal_work [OF pool_reachable_inv [OF assms(1)]] assms(2)
  by (auto simp: pool_submit_def)

text \<open>A run of a pool with two workers: one job, then \<open>Close\<close>.\<close>

definition quick_job :: "nat job" where
  "quick_job = \<lparr>job_WorkerID = 3, job_Ctx = Some 5, job_Handler = Some (\<lambda>c. HReturned)\<rparr>"

lemma submitted_pool:
  "\<exists>p. pool_submit 0 quick_job (new_pool 2 1) = Some p \<and> pool_reachable p \<and> p_hist p = [quick_job] \<and>
     p_status p = PoolStatusOpen \<and> p_capacity p = 2 \<and> length (p_workers p) = 2 \<and>
     (\<forall>w \<in> set (p_workers p). ch_wait (wk_jobChan w) = [])"
proof -
  let ?p = "\<lparr>p_status = PoolStatusOpen, p_capacity = 2, p_workers = [new_worker 1, new_worker 1\<lparr>wk_jobChan :=
      \<lparr>ch_buf = [quick_job], ch_wait = [], ch_cap = 1, ch_closed = False\<rparr>\<rparr>], p_closing = None, p_closed = False, p_lost = 0,
      p_hist = [quick_job]\<rparr>"
  have "[0..<nat 2] = [0, 1]" by (simp add: upt_rec)
  then have s: "pool_submit 0 quick_job (new_pool 2 1) = Some ?p"
    by (simp add: pool_submit_def new_pool_def submit_index_def quick_job_def new_worker_def make_chan_def
        chan_send_def)
  have "pool_step (new_pool 2 1) ?p"
    by (rule pool_step.submit [OF _ _ s]) (simp_all add: new_pool_def)
  then have "pool_reachable ?p" using pool_reachable.step pool_reachable.made by blast
  with s show ?thesis by (simp add: new_worker_def make_chan_def)
qed

theorem pool_close_runs_all_jobs_witness:
  "\<exists>q. pool_reachable q \<and> p_closed q \<and> mset (concat (map executed (p_workers q))) = {#quick_job#}"
proof -
  obtain p where p: "pool_reachable p" "p_hist p = [quick_job]"
    "p_status p = PoolStatusOpen" "\<forall>w \<in> set (p_workers p). ch_wait (wk_jobChan w) = []"
    using submitted_pool by blast
  have r: "pool_reachable (p\<lparr>p_status := PoolStatusClose, p_closing := Some 0\<rparr>)"
    using pool_reachable.step [OF p(1) pool_step.close] p(3,4) by (simp add: pool_close_def)
  from pool_close_runs [OF r] obtain q where q: "pool_reachable q" "p_closed q" "p_hist q = [quick_job]"
    by (auto simp: p(2))
  have "p_status q = PoolStatusClose" by (rule pool_closed_status [OF pool_reachable_inv [OF q(1)] q(2)])
  from pool_close_runs_all_jobs [OF q(1) this] q show ?thesis by auto
qed

text \<open>
  A \<open>Close\<close> that loses the swap does not wait: here it has returned while the job that was accepted
  is still in its queue.
\<close>

lemma lost_close_does_not_wait:
  "\<exists>p :: nat pool. pool_reachable p \<and> p_lost p = 1 \<and> \<not> p_closed p \<and> p_hist p = [quick_job] \<and>
     (\<forall>w \<in> set (p_workers p). executed w = [])"
proof -
  obtain p where p: "pool_submit 0 quick_job (new_pool 2 1) = Some p" "pool_reachable p" "p_hist p = [quick_job]"
    "p_status p = PoolStatusOpen" "\<forall>w \<in> set (p_workers p). ch_wait (wk_jobChan w) = []"
    using submitted_pool by blast
  have r: "pool_reachable (pool_close p)" using pool_reachable.step [OF p(2) pool_step.close] p(5) by blast
  have "p_status (pool_close p) = PoolStatusClose" using p(4) by (simp add: pool_close_def)
  then have "pool_reachable (pool_close (pool_close p))" using pool_reachable.step [OF r pool_step.close] by simp
  moreover have "p_lost p = 0 \<and> \<not> p_closed p \<and> (\<forall>w \<in> set (p_workers p). executed w = [])"
    using p(1) by (auto simp: pool_submit_def new_pool_def Let_def executed_def new_worker_def slice_get_def slice_set_def
        split: bind_splits if_splits dest!: set_update_subset_insert [THEN subsetD])
  ultimately show ?thesis using p(3,4)
    by (intro exI [of _ "pool_close (pool_close p)"]) (simp add: pool_close_def)
qed

theorem pool_same_id_in_order_witness:
  "\<exists>p rest. pool_submit 0 quick_job (new_pool 2 1) = Some p \<and>
     with_id 3 (p_hist p) = with_id 3 (executed (p_workers p ! 1)) @ rest"
  using submitted_pool pool_same_id_in_order [where k = 3 and i = 1] by fastforce

theorem pool_close_returns_witness:
  "\<exists>p. pool_submit 0 quick_job (new_pool 2 1) = Some p \<and>
     (\<exists>q. pool_internal (p\<lparr>p_status := PoolStatusClose, p_closing := Some 0\<rparr>) q)"
proof -
  obtain p where p: "pool_submit 0 quick_job (new_pool 2 1) = Some p" "pool_reachable p"
    "p_status p = PoolStatusOpen" "\<forall>w \<in> set (p_workers p). ch_wait (wk_jobChan w) = []"
    using submitted_pool by blast
  have r: "pool_reachable (p\<lparr>p_status := PoolStatusClose, p_closing := Some 0\<rparr>)"
    using pool_reachable.step [OF p(2) pool_step.close] p(3,4) by (simp add: pool_close_def)
  have "\<not> p_closed p" using p(1) by (auto simp: pool_submit_def new_pool_def Let_def split: bind_splits)
  from pool_close_returns [OF r, of 0 quick_job] this p(1) show ?thesis by auto
qed

end
