(* ===== verification/Task_Runner.thy ===== *)
theory Task_Runner
  imports Go_Chan
begin

text \<open>
  \<^verbatim>\<open>TaskRunner\<close> (\<^verbatim>\<open>common/pool/gpool/task_runner.go\<close>): a goroutine for
  every task, at most as many at a time as the limit channel has places. \<open>Submit\<close>,
  \<open>SubmitImmediately\<close>, the goroutines and \<open>Close\<close> run concurrently: every atomic operation is
  a step, and every call and its task is a line of the table \<open>tr_calls\<close>. Whether a task
  panics is free; a panic handler that panics itself ends the program and is left out.
\<close>

section \<open>State\<close>

datatype runner_status = TaskRunnerOpen | TaskRunnerClosed

datatype runner_error = ErrTaskRunnerBusy | ErrTaskRunnerClosed

text \<open>
  Where a call is: it has seen the runner open, it has counted itself in the wait group, its
  task runs, it has given back its place, or only its count, all is done; or it was turned away,
  or it panicked.
\<close>

datatype call_phase =
  Checked | Added | Executing | Released | Uncounted | Finished | Rejected runner_error | SendPanic

datatype close_phase = NotClosing | Swapped | Waiting | Returned

text \<open>
  A call is \<open>(immediately, phase)\<close>. \<open>tr_close\<close> is where the \<open>Close\<close> that won the swap of the
  status is, \<open>tr_lost\<close> counts the calls of \<open>Close\<close> that lost it and returned at once. \<open>tr_handled\<close>
  records the calls of the panic handler.
\<close>

record runner =
  tr_limitChan :: "unit chan"
  tr_status :: runner_status
  tr_wg :: int
  tr_calls :: "(bool \<times> call_phase) list"
  tr_close :: close_phase
  tr_lost :: nat
  tr_handled :: "nat list"

definition new_task_runner :: "int \<Rightarrow> runner" where
  "new_task_runner taskQueueSize =
     (let taskQueueSize = (if taskQueueSize \<le> 0 then 1 else taskQueueSize)
      in \<lparr>tr_limitChan = make_chan (nat taskQueueSize), tr_status = TaskRunnerOpen, tr_wg = 0,
          tr_calls = [], tr_close = NotClosing, tr_lost = 0, tr_handled = []\<rparr>)"

section \<open>Steps\<close>

definition set_call :: "nat \<Rightarrow> bool \<Rightarrow> call_phase \<Rightarrow> runner \<Rightarrow> runner" where
  "set_call i imm ph r = r\<lparr>tr_calls := (tr_calls r)[i := (imm, ph)]\<rparr>"

text \<open>A call begins: it reads the status.\<close>

definition call_begin :: "bool \<Rightarrow> runner \<Rightarrow> runner" where
  "call_begin imm r =
     r\<lparr>tr_calls := tr_calls r @
        [(imm, if tr_status r = TaskRunnerClosed then Rejected ErrTaskRunnerClosed else Checked)]\<rparr>"

text \<open>The next step of call \<open>i\<close> up to the start of its task; \<^term>\<open>None\<close> if it blocks.\<close>

definition call_step :: "nat \<Rightarrow> runner \<Rightarrow> runner option" where
  "call_step i r =
     (case tr_calls r ! i of
        (imm, Checked) \<Rightarrow> Some ((set_call i imm Added r)\<lparr>tr_wg := tr_wg r + 1\<rparr>)
      | (imm, Added) \<Rightarrow>
          (case chan_try_send () (tr_limitChan r) of
             None \<Rightarrow> Some (set_call i imm SendPanic r)
           | Some (True, ch) \<Rightarrow> Some ((set_call i imm Executing r)\<lparr>tr_limitChan := ch\<rparr>)
           | Some (False, ch) \<Rightarrow>
               if imm then Some ((set_call i imm (Rejected ErrTaskRunnerBusy) r)\<lparr>tr_wg := tr_wg r - 1\<rparr>)
               else None)
      | _ \<Rightarrow> None)"

text \<open>
  The end of a task: the panic handler if it panicked, then the deferred calls. \<open>Submit\<close> gives
  back the place and then its count, \<open>SubmitImmediately\<close> the other way round.
\<close>

definition release :: "runner \<Rightarrow> runner option" where
  "release r = map_option (\<lambda>(_, ch). r\<lparr>tr_limitChan := ch\<rparr>) (chan_recv (tr_limitChan r))"

definition task_step :: "nat \<Rightarrow> bool \<Rightarrow> runner \<Rightarrow> runner option" where
  "task_step i threw r =
     (case tr_calls r ! i of
        (False, Executing) \<Rightarrow> release ((set_call i False Released r)
            \<lparr>tr_handled := (if threw then tr_handled r @ [i] else tr_handled r)\<rparr>)
      | (True, Executing) \<Rightarrow> Some ((set_call i True Uncounted r)\<lparr>tr_wg := tr_wg r - 1,
            tr_handled := (if threw then tr_handled r @ [i] else tr_handled r)\<rparr>)
      | (imm, Released) \<Rightarrow> Some ((set_call i imm Finished r)\<lparr>tr_wg := tr_wg r - 1\<rparr>)
      | (imm, Uncounted) \<Rightarrow> release (set_call i imm Finished r)
      | _ \<Rightarrow> None)"

text \<open>\<open>Close\<close> swaps the status; a call that finds the runner closed already returns there.\<close>

definition close_call :: "runner \<Rightarrow> runner" where
  "close_call r =
     (if tr_status r = TaskRunnerOpen then r\<lparr>tr_status := TaskRunnerClosed, tr_close := Swapped\<rparr>
      else r\<lparr>tr_lost := Suc (tr_lost r)\<rparr>)"

text \<open>The \<open>Close\<close> that won goes on: close the channel, wait for the group.\<close>

definition close_step :: "runner \<Rightarrow> runner option" where
  "close_step r =
     (case tr_close r of
        NotClosing \<Rightarrow> None
      | Swapped \<Rightarrow> map_option (\<lambda>(_, ch). r\<lparr>tr_limitChan := ch, tr_close := Waiting\<rparr>) (chan_close (tr_limitChan r))
      | Waiting \<Rightarrow> if tr_wg r = 0 then Some (r\<lparr>tr_close := Returned\<rparr>) else None
      | Returned \<Rightarrow> None)"

inductive runner_step :: "runner \<Rightarrow> runner \<Rightarrow> bool" where
  begin_call: "runner_step r (call_begin imm r)"
| call: "i < length (tr_calls r) \<Longrightarrow> call_step i r = Some s \<Longrightarrow> runner_step r s"
| task: "i < length (tr_calls r) \<Longrightarrow> task_step i threw r = Some s \<Longrightarrow> runner_step r s"
| close_called: "runner_step r (close_call r)"
| closing: "close_step r = Some s \<Longrightarrow> runner_step r s"

inductive runner_reachable :: "int \<Rightarrow> runner \<Rightarrow> bool" for n where
  made: "runner_reachable n (new_task_runner n)"
| step: "runner_reachable n r \<Longrightarrow> runner_step r s \<Longrightarrow> runner_reachable n s"

section \<open>Invariant\<close>

text \<open>The places of the channel and the counts of the wait group that a call holds.\<close>

fun places :: "bool \<times> call_phase \<Rightarrow> int" where
  "places (imm, Executing) = 1"
| "places (imm, Uncounted) = 1"
| "places _ = 0"

fun counts :: "bool \<times> call_phase \<Rightarrow> int" where
  "counts (imm, Added) = 1"
| "counts (imm, Executing) = 1"
| "counts (imm, Released) = 1"
| "counts (imm, SendPanic) = 1"
| "counts _ = 0"

definition runner_inv :: "runner \<Rightarrow> bool" where
  "runner_inv r \<longleftrightarrow> chan_inv (tr_limitChan r) \<and> ch_wait (tr_limitChan r) = [] \<and>
     int (length (ch_buf (tr_limitChan r))) = sum_list (map places (tr_calls r)) \<and>
     tr_wg r = sum_list (map counts (tr_calls r)) \<and>
     (tr_status r = TaskRunnerOpen \<longleftrightarrow> tr_close r = NotClosing) \<and>
     (ch_closed (tr_limitChan r) \<longleftrightarrow> tr_close r \<in> {Waiting, Returned}) \<and>
     (\<forall>c \<in> set (tr_calls r). c \<noteq> (True, Released) \<and> c \<noteq> (False, Uncounted))"

lemma places_nonneg [simp]: "0 \<le> places c"
  by (cases c rule: places.cases) auto

lemma counts_nonneg [simp]: "0 \<le> counts c"
  by (cases c rule: counts.cases) auto

lemma recv_place:
  assumes "chan_inv c" and "ch_wait c = []" and "ch_buf c \<noteq> []"
  shows "\<exists>d. chan_recv c = Some (Some (hd (ch_buf c)), d) \<and> chan_inv d \<and> ch_wait d = [] \<and>
    ch_buf d = tl (ch_buf c) \<and> ch_closed d = ch_closed c \<and> ch_cap d = ch_cap c"
  using assms by (cases "ch_buf c") (auto simp: chan_recv_def chan_inv_def)

text \<open>A call moves on; the channel and the wait group follow it.\<close>

lemma runner_inv_move:
  assumes inv: "runner_inv r" and i: "i < length (tr_calls r)"
    and s: "tr_calls s = (tr_calls r)[i := (imm, ph)]" "tr_status s = tr_status r" "tr_close s = tr_close r"
    and ch: "chan_inv (tr_limitChan s)" "ch_wait (tr_limitChan s) = []"
      "ch_closed (tr_limitChan s) = ch_closed (tr_limitChan r)"
      "int (length (ch_buf (tr_limitChan s))) - int (length (ch_buf (tr_limitChan r))) = places (imm, ph) - places (tr_calls r ! i)"
    and wg: "tr_wg s - tr_wg r = counts (imm, ph) - counts (tr_calls r ! i)"
    and shape: "(imm, ph) \<noteq> (True, Released)" "(imm, ph) \<noteq> (False, Uncounted)"
  shows "runner_inv s"
proof -
  have "c = (imm, ph) \<or> c \<in> set (tr_calls r)" if "c \<in> set (tr_calls s)" for c
    using that set_update_subset_insert [of "tr_calls r" i "(imm, ph)"] by (auto simp: s(1))
  then have "\<forall>c \<in> set (tr_calls s). c \<noteq> (True, Released) \<and> c \<noteq> (False, Uncounted)"
    using inv shape unfolding runner_inv_def by blast
  moreover have "sum_list (map places (tr_calls s)) = sum_list (map places (tr_calls r)) - places (tr_calls r ! i) + places (imm, ph)"
    "sum_list (map counts (tr_calls s)) = sum_list (map counts (tr_calls r)) - counts (tr_calls r ! i) + counts (imm, ph)"
    unfolding s(1) by (simp_all add: sum_update i)
  ultimately show ?thesis using inv s(2,3) ch wg by (simp add: runner_inv_def)
qed

lemma set_call_simps [simp]:
  "tr_calls (set_call i imm ph r) = (tr_calls r)[i := (imm, ph)]" "tr_status (set_call i imm ph r) = tr_status r"
  "tr_close (set_call i imm ph r) = tr_close r" "tr_limitChan (set_call i imm ph r) = tr_limitChan r"
  "tr_wg (set_call i imm ph r) = tr_wg r" "tr_handled (set_call i imm ph r) = tr_handled r"
  by (simp_all add: set_call_def)

lemma runner_chan:
  "runner_inv r \<Longrightarrow> chan_inv (tr_limitChan r) \<and> ch_wait (tr_limitChan r) = []"
  by (simp add: runner_inv_def)

lemma call_step_inv:
  assumes inv: "runner_inv r" and i: "i < length (tr_calls r)" and s: "call_step i r = Some s"
  shows "runner_inv s"
proof -
  note ch = runner_chan [OF inv]
  obtain imm ph where c: "tr_calls r ! i = (imm, ph)" by fastforce
  show ?thesis
  proof (cases ph)
    case Checked
    with s c have "s = (set_call i imm Added r)\<lparr>tr_wg := tr_wg r + 1\<rparr>" by (simp add: call_step_def)
    then show ?thesis using ch c Checked by (intro runner_inv_move [OF inv i, of s imm Added]) simp_all
  next
    case Added
    show ?thesis
    proof (cases "chan_try_send () (tr_limitChan r)")
      case None
      with s c Added have "s = set_call i imm SendPanic r" by (simp add: call_step_def)
      then show ?thesis using ch c Added by (intro runner_inv_move [OF inv i, of s imm SendPanic]) simp_all
    next
      case (Some p)
      obtain b d where p: "p = (b, d)" by fastforce
      note t = chan_try_send_ok [of "tr_limitChan r" "()" b d]
      show ?thesis
      proof (cases b)
        case True
        then have s': "s = (set_call i imm Executing r)\<lparr>tr_limitChan := d\<rparr>"
          using s c Added Some p by (simp add: call_step_def)
        have "int (length (ch_buf d)) - int (length (ch_buf (tr_limitChan r))) = 1" "ch_closed d = ch_closed (tr_limitChan r)"
          using Some p True by (auto simp: chan_try_send_def split: if_splits)
        then show ?thesis using t Some p True ch c Added s'
          by (intro runner_inv_move [OF inv i, of s imm Executing]) simp_all
      next
        case False
        then have s': "s = (set_call i imm (Rejected ErrTaskRunnerBusy) r)\<lparr>tr_wg := tr_wg r - 1\<rparr>"
          using s c Added Some p by (simp add: call_step_def split: if_splits)
        then show ?thesis using ch c Added
          by (intro runner_inv_move [OF inv i, of s imm "Rejected ErrTaskRunnerBusy"]) simp_all
      qed
    qed
  qed (use s c in \<open>simp_all add: call_step_def\<close>)
qed

text \<open>A task that holds a place finds it in the channel, open or closed: giving it back never blocks.\<close>

lemma release_ok:
  assumes inv: "runner_inv r" and i: "i < length (tr_calls r)" and p: "places (tr_calls r ! i) = 1"
    and t: "tr_limitChan t = tr_limitChan r"
  shows "\<exists>d. release t = Some (t\<lparr>tr_limitChan := d\<rparr>) \<and> chan_inv d \<and> ch_wait d = [] \<and>
    ch_closed d = ch_closed (tr_limitChan r) \<and>
    int (length (ch_buf d)) - int (length (ch_buf (tr_limitChan r))) = - 1"
proof -
  have "1 \<le> int (length (ch_buf (tr_limitChan r)))"
    using inv sum_elem [of places i "tr_calls r"] i p by (simp add: runner_inv_def)
  then have ne: "ch_buf (tr_limitChan r) \<noteq> []" by auto
  from recv_place [OF _ _ ne] runner_chan [OF inv] obtain d where
    d: "chan_recv (tr_limitChan r) = Some (Some (hd (ch_buf (tr_limitChan r))), d)" "chan_inv d" "ch_wait d = []"
      "ch_buf d = tl (ch_buf (tr_limitChan r))" "ch_closed d = ch_closed (tr_limitChan r)" by blast
  moreover have "int (length (ch_buf d)) - int (length (ch_buf (tr_limitChan r))) = - 1"
    using ne by (cases "ch_buf (tr_limitChan r)") (simp_all add: d(4))
  ultimately show ?thesis using t by (intro exI [of _ d]) (simp add: release_def)
qed

lemma task_step_inv:
  assumes inv: "runner_inv r" and i: "i < length (tr_calls r)" and s: "task_step i threw r = Some s"
  shows "runner_inv s"
proof -
  note ch = runner_chan [OF inv]
  obtain imm ph where c: "tr_calls r ! i = (imm, ph)" by fastforce
  show ?thesis
  proof (cases ph)
    case Executing
    show ?thesis
    proof (cases imm)
      case True
      with s c Executing have "s = (set_call i True Uncounted r)\<lparr>tr_wg := tr_wg r - 1,
          tr_handled := (if threw then tr_handled r @ [i] else tr_handled r)\<rparr>" by (simp add: task_step_def)
      then show ?thesis using ch c Executing by (intro runner_inv_move [OF inv i, of s True Uncounted]) simp_all
    next
      case False
      let ?t = "(set_call i False Released r)\<lparr>tr_handled := (if threw then tr_handled r @ [i] else tr_handled r)\<rparr>"
      have "release ?t = Some s" using s c Executing False by (simp add: task_step_def)
      with release_ok [OF inv i, of ?t] c Executing obtain d where d: "s = ?t\<lparr>tr_limitChan := d\<rparr>" "chan_inv d"
        "ch_wait d = []" "ch_closed d = ch_closed (tr_limitChan r)"
        "int (length (ch_buf d)) - int (length (ch_buf (tr_limitChan r))) = - 1" by auto
      then show ?thesis using c Executing by (intro runner_inv_move [OF inv i, of s False Released]) simp_all
    qed
  next
    case Released
    with s c have "s = (set_call i imm Finished r)\<lparr>tr_wg := tr_wg r - 1\<rparr>"
      by (cases imm) (simp_all add: task_step_def)
    then show ?thesis using ch c Released by (intro runner_inv_move [OF inv i, of s imm Finished]) simp_all
  next
    case Uncounted
    have "release (set_call i imm Finished r) = Some s" using s c Uncounted by (cases imm) (simp_all add: task_step_def)
    with release_ok [OF inv i, of "set_call i imm Finished r"] c Uncounted obtain d where
      d: "s = (set_call i imm Finished r)\<lparr>tr_limitChan := d\<rparr>" "chan_inv d"
        "ch_wait d = []" "ch_closed d = ch_closed (tr_limitChan r)"
        "int (length (ch_buf d)) - int (length (ch_buf (tr_limitChan r))) = - 1" by auto
    then show ?thesis using c Uncounted by (intro runner_inv_move [OF inv i, of s imm Finished]) simp_all
  qed (use s c in \<open>cases imm; simp add: task_step_def\<close>)+
qed

lemma close_step_inv:
  assumes "runner_inv r" and "close_step r = Some s"
  shows "runner_inv s"
proof (cases "tr_close r")
  case Swapped
  with assms obtain ws ch where ch: "chan_close (tr_limitChan r) = Some (ws, ch)"
    "s = r\<lparr>tr_limitChan := ch, tr_close := Waiting\<rparr>" by (auto simp: close_step_def)
  have "ch = (tr_limitChan r)\<lparr>ch_closed := True, ch_wait := []\<rparr>"
    using ch(1) by (simp add: chan_close_def split: if_splits)
  then have "chan_inv ch" "ch_wait ch = []" "ch_closed ch" "ch_buf ch = ch_buf (tr_limitChan r)"
    using runner_chan [OF assms(1)] by (simp_all add: chan_inv_def)
  moreover have "tr_status r \<noteq> TaskRunnerOpen" using assms(1) Swapped by (simp add: runner_inv_def)
  ultimately show ?thesis using assms(1) ch(2) by (simp add: runner_inv_def)
next
  case Waiting
  with assms(2) have "s = r\<lparr>tr_close := Returned\<rparr>" by (simp add: close_step_def split: if_splits)
  with assms(1) Waiting show ?thesis by (simp add: runner_inv_def)
qed (use assms in \<open>simp_all add: close_step_def\<close>)

lemma close_call_inv: "runner_inv r \<Longrightarrow> runner_inv (close_call r)"
  by (auto simp: runner_inv_def close_call_def)

lemma call_begin_inv: "runner_inv r \<Longrightarrow> runner_inv (call_begin imm r)"
  by (auto simp: runner_inv_def call_begin_def)

lemma new_task_runner_inv [model_inv]: "runner_inv (new_task_runner n)"
  by (simp add: runner_inv_def new_task_runner_def Let_def) (simp add: make_chan_def)

lemma runner_reachable_inv: "runner_reachable n r \<Longrightarrow> runner_inv r"
proof (induction rule: runner_reachable.induct)
  case (step r s)
  from step(2,3) show ?case
    by (cases rule: runner_step.cases) (auto intro: call_begin_inv call_step_inv task_step_inv close_call_inv close_step_inv)
qed (rule new_task_runner_inv)

section \<open>Properties\<close>

abbreviation executing :: "runner \<Rightarrow> nat" where
  "executing r \<equiv> length (filter (\<lambda>c. snd c = Executing) (tr_calls r))"

lemma count_le_sum: "(\<And>c. 0 \<le> f c) \<Longrightarrow> (\<And>c. P c \<Longrightarrow> 1 \<le> f c) \<Longrightarrow> int (length (filter P cs)) \<le> sum_list (map f cs)"
proof (induction cs)
  case (Cons c cs)
  have "int (length (filter P cs)) \<le> sum_list (map f cs)" using Cons by blast
  moreover have "0 \<le> f c" "P c \<Longrightarrow> 1 \<le> f c" using Cons.prems by blast+
  ultimately show ?case by simp linarith
qed simp

lemma executing_places: "snd c = Executing \<Longrightarrow> 1 \<le> places c"
  by (cases c) auto

lemma executing_counts: "snd c = Executing \<Longrightarrow> 1 \<le> counts c"
  by (cases c) auto

lemma chan_cap_step:
  "runner_step r s \<Longrightarrow> ch_cap (tr_limitChan s) = ch_cap (tr_limitChan r)"
proof (induction rule: runner_step.induct)
  case (call i r s)
  obtain imm ph where c: "tr_calls r ! i = (imm, ph)" by fastforce
  with call(2) show ?case
    by (cases ph) (auto simp: call_step_def chan_try_send_def split: if_splits bool.splits option.splits)
next
  case (task i r threw s)
  have rel: "release t = Some s \<Longrightarrow> ch_cap (tr_limitChan s) = ch_cap (tr_limitChan t)" for t
    by (auto simp: release_def chan_recv_def split: list.splits if_splits)
  obtain imm ph where c: "tr_calls r ! i = (imm, ph)" by fastforce
  with task(2) show ?case by (cases imm; cases ph) (auto simp: task_step_def dest!: rel)
next
  case (closing r s)
  then show ?case by (auto simp: close_step_def chan_close_def split: close_phase.splits if_splits)
qed (simp_all add: call_begin_def close_call_def)

lemma runner_cap:
  "runner_reachable n r \<Longrightarrow> int (ch_cap (tr_limitChan r)) = max 1 n"
  by (induction rule: runner_reachable.induct) (auto simp: chan_cap_step new_task_runner_def Let_def)

text \<open>
  C13: at no time do more tasks run than the limit \<open>taskQueueSize\<close> (at least 1) given to
  \<open>NewTaskRunner\<close>, whichever way they were submitted and also while \<open>Close\<close> is under way.
\<close>

theorem runner_limits_tasks:
  assumes "runner_reachable n r"
  shows "int (executing r) \<le> max 1 n"
proof -
  have inv: "runner_inv r" by (rule runner_reachable_inv [OF assms])
  have "int (executing r) \<le> sum_list (map places (tr_calls r))"
    by (rule count_le_sum) (simp_all add: executing_places)
  also have "\<dots> = int (length (ch_buf (tr_limitChan r)))" using inv by (simp add: runner_inv_def)
  also have "\<dots> \<le> int (ch_cap (tr_limitChan r))" using runner_chan [OF inv] by (simp add: chan_inv_def)
  finally show ?thesis by (simp add: runner_cap [OF assms])
qed

text \<open>
  C14: when the \<open>Close\<close> that closed the runner, the one call that won the swap of the status, returns,
  every task that was started has come to its end, whether it
  panicked or not, and no call is left that has counted itself and still waits for a place. Every other \<open>Close\<close>,
  repeated or concurrent, only returns, without waiting: it leaves the tasks and the \<open>Close\<close> that
  is under way as they are.
\<close>

theorem runner_close_waits_for_tasks:
  assumes "runner_reachable n r" and "tr_close r = Waiting" and "close_step r = Some s"
  shows "tr_close s = Returned \<and> (\<forall>c \<in> set (tr_calls s). snd c \<notin> {Added, Executing, Released, SendPanic}) \<and>
    (\<forall>t \<in> {r, s}. close_call t = t\<lparr>tr_lost := Suc (tr_lost t)\<rparr>)"
proof -
  have inv: "runner_inv r" by (rule runner_reachable_inv [OF assms(1)])
  have s: "s = r\<lparr>tr_close := Returned\<rparr>" "tr_wg r = 0"
    using assms(2,3) by (simp_all add: close_step_def split: if_splits)
  have "counts c \<le> 0" if "c \<in> set (tr_calls r)" for c
  proof -
    obtain i where i: "i < length (tr_calls r)" "tr_calls r ! i = c" using \<open>c \<in> _\<close> by (auto simp: in_set_conv_nth)
    with sum_elem [of counts i "tr_calls r"] inv s(2) show ?thesis by (simp add: runner_inv_def)
  qed
  moreover have "snd c \<in> {Added, Executing, Released, SendPanic} \<Longrightarrow> counts c = 1" for c
    by (cases c) auto
  moreover have "tr_status r \<noteq> TaskRunnerOpen" using inv assms(2) by (simp add: runner_inv_def)
  ultimately show ?thesis using s(1) by (fastforce simp: close_call_def)
qed

text \<open>A \<open>Close\<close> that loses the swap returns while tasks run.\<close>

lemma lost_close_returns:
  assumes "runner_reachable n r" and "tr_close r \<noteq> NotClosing"
  shows "runner_reachable n (r\<lparr>tr_lost := Suc (tr_lost r)\<rparr>)"
proof -
  have "tr_status r \<noteq> TaskRunnerOpen" using runner_reachable_inv [OF assms(1)] assms(2) by (simp add: runner_inv_def)
  then show ?thesis using runner_reachable.step [OF assms(1) runner_step.close_called] by (simp add: close_call_def)
qed

fun call_work :: "bool \<times> call_phase \<Rightarrow> nat" where
  "call_work (imm, Executing) = 2"
| "call_work (imm, Released) = 1"
| "call_work (imm, Uncounted) = 1"
| "call_work _ = 0"

definition settled :: "runner \<Rightarrow> bool" where
  "settled r \<longleftrightarrow> (\<forall>c \<in> set (tr_calls r). snd c \<notin> {Checked, Added, SendPanic})"

lemma task_progress:
  assumes inv: "runner_inv r" and i: "i < length (tr_calls r)" and w: "call_work (tr_calls r ! i) \<noteq> 0"
  shows "\<exists>s ph. task_step i threw r = Some s \<and> tr_calls s = (tr_calls r)[i := (fst (tr_calls r ! i), ph)] \<and>
    call_work (fst (tr_calls r ! i), ph) < call_work (tr_calls r ! i) \<and>
    ph \<notin> {Checked, Added, SendPanic} \<and> tr_close s = tr_close r"
proof -
  obtain imm ph where c: "tr_calls r ! i = (imm, ph)" by fastforce
  have no: "(imm, ph) \<noteq> (True, Released)" "(imm, ph) \<noteq> (False, Uncounted)"
    using inv i c unfolding runner_inv_def by (metis nth_mem)+
  show ?thesis
  proof (cases ph)
    case Executing
    show ?thesis
    proof (cases imm)
      case True
      with c Executing show ?thesis
        by (intro exI [of _ "(set_call i True Uncounted r)\<lparr>tr_wg := tr_wg r - 1,
            tr_handled := (if threw then tr_handled r @ [i] else tr_handled r)\<rparr>"] exI [of _ Uncounted])
          (simp add: task_step_def)
    next
      case False
      let ?t = "(set_call i False Released r)\<lparr>tr_handled := (if threw then tr_handled r @ [i] else tr_handled r)\<rparr>"
      obtain d where "release ?t = Some (?t\<lparr>tr_limitChan := d\<rparr>)"
        using release_ok [OF inv i, of ?t] c Executing by auto
      with c Executing False show ?thesis
        by (intro exI [of _ "?t\<lparr>tr_limitChan := d\<rparr>"] exI [of _ Released]) (simp add: task_step_def)
    qed
  next
    case Released
    with no have "imm = False" by simp
    with c Released show ?thesis
      by (intro exI [of _ "(set_call i False Finished r)\<lparr>tr_wg := tr_wg r - 1\<rparr>"] exI [of _ Finished]) (simp add: task_step_def)
  next
    case Uncounted
    with no have imm: "imm = True" by simp
    obtain d where "release (set_call i True Finished r) = Some ((set_call i True Finished r)\<lparr>tr_limitChan := d\<rparr>)"
      using release_ok [OF inv i, of "set_call i True Finished r"] c Uncounted by auto
    with c Uncounted imm show ?thesis
      by (intro exI [of _ "(set_call i True Finished r)\<lparr>tr_limitChan := d\<rparr>"] exI [of _ Finished]) (simp add: task_step_def)
  qed (use w c in simp_all)
qed

lemma settled_returns:
  "runner_inv r \<Longrightarrow> settled r \<Longrightarrow> tr_close r = Waiting \<Longrightarrow> \<exists>s. runner_step\<^sup>*\<^sup>* r s \<and> tr_close s = Returned"
proof (induction "sum_list (map call_work (tr_calls r))" arbitrary: r rule: less_induct)
  case less
  show ?case
  proof (cases "\<exists>i < length (tr_calls r). call_work (tr_calls r ! i) \<noteq> 0")
    case True
    then obtain i where i: "i < length (tr_calls r)" "call_work (tr_calls r ! i) \<noteq> 0" by blast
    obtain s ph where s: "task_step i False r = Some s" "tr_calls s = (tr_calls r)[i := (fst (tr_calls r ! i), ph)]"
      "call_work (fst (tr_calls r ! i), ph) < call_work (tr_calls r ! i)" "ph \<notin> {Checked, Added, SendPanic}"
      "tr_close s = tr_close r"
      using task_progress [OF less.prems(1) i, of False] by blast
    have inv: "runner_inv s" by (rule task_step_inv [OF less.prems(1) i(1) s(1)])
    have "settled s"
      using less.prems(2) s(4) set_update_subset_insert [of "tr_calls r" i "(fst (tr_calls r ! i), ph)"]
      unfolding settled_def s(2) by fastforce
    moreover have "sum_list (map call_work (tr_calls s)) < sum_list (map call_work (tr_calls r))"
      unfolding s(2) by (rule sum_list_update_less [OF i(1) s(3)])
    ultimately obtain u where "runner_step\<^sup>*\<^sup>* s u" "tr_close u = Returned"
      using less.hyps [OF _ inv] s(5) less.prems(3) by auto
    then show ?thesis using converse_rtranclp_into_rtranclp [of runner_step, OF runner_step.task [OF i(1) s(1)]] by blast
  next
    case False
    have "counts c = 0" if "c \<in> set (tr_calls r)" for c
    proof -
      obtain imm ph where c: "c = (imm, ph)" by fastforce
      have "call_work c = 0" using False that by (auto simp: in_set_conv_nth)
      moreover have "ph \<notin> {Checked, Added, SendPanic}" using less.prems(2) that by (auto simp: settled_def c)
      ultimately show ?thesis by (cases ph) (simp_all add: c)
    qed
    then have "map counts (tr_calls r) = map (\<lambda>c. 0) (tr_calls r)" by simp
    then have "sum_list (map counts (tr_calls r)) = 0" by (simp only: sum_list_0)
    then have "close_step r = Some (r\<lparr>tr_close := Returned\<rparr>)"
      using less.prems(1,3) by (simp add: close_step_def runner_inv_def)
    then have "runner_step\<^sup>*\<^sup>* r (r\<lparr>tr_close := Returned\<rparr>)" by (intro r_into_rtranclp runner_step.closing)
    then show ?thesis by (intro exI [of _ "r\<lparr>tr_close := Returned\<rparr>"]) simp
  qed
qed

text \<open>
  once no call is between its look at the status and its task, a \<open>Close\<close> that waits does
  return, however the tasks end.
\<close>

theorem runner_settled_close_returns:
  assumes "runner_reachable n r" and "settled r" and "tr_close r = Waiting"
  shows "\<exists>s. runner_step\<^sup>*\<^sup>* r s \<and> tr_close s = Returned"
  by (rule settled_returns [OF runner_reachable_inv [OF assms(1)] assms(2,3)])

lemma in_set_update_other:
  "c \<in> set xs \<Longrightarrow> xs ! i \<noteq> c \<Longrightarrow> c \<in> set (xs[i := x])"
  by (auto simp: in_set_conv_nth) (metis length_list_update nth_list_update_neq)

text \<open>A call that has panicked at its send keeps its count in the wait group for ever.\<close>

lemma panic_stays:
  assumes inv: "runner_inv r" and c: "(imm, SendPanic) \<in> set (tr_calls r)" and w: "tr_close r = Waiting"
    and step: "runner_step r s"
  shows "(imm, SendPanic) \<in> set (tr_calls s) \<and> tr_close s = Waiting"
  using step
proof (cases rule: runner_step.cases)
  case (begin_call imm)
  with c w show ?thesis by (simp add: call_begin_def)
next
  case (call i)
  obtain imm' ph where e: "tr_calls r ! i = (imm', ph)" by fastforce
  have "ph \<noteq> SendPanic" using call(2) e by (cases ph) (auto simp: call_step_def)
  moreover obtain x where "tr_calls s = (tr_calls r)[i := x]" "tr_close s = tr_close r"
    using call(2) e by (cases ph) (auto simp: call_step_def split: option.splits prod.splits bool.splits if_splits)
  ultimately show ?thesis using c w e call(1) by (simp add: in_set_update_other)
next
  case (task i threw)
  have rel: "release t = Some u \<Longrightarrow> tr_calls u = tr_calls t \<and> tr_close u = tr_close t" for t u
    by (auto simp: release_def)
  obtain imm' ph where e: "tr_calls r ! i = (imm', ph)" by fastforce
  have "ph \<noteq> SendPanic" using task(2) e by (cases imm') (auto simp: task_step_def)
  moreover obtain x where "tr_calls s = (tr_calls r)[i := x]" "tr_close s = tr_close r"
    using task(2) e by (cases imm'; cases ph) (auto simp: task_step_def dest!: rel)
  ultimately show ?thesis using c w e task(1) by (simp add: in_set_update_other)
next
  case close_called
  from w have "tr_status r \<noteq> TaskRunnerOpen" using inv by (simp add: runner_inv_def)
  with close_called c w show ?thesis by (simp add: close_call_def)
next
  case closing
  obtain i where i: "i < length (tr_calls r)" "tr_calls r ! i = (imm, SendPanic)"
    using c by (auto simp: in_set_conv_nth)
  have "1 \<le> tr_wg r" using sum_elem [of counts i "tr_calls r"] i inv by (simp add: runner_inv_def)
  then show ?thesis using closing w by (simp add: close_step_def)
qed

lemma panic_stays_forever:
  "runner_step\<^sup>*\<^sup>* r s \<Longrightarrow> runner_inv r \<Longrightarrow> (imm, SendPanic) \<in> set (tr_calls r) \<Longrightarrow> tr_close r = Waiting \<Longrightarrow>
   runner_inv s \<and> (imm, SendPanic) \<in> set (tr_calls s) \<and> tr_close s = Waiting"
proof (induction rule: rtranclp_induct)
  case (step s t)
  then have s: "runner_inv s" "(imm, SendPanic) \<in> set (tr_calls s)" "tr_close s = Waiting" by blast+
  have "runner_inv t"
    using step(2) s(1) by (cases rule: runner_step.cases) (auto intro: call_begin_inv call_step_inv task_step_inv close_call_inv close_step_inv)
  with panic_stays [OF s step(2)] show ?case by blast
qed blast

text \<open>
  \<open>Submit\<close> and \<open>SubmitImmediately\<close> are not safe next to \<open>Close\<close>: a call that saw the
  runner open can reach its send after the channel was closed and panic there. It has counted
  itself in the wait group and never takes that back, so from then on \<open>Close\<close> does not return,
  whatever else happens.
\<close>

theorem runner_submit_close_race:
  "\<exists>r. runner_reachable n r \<and> tr_calls r = [(imm, SendPanic)] \<and> tr_close r = Waiting \<and>
     (\<forall>s. runner_step\<^sup>*\<^sup>* r s \<longrightarrow> tr_close s \<noteq> Returned)"
proof -
  let ?r0 = "new_task_runner n"
  let ?r2 = "?r0\<lparr>tr_calls := [(imm, Added)], tr_wg := 1\<rparr>"
  let ?r4 = "?r2\<lparr>tr_limitChan := (tr_limitChan ?r0)\<lparr>ch_closed := True, ch_wait := []\<rparr>,
      tr_status := TaskRunnerClosed, tr_close := Waiting\<rparr>"
  let ?r5 = "?r4\<lparr>tr_calls := [(imm, SendPanic)]\<rparr>"
  have new: "tr_calls ?r0 = []" "tr_status ?r0 = TaskRunnerOpen" "tr_wg ?r0 = 0" "tr_close ?r0 = NotClosing"
    "\<not> ch_closed (tr_limitChan ?r0)"
    by (simp_all add: new_task_runner_def Let_def)
  have "runner_reachable n (call_begin imm ?r0)"
    by (rule runner_reachable.step [OF runner_reachable.made runner_step.begin_call])
  moreover have "call_step 0 (call_begin imm ?r0) = Some ?r2" "0 < length (tr_calls (call_begin imm ?r0))"
    by (simp_all add: call_step_def call_begin_def set_call_def new)
  ultimately have r2: "runner_reachable n ?r2" using runner_reachable.step runner_step.call by blast
  have r3: "runner_reachable n (?r2\<lparr>tr_status := TaskRunnerClosed, tr_close := Swapped\<rparr>)"
    using runner_reachable.step [OF r2 runner_step.close_called] by (simp add: close_call_def new)
  have "close_step (?r2\<lparr>tr_status := TaskRunnerClosed, tr_close := Swapped\<rparr>) = Some ?r4"
    by (simp add: close_step_def chan_close_def new)
  then have r4: "runner_reachable n ?r4" using runner_reachable.step [OF r3] runner_step.closing by blast
  have "call_step 0 ?r4 = Some ?r5" by (simp add: call_step_def chan_try_send_def set_call_def)
  moreover have "0 < length (tr_calls ?r4)" by simp
  ultimately have r5: "runner_reachable n ?r5" using runner_reachable.step [OF r4] runner_step.call by blast
  have "tr_close s \<noteq> Returned" if "runner_step\<^sup>*\<^sup>* ?r5 s" for s
    using panic_stays_forever [OF that runner_reachable_inv [OF r5], of imm] by simp
  with r5 show ?thesis by (intro exI [of _ ?r5]) simp
qed

theorem runner_submit_close_race_witness:
  "\<exists>r. runner_reachable 1 r \<and> tr_calls r = [(True, SendPanic)] \<and> tr_close r = Waiting"
  using runner_submit_close_race [of 1 True] by blast

text \<open>A runner with one task under way, and a \<open>Close\<close> that waits for it.\<close>

definition busy_runner :: runner where
  "busy_runner = (new_task_runner 2)\<lparr>tr_calls := [(True, Executing)], tr_wg := 1,
     tr_limitChan := \<lparr>ch_buf = [()], ch_wait = [], ch_cap = 2, ch_closed = False\<rparr>\<rparr>"

definition waiting_runner :: runner where
  "waiting_runner = busy_runner\<lparr>tr_status := TaskRunnerClosed, tr_close := Waiting,
     tr_limitChan := \<lparr>ch_buf = [()], ch_wait = [], ch_cap = 2, ch_closed = True\<rparr>\<rparr>"

lemma busy_reachable: "runner_reachable 2 busy_runner"
proof -
  let ?r1 = "(new_task_runner 2)\<lparr>tr_calls := [(True, Added)], tr_wg := 1\<rparr>"
  have "runner_reachable 2 (call_begin True (new_task_runner 2))"
    by (rule runner_reachable.step [OF runner_reachable.made runner_step.begin_call])
  moreover have "call_step 0 (call_begin True (new_task_runner 2)) = Some ?r1"
    "0 < length (tr_calls (call_begin True (new_task_runner 2)))"
    by (simp_all add: call_step_def call_begin_def set_call_def new_task_runner_def Let_def)
  ultimately have r1: "runner_reachable 2 ?r1" using runner_reachable.step runner_step.call by blast
  have "call_step 0 ?r1 = Some busy_runner"
    by (simp add: call_step_def chan_try_send_def set_call_def new_task_runner_def Let_def make_chan_def busy_runner_def)
  moreover have "0 < length (tr_calls ?r1)" by simp
  ultimately show ?thesis using runner_reachable.step [OF r1] runner_step.call by blast
qed

lemma waiting_reachable: "runner_reachable 2 waiting_runner"
proof -
  let ?s = "busy_runner\<lparr>tr_status := TaskRunnerClosed, tr_close := Swapped\<rparr>"
  have s: "runner_reachable 2 ?s"
    using runner_reachable.step [OF busy_reachable runner_step.close_called]
    by (simp add: close_call_def busy_runner_def new_task_runner_def Let_def)
  have "close_step ?s = Some waiting_runner"
    by (simp add: close_step_def chan_close_def busy_runner_def waiting_runner_def)
  then show ?thesis using runner_reachable.step [OF s] runner_step.closing by blast
qed

theorem runner_limits_tasks_witness: "executing busy_runner = 1 \<and> int (executing busy_runner) \<le> max 1 2"
  using runner_limits_tasks [OF busy_reachable] by (simp add: busy_runner_def)

theorem runner_settled_close_returns_witness:
  "\<exists>s. runner_step\<^sup>*\<^sup>* waiting_runner s \<and> tr_close s = Returned"
  by (rule runner_settled_close_returns [OF waiting_reachable])
    (simp_all add: settled_def waiting_runner_def busy_runner_def)

theorem runner_close_waits_for_tasks_witness:
  "\<exists>r s. runner_reachable 2 r \<and> tr_calls r = [(True, Uncounted)] \<and> close_step r = Some s \<and> tr_close s = Returned"
proof -
  let ?r = "waiting_runner\<lparr>tr_calls := [(True, Uncounted)], tr_wg := 0\<rparr>"
  have "task_step 0 False waiting_runner = Some ?r"
    by (simp add: task_step_def waiting_runner_def busy_runner_def set_call_def new_task_runner_def Let_def)
  moreover have "0 < length (tr_calls waiting_runner)" by (simp add: waiting_runner_def busy_runner_def)
  ultimately have r: "runner_reachable 2 ?r" using runner_reachable.step [OF waiting_reachable] runner_step.task by blast
  have w: "tr_close ?r = Waiting" by (simp add: waiting_runner_def)
  then have s: "close_step ?r = Some (?r\<lparr>tr_close := Returned\<rparr>)" by (simp add: close_step_def)
  from runner_close_waits_for_tasks [OF r w s] r s show ?thesis
    by (intro exI [of _ ?r] exI [of _ "?r\<lparr>tr_close := Returned\<rparr>"]) simp
qed

end
