(* ===== verification/Buffer_Pool.thy ===== *)
theory Buffer_Pool
  imports Go_Prelude
begin

text \<open>
  \<^verbatim>\<open>common/pool/pool.go\<close> and \<^verbatim>\<open>buffer_pool.go\<close>: the object pool over
  \<^verbatim>\<open>sync.Pool\<close> and the byte buffers kept in it. A byte is a \<open>char\<close>. Buffers are
  shared by pointer, a position in the store. \<^verbatim>\<open>sync.Pool\<close> may return any pooled
  object or a new one, and may drop pooled objects: the choice is an argument. The formatting
  of floats and times by the standard library is a parameter.
\<close>

section \<open>Decimal numbers\<close>

text \<open>\<open>strconv.AppendInt\<close>, \<open>AppendUint\<close> with base 10 and \<open>AppendBool\<close>: what they append.\<close>

definition digit_char :: "nat \<Rightarrow> char" where
  "digit_char d = char_of (48 + d)"

fun format_nat :: "nat \<Rightarrow> string" where
  "format_nat n = (if n < 10 then [digit_char n] else format_nat (n div 10) @ [digit_char (n mod 10)])"

declare format_nat.simps [simp del]

definition format_int :: "int \<Rightarrow> string" where
  "format_int v = (if v < 0 then CHR ''-'' # format_nat (nat (- v)) else format_nat (nat v))"

definition format_bool :: "bool \<Rightarrow> string" where
  "format_bool b = (if b then ''true'' else ''false'')"

text \<open>The reading of such a text, as a specification.\<close>

definition digit_value :: "char \<Rightarrow> nat option" where
  "digit_value c = (let n = of_char c in if 48 \<le> n \<and> n < 58 then Some (n - 48) else None)"

fun read_digits :: "nat \<Rightarrow> string \<Rightarrow> nat option" where
  "read_digits acc [] = Some acc"
| "read_digits acc (c # cs) = do { d \<leftarrow> digit_value c; read_digits (acc * 10 + d) cs }"

fun read_int :: "string \<Rightarrow> int option" where
  "read_int [] = None"
| "read_int (c # cs) =
     (if c = CHR ''-'' then (if cs = [] then None else map_option (\<lambda>n. - int n) (read_digits 0 cs))
      else map_option int (read_digits 0 (c # cs)))"

lemma digit_value_char [simp]: "d < 10 \<Longrightarrow> digit_value (digit_char d) = Some d"
  by (simp add: digit_value_def digit_char_def)

lemma digit_char_not_minus: "d < 10 \<Longrightarrow> digit_char d \<noteq> CHR ''-''"
proof
  assume "d < 10" and "digit_char d = CHR ''-''"
  then have "of_char (digit_char d) = (45 :: nat)" by simp
  with \<open>d < 10\<close> show False by (simp add: digit_char_def)
qed

lemma read_digits_append:
  "read_digits a (xs @ ys) = do { b \<leftarrow> read_digits a xs; read_digits b ys }"
proof (induction xs arbitrary: a)
  case (Cons c cs)
  then show ?case by (cases "digit_value c") simp_all
qed simp

lemma read_format_nat: "read_digits 0 (format_nat n) = Some n"
proof (induction n rule: less_induct)
  case (less n)
  show ?case
  proof (cases "n < 10")
    case True
    then show ?thesis by (simp add: format_nat.simps [of n])
  next
    case False
    then have "read_digits 0 (format_nat (n div 10)) = Some (n div 10)" by (intro less) simp
    then show ?thesis using False by (simp add: format_nat.simps [of n] read_digits_append)
  qed
qed

lemma format_nat_shape: "\<exists>d cs. format_nat n = digit_char d # cs \<and> d < 10"
proof (induction n rule: less_induct)
  case (less n)
  show ?case
  proof (cases "n < 10")
    case True
    then show ?thesis by (auto simp: format_nat.simps [of n])
  next
    case False
    then have "\<exists>d cs. format_nat (n div 10) = digit_char d # cs \<and> d < 10" by (intro less) simp
    with False show ?thesis by (auto simp: format_nat.simps [of n])
  qed
qed

lemma read_format_int: "read_int (format_int v) = Some v"
proof -
  obtain d cs where p: "format_nat (nat v) = digit_char d # cs" "d < 10"
    using format_nat_shape by blast
  obtain e ds where m: "format_nat (nat (- v)) = digit_char e # ds"
    using format_nat_shape by blast
  show ?thesis
  proof (cases "v < 0")
    case True
    then show ?thesis using read_format_nat [of "nat (- v)"] m by (simp add: format_int_def)
  next
    case False
    then show ?thesis using read_format_nat [of "nat v"] p digit_char_not_minus [OF p(2)]
      by (simp add: format_int_def)
  qed
qed

section \<open>Buffers\<close>

record buffer =
  b_buf :: string
  b_attached :: bool

definition append_byte :: "char \<Rightarrow> buffer \<Rightarrow> buffer" where
  "append_byte v b = b\<lparr>b_buf := b_buf b @ [v]\<rparr>"

definition append_bytes :: "string \<Rightarrow> buffer \<Rightarrow> buffer" where
  "append_bytes v b = b\<lparr>b_buf := b_buf b @ v\<rparr>"

definition append_string :: "string \<Rightarrow> buffer \<Rightarrow> buffer" where
  "append_string v b = b\<lparr>b_buf := b_buf b @ v\<rparr>"

definition append_int :: "int \<Rightarrow> buffer \<Rightarrow> buffer" where
  "append_int v b = b\<lparr>b_buf := b_buf b @ format_int v\<rparr>"

definition append_uint :: "nat \<Rightarrow> buffer \<Rightarrow> buffer" where
  "append_uint v b = b\<lparr>b_buf := b_buf b @ format_nat v\<rparr>"

definition append_bool :: "bool \<Rightarrow> buffer \<Rightarrow> buffer" where
  "append_bool v b = b\<lparr>b_buf := b_buf b @ format_bool v\<rparr>"

definition append_float :: "('f \<Rightarrow> int \<Rightarrow> string) \<Rightarrow> 'f \<Rightarrow> int \<Rightarrow> buffer \<Rightarrow> buffer" where
  "append_float fmt v bitSize b = b\<lparr>b_buf := b_buf b @ fmt v bitSize\<rparr>"

definition append_time :: "('t \<Rightarrow> string \<Rightarrow> string) \<Rightarrow> 't \<Rightarrow> string \<Rightarrow> buffer \<Rightarrow> buffer" where
  "append_time fmt t layout b = b\<lparr>b_buf := b_buf b @ fmt t layout\<rparr>"

definition buffer_len :: "buffer \<Rightarrow> int" where
  "buffer_len b = int (length (b_buf b))"

definition buffer_bytes :: "buffer \<Rightarrow> string" where
  "buffer_bytes b = b_buf b"

definition buffer_string :: "buffer \<Rightarrow> string" where
  "buffer_string b = b_buf b"

definition buffer_reset :: "buffer \<Rightarrow> buffer" where
  "buffer_reset b = b\<lparr>b_buf := []\<rparr>"

text \<open>\<open>Write\<close>, \<open>WriteByte\<close> and \<open>WriteString\<close> never return an error.\<close>

definition buffer_write :: "string \<Rightarrow> buffer \<Rightarrow> int \<times> buffer" where
  "buffer_write v b = (int (length v), append_bytes v b)"

definition buffer_write_byte :: "char \<Rightarrow> buffer \<Rightarrow> buffer" where
  "buffer_write_byte v b = append_byte v b"

definition buffer_write_string :: "string \<Rightarrow> buffer \<Rightarrow> int \<times> buffer" where
  "buffer_write_string v b = (int (length v), append_string v b)"

definition trim_new_line :: "buffer \<Rightarrow> buffer option" where
  "trim_new_line b =
     (let i = int (length (b_buf b)) - 1 in
      if i \<ge> 0 then do {
        c \<leftarrow> slice_get (b_buf b) i;
        if c = CHR 0x0A then do { w \<leftarrow> slice_range (b_buf b) 0 i; Some (b\<lparr>b_buf := w\<rparr>) }
        else Some b }
      else Some b)"

section \<open>The pool\<close>

record buffer_pool =
  bp_store :: "buffer list"
  bp_free :: "nat list"

definition new_buffer_pool :: buffer_pool where
  "new_buffer_pool = \<lparr>bp_store = [], bp_free = []\<rparr>"

text \<open>\<open>NewPool\<close> panics without a function that makes objects; \<open>NewBufferPool\<close> has one.\<close>

definition new_object_pool :: "bool \<Rightarrow> buffer_pool option" where
  "new_object_pool fn = (if \<not> fn then None else Some \<lparr>bp_store = [], bp_free = []\<rparr>)"

lemma new_buffer_pool_no_panic: "new_object_pool True = Some new_buffer_pool"
  by (simp add: new_object_pool_def new_buffer_pool_def)

text \<open>\<open>Pool.Get\<close>: the pooled object at a position, or a new one from \<open>fn\<close>.\<close>

definition pool_get :: "nat option \<Rightarrow> buffer_pool \<Rightarrow> nat \<times> buffer_pool" where
  "pool_get choice bp =
     (case choice of
        Some k \<Rightarrow> if k < length (bp_free bp)
          then (bp_free bp ! k, bp\<lparr>bp_free := take k (bp_free bp) @ drop (Suc k) (bp_free bp)\<rparr>)
          else (length (bp_store bp), bp\<lparr>bp_store := bp_store bp @ [\<lparr>b_buf = [], b_attached = False\<rparr>]\<rparr>)
      | None \<Rightarrow> (length (bp_store bp), bp\<lparr>bp_store := bp_store bp @ [\<lparr>b_buf = [], b_attached = False\<rparr>]\<rparr>))"

definition pool_put :: "nat \<Rightarrow> buffer_pool \<Rightarrow> buffer_pool" where
  "pool_put p bp = bp\<lparr>bp_free := bp_free bp @ [p]\<rparr>"

definition update_buffer :: "nat \<Rightarrow> (buffer \<Rightarrow> buffer) \<Rightarrow> buffer_pool \<Rightarrow> buffer_pool" where
  "update_buffer p f bp = bp\<lparr>bp_store := (bp_store bp)[p := f (bp_store bp ! p)]\<rparr>"

definition bp_get :: "nat option \<Rightarrow> buffer_pool \<Rightarrow> nat \<times> buffer_pool" where
  "bp_get choice bp =
     (let (p, bp1) = pool_get choice bp
      in (p, update_buffer p (\<lambda>b. (buffer_reset b)\<lparr>b_attached := True\<rparr>) bp1))"

text \<open>\<open>Free\<close> panics on a buffer that no pool has handed out.\<close>

definition buffer_free :: "nat \<Rightarrow> buffer_pool \<Rightarrow> buffer_pool option" where
  "buffer_free p bp = (if b_attached (bp_store bp ! p) then Some (pool_put p bp) else None)"

text \<open>
  Clients: each holds the buffers it got and has not freed, uses only those, and frees each
  once. \<open>drop\<close> is the garbage collector at the pool.
\<close>

inductive pool_client :: "buffer_pool \<Rightarrow> nat list \<Rightarrow> bool" where
  made: "pool_client new_buffer_pool []"
| got: "pool_client bp held \<Longrightarrow> bp_get choice bp = (p, bp') \<Longrightarrow> pool_client bp' (p # held)"
| used: "pool_client bp held \<Longrightarrow> p \<in> set held \<Longrightarrow> b_attached (f (bp_store bp ! p)) = b_attached (bp_store bp ! p) \<Longrightarrow>
    pool_client (update_buffer p f bp) held"
| freed: "pool_client bp held \<Longrightarrow> p \<in> set held \<Longrightarrow> buffer_free p bp = Some bp' \<Longrightarrow> pool_client bp' (remove1 p held)"
| dropped: "pool_client bp held \<Longrightarrow> k < length (bp_free bp) \<Longrightarrow>
    pool_client (bp\<lparr>bp_free := take k (bp_free bp) @ drop (Suc k) (bp_free bp)\<rparr>) held"

definition pool_ok :: "buffer_pool \<Rightarrow> nat list \<Rightarrow> bool" where
  "pool_ok bp held \<longleftrightarrow> distinct (held @ bp_free bp) \<and> (\<forall>p \<in> set (held @ bp_free bp). p < length (bp_store bp)) \<and>
     (\<forall>p \<in> set held. b_attached (bp_store bp ! p))"

lemma take_drop_distinct:
  assumes "distinct xs" and "k < length xs"
  shows "distinct (take k xs @ drop (Suc k) xs)" "set (take k xs @ drop (Suc k) xs) = set xs - {xs ! k}"
proof -
  have x: "xs = take k xs @ xs ! k # drop (Suc k) xs" using assms(2) by (rule id_take_nth_drop)
  have "distinct (take k xs @ xs ! k # drop (Suc k) xs)" using assms(1) x by simp
  then show "distinct (take k xs @ drop (Suc k) xs)" by auto
  have "set xs = insert (xs ! k) (set (take k xs @ drop (Suc k) xs))" using arg_cong [OF x, of set] by auto
  moreover have "xs ! k \<notin> set (take k xs @ drop (Suc k) xs)"
    using \<open>distinct (take k xs @ xs ! k # drop (Suc k) xs)\<close> by auto
  ultimately show "set (take k xs @ drop (Suc k) xs) = set xs - {xs ! k}" by auto
qed

lemma attached_update: "b_attached (f (bp_store bp ! p)) = b_attached (bp_store bp ! p) \<Longrightarrow>
    b_attached (bp_store (update_buffer p f bp) ! q) = b_attached (bp_store bp ! q)"
  by (cases "p < length (bp_store bp)") (auto simp: update_buffer_def nth_list_update list_update_beyond)

lemma update_buffer_ok:
  "pool_ok bp held \<Longrightarrow> b_attached (f (bp_store bp ! p)) = b_attached (bp_store bp ! p) \<Longrightarrow>
   pool_ok (update_buffer p f bp) held"
  unfolding pool_ok_def using attached_update [of f bp p] by (simp add: update_buffer_def)

lemma buffer_fields: "b\<lparr>b_buf := x, b_attached := y\<rparr> = \<lparr>b_buf = x, b_attached = y\<rparr>"
  by (cases b) simp

text \<open>What \<open>Get\<close> hands out: an empty buffer that nobody else holds.\<close>

lemma bp_get_ok:
  assumes ok: "pool_ok bp held" and get: "bp_get choice bp = (p, bp')"
  shows "pool_ok bp' (p # held) \<and> p \<notin> set held \<and> b_buf (bp_store bp' ! p) = [] \<and>
    (\<forall>q \<in> set held. bp_store bp' ! q = bp_store bp ! q)"
proof (cases "\<exists>k. choice = Some k \<and> k < length (bp_free bp)")
  case True
  then obtain k where k: "choice = Some k" "k < length (bp_free bp)" by blast
  have p: "p = bp_free bp ! k" and b: "bp' = bp\<lparr>bp_free := take k (bp_free bp) @ drop (Suc k) (bp_free bp),
      bp_store := (bp_store bp)[p := \<lparr>b_buf = [], b_attached = True\<rparr>]\<rparr>"
    using get k by (auto simp: bp_get_def pool_get_def update_buffer_def buffer_reset_def buffer_fields)
  have "p \<in> set (bp_free bp)" using k(2) p by simp
  with ok have "p \<notin> set held" "p < length (bp_store bp)" by (auto simp: pool_ok_def)
  moreover have "distinct (bp_free bp)" using ok by (simp add: pool_ok_def)
  note td = take_drop_distinct [OF this k(2)]
  ultimately show ?thesis using ok td by (auto simp: b pool_ok_def p nth_list_update)
next
  case False
  then have "pool_get choice bp = (length (bp_store bp), bp\<lparr>bp_store := bp_store bp @ [\<lparr>b_buf = [], b_attached = False\<rparr>]\<rparr>)"
    by (auto simp: pool_get_def split: option.splits)
  then have p: "p = length (bp_store bp)" and b: "bp' = bp\<lparr>bp_store := bp_store bp @ [\<lparr>b_buf = [], b_attached = True\<rparr>]\<rparr>"
    using get by (auto simp: bp_get_def update_buffer_def buffer_reset_def)
  have "\<forall>q \<in> set (held @ bp_free bp). q < length (bp_store bp)" using ok by (simp add: pool_ok_def)
  then show ?thesis using ok by (auto simp: p b pool_ok_def nth_append less_Suc_eq)
qed

lemma remove1_ok:
  assumes ok: "pool_ok bp held" and p: "p \<in> set held" and free: "buffer_free p bp = Some bp'"
  shows "pool_ok bp' (remove1 p held)"
proof -
  have "bp' = bp\<lparr>bp_free := bp_free bp @ [p]\<rparr>" using free by (auto simp: buffer_free_def pool_put_def split: if_splits)
  moreover have "set (remove1 p held) = set held - {p}" using ok by (simp add: pool_ok_def)
  ultimately show ?thesis using ok p by (auto simp: pool_ok_def)
qed

lemma pool_client_ok: "pool_client bp held \<Longrightarrow> pool_ok bp held"
proof (induction rule: pool_client.induct)
  case made
  show ?case by (simp add: pool_ok_def new_buffer_pool_def)
next
  case (got bp held choice p bp')
  then show ?case using bp_get_ok by blast
next
  case (used bp held p f)
  then show ?case using update_buffer_ok by blast
next
  case (freed bp held p bp')
  then show ?case using remove1_ok by blast
next
  case (dropped bp held k)
  then have "distinct (bp_free bp)" by (simp add: pool_ok_def)
  from take_drop_distinct [OF this dropped(2)] dropped(3) show ?case by (auto simp: pool_ok_def)
qed

section \<open>Properties\<close>

text \<open>
  C15: a buffer from \<open>Get\<close> belongs to its client alone. Whatever clients did before, and
  whichever pooled buffer \<open>sync.Pool\<close> picks, it is empty, no other client holds it, getting it
  changes no buffer in use, and freeing it later does not panic.
\<close>

theorem buffer_get_exclusive:
  assumes "pool_client bp held" and "bp_get choice bp = (p, bp')"
  shows "p \<notin> set held \<and> buffer_string (bp_store bp' ! p) = [] \<and>
    (\<forall>q \<in> set held. bp_store bp' ! q = bp_store bp ! q) \<and> buffer_free p bp' \<noteq> None"
proof -
  note g = bp_get_ok [OF pool_client_ok [OF assms(1)] assms(2)]
  then have "b_attached (bp_store bp' ! p)" by (simp add: pool_ok_def)
  with g show ?thesis by (simp add: buffer_string_def buffer_free_def)
qed

theorem buffer_get_exclusive_witness:
  "\<exists>bp bp'. bp_get None new_buffer_pool = (0, bp) \<and> bp_get (Some 0) bp = (1, bp') \<and> (1::nat) \<notin> set [0]"
proof -
  obtain bp where bp: "bp_get None new_buffer_pool = (0, bp)"
    by (simp add: bp_get_def pool_get_def new_buffer_pool_def)
  have c: "pool_client bp [0]" by (rule pool_client.got [OF pool_client.made bp])
  obtain bp' where bp': "bp_get (Some 0) bp = (1, bp')"
    using bp by (auto simp: bp_get_def pool_get_def new_buffer_pool_def update_buffer_def)
  from buffer_get_exclusive [OF c bp'] bp bp' show ?thesis by auto
qed

text \<open>
  The decimal text that \<open>AppendInt\<close> writes behind the contents of a buffer reads back as
  the number, and the text of \<open>AppendUint\<close> is that of \<open>AppendInt\<close>.
\<close>

lemma append_int_reads_back:
  "\<exists>t. buffer_bytes (append_int v b) = buffer_bytes b @ t \<and> read_int t = Some v \<and>
     (0 \<le> v \<longrightarrow> append_uint (nat v) b = append_int v b)"
  by (rule exI [of _ "format_int v"])
    (simp add: append_int_def append_uint_def buffer_bytes_def read_format_int, simp add: format_int_def)

theorem append_int_reads_back_witness:
  "\<exists>t. buffer_bytes (append_int (-307) \<lparr>b_buf = ''x='', b_attached = True\<rparr>) = ''x='' @ t \<and> read_int t = Some (-307)"
  using append_int_reads_back [of "-307" "\<lparr>b_buf = ''x='', b_attached = True\<rparr>"] by (simp add: buffer_bytes_def)

text \<open>
  \<open>TrimNewLine\<close> never panics; it takes away one newline from the end if there is one and
  changes nothing else: after \<open>WriteByte\<close> of a newline it gives the buffer back as it was.
\<close>

lemma trim_new_line_ok:
  "trim_new_line b = Some (if b_buf b \<noteq> [] \<and> last (b_buf b) = CHR 0x0A then b\<lparr>b_buf := butlast (b_buf b)\<rparr> else b) \<and>
   trim_new_line (buffer_write_byte (CHR 0x0A) b) = Some b"
proof -
  have "trim_new_line b = Some (if b_buf b \<noteq> [] \<and> last (b_buf b) = CHR 0x0A then b\<lparr>b_buf := butlast (b_buf b)\<rparr> else b)" for b
  proof (cases "b_buf b = []")
    case False
    then have "nat (int (length (b_buf b)) - 1) = length (b_buf b) - 1" by simp
    with False show ?thesis
      by (simp add: trim_new_line_def Let_def last_conv_nth butlast_conv_take)
  qed (simp add: trim_new_line_def)
  then show ?thesis by (simp add: buffer_write_byte_def append_byte_def)
qed

end
