(* ===== verification/Net_Base.thy ===== *)
theory Net_Base
  imports Go_Prelude "HOL-Library.Word"
begin

text \<open>
  What the network components share: their errors (\<^verbatim>\<open>common/network/errors.go\<close>, the
  errors of \<^verbatim>\<open>net\<close>, \<^verbatim>\<open>io\<close> and \<^verbatim>\<open>context\<close> they return, and
  \<open>errors.Join\<close> and \<open>errors.Is\<close>), what a call of code the client supplies can do, and
  \<^verbatim>\<open>common/network/traffic.go\<close>, the counters of a connection.
\<close>

section \<open>Errors\<close>

text \<open>
  \<open>ForeignError\<close> is an error of the transport, the codec or a callback, with the errors it
  wraps; \<open>PanicError\<close> is a recovered panic, with the place that recovered it.
\<close>

datatype net_error =
    ErrSendQueueFull
  | ErrHeartbeatTimeout
  | ErrSessionIdExists
  | ErrSessionLimitReached
  | ErrClosed
  | ErrShortWrite
  | Canceled
  | DeadlineExceeded
  | NewError string
  | InvalidHeartbeatKind nat
  | PanicError string string
  | ForeignError string "net_error list"
  | JoinError "net_error list"

text \<open>\<open>errors.Join\<close> drops the nil errors and is nil if nothing is left.\<close>

definition errors_join :: "net_error option list \<Rightarrow> net_error option" where
  "errors_join es =
     (case List.map_filter id es of [] \<Rightarrow> None | xs \<Rightarrow> Some (JoinError xs))"

text \<open>\<open>errors.Is\<close> walks the tree of wrapped errors.\<close>

fun errors_is :: "net_error \<Rightarrow> net_error \<Rightarrow> bool" where
  "errors_is (ForeignError m es) target \<longleftrightarrow>
     ForeignError m es = target \<or> (\<exists>e \<in> set es. errors_is e target)"
| "errors_is (JoinError es) target \<longleftrightarrow> JoinError es = target \<or> (\<exists>e \<in> set es. errors_is e target)"
| "errors_is e target \<longleftrightarrow> e = target"

text \<open>The errors a joined error was made of.\<close>

fun error_leaves :: "net_error \<Rightarrow> net_error list" where
  "error_leaves (JoinError es) = concat (map error_leaves es)"
| "error_leaves e = [e]"

definition opt_leaves :: "net_error option \<Rightarrow> net_error list" where
  "opt_leaves e = (case e of None \<Rightarrow> [] | Some x \<Rightarrow> error_leaves x)"

lemma opt_leaves_simps [simp]: "opt_leaves None = []" "opt_leaves (Some x) = error_leaves x"
  by (simp_all add: opt_leaves_def)

lemma errors_join_simps [simp]:
  "errors_join [] = None" "errors_join [None] = None" "errors_join [Some a] = Some (JoinError [a])"
  "errors_join [None, None] = None" "errors_join [Some a, None] = Some (JoinError [a])"
  "errors_join [None, Some b] = Some (JoinError [b])" "errors_join [Some a, Some b] = Some (JoinError [a, b])"
  by (simp_all add: errors_join_def List.map_filter_def)

lemma errors_join_leaves [simp]: "opt_leaves (errors_join [a, b]) = opt_leaves a @ opt_leaves b"
  by (cases a; cases b) simp_all

lemma errors_join_None_iff [simp]: "errors_join [a, b] = None \<longleftrightarrow> a = None \<and> b = None"
  by (cases a; cases b) simp_all

text \<open>What a call of code that the client supplies can do: return, return an error, panic.\<close>

datatype 'a outcome = Returns 'a | Fails net_error | Panics string

text \<open>
  A value of an interface type whose dynamic type is a pointer: the nil interface, or a pointer,
  which may itself be nil. A comparison with \<open>nil\<close> is about the interface, and a method that
  reads a field panics on the nil pointer.
\<close>

datatype 't iface = NilIface | Iface "'t option"

text \<open>
  \<open>sync.Once\<close>: the first caller of \<open>Do\<close> runs the function, and callers that come while it
  runs wait for its end. \<open>OnceBusy\<close> holds what the running function has still to do.
\<close>

datatype 'a once = OnceNew | OnceBusy 'a | OnceDone

text \<open>Counting the goroutines that satisfy a condition.\<close>

fun act :: "bool \<Rightarrow> int" where
  "act True = 1" | "act False = 0"

lemma act_zero: "act a + act b + act d = 0 \<longleftrightarrow> \<not> a \<and> \<not> b \<and> \<not> d"
  by (cases a; cases b; cases d) simp_all

section \<open>Traffic statistics\<close>

record traffic_snapshot =
  ReadMessages :: "64 word"
  ReadBytes :: "64 word"
  WriteMessages :: "64 word"
  WriteBytes :: "64 word"

record traffic_statistics =
  readMessages :: "64 word"
  readBytes :: "64 word"
  writeMessages :: "64 word"
  writeBytes :: "64 word"

definition no_traffic :: traffic_statistics where
  "no_traffic = \<lparr>readMessages = 0, readBytes = 0, writeMessages = 0, writeBytes = 0\<rparr>"

definition traffic_snapshot_of :: "traffic_statistics \<Rightarrow> traffic_snapshot" where
  "traffic_snapshot_of ts =
     \<lparr>ReadMessages = readMessages ts, ReadBytes = readBytes ts,
      WriteMessages = writeMessages ts, WriteBytes = writeBytes ts\<rparr>"

definition incr_read :: "64 word \<Rightarrow> traffic_statistics \<Rightarrow> traffic_statistics" where
  "incr_read rl ts = ts\<lparr>readMessages := readMessages ts + 1, readBytes := readBytes ts + rl\<rparr>"

definition incr_write :: "64 word \<Rightarrow> traffic_statistics \<Rightarrow> traffic_statistics" where
  "incr_write wl ts = ts\<lparr>writeMessages := writeMessages ts + 1, writeBytes := writeBytes ts + wl\<rparr>"

text \<open>
  The counters are those of a list of messages: how many there are and their bytes, modulo
  \<open>2 ^ 64\<close>. The component proofs keep this relation instead of the counters.
\<close>

definition counts_messages :: "64 word \<Rightarrow> 64 word \<Rightarrow> nat list \<Rightarrow> bool" where
  "counts_messages ms bs ns \<longleftrightarrow> ms = of_nat (length ns) \<and> bs = of_nat (sum_list ns)"

lemma counts_messages_Nil [simp]: "counts_messages 0 0 []"
  by (simp add: counts_messages_def)

lemma counts_messages_snoc:
  "counts_messages ms bs ns \<Longrightarrow> counts_messages (ms + 1) (bs + of_nat n) (ns @ [n])"
  by (simp add: counts_messages_def)

lemma counts_messages_unat:
  "counts_messages ms bs ns \<Longrightarrow>
   unat ms = length ns mod 2 ^ 64 \<and> unat bs = sum_list ns mod 2 ^ 64"
  by (simp add: counts_messages_def unat_of_nat)

end
