(* ===== verification/Session_Manager.thy ===== *)
theory Session_Manager
  imports Net_Base
begin

text \<open>
  \<^verbatim>\<open>common/network/session_manager.go\<close>: the registry of connections. A connection
  is any type \<open>'c\<close> with its \<open>ID()\<close>, the parameter \<open>cid\<close>; an interface value that may be nil
  is an option. The lock makes \<open>Add\<close>, \<open>Remove\<close>, \<open>Get\<close> and \<open>Len\<close> atomic. \<open>Close\<close> holds
  it only while it takes the connections and closes them one by one afterwards, so those steps
  interleave with the other operations; what \<open>Close()\<close> of a connection returns is arbitrary.
\<close>

section \<open>State and operations\<close>

record 'c session_manager =
  mgr_conns :: "(nat, 'c) fmap"
  mgr_maxConns :: int
  mgr_closed :: bool
  mgr_closeOnce :: "'c list once"
  mgr_closeErr :: "net_error option"

definition new_session_manager :: "int \<Rightarrow> 'c session_manager" where
  "new_session_manager maxConns =
     \<lparr>mgr_conns = fmempty, mgr_maxConns = maxConns, mgr_closed = False, mgr_closeOnce = OnceNew,
      mgr_closeErr = None\<rparr>"

definition mgr_add :: "('c \<Rightarrow> nat) \<Rightarrow> 'c option \<Rightarrow> 'c session_manager \<Rightarrow> net_error option \<times> 'c session_manager" where
  "mgr_add cid conn s =
     (case conn of
        None \<Rightarrow> (Some (NewError ''network/session: connections is nil''), s)
      | Some c \<Rightarrow>
          if mgr_closed s then (Some ErrClosed, s)
          else if fmlookup (mgr_conns s) (cid c) \<noteq> None then (Some ErrSessionIdExists, s)
          else if mgr_maxConns s > 0 \<and> map_len (mgr_conns s) \<ge> mgr_maxConns s
          then (Some ErrSessionLimitReached, s)
          else (None, s\<lparr>mgr_conns := fmupd (cid c) c (mgr_conns s)\<rparr>))"

definition mgr_remove :: "nat \<Rightarrow> 'c session_manager \<Rightarrow> 'c session_manager" where
  "mgr_remove i s = s\<lparr>mgr_conns := fmdrop i (mgr_conns s)\<rparr>"

definition mgr_get :: "nat \<Rightarrow> 'c session_manager \<Rightarrow> 'c option \<times> bool" where
  "mgr_get i s = (fmlookup (mgr_conns s) i, fmlookup (mgr_conns s) i \<noteq> None)"

text \<open>The snapshot both loops take under the lock; \<open>ks\<close> is the map's iteration order.\<close>

definition mgr_snapshot :: "nat list \<Rightarrow> 'c session_manager \<Rightarrow> 'c list" where
  "mgr_snapshot ks s = List.map_filter (fmlookup (mgr_conns s)) ks"

text \<open>The callback of \<open>Range\<close> may change anything, the manager too: it threads a state.\<close>

fun range_loop :: "('c \<Rightarrow> 'w \<Rightarrow> bool \<times> 'w) \<Rightarrow> 'c list \<Rightarrow> 'w \<Rightarrow> 'w" where
  "range_loop fn [] w = w"
| "range_loop fn (c # cs) w = (let (more, w1) = fn c w in if \<not> more then w1 else range_loop fn cs w1)"

definition mgr_range :: "('c \<Rightarrow> 'w \<Rightarrow> bool \<times> 'w) option \<Rightarrow> nat list \<Rightarrow> 'c session_manager \<Rightarrow> 'w \<Rightarrow> 'w" where
  "mgr_range fn ks s w = (case fn of None \<Rightarrow> w | Some f \<Rightarrow> range_loop f (mgr_snapshot ks s) w)"

definition mgr_len :: "'c session_manager \<Rightarrow> int" where
  "mgr_len s = map_len (mgr_conns s)"

text \<open>
  \<open>Close\<close>: the part under the lock, one turn of the loop with the result of \<open>conn.Close()\<close>,
  and the end of the function given to \<open>closeOnce.Do\<close>.
\<close>

definition mgr_close_take :: "nat list \<Rightarrow> 'c session_manager \<Rightarrow> 'c session_manager option" where
  "mgr_close_take ks s =
     (case mgr_closeOnce s of
        OnceNew \<Rightarrow> Some (s\<lparr>mgr_closed := True, mgr_closeOnce := OnceBusy (mgr_snapshot ks s)\<rparr>)
      | _ \<Rightarrow> None)"

definition mgr_close_one :: "net_error option \<Rightarrow> 'c session_manager \<Rightarrow> ('c \<times> 'c session_manager) option" where
  "mgr_close_one err s =
     (case mgr_closeOnce s of
        OnceBusy (c # cs) \<Rightarrow>
          Some (c, s\<lparr>mgr_closeOnce := OnceBusy cs,
            mgr_closeErr := (if err \<noteq> None then errors_join [mgr_closeErr s, err] else mgr_closeErr s)\<rparr>)
      | _ \<Rightarrow> None)"

definition mgr_close_end :: "'c session_manager \<Rightarrow> 'c session_manager option" where
  "mgr_close_end s =
     (case mgr_closeOnce s of OnceBusy [] \<Rightarrow> Some (s\<lparr>mgr_closeOnce := OnceDone\<rparr>) | _ \<Rightarrow> None)"

text \<open>What \<open>Close\<close> returns, once \<open>closeOnce.Do\<close> has returned; \<^term>\<open>None\<close> while it blocks.\<close>

definition mgr_close_result :: "'c session_manager \<Rightarrow> net_error option option" where
  "mgr_close_result s = (case mgr_closeOnce s of OnceDone \<Rightarrow> Some (mgr_closeErr s) | _ \<Rightarrow> None)"

section \<open>Runs\<close>

text \<open>What happened so far, in the order of the steps.\<close>

datatype 'c mgr_event = Added 'c | Removed nat | CloseTook | ConnClosed 'c "net_error option"

inductive mgr_reachable :: "('c \<Rightarrow> nat) \<Rightarrow> int \<Rightarrow> 'c mgr_event list \<Rightarrow> 'c session_manager \<Rightarrow> bool"
  for cid :: "'c \<Rightarrow> nat" and n :: int where
  made: "mgr_reachable cid n [] (new_session_manager n)"
| add: "mgr_reachable cid n h s \<Longrightarrow> mgr_add cid (Some c) s = (r, t) \<Longrightarrow>
    mgr_reachable cid n (h @ (if r = None then [Added c] else [])) t"
| remove: "mgr_reachable cid n h s \<Longrightarrow> mgr_reachable cid n (h @ [Removed i]) (mgr_remove i s)"
| close_take: "mgr_reachable cid n h s \<Longrightarrow> enumerates ks (mgr_conns s) \<Longrightarrow> mgr_close_take ks s = Some t \<Longrightarrow>
    mgr_reachable cid n (h @ [CloseTook]) t"
| close_one: "mgr_reachable cid n h s \<Longrightarrow> mgr_close_one err s = Some (c, t) \<Longrightarrow>
    mgr_reachable cid n (h @ [ConnClosed c err]) t"
| close_end: "mgr_reachable cid n h s \<Longrightarrow> mgr_close_end s = Some t \<Longrightarrow> mgr_reachable cid n h t"

text \<open>The connections that are registered after a history, the ones it closed, and the errors.\<close>

fun live_step :: "('c \<Rightarrow> nat) \<Rightarrow> (nat, 'c) fmap \<Rightarrow> 'c mgr_event \<Rightarrow> (nat, 'c) fmap" where
  "live_step cid m (Added c) = fmupd (cid c) c m"
| "live_step cid m (Removed i) = fmdrop i m"
| "live_step cid m CloseTook = m"
| "live_step cid m (ConnClosed c e) = m"

definition live :: "('c \<Rightarrow> nat) \<Rightarrow> 'c mgr_event list \<Rightarrow> (nat, 'c) fmap" where
  "live cid h = foldl (live_step cid) fmempty h"

fun closed_by :: "'c mgr_event \<Rightarrow> ('c \<times> net_error option) list" where
  "closed_by (ConnClosed c e) = [(c, e)]"
| "closed_by (Added c) = []"
| "closed_by (Removed i) = []"
| "closed_by CloseTook = []"

definition closings :: "'c mgr_event list \<Rightarrow> ('c \<times> net_error option) list" where
  "closings h = concat (map closed_by h)"

fun is_added :: "'c mgr_event \<Rightarrow> bool" where
  "is_added (Added c) \<longleftrightarrow> True"
| "is_added (Removed i) \<longleftrightarrow> False"
| "is_added CloseTook \<longleftrightarrow> False"
| "is_added (ConnClosed c e) \<longleftrightarrow> False"

lemma live_simps [simp]: "live cid [] = fmempty" "live cid (h @ [x]) = live_step cid (live cid h) x"
  by (simp_all add: live_def)

lemma closings_simps [simp]: "closings [] = []" "closings (h @ k) = closings h @ closings k"
  "closings (x # h) = closed_by x @ closings h"
  by (simp_all add: closings_def)

section \<open>Invariant\<close>

text \<open>
  \<open>mgr_ok\<close> is the registry itself. \<open>close_ok\<close> splits the history at the moment \<open>Close\<close> took
  the lock: what is closed and what is pending are together the connections live at that moment.
\<close>

definition keyed :: "('c \<Rightarrow> nat) \<Rightarrow> (nat, 'c) fmap \<Rightarrow> bool" where
  "keyed cid m \<longleftrightarrow> (\<forall>i c. fmlookup m i = Some c \<longrightarrow> cid c = i)"

definition mgr_ok :: "('c \<Rightarrow> nat) \<Rightarrow> int \<Rightarrow> 'c mgr_event list \<Rightarrow> 'c session_manager \<Rightarrow> bool" where
  "mgr_ok cid n h s \<longleftrightarrow> mgr_maxConns s = n \<and> (0 < n \<longrightarrow> mgr_len s \<le> n) \<and> keyed cid (mgr_conns s) \<and>
     mgr_conns s = live cid h \<and> (mgr_closed s \<longleftrightarrow> mgr_closeOnce s \<noteq> OnceNew)"

definition pending :: "'c session_manager \<Rightarrow> 'c list" where
  "pending s = (case mgr_closeOnce s of OnceBusy cs \<Rightarrow> cs | _ \<Rightarrow> [])"

definition close_ok :: "('c \<Rightarrow> nat) \<Rightarrow> 'c mgr_event list \<Rightarrow> 'c session_manager \<Rightarrow> bool" where
  "close_ok cid h s \<longleftrightarrow>
     (if mgr_closeOnce s = OnceNew then closings h = [] \<and> mgr_closeErr s = None \<and> CloseTook \<notin> set h
      else \<exists>h1 h2. h = h1 @ CloseTook # h2 \<and> CloseTook \<notin> set h1 \<and> CloseTook \<notin> set h2 \<and>
        \<not> list_ex is_added h2 \<and> closings h1 = [] \<and> keyed cid (live cid h1) \<and>
        distinct (map fst (closings h2) @ pending s) \<and>
        set (map fst (closings h2) @ pending s) = fmran' (live cid h1) \<and>
        opt_leaves (mgr_closeErr s) = concat (map (opt_leaves \<circ> snd) (closings h2)))"

lemma snapshot_distinct:
  assumes "keyed cid (mgr_conns s)" and "enumerates ks (mgr_conns s)"
  shows "distinct (mgr_snapshot ks s) \<and> set (mgr_snapshot ks s) = fmran' (mgr_conns s)"
proof -
  have ks: "distinct ks" "set ks = fset (fmdom (mgr_conns s))"
    using assms(2) by (simp_all add: enumerates_set enumerates_def)
  have "distinct (List.map_filter (fmlookup (mgr_conns s)) ks) \<and>
      set (List.map_filter (fmlookup (mgr_conns s)) ks) = {c. \<exists>k \<in> set ks. fmlookup (mgr_conns s) k = Some c}"
    if "distinct ks" for ks
    using that
  proof (induction ks)
    case (Cons k ks)
    show ?case
    proof (cases "fmlookup (mgr_conns s) k")
      case None
      with Cons show ?thesis by (simp add: map_filter_simps)
    next
      case (Some c)
      have "c \<notin> {c. \<exists>k \<in> set ks. fmlookup (mgr_conns s) k = Some c}"
        using assms(1) Some Cons.prems by (auto simp: keyed_def)
      with Cons Some show ?thesis by (auto simp: map_filter_simps)
    qed
  qed (simp add: map_filter_simps)
  note this [OF ks(1)]
  moreover have "{c. \<exists>k \<in> set ks. fmlookup (mgr_conns s) k = Some c} = fmran' (mgr_conns s)"
    unfolding ks(2) by (auto intro: fmran'I fmdomI elim!: fmran'E)
  ultimately show ?thesis by (simp add: mgr_snapshot_def)
qed


lemma keyed_simps:
  "keyed cid fmempty" "keyed cid m \<Longrightarrow> keyed cid (fmupd (cid c) c m)" "keyed cid m \<Longrightarrow> keyed cid (fmdrop i m)"
  by (auto simp: keyed_def split: if_splits)

lemma mgr_reachable_ok: "mgr_reachable cid n h s \<Longrightarrow> mgr_ok cid n h s"
proof (induction rule: mgr_reachable.induct)
  case made
  show ?case by (simp add: mgr_ok_def new_session_manager_def mgr_len_def keyed_simps)
next
  case (add h s c r t)
  show ?case
  proof (cases "r = None")
    case True
    then have t: "t = s\<lparr>mgr_conns := fmupd (cid c) c (mgr_conns s)\<rparr>"
      and d: "cid c |\<notin>| fmdom (mgr_conns s)" "\<not> (mgr_maxConns s > 0 \<and> map_len (mgr_conns s) \<ge> mgr_maxConns s)"
      using add(2) by (auto simp: mgr_add_def fmdom_iff split: if_splits)
    with True add(3) show ?thesis by (auto simp: mgr_ok_def mgr_len_def map_len_upd keyed_simps)
  next
    case False
    then have "t = s" using add(2) by (auto simp: mgr_add_def split: if_splits)
    with False add(3) show ?thesis by auto
  qed
next
  case (remove h s i)
  then show ?case by (auto simp: mgr_ok_def mgr_remove_def mgr_len_def map_len_drop keyed_simps)
next
  case (close_take h s ks t)
  then show ?case by (auto simp: mgr_ok_def mgr_close_take_def mgr_len_def split: once.splits)
next
  case (close_one h s err c t)
  then show ?case by (auto simp: mgr_ok_def mgr_close_one_def mgr_len_def split: once.splits list.splits)
next
  case (close_end h s t)
  then show ?case by (auto simp: mgr_ok_def mgr_close_end_def mgr_len_def split: once.splits list.splits)
qed

text \<open>A step that leaves the closing alone and records an event of its own keeps \<open>close_ok\<close>.\<close>

lemma close_ok_event:
  assumes "close_ok cid h s" and "mgr_closeOnce t = mgr_closeOnce s" and "mgr_closeErr t = mgr_closeErr s"
    and "closed_by x = []" and "x \<noteq> CloseTook" and "is_added x \<Longrightarrow> mgr_closeOnce s = OnceNew"
  shows "close_ok cid (h @ [x]) t"
proof (cases "mgr_closeOnce s = OnceNew")
  case True
  with assms show ?thesis by (simp add: close_ok_def)
next
  case False
  with assms(1) obtain h1 h2 where
    h: "h = h1 @ CloseTook # h2" "CloseTook \<notin> set h1" "CloseTook \<notin> set h2" "\<not> list_ex is_added h2"
      "closings h1 = []" "keyed cid (live cid h1)" "distinct (map fst (closings h2) @ pending s)"
      "set (map fst (closings h2) @ pending s) = fmran' (live cid h1)"
      "opt_leaves (mgr_closeErr s) = concat (map (opt_leaves \<circ> snd) (closings h2))"
    by (auto simp: close_ok_def)
  have "pending t = pending s" by (simp add: pending_def assms(2))
  with h False assms show ?thesis
    unfolding close_ok_def by simp (intro exI [of _ h1] exI [of _ "h2 @ [x]"], auto)
qed

lemma mgr_reachable_close_ok: "mgr_reachable cid n h s \<Longrightarrow> close_ok cid h s"
proof (induction rule: mgr_reachable.induct)
  case made
  show ?case by (simp add: close_ok_def new_session_manager_def)
next
  case (add h s c r t)
  show ?case
  proof (cases "r = None")
    case True
    then have "t = s\<lparr>mgr_conns := fmupd (cid c) c (mgr_conns s)\<rparr>" and "\<not> mgr_closed s"
      using add(2) by (auto simp: mgr_add_def split: if_splits)
    moreover have "mgr_closeOnce s = OnceNew"
      using mgr_reachable_ok [OF add(1)] \<open>\<not> mgr_closed s\<close> by (simp add: mgr_ok_def)
    ultimately show ?thesis using True add(3) by (simp add: close_ok_event)
  next
    case False
    then have "t = s" using add(2) by (auto simp: mgr_add_def split: if_splits)
    with False add(3) show ?thesis by auto
  qed
next
  case (remove h s i)
  show ?case
    by (rule close_ok_event [OF remove.IH]) (simp_all add: mgr_remove_def)
next
  case (close_take h s ks t)
  then have t: "mgr_closeOnce s = OnceNew" "t = s\<lparr>mgr_closed := True, mgr_closeOnce := OnceBusy (mgr_snapshot ks s)\<rparr>"
    by (auto simp: mgr_close_take_def split: once.splits)
  have k: "keyed cid (mgr_conns s)" "mgr_conns s = live cid h"
    using mgr_reachable_ok [OF close_take(1)] by (auto simp: mgr_ok_def)
  from snapshot_distinct [OF k(1) close_take(2)] k close_take(4) t show ?case
    unfolding close_ok_def by (simp add: pending_def) (intro exI [of _ h] exI [of _ "[]"], simp)
next
  case (close_one h s err c t)
  then obtain cs where s: "mgr_closeOnce s = OnceBusy (c # cs)"
    and t: "mgr_closeOnce t = OnceBusy cs"
      "mgr_closeErr t = (if err \<noteq> None then errors_join [mgr_closeErr s, err] else mgr_closeErr s)"
    by (auto simp: mgr_close_one_def split: once.splits list.splits)
  from close_one(3) s obtain h1 h2 where
    h: "h = h1 @ CloseTook # h2" "CloseTook \<notin> set h1" "CloseTook \<notin> set h2" "\<not> list_ex is_added h2"
      "closings h1 = []" "keyed cid (live cid h1)" "distinct (map fst (closings h2) @ c # cs)"
      "set (map fst (closings h2) @ c # cs) = fmran' (live cid h1)"
      "opt_leaves (mgr_closeErr s) = concat (map (opt_leaves \<circ> snd) (closings h2))"
    by (auto simp: close_ok_def pending_def)
  have "opt_leaves (mgr_closeErr t) = opt_leaves (mgr_closeErr s) @ opt_leaves err"
    using t(2) by (cases err) simp_all
  with h t(1) show ?case
    unfolding close_ok_def by (simp add: pending_def) (intro exI [of _ h1] exI [of _ "h2 @ [ConnClosed c err]"], auto)
next
  case (close_end h s t)
  then have s: "mgr_closeOnce s = OnceBusy []" "t = s\<lparr>mgr_closeOnce := OnceDone\<rparr>"
    by (auto simp: mgr_close_end_def split: once.splits list.splits)
  then have "pending t = pending s" by (simp add: pending_def)
  with s close_end(3) show ?case by (simp add: close_ok_def)
qed

text \<open>A closed manager: the history splits where \<open>Close\<close> took the lock.\<close>

lemma closed_manager:
  assumes "mgr_reachable cid n h s" and "mgr_closeOnce s = OnceDone"
  obtains h1 h2 where "h = h1 @ CloseTook # h2" "\<not> list_ex is_added h2" "closings h1 = []"
    "distinct (map fst (closings h2))" "set (map fst (closings h2)) = fmran' (live cid h1)"
    "opt_leaves (mgr_closeErr s) = concat (map (opt_leaves \<circ> snd) (closings h2))"
proof -
  have "pending s = []" using assms(2) by (simp add: pending_def)
  with mgr_reachable_close_ok [OF assms(1)] assms(2) that show thesis by (auto simp: close_ok_def)
qed

section \<open>Properties\<close>

text \<open>
  C16: the limit holds whatever order the operations come in, and a connection is found under
  its own identifier only. An \<open>Add\<close> is refused exactly when the connection is nil, the manager
  is closed, the identifier is taken or the limit is reached, with the error of the first of these that
  holds, and then it changes nothing; if it succeeds the connection is found and counted.
\<close>

theorem manager_limits_connections:
  assumes "mgr_reachable cid n h s"
  shows "(0 < n \<longrightarrow> mgr_len s \<le> n) \<and> (\<forall>i c. mgr_get i s = (Some c, True) \<longrightarrow> cid c = i) \<and>
    (case mgr_add cid conn s of
       (None, t) \<Rightarrow> \<not> mgr_closed s \<and> (0 < n \<longrightarrow> mgr_len s < n) \<and>
         (\<exists>c. conn = Some c \<and> mgr_get (cid c) s = (None, False) \<and> mgr_get (cid c) t = (Some c, True) \<and>
            mgr_len t = mgr_len s + 1 \<and> (\<forall>i. i \<noteq> cid c \<longrightarrow> mgr_get i t = mgr_get i s))
     | (Some e, t) \<Rightarrow> t = s \<and>
         (case conn of
            None \<Rightarrow> e = NewError ''network/session: connections is nil''
          | Some c \<Rightarrow> e = (if mgr_closed s then ErrClosed else if snd (mgr_get (cid c) s) then ErrSessionIdExists
                else ErrSessionLimitReached) \<and>
              (e = ErrSessionLimitReached \<longrightarrow> 0 < n \<and> mgr_len s = n)))"
proof -
  have ok: "mgr_ok cid n h s" by (rule mgr_reachable_ok [OF assms])
  then have "(0 < n \<longrightarrow> mgr_len s \<le> n) \<and> (\<forall>i c. mgr_get i s = (Some c, True) \<longrightarrow> cid c = i)"
    by (auto simp: mgr_ok_def keyed_def mgr_get_def)
  moreover have "(case mgr_add cid conn s of
       (None, t) \<Rightarrow> \<not> mgr_closed s \<and> (0 < n \<longrightarrow> mgr_len s < n) \<and>
         (\<exists>c. conn = Some c \<and> mgr_get (cid c) s = (None, False) \<and> mgr_get (cid c) t = (Some c, True) \<and>
            mgr_len t = mgr_len s + 1 \<and> (\<forall>i. i \<noteq> cid c \<longrightarrow> mgr_get i t = mgr_get i s))
     | (Some e, t) \<Rightarrow> t = s \<and>
         (case conn of
            None \<Rightarrow> e = NewError ''network/session: connections is nil''
          | Some c \<Rightarrow> e = (if mgr_closed s then ErrClosed else if snd (mgr_get (cid c) s) then ErrSessionIdExists
                else ErrSessionLimitReached) \<and>
              (e = ErrSessionLimitReached \<longrightarrow> 0 < n \<and> mgr_len s = n)))"
    using ok by (cases conn) (auto simp: mgr_add_def mgr_get_def mgr_len_def mgr_ok_def map_len_upd fmdom_iff)
  ultimately show ?thesis by blast
qed

theorem manager_limits_connections_witness:
  "\<exists>h s. mgr_reachable id 1 h s \<and> mgr_len s = 1 \<and> mgr_len s \<le> 1 \<and> fst (mgr_add id (Some 8) s) = Some ErrSessionLimitReached \<and>
     fst (mgr_add id None s) = Some (NewError ''network/session: connections is nil'')"
proof -
  let ?s = "(new_session_manager 1 :: nat session_manager)\<lparr>mgr_conns := fmupd 7 7 fmempty\<rparr>"
  have "mgr_add id (Some (7 :: nat)) (new_session_manager 1) = (None, ?s)"
    by (simp add: mgr_add_def new_session_manager_def)
  then have r: "mgr_reachable id 1 ([] @ [Added (7 :: nat)]) ?s"
    using mgr_reachable.add [OF mgr_reachable.made, of id 7 1 None ?s] by simp
  have "mgr_len ?s = 1" "fst (mgr_add id (Some 8) ?s) = Some ErrSessionLimitReached"
    "fst (mgr_add id None ?s) = Some (NewError ''network/session: connections is nil'')"
    by (simp_all add: mgr_len_def map_len_upd mgr_add_def new_session_manager_def)
  with manager_limits_connections [OF r, of "Some 8"] r show ?thesis by (metis zero_less_one)
qed

text \<open>
  C17: \<open>Close\<close> misses no connection. Whatever runs beside it, once it has returned there was one
  moment (when it took the lock) such that every connection registered at that moment has been
  closed exactly once and no other, no connection was added after it, and none can be added
  now; the error that \<open>Close\<close> returns, to this and every later caller, consists of the errors of
  these closings, and is nil if they all returned nil.
\<close>

theorem manager_close_misses_none:
  assumes "mgr_reachable cid n h s" and "mgr_close_result s = Some err"
  shows "\<exists>h1 h2. h = h1 @ CloseTook # h2 \<and> \<not> list_ex is_added h2 \<and> closings h1 = [] \<and>
    distinct (map fst (closings h2)) \<and> set (map fst (closings h2)) = fmran' (live cid h1) \<and>
    opt_leaves err = concat (map (opt_leaves \<circ> snd) (closings h2)) \<and>
    mgr_add cid (Some c) s = (Some ErrClosed, s) \<and> mgr_close_take ks s = None"
proof -
  have once: "mgr_closeOnce s = OnceDone" "err = mgr_closeErr s"
    using assms(2) by (auto simp: mgr_close_result_def split: once.splits)
  have "mgr_closed s" using mgr_reachable_ok [OF assms(1)] once(1) by (simp add: mgr_ok_def)
  then have add: "mgr_add cid (Some c) s = (Some ErrClosed, s)" "mgr_close_take ks s = None"
    using once(1) by (simp_all add: mgr_add_def mgr_close_take_def)
  from closed_manager [OF assms(1) once(1)] obtain h1 h2 where
    "h = h1 @ CloseTook # h2" "\<not> list_ex is_added h2" "closings h1 = []"
    "distinct (map fst (closings h2))" "set (map fst (closings h2)) = fmran' (live cid h1)"
    "opt_leaves (mgr_closeErr s) = concat (map (opt_leaves \<circ> snd) (closings h2))"
    by blast
  with add once show ?thesis by (intro exI [of _ h1] exI [of _ h2]) simp
qed

theorem manager_close_misses_none_witness:
  "\<exists>h s h2. mgr_reachable id 5 h s \<and> h = [Added (7 :: nat)] @ CloseTook # h2 \<and>
     map fst (closings h2) = [7] \<and> mgr_close_result s = Some (Some (JoinError [ErrShortWrite]))"
proof -
  let ?s1 = "(new_session_manager 5 :: nat session_manager)\<lparr>mgr_conns := fmupd 7 7 fmempty\<rparr>"
  let ?s2 = "?s1\<lparr>mgr_closed := True, mgr_closeOnce := OnceBusy [7]\<rparr>"
  let ?s3 = "?s2\<lparr>mgr_closeOnce := OnceBusy [], mgr_closeErr := Some (JoinError [ErrShortWrite])\<rparr>"
  let ?s4 = "?s3\<lparr>mgr_closeOnce := OnceDone\<rparr>"
  have "mgr_add id (Some (7 :: nat)) (new_session_manager 5) = (None, ?s1)"
    by (simp add: mgr_add_def new_session_manager_def)
  then have r1: "mgr_reachable id 5 [Added (7 :: nat)] ?s1"
    using mgr_reachable.add [OF mgr_reachable.made, of id 7 5 None ?s1] by simp
  have "enumerates [7] (mgr_conns ?s1)" by (simp add: enumerates_def)
  moreover have "mgr_close_take [7] ?s1 = Some ?s2"
    by (simp add: mgr_close_take_def new_session_manager_def mgr_snapshot_def List.map_filter_def)
  ultimately have r2: "mgr_reachable id 5 [Added 7, CloseTook] ?s2"
    using mgr_reachable.close_take [OF r1] by simp
  have "mgr_close_one (Some ErrShortWrite) ?s2 = Some (7, ?s3)"
    by (simp add: mgr_close_one_def new_session_manager_def)
  then have r3: "mgr_reachable id 5 [Added 7, CloseTook, ConnClosed 7 (Some ErrShortWrite)] ?s3"
    using mgr_reachable.close_one [OF r2] by simp
  have "mgr_close_end ?s3 = Some ?s4" by (simp add: mgr_close_end_def)
  then have r4: "mgr_reachable id 5 [Added 7, CloseTook, ConnClosed 7 (Some ErrShortWrite)] ?s4"
    using mgr_reachable.close_end [OF r3] by simp
  have c: "mgr_close_result ?s4 = Some (Some (JoinError [ErrShortWrite]))" by (simp add: mgr_close_result_def)
  from manager_close_misses_none [OF r4 c, of 0 "[]"] obtain h1 h2 where
    h: "[Added 7, CloseTook, ConnClosed 7 (Some ErrShortWrite)] = h1 @ CloseTook # h2" "closings h1 = []"
      "set (map fst (closings h2)) = fmran' (live id h1)" "distinct (map fst (closings h2))"
    by blast
  then have "h1 = [Added 7]" "h2 = [ConnClosed 7 (Some ErrShortWrite)]"
    by (auto simp: Cons_eq_append_conv)
  with r4 c show ?thesis
    by (intro exI [of _ "[Added 7, CloseTook, ConnClosed 7 (Some ErrShortWrite)]"] exI [of _ ?s4] exI [of _ h2]) simp
qed

end
