(* ===== verification/Session_Client.thy ===== *)
theory Session_Client
  imports Net_Base
begin

text \<open>
  \<^verbatim>\<open>common/network/session_client.go\<close>: one dial and the connection it makes. Of the
  callers of \<open>DialContext\<close> only the one whose \<open>CompareAndSwap\<close> succeeds goes on, so its phase is
  a field of the state; the same holds for the caller of \<open>Close\<close> that runs the function of
  \<open>closeOnce\<close>, and for the goroutine of \<open>runConn\<close>. They interleave between the parts under the
  lock. What the dialer, the connection and the context return is the choice of a step.
\<close>

section \<open>State\<close>

datatype session_state = SessionState_New | SessionState_Running | SessionState_Closed

datatype dial_phase =
    DNone | DDialing | DPublish | DSpawn | DReclaim net_error | DFinish net_error
  | DCleanup "net_error option" | DReturned "net_error option"
  | DUnwind | DPanicked

datatype run_phase = RunNone | Running | RunFinish "net_error option" | RunEnded

text \<open>\<open>Close\<close> remembers the state before, and whether there was a dial to cancel and a connection.\<close>

datatype kill_phase =
    KNone | KCancel session_state bool bool | KConn session_state bool | KFinish session_state | KDone

text \<open>
  \<open>cl_dialCancel\<close> and \<open>cl_conn\<close> say whether the pointer is set. The last three fields record
  what happened: whether the dial context was cancelled by \<open>Close\<close>, how many transports the
  dialer handed out, and how many were closed.
\<close>

record session_client =
  cl_state :: session_state
  cl_dialCancel :: bool
  cl_conn :: bool
  cl_done :: bool
  cl_waitErr :: "net_error option"
  cl_closeErr :: "net_error option"
  cl_dial :: dial_phase
  cl_run :: run_phase
  cl_kill :: kill_phase
  cl_cancelled :: bool
  cl_opened :: nat
  cl_closed :: nat

text \<open>\<open>NewSessionClient\<close> refuses a nil dialer and a nil codec.\<close>

definition new_session_client :: "bool \<Rightarrow> bool \<Rightarrow> net_error + session_client" where
  "new_session_client dialer codec =
     (if \<not> dialer then Inl (NewError ''network/client: dialer is nil'')
      else if \<not> codec then Inl (NewError ''network/client: codec is nil'')
      else Inr \<lparr>cl_state = SessionState_New, cl_dialCancel = False, cl_conn = False, cl_done = False,
        cl_waitErr = None, cl_closeErr = None, cl_dial = DNone, cl_run = RunNone, cl_kill = KNone,
        cl_cancelled = False, cl_opened = 0, cl_closed = 0\<rparr>)"

definition client_isClosed :: "session_client \<Rightarrow> bool" where
  "client_isClosed c \<longleftrightarrow> cl_state c = SessionState_Closed"

text \<open>\<open>finish\<close>; closing the channel a second time would panic.\<close>

definition client_finish :: "net_error option \<Rightarrow> session_client \<Rightarrow> session_client option" where
  "client_finish err c = (if cl_done c then None else Some (c\<lparr>cl_waitErr := err, cl_done := True\<rparr>))"

section \<open>Dialing\<close>

text \<open>\<open>DialContext\<close> up to the unlock: an error for the caller, or the dial begins.\<close>

definition dial_begin :: "session_client \<Rightarrow> net_error option \<times> session_client" where
  "dial_begin c =
     (if cl_state c = SessionState_New
      then (None, c\<lparr>cl_state := SessionState_Running, cl_dialCancel := True, cl_dial := DDialing\<rparr>)
      else (Some (if client_isClosed c then ErrClosed else NewError ''network/client: dial already called''), c))"

text \<open>
  The dialer returns an error and beside it nil, a transport, or an interface that holds a nil
  pointer, as the dialers of this package do; or it returns a transport, which may be nil. At the publication the dial context may have an error of its own.
\<close>

datatype dial_choice = DialFails net_error "unit iface" | DialReturns bool | DCtxErr "net_error option" | DGo

text \<open>The part under the second lock: a closed client or a done context refuses the connection.\<close>

definition dial_publish :: "net_error option \<Rightarrow> session_client \<Rightarrow> session_client" where
  "dial_publish ctxErr c0 =
     (let c = c0\<lparr>cl_dialCancel := False\<rparr>;
          publishErr = (if client_isClosed c then Some ErrClosed else ctxErr)
      in case publishErr of
           None \<Rightarrow> c\<lparr>cl_conn := True, cl_dial := DSpawn\<rparr>
         | Some e \<Rightarrow> c\<lparr>cl_dial := DReclaim e\<rparr>)"

text \<open>
  \<open>rwc.Close()\<close> beside an error panics on the nil pointer: only the deferred function runs then,
  not \<open>finish\<close>, and the panic leaves \<open>DialContext\<close>.
\<close>

fun dial_at :: "dial_phase \<Rightarrow> dial_choice \<Rightarrow> session_client \<Rightarrow> session_client option" where
  "dial_at DNone ch c = None"
| "dial_at DDialing ch c = (case ch of
     DialFails e rwc \<Rightarrow> Some (case rwc of
         NilIface \<Rightarrow> c\<lparr>cl_dial := DFinish e\<rparr>
       | Iface (Some tr) \<Rightarrow> c\<lparr>cl_opened := cl_opened c + 1, cl_closed := cl_closed c + 1, cl_dial := DFinish e\<rparr>
       | Iface None \<Rightarrow> c\<lparr>cl_dial := DUnwind\<rparr>)
   | DialReturns rwc \<Rightarrow> Some (if rwc then c\<lparr>cl_opened := cl_opened c + 1, cl_dial := DPublish\<rparr>
         else c\<lparr>cl_dial := DFinish (NewError ''network/conn: transport is nil'')\<rparr>)
   | _ \<Rightarrow> None)"
| "dial_at DPublish ch c = (case ch of DCtxErr err \<Rightarrow> Some (dial_publish err c) | _ \<Rightarrow> None)"
| "dial_at DSpawn ch c = (case ch of DGo \<Rightarrow> Some (c\<lparr>cl_run := Running, cl_dial := DCleanup None\<rparr>) | _ \<Rightarrow> None)"
| "dial_at (DReclaim e) ch c = (case ch of
     DGo \<Rightarrow> Some (c\<lparr>cl_closed := cl_closed c + 1, cl_dial := DFinish e\<rparr>) | _ \<Rightarrow> None)"
| "dial_at (DFinish e) ch c = (case ch of
     DGo \<Rightarrow> map_option (\<lambda>c1. c1\<lparr>cl_dial := DCleanup (Some e)\<rparr>) (client_finish (Some e) c) | _ \<Rightarrow> None)"
| "dial_at (DCleanup r) ch c = (case ch of
     DGo \<Rightarrow> Some (c\<lparr>cl_dialCancel := False, cl_dial := DReturned r\<rparr>) | _ \<Rightarrow> None)"
| "dial_at (DReturned r) ch c = None"
| "dial_at DUnwind ch c = (case ch of
     DGo \<Rightarrow> Some (c\<lparr>cl_dialCancel := False, cl_dial := DPanicked\<rparr>) | _ \<Rightarrow> None)"
| "dial_at DPanicked ch c = None"

text \<open>
  \<open>runConn\<close>: \<open>conn.Run\<close> returns some time, with the transport closed, and \<open>conn.Err()\<close> is the
  choice. The transport was closed by the connection's own \<open>closeOnce\<close>, at the latest now.
\<close>

definition conn_closed :: "session_client \<Rightarrow> session_client" where
  "conn_closed c = c\<lparr>cl_closed := max (cl_closed c) 1\<rparr>"

fun run_at :: "run_phase \<Rightarrow> net_error option \<Rightarrow> session_client \<Rightarrow> session_client option" where
  "run_at RunNone err c = None"
| "run_at Running err c = Some ((conn_closed c)\<lparr>cl_run := RunFinish err\<rparr>)"
| "run_at (RunFinish e) err c = map_option (\<lambda>c1. c1\<lparr>cl_run := RunEnded\<rparr>) (client_finish e c)"
| "run_at RunEnded err c = None"

section \<open>Closing and waiting\<close>

text \<open>\<open>Close\<close>: the part under the lock, run by the first caller only.\<close>

definition kill_begin :: "session_client \<Rightarrow> session_client option" where
  "kill_begin c =
     (if cl_kill c = KNone
      then Some (c\<lparr>cl_state := SessionState_Closed, cl_dialCancel := False,
        cl_kill := KCancel (cl_state c) (cl_dialCancel c) (cl_conn c)\<rparr>)
      else None)"

fun kill_at :: "kill_phase \<Rightarrow> net_error option \<Rightarrow> session_client \<Rightarrow> session_client option" where
  "kill_at KNone err c = None"
| "kill_at (KCancel prev cancel conn) err c =
     Some (if cancel then c\<lparr>cl_cancelled := True, cl_kill := KConn prev conn\<rparr> else c\<lparr>cl_kill := KConn prev conn\<rparr>)"
| "kill_at (KConn prev conn) err c =
     Some (if conn then (conn_closed c)\<lparr>cl_closeErr := err, cl_kill := KFinish prev\<rparr> else c\<lparr>cl_kill := KFinish prev\<rparr>)"
| "kill_at (KFinish prev) err c =
     (if prev = SessionState_New then map_option (\<lambda>c1. c1\<lparr>cl_kill := KDone\<rparr>) (client_finish (Some ErrClosed) c)
      else Some (c\<lparr>cl_kill := KDone\<rparr>))"
| "kill_at KDone err c = None"

definition client_close_result :: "session_client \<Rightarrow> net_error option option" where
  "client_close_result c = (if cl_kill c = KDone then Some (cl_closeErr c) else None)"

text \<open>\<open>Wait\<close>: \<^term>\<open>None\<close> while it blocks on the channel.\<close>

definition client_wait :: "session_client \<Rightarrow> net_error option option" where
  "client_wait c =
     (if cl_state c = SessionState_New then Some (Some (NewError ''network/client: Dial has not been called''))
      else if cl_done c then Some (cl_waitErr c) else None)"

section \<open>The client as a whole\<close>

inductive client_internal :: "session_client \<Rightarrow> session_client \<Rightarrow> bool" where
  dial_goes: "dial_at (cl_dial c) d c = Some c' \<Longrightarrow> client_internal c c'"
| run_goes: "run_at (cl_run c) err c = Some c' \<Longrightarrow> client_internal c c'"
| kill_goes: "kill_at (cl_kill c) err c = Some c' \<Longrightarrow> client_internal c c'"

inductive client_step :: "session_client \<Rightarrow> session_client \<Rightarrow> bool" where
  internal: "client_internal c c' \<Longrightarrow> client_step c c'"
| dial: "client_step c (snd (dial_begin c))"
| close: "kill_begin c = Some c' \<Longrightarrow> client_step c c'"

inductive client_reachable :: "session_client \<Rightarrow> bool" where
  made: "new_session_client dialer codec = Inr c \<Longrightarrow> client_reachable c"
| step: "client_reachable c \<Longrightarrow> client_step c c' \<Longrightarrow> client_reachable c'"

text \<open>Some goroutine is about to call \<open>finish\<close> when the channel is closed already: a panic.\<close>

definition client_panics :: "session_client \<Rightarrow> bool" where
  "client_panics c \<longleftrightarrow> cl_done c \<and>
     ((\<exists>e. cl_dial c = DFinish e) \<or> (\<exists>e. cl_run c = RunFinish e) \<or> cl_kill c = KFinish SessionState_New)"

section \<open>Invariant\<close>

text \<open>
  Who owes the call of \<open>finish\<close>: exactly one of the three, from the first call to the end. A dial
  that has panicked owes it for ever.
\<close>

fun dial_owes :: "dial_phase \<Rightarrow> bool" where
  "dial_owes DNone \<longleftrightarrow> False" | "dial_owes DDialing \<longleftrightarrow> True" | "dial_owes DPublish \<longleftrightarrow> True" | "dial_owes DSpawn \<longleftrightarrow> True"
| "dial_owes (DReclaim e) \<longleftrightarrow> True" | "dial_owes (DFinish e) \<longleftrightarrow> True" | "dial_owes (DCleanup r) \<longleftrightarrow> False"
| "dial_owes (DReturned r) \<longleftrightarrow> False" | "dial_owes DUnwind \<longleftrightarrow> True" | "dial_owes DPanicked \<longleftrightarrow> True"

fun run_owes :: "run_phase \<Rightarrow> bool" where
  "run_owes RunNone \<longleftrightarrow> False" | "run_owes Running \<longleftrightarrow> True" | "run_owes (RunFinish e) \<longleftrightarrow> True" | "run_owes RunEnded \<longleftrightarrow> False"

fun kill_owes :: "kill_phase \<Rightarrow> bool" where
  "kill_owes KNone \<longleftrightarrow> False" | "kill_owes (KCancel p x y) \<longleftrightarrow> p = SessionState_New" | "kill_owes (KConn p y) \<longleftrightarrow> p = SessionState_New"
| "kill_owes (KFinish p) \<longleftrightarrow> p = SessionState_New" | "kill_owes KDone \<longleftrightarrow> False"

definition owner_inv :: "session_client \<Rightarrow> bool" where
  "owner_inv c \<longleftrightarrow>
     (cl_state c = SessionState_New \<longrightarrow> cl_dial c = DNone \<and> cl_kill c = KNone \<and> cl_run c = RunNone \<and> \<not> cl_done c) \<and>
     (cl_state c = SessionState_Closed \<longleftrightarrow> cl_kill c \<noteq> KNone) \<and>
     (cl_state c \<noteq> SessionState_New \<longrightarrow>
        act (\<not> cl_done c) = act (dial_owes (cl_dial c)) + act (run_owes (cl_run c)) + act (kill_owes (cl_kill c))) \<and>
     (cl_dial c \<in> {DNone, DDialing, DPublish, DSpawn} \<longrightarrow> cl_run c = RunNone)"

text \<open>Transports: what is opened and not closed belongs to a goroutine that will close it.\<close>

fun no_conn_yet :: "dial_phase \<Rightarrow> bool" where
  "no_conn_yet DNone \<longleftrightarrow> True" | "no_conn_yet DDialing \<longleftrightarrow> True" | "no_conn_yet DPublish \<longleftrightarrow> False" | "no_conn_yet DSpawn \<longleftrightarrow> False"
| "no_conn_yet (DReclaim e) \<longleftrightarrow> False" | "no_conn_yet (DFinish e) \<longleftrightarrow> False" | "no_conn_yet (DCleanup r) \<longleftrightarrow> False"
| "no_conn_yet (DReturned r) \<longleftrightarrow> False" | "no_conn_yet DUnwind \<longleftrightarrow> True" | "no_conn_yet DPanicked \<longleftrightarrow> True"

text \<open>The closing goroutine has seen the connection and will close it.\<close>

fun kill_has_conn :: "kill_phase \<Rightarrow> bool" where
  "kill_has_conn KNone \<longleftrightarrow> True" | "kill_has_conn (KCancel p x y) \<longleftrightarrow> y" | "kill_has_conn (KConn p y) \<longleftrightarrow> y"
| "kill_has_conn (KFinish p) \<longleftrightarrow> False" | "kill_has_conn KDone \<longleftrightarrow> False"

fun kill_ok :: "kill_phase \<Rightarrow> bool \<Rightarrow> bool" where
  "kill_ok KNone conn \<longleftrightarrow> True" | "kill_ok (KCancel p x y) conn \<longleftrightarrow> (y \<longrightarrow> conn)" | "kill_ok (KConn p y) conn \<longleftrightarrow> (y \<longrightarrow> conn)"
| "kill_ok (KFinish p) conn \<longleftrightarrow> True" | "kill_ok KDone conn \<longleftrightarrow> True"

fun dial_ok :: "dial_phase \<Rightarrow> nat \<Rightarrow> nat \<Rightarrow> bool \<Rightarrow> bool" where
  "dial_ok DNone opened closed conn \<longleftrightarrow> True"
| "dial_ok DDialing opened closed conn \<longleftrightarrow> True"
| "dial_ok DPublish opened closed conn \<longleftrightarrow> opened = 1 \<and> closed = 0"
| "dial_ok DSpawn opened closed conn \<longleftrightarrow> conn"
| "dial_ok (DReclaim e) opened closed conn \<longleftrightarrow> opened = 1 \<and> closed = 0"
| "dial_ok (DFinish e) opened closed conn \<longleftrightarrow> closed = opened"
| "dial_ok (DCleanup r) opened closed conn \<longleftrightarrow> (if r = None then conn else closed = opened)"
| "dial_ok (DReturned r) opened closed conn \<longleftrightarrow> (if r = None then conn else closed = opened)"
| "dial_ok DUnwind opened closed conn \<longleftrightarrow> True"
| "dial_ok DPanicked opened closed conn \<longleftrightarrow> True"

definition transport_inv :: "session_client \<Rightarrow> bool" where
  "transport_inv c \<longleftrightarrow> cl_opened c \<le> 1 \<and> cl_closed c \<le> cl_opened c \<and>
     (no_conn_yet (cl_dial c) \<longrightarrow> cl_opened c = 0) \<and>
     (cl_conn c \<longrightarrow> cl_opened c = 1 \<and> (cl_closed c = 1 \<or> kill_has_conn (cl_kill c))) \<and>
     (cl_conn c \<longrightarrow> \<not> no_conn_yet (cl_dial c) \<and> cl_dial c \<noteq> DPublish \<and> (\<forall>e. cl_dial c \<noteq> DReclaim e)) \<and>
     (cl_run c \<noteq> RunNone \<longrightarrow> cl_conn c) \<and>
     kill_ok (cl_kill c) (cl_conn c) \<and> dial_ok (cl_dial c) (cl_opened c) (cl_closed c) (cl_conn c)"

lemma dial_ok_closed:
  "dial_ok d n k True \<Longrightarrow> n = 1 \<Longrightarrow> k \<le> n \<Longrightarrow> d \<noteq> DPublish \<Longrightarrow> \<forall>e. d \<noteq> DReclaim e \<Longrightarrow> dial_ok d n (max k 1) True"
  by (cases d) (auto simp: max_def)

lemma conn_closed_simps [simp]:
  "cl_state (conn_closed c) = cl_state c" "cl_dial (conn_closed c) = cl_dial c" "cl_run (conn_closed c) = cl_run c"
  "cl_kill (conn_closed c) = cl_kill c" "cl_conn (conn_closed c) = cl_conn c" "cl_done (conn_closed c) = cl_done c"
  "cl_opened (conn_closed c) = cl_opened c" "cl_closed (conn_closed c) = max (cl_closed c) 1"
  by (simp_all add: conn_closed_def)

lemma act_sum: "act d = act a + act b + act e \<Longrightarrow> a \<or> b \<or> e \<Longrightarrow> d \<and> \<not> (a \<and> b) \<and> \<not> (a \<and> e) \<and> \<not> (b \<and> e)"
  by (cases a; cases b; cases e; cases d) simp_all

lemma owner_done:
  "owner_inv c \<Longrightarrow> dial_owes (cl_dial c) \<or> run_owes (cl_run c) \<or> kill_owes (cl_kill c) \<Longrightarrow>
   \<not> cl_done c \<and> cl_state c \<noteq> SessionState_New \<and> \<not> (dial_owes (cl_dial c) \<and> run_owes (cl_run c)) \<and>
   \<not> (dial_owes (cl_dial c) \<and> kill_owes (cl_kill c)) \<and> \<not> (run_owes (cl_run c) \<and> kill_owes (cl_kill c))"
  using act_sum [of "\<not> cl_done c" "dial_owes (cl_dial c)" "run_owes (cl_run c)" "kill_owes (cl_kill c)"]
  by (cases "cl_state c = SessionState_New") (simp_all add: owner_inv_def)

lemma dial_owner:
  assumes "dial_at (cl_dial c) d c = Some c'" and inv: "owner_inv c"
  shows "owner_inv c'"
proof (cases "cl_dial c")
  case DPublish
  then obtain err where "c' = dial_publish err c" using assms(1) by (auto split: dial_choice.split_asm)
  then show ?thesis using inv DPublish
    by (cases "cl_state c = SessionState_Closed"; cases err)
      (simp_all add: owner_inv_def dial_publish_def client_isClosed_def Let_def)
next
  case DSpawn
  with assms(1) have "c' = c\<lparr>cl_run := Running, cl_dial := DCleanup None\<rparr>" by (auto split: dial_choice.split_asm)
  with inv DSpawn show ?thesis by (simp add: owner_inv_def)
next
  case (DFinish e)
  then have "c' = c\<lparr>cl_waitErr := Some e, cl_done := True, cl_dial := DCleanup (Some e)\<rparr>"
    using assms(1) by (auto simp: client_finish_def split: dial_choice.split_asm if_split_asm)
  with inv DFinish owner_done [OF inv] show ?thesis by (simp add: owner_inv_def)
next
  case DDialing
  then have "\<exists>e n k. c' = c\<lparr>cl_opened := n, cl_closed := k, cl_dial := DFinish e\<rparr> \<or> c' = c\<lparr>cl_opened := n, cl_dial := DPublish\<rparr> \<or>
      c' = c\<lparr>cl_dial := DFinish e\<rparr> \<or> c' = c\<lparr>cl_dial := DUnwind\<rparr>"
    using assms(1) by (auto split: dial_choice.split_asm if_split_asm iface.split_asm option.split_asm)
  with inv DDialing show ?thesis by (auto simp: owner_inv_def)
qed (use assms in \<open>auto simp: owner_inv_def split: dial_choice.split_asm\<close>)

lemma dial_transport:
  assumes "dial_at (cl_dial c) d c = Some c'" and inv: "transport_inv c" and o: "owner_inv c"
  shows "transport_inv c'"
proof (cases "cl_dial c")
  case DPublish
  then obtain err where "c' = dial_publish err c" using assms(1) by (auto split: dial_choice.split_asm)
  moreover have "cl_state c \<noteq> SessionState_Closed \<Longrightarrow> cl_kill c = KNone" using o by (simp add: owner_inv_def)
  ultimately show ?thesis using inv DPublish
    by (cases "cl_state c = SessionState_Closed"; cases err)
      (auto simp: transport_inv_def dial_publish_def client_isClosed_def Let_def split: kill_phase.splits)
qed (use assms in \<open>auto simp: transport_inv_def client_finish_def
    split: dial_choice.split_asm if_split_asm iface.split_asm option.split_asm\<close>)

lemma run_owner:
  assumes "run_at (cl_run c) err c = Some c'" and inv: "owner_inv c"
  shows "owner_inv c'"
proof (cases "cl_run c")
  case (RunFinish e)
  then have "c' = c\<lparr>cl_waitErr := e, cl_done := True, cl_run := RunEnded\<rparr>"
    using assms(1) by (auto simp: client_finish_def split: if_split_asm)
  with inv RunFinish owner_done [OF inv] show ?thesis by (auto simp: owner_inv_def)
qed (use assms in \<open>auto simp: owner_inv_def conn_closed_def\<close>)

lemma conn_closed_transport:
  assumes inv: "transport_inv c" and "cl_conn c" and c': "cl_opened c' = cl_opened c" "cl_closed c' = max (cl_closed c) 1"
    "cl_conn c' = cl_conn c" "cl_dial c' = cl_dial c" and "cl_run c' \<noteq> RunNone \<longrightarrow> cl_conn c" and "kill_ok (cl_kill c') True"
  shows "transport_inv c'"
proof -
  have f: "cl_opened c = 1" "cl_closed c \<le> 1" "\<not> no_conn_yet (cl_dial c)" "cl_dial c \<noteq> DPublish"
      "\<forall>e. cl_dial c \<noteq> DReclaim e" "dial_ok (cl_dial c) (cl_opened c) (cl_closed c) True"
    using inv assms(2) by (auto simp: transport_inv_def)
  from dial_ok_closed [OF f(6) f(1)] f have "dial_ok (cl_dial c) 1 (max (cl_closed c) 1) True" by simp
  with f assms show ?thesis by (simp add: transport_inv_def max_def)
qed

lemma run_transport:
  assumes "run_at (cl_run c) err c = Some c'" and inv: "transport_inv c"
  shows "transport_inv c'"
proof (cases "cl_run c")
  case Running
  then have c': "c' = (conn_closed c)\<lparr>cl_run := RunFinish err\<rparr>" and "cl_conn c" "kill_ok (cl_kill c) True"
    using assms by (auto simp: transport_inv_def)
  then show ?thesis by (intro conn_closed_transport [OF inv]) simp_all
qed (use assms in \<open>auto simp: transport_inv_def client_finish_def split: if_split_asm\<close>)

lemma kill_owner:
  assumes "kill_at (cl_kill c) err c = Some c'" and inv: "owner_inv c"
  shows "owner_inv c'"
proof (cases "cl_kill c")
  case (KCancel prev cancel conn)
  with assms(1) have "c' = c\<lparr>cl_cancelled := cl_cancelled c \<or> cancel, cl_kill := KConn prev conn\<rparr>" by (cases cancel) simp_all
  with inv KCancel show ?thesis by (simp add: owner_inv_def)
next
  case (KConn prev conn)
  with assms(1) have "c' = (if conn then conn_closed c else c)\<lparr>cl_closeErr := (if conn then err else cl_closeErr c),
      cl_kill := KFinish prev\<rparr>"
    by (cases conn) simp_all
  with inv KConn show ?thesis by (cases conn) (simp_all add: owner_inv_def)
next
  case (KFinish prev)
  show ?thesis
  proof (cases "prev = SessionState_New")
    case True
    then have "c' = c\<lparr>cl_waitErr := Some ErrClosed, cl_done := True, cl_kill := KDone\<rparr>"
      using assms(1) KFinish by (auto simp: client_finish_def split: if_split_asm)
    with True inv KFinish owner_done [OF inv] show ?thesis by (auto simp: owner_inv_def)
  next
    case False
    with assms KFinish have "c' = c\<lparr>cl_kill := KDone\<rparr>" by simp
    with False inv KFinish show ?thesis by (auto simp: owner_inv_def)
  qed
qed (use assms in simp_all)

lemma kill_transport:
  assumes "kill_at (cl_kill c) err c = Some c'" and inv: "transport_inv c"
  shows "transport_inv c'"
proof (cases "cl_kill c")
  case (KCancel prev cancel conn)
  with assms(1) have "c' = c\<lparr>cl_cancelled := cl_cancelled c \<or> cancel, cl_kill := KConn prev conn\<rparr>" by (cases cancel) simp_all
  with inv KCancel show ?thesis by (simp add: transport_inv_def)
next
  case (KConn prev conn)
  show ?thesis
  proof (cases conn)
    case True
    with KConn assms have "c' = (conn_closed c)\<lparr>cl_closeErr := err, cl_kill := KFinish prev\<rparr>" "cl_conn c"
        "cl_run c \<noteq> RunNone \<longrightarrow> cl_conn c"
      by (simp_all add: transport_inv_def)
    then show ?thesis by (intro conn_closed_transport [OF inv]) simp_all
  next
    case False
    with KConn assms show ?thesis by (auto simp: transport_inv_def)
  qed
qed (use assms in \<open>auto simp: transport_inv_def client_finish_def split: if_split_asm\<close>)

lemma client_step_inv:
  assumes "client_step c c'" and o: "owner_inv c" and t: "transport_inv c"
  shows "owner_inv c' \<and> transport_inv c'"
  using assms(1)
proof (cases rule: client_step.cases)
  case internal
  then show ?thesis
  proof (cases rule: client_internal.cases)
    case (dial_goes d)
    from dial_owner [OF this o] dial_transport [OF this t o] show ?thesis by blast
  next
    case (run_goes err)
    from run_owner [OF this o] run_transport [OF this t] show ?thesis by blast
  next
    case (kill_goes err)
    from kill_owner [OF this o] kill_transport [OF this t] show ?thesis by blast
  qed
next
  case dial
  show ?thesis
  proof (cases "cl_state c = SessionState_New")
    case True
    then have "cl_dial c = DNone \<and> cl_kill c = KNone \<and> cl_run c = RunNone \<and> \<not> cl_done c" using o by (simp add: owner_inv_def)
    with True o t dial show ?thesis by (simp add: owner_inv_def transport_inv_def dial_begin_def)
  next
    case False
    with o t dial show ?thesis by (simp add: dial_begin_def)
  qed
next
  case close
  then have k: "cl_kill c = KNone" and c': "c' = c\<lparr>cl_state := SessionState_Closed, cl_dialCancel := False,
      cl_kill := KCancel (cl_state c) (cl_dialCancel c) (cl_conn c)\<rparr>"
    by (auto simp: kill_begin_def split: if_split_asm)
  have "owner_inv c'" using o k by (cases "cl_state c") (auto simp: c' owner_inv_def)
  moreover have "transport_inv c'" using t k by (simp add: c' transport_inv_def)
  ultimately show ?thesis by blast
qed

lemma client_inv: "client_reachable c \<Longrightarrow> owner_inv c \<and> transport_inv c"
proof (induction rule: client_reachable.induct)
  case (made dialer codec c)
  then show ?case by (auto simp: new_session_client_def owner_inv_def transport_inv_def split: if_splits)
next
  case (step c c')
  then show ?case using client_step_inv by blast
qed

section \<open>Properties\<close>

lemma kill_goes_on: "cl_kill c \<notin> {KNone, KDone} \<Longrightarrow> \<not> client_panics c \<Longrightarrow> \<exists>c'. client_internal c c'"
proof -
  assume k: "cl_kill c \<notin> {KNone, KDone}" "\<not> client_panics c"
  then have "kill_at (cl_kill c) None c \<noteq> None"
    by (cases "cl_kill c") (auto simp: client_finish_def client_panics_def)
  then show ?thesis by (blast intro: client_internal.kill_goes)
qed

lemma run_goes_on: "run_owes (cl_run c) \<Longrightarrow> \<not> client_panics c \<Longrightarrow> \<exists>c'. client_internal c c'"
proof -
  assume k: "run_owes (cl_run c)" "\<not> client_panics c"
  then have "run_at (cl_run c) None c \<noteq> None"
    by (cases "cl_run c") (auto simp: client_finish_def client_panics_def)
  then show ?thesis by (blast intro: client_internal.run_goes)
qed

lemma dial_goes_on: "dial_owes (cl_dial c) \<Longrightarrow> cl_dial c \<noteq> DPanicked \<Longrightarrow> \<not> client_panics c \<Longrightarrow> \<exists>c'. client_internal c c'"
proof -
  assume k: "dial_owes (cl_dial c)" "cl_dial c \<noteq> DPanicked" "\<not> client_panics c"
  have "\<exists>d. dial_at (cl_dial c) d c \<noteq> None"
    using k by (cases "cl_dial c") (auto simp: client_finish_def client_panics_def
      intro: exI [of _ DGo] exI [of _ "DialReturns True"] exI [of _ "DCtxErr None"])
  then show ?thesis by (blast intro: client_internal.dial_goes)
qed

lemma kill_owes_phase: "kill_owes k \<Longrightarrow> k \<notin> {KNone, KDone}"
  by (cases k) simp_all

text \<open>
  the outcome of a client is published exactly once. The channel \<open>Wait\<close> blocks on is never
  closed twice, although a failing dial, the end of the connection and a \<open>Close\<close> before the
  dial all close it; and once a client has been dialed or closed, either \<open>Wait\<close> returns or some
  goroutine can go on, or the dial has panicked: nothing else makes \<open>Wait\<close> hang.
\<close>

theorem client_publishes_once:
  assumes "client_reachable c"
  shows "\<not> client_panics c \<and> (cl_state c \<noteq> SessionState_New \<longrightarrow> client_wait c \<noteq> None \<or> (\<exists>c'. client_internal c c') \<or> cl_dial c = DPanicked)"
proof -
  have o: "owner_inv c" using client_inv [OF assms] by blast
  have p: "\<not> client_panics c"
    using owner_done [OF o] by (auto simp: client_panics_def)
  have "\<exists>c'. client_internal c c'" if "cl_state c \<noteq> SessionState_New" "\<not> cl_done c" "cl_dial c \<noteq> DPanicked"
  proof -
    have "act True = act (dial_owes (cl_dial c)) + act (run_owes (cl_run c)) + act (kill_owes (cl_kill c))"
      using o that by (simp add: owner_inv_def)
    then consider "dial_owes (cl_dial c)" | "run_owes (cl_run c)" | "kill_owes (cl_kill c)"
      by (cases "dial_owes (cl_dial c)"; cases "run_owes (cl_run c)"; cases "kill_owes (cl_kill c)") simp_all
    then show ?thesis
      by cases (use p that(3) dial_goes_on run_goes_on kill_goes_on kill_owes_phase in blast)+
  qed
  with p show ?thesis by (auto simp: client_wait_def)
qed

text \<open>A dial that comes to its end after \<open>Close\<close> has begun: the connection is given back.\<close>

definition fresh_client :: session_client where
  "fresh_client = \<lparr>cl_state = SessionState_New, cl_dialCancel = False, cl_conn = False, cl_done = False,
     cl_waitErr = None, cl_closeErr = None, cl_dial = DNone, cl_run = RunNone, cl_kill = KNone,
     cl_cancelled = False, cl_opened = 0, cl_closed = 0\<rparr>"

definition dialed_client :: session_client where
  "dialed_client = fresh_client\<lparr>cl_state := SessionState_Running, cl_dialCancel := True, cl_dial := DPublish, cl_opened := 1\<rparr>"

definition late_client :: session_client where
  "late_client = dialed_client\<lparr>cl_state := SessionState_Closed, cl_dialCancel := False, cl_cancelled := True,
     cl_kill := KDone, cl_dial := DReturned (Some ErrClosed), cl_done := True, cl_waitErr := Some ErrClosed, cl_closed := 1\<rparr>"

lemma dialed_reachable: "client_reachable dialed_client"
proof -
  have "client_reachable fresh_client"
    by (rule client_reachable.made [of True True]) (simp add: new_session_client_def fresh_client_def)
  then have "client_reachable (snd (dial_begin fresh_client))" by (rule client_reachable.step [OF _ client_step.dial])
  moreover have "dial_at (cl_dial (snd (dial_begin fresh_client))) (DialReturns True) (snd (dial_begin fresh_client)) = Some dialed_client"
    by (simp add: dial_begin_def fresh_client_def dialed_client_def)
  ultimately show ?thesis using client_reachable.step client_step.internal client_internal.dial_goes by blast
qed

lemma late_reachable: "client_reachable late_client"
proof -
  let ?c1 = "dialed_client\<lparr>cl_state := SessionState_Closed, cl_dialCancel := False, cl_kill := KCancel SessionState_Running True False\<rparr>"
  let ?c2 = "?c1\<lparr>cl_cancelled := True, cl_kill := KConn SessionState_Running False\<rparr>"
  let ?c3 = "?c2\<lparr>cl_dial := DReclaim ErrClosed\<rparr>"
  let ?c4 = "?c3\<lparr>cl_closed := 1, cl_dial := DFinish ErrClosed\<rparr>"
  let ?c5 = "?c4\<lparr>cl_waitErr := Some ErrClosed, cl_done := True, cl_dial := DCleanup (Some ErrClosed)\<rparr>"
  let ?c6 = "?c5\<lparr>cl_dial := DReturned (Some ErrClosed)\<rparr>"
  let ?c7 = "?c6\<lparr>cl_kill := KFinish SessionState_Running\<rparr>"
  have "kill_begin dialed_client = Some ?c1" by (simp add: kill_begin_def dialed_client_def fresh_client_def)
  then have 1: "client_reachable ?c1" using client_reachable.step [OF dialed_reachable client_step.close] by blast
  have "kill_at (cl_kill ?c1) None ?c1 = Some ?c2" by simp
  then have 2: "client_reachable ?c2" using client_reachable.step [OF 1] client_step.internal client_internal.kill_goes by blast
  have "dial_at (cl_dial ?c2) (DCtxErr (Some Canceled)) ?c2 = Some ?c3"
    by (simp add: dialed_client_def fresh_client_def dial_publish_def client_isClosed_def Let_def)
  then have 3: "client_reachable ?c3" using client_reachable.step [OF 2] client_step.internal client_internal.dial_goes by blast
  have "dial_at (cl_dial ?c3) DGo ?c3 = Some ?c4" by (simp add: dialed_client_def fresh_client_def)
  then have 4: "client_reachable ?c4" using client_reachable.step [OF 3] client_step.internal client_internal.dial_goes by blast
  have "dial_at (cl_dial ?c4) DGo ?c4 = Some ?c5" by (simp add: dialed_client_def fresh_client_def client_finish_def)
  then have 5: "client_reachable ?c5" using client_reachable.step [OF 4] client_step.internal client_internal.dial_goes by blast
  have "dial_at (cl_dial ?c5) DGo ?c5 = Some ?c6" by (simp add: dialed_client_def fresh_client_def)
  then have 6: "client_reachable ?c6" using client_reachable.step [OF 5] client_step.internal client_internal.dial_goes by blast
  have "kill_at (cl_kill ?c6) None ?c6 = Some ?c7" by simp
  then have 7: "client_reachable ?c7" using client_reachable.step [OF 6] client_step.internal client_internal.kill_goes by blast
  have "kill_at (cl_kill ?c7) None ?c7 = Some late_client" by (simp add: late_client_def)
  then show ?thesis using client_reachable.step [OF 7] client_step.internal client_internal.kill_goes by blast
qed

theorem client_publishes_once_witness:
  "client_reachable dialed_client \<and> cl_state dialed_client \<noteq> SessionState_New \<and> (\<exists>c'. client_internal dialed_client c')"
proof -
  have "cl_state dialed_client \<noteq> SessionState_New" "client_wait dialed_client = None"
    by (simp_all add: dialed_client_def fresh_client_def client_wait_def)
  moreover have "cl_dial dialed_client \<noteq> DPanicked" by (simp add: dialed_client_def)
  ultimately show ?thesis using client_publishes_once [OF dialed_reachable] dialed_reachable by blast
qed

text \<open>Whatever is under way comes to its end, with or without a \<open>Close\<close>: what is left to do gets less with every step.\<close>

fun dial_work :: "dial_phase \<Rightarrow> nat" where
  "dial_work DNone = 0" | "dial_work DDialing = 6" | "dial_work DPublish = 5" | "dial_work DSpawn = 4" | "dial_work (DReclaim e) = 3"
| "dial_work (DFinish e) = 2" | "dial_work (DCleanup r) = 1" | "dial_work (DReturned r) = 0"
| "dial_work DUnwind = 1" | "dial_work DPanicked = 0"

fun client_run_work :: "run_phase \<Rightarrow> nat" where
  "client_run_work RunNone = 0" | "client_run_work Running = 2" | "client_run_work (RunFinish e) = 1" | "client_run_work RunEnded = 0"

fun kill_work :: "kill_phase \<Rightarrow> nat" where
  "kill_work KNone = 0" | "kill_work (KCancel p x y) = 3" | "kill_work (KConn p y) = 2" | "kill_work (KFinish p) = 1" | "kill_work KDone = 0"

definition client_work :: "session_client \<Rightarrow> nat" where
  "client_work c = dial_work (cl_dial c) + client_run_work (cl_run c) + kill_work (cl_kill c)"

definition client_settled :: "session_client \<Rightarrow> bool" where
  "client_settled c \<longleftrightarrow> client_work c = 0"

lemma client_frames:
  "dial_at (cl_dial c) d c = Some c' \<Longrightarrow> cl_kill c' = cl_kill c \<and> cl_state c' = cl_state c \<and>
     dial_work (cl_dial c') + client_run_work (cl_run c') < dial_work (cl_dial c) + client_run_work (cl_run c)"
  "run_at (cl_run c) err c = Some c' \<Longrightarrow> cl_kill c' = cl_kill c \<and> cl_dial c' = cl_dial c \<and> cl_state c' = cl_state c \<and>
     client_run_work (cl_run c') < client_run_work (cl_run c)"
  "kill_at (cl_kill c) err c = Some c' \<Longrightarrow> cl_run c' = cl_run c \<and> cl_dial c' = cl_dial c \<and> cl_state c' = cl_state c \<and>
     kill_work (cl_kill c') < kill_work (cl_kill c)"
proof -
  assume "dial_at (cl_dial c) d c = Some c'"
  then show "cl_kill c' = cl_kill c \<and> cl_state c' = cl_state c \<and>
     dial_work (cl_dial c') + client_run_work (cl_run c') < dial_work (cl_dial c) + client_run_work (cl_run c)"
    by (cases "cl_dial c") (auto simp: client_finish_def dial_publish_def Let_def
      split: dial_choice.split_asm if_split_asm option.split_asm iface.split_asm)
next
  assume "run_at (cl_run c) err c = Some c'"
  then show "cl_kill c' = cl_kill c \<and> cl_dial c' = cl_dial c \<and> cl_state c' = cl_state c \<and>
     client_run_work (cl_run c') < client_run_work (cl_run c)"
    by (cases "cl_run c") (auto simp: client_finish_def conn_closed_def split: if_split_asm)
next
  assume "kill_at (cl_kill c) err c = Some c'"
  then show "cl_run c' = cl_run c \<and> cl_dial c' = cl_dial c \<and> cl_state c' = cl_state c \<and> kill_work (cl_kill c') < kill_work (cl_kill c)"
    by (cases "cl_kill c") (auto simp: client_finish_def conn_closed_def split: if_split_asm)
qed

lemma client_not_stuck:
  assumes "\<not> client_panics c" and "\<not> client_settled c"
  shows "\<exists>c'. client_internal c c'"
proof -
  consider (cleanup) r where "cl_dial c = DCleanup r" | (dial) "dial_owes (cl_dial c)" "cl_dial c \<noteq> DPanicked" | (run) "run_owes (cl_run c)" | (kill) "cl_kill c \<notin> {KNone, KDone}"
    using assms(2) by (cases "cl_dial c"; cases "cl_run c"; cases "cl_kill c") (auto simp: client_settled_def client_work_def)
  then show ?thesis
  proof cases
    case cleanup
    then have "dial_at (cl_dial c) DGo c \<noteq> None" by simp
    then show ?thesis by (blast intro: client_internal.dial_goes)
  qed (use assms(1) dial_goes_on run_goes_on kill_goes_on in blast)+
qed

interpretation settling_client: winding_down client_internal "\<lambda>c. client_reachable c \<and> cl_state c = st" client_work client_settled for st
proof
  fix c c'
  assume c: "client_reachable c \<and> cl_state c = st" and s: "client_internal c c'"
  have "client_reachable c'" using c s client_reachable.step client_step.internal by blast
  moreover have "cl_state c' = cl_state c" using s by (cases rule: client_internal.cases) (auto dest: client_frames)
  ultimately show "client_reachable c' \<and> cl_state c' = st" using c by simp
  from s show "client_work c' < client_work c"
    by (cases rule: client_internal.cases) (auto simp: client_work_def dest: client_frames)
qed (use client_not_stuck client_publishes_once in blast)

text \<open>A dial that has panicked stays so, and the channel \<open>Wait\<close> blocks on is never closed.\<close>

lemma panicked_stays:
  assumes "client_step\<^sup>*\<^sup>* c d" and "client_reachable c" and "cl_dial c = DPanicked"
  shows "client_reachable d \<and> cl_dial d = DPanicked"
  using assms(1)
proof (induction rule: rtranclp_induct)
  case (step d e)
  have "cl_dial e = DPanicked"
    using step(2)
  proof (cases rule: client_step.cases)
    case internal
    then show ?thesis using step(3) by (cases rule: client_internal.cases) (auto dest: client_frames)
  next
    case dial
    have "cl_state d \<noteq> SessionState_New" using client_inv [of d] step(3) by (auto simp: owner_inv_def)
    with dial step(3) show ?thesis by (simp add: dial_begin_def)
  next
    case close
    then show ?thesis using step(3) by (auto simp: kill_begin_def split: if_split_asm)
  qed
  with step show ?case using client_reachable.step by blast
qed (use assms in blast)

lemma panicked_wait_hangs:
  assumes "client_reachable c" and "cl_dial c = DPanicked" and "client_step\<^sup>*\<^sup>* c d"
  shows "client_wait d = None"
proof -
  have d: "client_reachable d" "cl_dial d = DPanicked" using panicked_stays [OF assms(3,1,2)] by auto
  have o: "owner_inv d" using client_inv [OF d(1)] by blast
  have "\<not> cl_done d \<and> cl_state d \<noteq> SessionState_New" using owner_done [OF o] d(2) by simp
  then show ?thesis by (simp add: client_wait_def)
qed

lemma dial_unwinds:
  "dial_at (cl_dial c) ch c = Some d \<Longrightarrow> cl_dial d = DUnwind \<Longrightarrow> \<exists>e. ch = DialFails e (Iface None)"
  by (cases "cl_dial c") (auto simp: client_finish_def dial_publish_def Let_def
    split: dial_choice.split_asm if_split_asm option.split_asm iface.split_asm)

text \<open>
  C22: \<open>Close\<close> misses no connection. At most one transport is ever opened, and it is closed at
  most once; when \<open>Close\<close> has returned and no dial is under way, every transport that was opened
  has been closed, whether the dial failed, was cancelled, came too late or succeeded before. Whatever is under way can come to its end,
  and wherever it ends a closed client has no transport open, and \<open>Wait\<close> returns if the client was ever dialed or closed,
  unless the dial has panicked. It panics only when the dialer returns beside its error an interface that holds
  a nil pointer, as the TCP and KCP dialers do (\<open>failed_options_panic\<close>), and then, if the caller recovers, \<open>Wait\<close>
  blocks for ever, whatever is called afterwards.
\<close>

theorem client_close_leaves_nothing_open:
  assumes "client_reachable c"
  shows "cl_opened c \<le> 1 \<and> cl_closed c \<le> cl_opened c \<and>
    (client_close_result c \<noteq> None \<and> (cl_dial c \<in> {DNone, DPanicked} \<or> (\<exists>r. cl_dial c = DReturned r)) \<longrightarrow> cl_closed c = cl_opened c) \<and>
    (\<exists>d. client_internal\<^sup>*\<^sup>* c d \<and> client_settled d) \<and>
    (\<forall>d. client_internal\<^sup>*\<^sup>* c d \<and> client_settled d \<longrightarrow>
       (client_isClosed c \<longrightarrow> cl_closed d = cl_opened d) \<and>
       (cl_state c \<noteq> SessionState_New \<longrightarrow> client_wait d = None \<longleftrightarrow> cl_dial d = DPanicked)) \<and>
    (\<forall>ch d. dial_at (cl_dial c) ch c = Some d \<and> cl_dial d = DUnwind \<longrightarrow> (\<exists>e. ch = DialFails e (Iface None))) \<and>
    (cl_dial c = DPanicked \<longrightarrow> (\<forall>d. client_step\<^sup>*\<^sup>* c d \<longrightarrow> client_wait d = None))"
proof -
  have closed: "cl_opened c \<le> 1 \<and> cl_closed c \<le> cl_opened c \<and>
    (client_close_result c \<noteq> None \<and> (cl_dial c \<in> {DNone, DPanicked} \<or> (\<exists>r. cl_dial c = DReturned r)) \<longrightarrow> cl_closed c = cl_opened c)"
    if "client_reachable c" for c
    using client_inv [OF that] by (auto simp: transport_inv_def client_close_result_def split: if_splits)
  have c: "client_reachable c \<and> cl_state c = cl_state c" using assms by simp
  have settled: "(client_isClosed c \<longrightarrow> cl_closed d = cl_opened d) \<and>
       (cl_state c \<noteq> SessionState_New \<longrightarrow> client_wait d = None \<longleftrightarrow> cl_dial d = DPanicked)"
    if run: "client_internal\<^sup>*\<^sup>* c d" and set: "client_settled d" for d
  proof -
    have d: "client_reachable d" "cl_state d = cl_state c" using settling_client.run_keeps [OF run c] by auto
    have "\<nexists>e. client_internal d e"
      using settling_client.step_works [of d "cl_state d"] d set by (auto simp: client_settled_def)
    then have w: "cl_state c \<noteq> SessionState_New \<longrightarrow> client_wait d = None \<longleftrightarrow> cl_dial d = DPanicked"
      using client_publishes_once [OF d(1)] panicked_wait_hangs [OF d(1)] d(2) by auto
    have "owner_inv d" using client_inv [OF d(1)] by blast
    then have "client_isClosed c \<Longrightarrow> cl_kill d \<noteq> KNone" using d(2) by (auto simp: owner_inv_def client_isClosed_def)
    moreover have "cl_dial d \<in> {DNone, DPanicked} \<or> (\<exists>r. cl_dial d = DReturned r)" "cl_kill d = KNone \<or> cl_kill d = KDone"
      using set by (cases "cl_dial d"; cases "cl_kill d"; simp add: client_settled_def client_work_def)+
    ultimately have "client_isClosed c \<longrightarrow> cl_closed d = cl_opened d" using closed [OF d(1)] by (auto simp: client_close_result_def)
    with w show ?thesis by blast
  qed
  have "\<exists>d. client_internal\<^sup>*\<^sup>* c d \<and> client_settled d" using settling_client.run_ends [OF c] by blast
  with closed [OF assms] settled dial_unwinds [of c] panicked_wait_hangs [OF assms] show ?thesis by simp
qed

theorem client_close_leaves_nothing_open_witness:
  "client_reachable late_client \<and> client_close_result late_client = Some None \<and> cl_opened late_client = 1 \<and> cl_closed late_client = 1"
proof -
  have f: "client_close_result late_client = Some None" "cl_dial late_client = DReturned (Some ErrClosed)" "cl_opened late_client = 1"
    by (simp_all add: late_client_def dialed_client_def fresh_client_def client_close_result_def)
  with client_close_leaves_nothing_open [OF late_reachable] late_reachable show ?thesis by simp
qed

end
