(* ===== verification/Session_Server.thy ===== *)
theory Session_Server
  imports Session_Manager Session_Client
begin

text \<open>
  \<^verbatim>\<open>common/network/session_server.go\<close>: accepting connections, registering them at the
  session manager, running and removing them. The goroutines are the caller of \<open>Serve\<close> that
  won the \<open>CompareAndSwap\<close>, one goroutine per connection, and the caller of \<open>Close\<close> that runs
  the function of \<open>closeOnce\<close>; they interleave at every operation on the manager. A connection
  is the number under which its transport was accepted; its \<open>ID()\<close> is that number, as
  the process-wide generator of \<^verbatim>\<open>conn_impl.go\<close> never gives the same identifier twice.
\<close>

section \<open>State\<close>

definition defaultMaxConnectionCount :: int where
  "defaultMaxConnectionCount = 5000"

text \<open>Where \<open>Serve\<close> and \<open>acceptLoop\<close> are; \<open>VDefer\<close> is the deferred part, with the result.\<close>

datatype serve_phase =
    VNone | VLoop | VAccepting | VFailed net_error | VAccepted "nat option" | VDeps "nat option"
  | VAdd nat | VReject nat net_error | VSpawn nat
  | VDefer "net_error option" | VWait "net_error option" | VReturned "net_error option"

datatype conn_phase = CRun | CRemove | CWgDone | CEnded

datatype shut_phase = XNone | XManager | XClosing | XListener | XDone

text \<open>
  \<open>sv_panicked\<close> says that \<open>acceptLoop\<close> has panicked: the deferred part of \<open>Serve\<close> runs as at any end,
  and the panic then goes on to the caller, so that \<open>VReturned\<close> is no return then.
  The last three fields record what happened: the events of the manager, the number of
  transports accepted so far, and those that are open.
\<close>

record session_server =
  sv_mgr :: "nat session_manager"
  sv_state :: session_state
  sv_wg :: int
  sv_closeErr :: "net_error option"
  sv_listenerClosed :: bool
  sv_serve :: serve_phase
  sv_panicked :: bool
  sv_runs :: "(nat \<times> conn_phase) list"
  sv_shut :: shut_phase
  sv_hist :: "nat mgr_event list"
  sv_accepted :: nat
  sv_open :: "nat fset"

text \<open>
  \<open>NewSessionServer\<close>; an option \<open>WithSessionManager\<close> sets the manager, which may be nil, and the
  last one wins.
\<close>

text \<open>Package \<^verbatim>\<open>common/options\<close>: an option is a function on what it sets, and \<open>Apply\<close> calls it.\<close>

type_synonym 't wrapper_options = "'t \<Rightarrow> 't"

definition option_apply :: "'t wrapper_options \<Rightarrow> 't \<Rightarrow> 't" where
  [simp]: "option_apply opt t = opt t"

definition with_session_manager :: "nat session_manager option \<Rightarrow> nat session_manager option wrapper_options" where
  "with_session_manager manager old = manager"

definition new_session_server ::
  "bool \<Rightarrow> bool \<Rightarrow> nat session_manager option wrapper_options list \<Rightarrow> net_error + session_server" where
  "new_session_server listener factory opts =
     (if \<not> listener then Inl (NewError ''network/server: listener is nil'')
      else if \<not> factory then Inl (NewError ''network/server: deps factory is nil'')
      else Inr \<lparr>sv_mgr = (case foldl (\<lambda>s opt. option_apply opt s) None opts of
            None \<Rightarrow> new_session_manager defaultMaxConnectionCount | Some m \<Rightarrow> m),
        sv_state = SessionState_New, sv_wg = 0, sv_closeErr = None, sv_listenerClosed = False, sv_serve = VNone, sv_panicked = False,
        sv_runs = [], sv_shut = XNone, sv_hist = [], sv_accepted = 0, sv_open = {||}\<rparr>)"

definition server_isClosed :: "session_server \<Rightarrow> bool" where
  "server_isClosed s \<longleftrightarrow> sv_state s = SessionState_Closed"

definition server_conn :: "nat \<Rightarrow> session_server \<Rightarrow> nat option \<times> bool" where
  "server_conn i s = mgr_get i (sv_mgr s)"

definition server_range :: "(nat \<Rightarrow> 'w \<Rightarrow> bool \<times> 'w) option \<Rightarrow> nat list \<Rightarrow> session_server \<Rightarrow> 'w \<Rightarrow> 'w" where
  "server_range fn ks s w = mgr_range fn ks (sv_mgr s) w"

definition server_len :: "session_server \<Rightarrow> int" where
  "server_len s = mgr_len (sv_mgr s)"

section \<open>Serving\<close>

definition serve_begin :: "session_server \<Rightarrow> net_error option \<times> session_server" where
  "serve_begin s =
     (if sv_state s = SessionState_New then (None, s\<lparr>sv_state := SessionState_Running, sv_serve := VLoop\<rparr>)
      else (Some (if server_isClosed s then ErrClosed else NewError ''network/server: already started''), s))"

text \<open>\<open>createDependencies\<close>: what the factory did, and whether it gave a codec.\<close>

definition create_dependencies :: "bool outcome \<Rightarrow> net_error option" where
  "create_dependencies r =
     (case r of
        Returns codec \<Rightarrow> if codec then None else Some (NewError ''network/server: codec is nil'')
      | Fails e \<Rightarrow> Some e
      | Panics m \<Rightarrow> Some (PanicError ''dependencies factory'' m))"

text \<open>\<open>transport.Close()\<close>, if there is a transport, directly or through its connection.\<close>

definition close_transport :: "nat option \<Rightarrow> session_server \<Rightarrow> session_server" where
  "close_transport tr s = (case tr of None \<Rightarrow> s | Some i \<Rightarrow> s\<lparr>sv_open := sv_open s |-| {|i|}\<rparr>)"

datatype serve_choice = VGo | AcceptFails net_error "unit iface" | AcceptReturns bool | Factory "bool outcome"

definition accept_transport :: "bool \<Rightarrow> session_server \<Rightarrow> nat option \<times> session_server" where
  "accept_transport tr s =
     (if tr then (Some (sv_accepted s), s\<lparr>sv_accepted := sv_accepted s + 1, sv_open := finsert (sv_accepted s) (sv_open s)\<rparr>)
      else (None, s))"

text \<open>
  \<open>acceptLoop\<close>, step by step, and the deferred function of \<open>Serve\<close>. What comes beside an error of
  \<open>Accept\<close> is nil, a transport, or an interface that holds a nil pointer, as from the listeners of this
  package: closing that one panics.
\<close>

fun serve_at :: "serve_phase \<Rightarrow> serve_choice \<Rightarrow> session_server \<Rightarrow> session_server option" where
  "serve_at VNone ch s = None"
| "serve_at VLoop ch s = (case ch of
     VGo \<Rightarrow> Some (s\<lparr>sv_serve := (if server_isClosed s then VDefer None else VAccepting)\<rparr>) | _ \<Rightarrow> None)"
| "serve_at VAccepting ch s = (case ch of
     AcceptFails e tr \<Rightarrow> (case tr of
         NilIface \<Rightarrow> Some (s\<lparr>sv_serve := VFailed e\<rparr>)
       | Iface (Some p) \<Rightarrow> (let (t, s1) = accept_transport True s in Some ((close_transport t s1)\<lparr>sv_serve := VFailed e\<rparr>))
       | Iface None \<Rightarrow> Some (s\<lparr>sv_panicked := True, sv_serve := VDefer None\<rparr>))
   | AcceptReturns tr \<Rightarrow> (let (t, s1) = accept_transport tr s in Some (s1\<lparr>sv_serve := VAccepted t\<rparr>))
   | _ \<Rightarrow> None)"
| "serve_at (VFailed e) ch s = (case ch of
     VGo \<Rightarrow> Some (s\<lparr>sv_serve := VDefer (if server_isClosed s then None else Some e)\<rparr>) | _ \<Rightarrow> None)"
| "serve_at (VAccepted t) ch s = (case ch of
     VGo \<Rightarrow> Some (if server_isClosed s then (close_transport t s)\<lparr>sv_serve := VDefer None\<rparr> else s\<lparr>sv_serve := VDeps t\<rparr>)
   | _ \<Rightarrow> None)"
| "serve_at (VDeps t) ch s = (case ch of
     Factory r \<Rightarrow> Some (if create_dependencies r \<noteq> None then (close_transport t s)\<lparr>sv_serve := VLoop\<rparr>
       else (case t of
           None \<Rightarrow> s\<lparr>sv_serve := VDefer (Some (NewError ''network/conn: transport is nil''))\<rparr>
         | Some i \<Rightarrow> s\<lparr>sv_serve := VAdd i\<rparr>))
   | _ \<Rightarrow> None)"
| "serve_at (VAdd i) ch s = (case ch of
     VGo \<Rightarrow> (case mgr_add (\<lambda>x. x) (Some i) (sv_mgr s) of
         (None, m) \<Rightarrow> Some (s\<lparr>sv_mgr := m, sv_hist := sv_hist s @ [Added i], sv_serve := VSpawn i\<rparr>)
       | (Some e, m) \<Rightarrow> Some (s\<lparr>sv_mgr := m, sv_serve := VReject i e\<rparr>))
   | _ \<Rightarrow> None)"
| "serve_at (VReject i e) ch s = (case ch of
     VGo \<Rightarrow> Some ((close_transport (Some i) s)\<lparr>sv_serve :=
       (if errors_is e ErrClosed then VDefer None else if errors_is e ErrSessionLimitReached then VLoop else VDefer (Some e))\<rparr>)
   | _ \<Rightarrow> None)"
| "serve_at (VSpawn i) ch s = (case ch of
     VGo \<Rightarrow> Some (s\<lparr>sv_wg := sv_wg s + 1, sv_runs := sv_runs s @ [(i, CRun)], sv_serve := VLoop\<rparr>) | _ \<Rightarrow> None)"
| "serve_at (VDefer r) ch s = (case ch of
     VGo \<Rightarrow> (case sv_shut s of
         XNone \<Rightarrow> Some (s\<lparr>sv_shut := XManager, sv_state := SessionState_Closed\<rparr>)
       | XDone \<Rightarrow> Some (s\<lparr>sv_serve := VWait r\<rparr>)
       | _ \<Rightarrow> None)
   | _ \<Rightarrow> None)"
| "serve_at (VWait r) ch s = (case ch of
     VGo \<Rightarrow> if sv_wg s = 0 then Some (s\<lparr>sv_serve := VReturned r\<rparr>) else None | _ \<Rightarrow> None)"
| "serve_at (VReturned r) ch s = None"

text \<open>
  \<open>runConn\<close>: \<open>conn.Run\<close> returns, with the transport closed; then the connection is removed and
  the wait group is told, in the order of the deferred calls.
\<close>

definition run_conn_at :: "nat \<Rightarrow> session_server \<Rightarrow> session_server option" where
  "run_conn_at k s =
     (let (i, ph) = sv_runs s ! k; next = (\<lambda>p t. t\<lparr>sv_runs := (sv_runs t)[k := (i, p)]\<rparr>)
      in case ph of
           CRun \<Rightarrow> Some (next CRemove (close_transport (Some i) s))
         | CRemove \<Rightarrow> Some (next CWgDone (s\<lparr>sv_mgr := mgr_remove i (sv_mgr s), sv_hist := sv_hist s @ [Removed i]\<rparr>))
         | CWgDone \<Rightarrow> Some (next CEnded (s\<lparr>sv_wg := sv_wg s - 1\<rparr>))
         | CEnded \<Rightarrow> None)"

section \<open>Closing\<close>

text \<open>\<open>Close\<close>: the first caller sets the state, closes the manager, then the listener.\<close>

definition shut_begin :: "session_server \<Rightarrow> session_server option" where
  "shut_begin s = (if sv_shut s = XNone then Some (s\<lparr>sv_shut := XManager, sv_state := SessionState_Closed\<rparr>) else None)"

datatype shut_choice = XTake "nat list" | XConn "net_error option" | XEnd | XListen "net_error option"

fun shut_at :: "shut_phase \<Rightarrow> shut_choice \<Rightarrow> session_server \<Rightarrow> session_server option" where
  "shut_at XNone ch s = None"
| "shut_at XManager ch s = (case ch of
     XTake ks \<Rightarrow> if enumerates ks (mgr_conns (sv_mgr s))
       then map_option (\<lambda>m. s\<lparr>sv_mgr := m, sv_hist := sv_hist s @ [CloseTook], sv_shut := XClosing\<rparr>) (mgr_close_take ks (sv_mgr s))
       else None
   | _ \<Rightarrow> None)"
| "shut_at XClosing ch s = (case ch of
     XConn err \<Rightarrow> map_option (\<lambda>(c, m). close_transport (Some c) (s\<lparr>sv_mgr := m, sv_hist := sv_hist s @ [ConnClosed c err]\<rparr>))
         (mgr_close_one err (sv_mgr s))
   | XEnd \<Rightarrow> map_option (\<lambda>m. s\<lparr>sv_mgr := m, sv_closeErr := mgr_closeErr m, sv_shut := XListener\<rparr>) (mgr_close_end (sv_mgr s))
   | _ \<Rightarrow> None)"
| "shut_at XListener ch s = (case ch of
     XListen err \<Rightarrow> Some (s\<lparr>sv_listenerClosed := True, sv_closeErr := errors_join [sv_closeErr s, err], sv_shut := XDone\<rparr>)
   | _ \<Rightarrow> None)"
| "shut_at XDone ch s = None"

definition server_close_result :: "session_server \<Rightarrow> net_error option option" where
  "server_close_result s = (if sv_shut s = XDone then Some (sv_closeErr s) else None)"

section \<open>The server as a whole\<close>

inductive server_reachable :: "int \<Rightarrow> session_server \<Rightarrow> bool" for n where
  made: "new_session_server True True [with_session_manager (Some (new_session_manager n))] = Inr s \<Longrightarrow> server_reachable n s"
| serve: "server_reachable n s \<Longrightarrow> server_reachable n (snd (serve_begin s))"
| serve_goes: "server_reachable n s \<Longrightarrow> serve_at (sv_serve s) ch s = Some t \<Longrightarrow> server_reachable n t"
| conn_goes: "server_reachable n s \<Longrightarrow> k < length (sv_runs s) \<Longrightarrow> run_conn_at k s = Some t \<Longrightarrow> server_reachable n t"
| close: "server_reachable n s \<Longrightarrow> shut_begin s = Some t \<Longrightarrow> server_reachable n t"
| close_goes: "server_reachable n s \<Longrightarrow> shut_at (sv_shut s) ch s = Some t \<Longrightarrow> server_reachable n t"


text \<open>A schedule of the server, to run it on a concrete input.\<close>

datatype server_label = YServe | YServing serve_choice | YConn nat | YClose | YClosing shut_choice

fun server_do :: "server_label \<Rightarrow> session_server \<Rightarrow> session_server option" where
  "server_do YServe s = Some (snd (serve_begin s))"
| "server_do (YServing ch) s = serve_at (sv_serve s) ch s"
| "server_do (YConn k) s = (if k < length (sv_runs s) then run_conn_at k s else None)"
| "server_do YClose s = shut_begin s"
| "server_do (YClosing ch) s = shut_at (sv_shut s) ch s"

primrec server_exec :: "server_label list \<Rightarrow> session_server \<Rightarrow> session_server option" where
  "server_exec [] s = Some s"
| "server_exec (l # ls) s = (case server_do l s of None \<Rightarrow> None | Some t \<Rightarrow> server_exec ls t)"

lemma server_do_reachable: "server_do l s = Some t \<Longrightarrow> server_reachable n s \<Longrightarrow> server_reachable n t"
  by (cases l) (auto intro: server_reachable.intros split: if_splits)

lemma server_exec_reachable: "server_exec ls s = Some t \<Longrightarrow> server_reachable n s \<Longrightarrow> server_reachable n t"
  by (induction ls arbitrary: s) (auto split: option.splits dest: server_do_reachable)

text \<open>Two connections are accepted, the second is over the limit; then somebody closes.\<close>

definition demo_server :: session_server where
  "demo_server = \<lparr>sv_mgr = new_session_manager 1, sv_state = SessionState_New, sv_wg = 0, sv_closeErr = None,
     sv_listenerClosed = False, sv_serve = VNone, sv_panicked = False, sv_runs = [], sv_shut = XNone, sv_hist = [], sv_accepted = 0, sv_open = {||}\<rparr>"

definition demo_serving :: "server_label list" where
  "demo_serving = [YServe, YServing VGo, YServing (AcceptReturns True), YServing VGo, YServing (Factory (Returns True)),
     YServing VGo, YServing VGo, YServing VGo, YServing (AcceptReturns True), YServing VGo, YServing (Factory (Returns True)),
     YServing VGo, YServing VGo, YServing VGo, YClose, YClosing (XTake [0]), YClosing (XConn None), YClosing XEnd,
     YClosing (XListen None)]"

definition demo_ending :: "server_label list" where
  "demo_ending = [YConn 0, YConn 0, YConn 0, YServing (AcceptFails ErrClosed NilIface), YServing VGo, YServing VGo, YServing VGo]"

lemma demo_server_reachable: "server_reachable 1 demo_server"
  by (rule server_reachable.made) (simp add: new_session_server_def with_session_manager_def demo_server_def)

section \<open>Invariant\<close>

text \<open>The connection \<open>acceptLoop\<close> has in its hands, and the goroutines in a given phase.\<close>

fun hand :: "serve_phase \<Rightarrow> nat set" where
  "hand (VAccepted (Some i)) = {i}" | "hand (VDeps (Some i)) = {i}" | "hand (VAdd i) = {i}" | "hand (VReject i e) = {i}"
| "hand (VSpawn i) = {i}" | "hand VNone = {}" | "hand VLoop = {}" | "hand VAccepting = {}" | "hand (VFailed e) = {}"
| "hand (VAccepted None) = {}" | "hand (VDeps None) = {}" | "hand (VDefer r) = {}" | "hand (VWait r) = {}" | "hand (VReturned r) = {}"

fun spawning :: "serve_phase \<Rightarrow> nat set" where
  "spawning (VSpawn i) = {i}" | "spawning (VAccepted t) = {}" | "spawning (VDeps t) = {}" | "spawning (VAdd i) = {}"
| "spawning (VReject i e) = {}" | "spawning VNone = {}" | "spawning VLoop = {}" | "spawning VAccepting = {}"
| "spawning (VFailed e) = {}" | "spawning (VDefer r) = {}" | "spawning (VWait r) = {}" | "spawning (VReturned r) = {}"

definition in_phase :: "conn_phase \<Rightarrow> (nat \<times> conn_phase) list \<Rightarrow> nat set" where
  "in_phase p rs = {i. (i, p) \<in> set rs}"

definition run_ids :: "(nat \<times> conn_phase) list \<Rightarrow> nat set" where
  "run_ids rs = fst ` set rs"

definition running :: "(nat \<times> conn_phase) list \<Rightarrow> int" where
  "running rs = int (length (filter (\<lambda>x. snd x \<noteq> CEnded) rs))"

fun once_of :: "shut_phase \<Rightarrow> nat list once \<Rightarrow> bool" where
  "once_of XNone x \<longleftrightarrow> x = OnceNew" | "once_of XManager x \<longleftrightarrow> x = OnceNew" | "once_of XClosing x \<longleftrightarrow> (\<exists>cs. x = OnceBusy cs)"
| "once_of XListener x \<longleftrightarrow> x = OnceDone" | "once_of XDone x \<longleftrightarrow> x = OnceDone"

text \<open>The identities: every accepted connection is in the hands of one goroutine only.\<close>

definition ids_inv :: "session_server \<Rightarrow> bool" where
  "ids_inv s \<longleftrightarrow> distinct (map fst (sv_runs s)) \<and> (\<forall>i \<in> hand (sv_serve s). i < sv_accepted s \<and> i \<notin> run_ids (sv_runs s)) \<and>
     (\<forall>i \<in> run_ids (sv_runs s). i < sv_accepted s) \<and> sv_wg s = running (sv_runs s) \<and>
     fset (sv_open s) \<subseteq> hand (sv_serve s) \<union> in_phase CRun (sv_runs s)"

definition registry_inv :: "int \<Rightarrow> session_server \<Rightarrow> bool" where
  "registry_inv n s \<longleftrightarrow> mgr_reachable (\<lambda>x. x) n (sv_hist s) (sv_mgr s) \<and>
     fset (fmdom (mgr_conns (sv_mgr s))) = spawning (sv_serve s) \<union> in_phase CRun (sv_runs s) \<union> in_phase CRemove (sv_runs s)"

definition shut_inv :: "session_server \<Rightarrow> bool" where
  "shut_inv s \<longleftrightarrow> once_of (sv_shut s) (mgr_closeOnce (sv_mgr s)) \<and> (sv_state s = SessionState_Closed \<longleftrightarrow> sv_shut s \<noteq> XNone) \<and>
     (sv_shut s = XDone \<longrightarrow> sv_listenerClosed s) \<and>
     (\<forall>r. sv_serve s = VWait r \<or> sv_serve s = VReturned r \<longrightarrow> sv_shut s = XDone) \<and>
     (\<forall>r. sv_serve s = VReturned r \<longrightarrow> sv_wg s = 0) \<and>
     (sv_state s = SessionState_New \<longrightarrow> sv_serve s = VNone)"

lemma in_phase_simps [simp]:
  "in_phase p [] = {}" "in_phase p (rs @ [(i, q)]) = (if p = q then insert i (in_phase p rs) else in_phase p rs)"
  by (auto simp: in_phase_def)

lemma run_ids_simps [simp]: "run_ids [] = {}" "run_ids (rs @ [x]) = insert (fst x) (run_ids rs)"
  by (auto simp: run_ids_def)

lemma distinct_run_ids: "x \<in> fst ` set rs \<longleftrightarrow> x \<in> run_ids rs"
  by (simp add: run_ids_def)

lemma running_simps [simp]: "running [] = 0" "running (rs @ [x]) = running rs + (if snd x = CEnded then 0 else 1)"
  by (simp_all add: running_def)

lemma in_phase_update:
  assumes "distinct (map fst rs)" and k: "k < length rs" and "rs ! k = (i, q)"
  shows "in_phase p (rs[k := (i, q')]) = (if p = q' then insert i (in_phase p rs) else in_phase p rs - {i})"
proof -
  have other: "j < length rs \<Longrightarrow> j \<noteq> k \<Longrightarrow> fst (rs ! j) \<noteq> i" for j
    using nth_eq_iff_index_eq [OF assms(1), of j k] assms(2,3) by auto
  have "(x, p) \<in> set (rs[k := (i, q')]) \<longleftrightarrow> (x = i \<and> p = q') \<or> (x \<noteq> i \<and> (x, p) \<in> set rs)" for x
  proof
    assume "(x, p) \<in> set (rs[k := (i, q')])"
    then obtain j where "j < length rs" "rs[k := (i, q')] ! j = (x, p)" by (auto simp: in_set_conv_nth)
    then show "(x = i \<and> p = q') \<or> (x \<noteq> i \<and> (x, p) \<in> set rs)"
      using other [of j] by (cases "j = k") (auto simp: in_set_conv_nth)
  next
    assume "(x = i \<and> p = q') \<or> (x \<noteq> i \<and> (x, p) \<in> set rs)"
    then show "(x, p) \<in> set (rs[k := (i, q')])"
    proof
      assume "x = i \<and> p = q'"
      then show ?thesis using set_update_memI [OF k] by simp
    next
      assume x: "x \<noteq> i \<and> (x, p) \<in> set rs"
      then obtain j where j: "j < length rs" "rs ! j = (x, p)" by (auto simp: in_set_conv_nth)
      then have "j \<noteq> k" using x assms(3) by auto
      with j show ?thesis by (metis length_list_update nth_list_update_neq nth_mem)
    qed
  qed
  then show ?thesis by (auto simp: in_phase_def)
qed

lemma running_update:
  assumes "k < length rs" and "rs ! k = (i, q)" and "q \<noteq> CEnded"
  shows "running (rs[k := (i, q')]) = running rs - (if q' = CEnded then 1 else 0)"
  using assms
proof (induction rs arbitrary: k)
  case (Cons r rs)
  then show ?case by (cases k) (auto simp: running_def)
qed simp

lemma fst_update: "k < length rs \<Longrightarrow> rs ! k = (i, q) \<Longrightarrow> map fst (rs[k := (i, q')]) = map fst rs"
  by (simp add: map_update) (metis fst_conv list_update_id nth_map)

lemma close_transport_simps [simp]:
  "sv_mgr (close_transport t s) = sv_mgr s" "sv_state (close_transport t s) = sv_state s" "sv_wg (close_transport t s) = sv_wg s"
  "sv_serve (close_transport t s) = sv_serve s" "sv_runs (close_transport t s) = sv_runs s" "sv_shut (close_transport t s) = sv_shut s"
  "sv_hist (close_transport t s) = sv_hist s" "sv_accepted (close_transport t s) = sv_accepted s"
  "sv_listenerClosed (close_transport t s) = sv_listenerClosed s"
  "sv_open (close_transport (Some i) s) = sv_open s |-| {|i|}" "sv_open (close_transport None s) = sv_open s"
  by (auto simp: close_transport_def split: option.splits)

lemma spawning_hand: "spawning v \<subseteq> hand v"
  by (cases v) simp_all

lemma mgr_add_fails: "mgr_add cid c s = (Some e, t) \<Longrightarrow> t = s"
  by (auto simp: mgr_add_def split: option.splits if_splits)

lemma mgr_add_ok:
  "mgr_add cid (Some c) s = (None, t) \<Longrightarrow> t = s\<lparr>mgr_conns := fmupd (cid c) c (mgr_conns s)\<rparr> \<and> \<not> mgr_closed s"
  by (auto simp: mgr_add_def split: if_splits)

lemma serve_ids:
  assumes step: "serve_at (sv_serve s) ch s = Some t" and inv: "ids_inv s"
  shows "ids_inv t"
proof (cases "sv_serve s")
  case VAccepting
  with step inv show ?thesis
    by (auto simp: ids_inv_def accept_transport_def Let_def less_Suc_eq split: serve_choice.split_asm if_split_asm iface.split_asm option.split_asm)
next
  case (VAccepted x)
  with step inv show ?thesis
    by (cases x) (auto simp: ids_inv_def split: serve_choice.split_asm if_split_asm)
next
  case (VDeps x)
  with step inv show ?thesis
    by (cases x) (auto simp: ids_inv_def split: serve_choice.split_asm if_split_asm)
next
  case (VAdd i)
  obtain r m where r: "mgr_add (\<lambda>x. x) (Some i) (sv_mgr s) = (r, m)" by fastforce
  obtain h v where "t = s\<lparr>sv_mgr := m, sv_hist := h, sv_serve := v\<rparr>" "hand v = {i}"
  proof (cases r)
    case None
    then have "t = s\<lparr>sv_mgr := m, sv_hist := sv_hist s @ [Added i], sv_serve := VSpawn i\<rparr>"
      using step VAdd r by (auto split: serve_choice.split_asm)
    then show ?thesis by (intro that [where h = "sv_hist s @ [Added i]" and v = "VSpawn i"]) simp_all
  next
    case (Some e)
    then have "t = s\<lparr>sv_mgr := m, sv_hist := sv_hist s, sv_serve := VReject i e\<rparr>"
      using step VAdd r by (auto split: serve_choice.split_asm)
    then show ?thesis by (intro that [where h = "sv_hist s" and v = "VReject i e"]) simp_all
  qed
  with VAdd inv show ?thesis by (auto simp: ids_inv_def)
next
  case (VReject i e)
  with step obtain v where "t = (close_transport (Some i) s)\<lparr>sv_serve := v\<rparr>" "hand v = {}"
    by (auto split: serve_choice.split_asm)
  with VReject inv show ?thesis by (auto simp: ids_inv_def)
next
  case (VSpawn i)
  with step have "t = s\<lparr>sv_wg := sv_wg s + 1, sv_runs := sv_runs s @ [(i, CRun)], sv_serve := VLoop\<rparr>"
    by (auto split: serve_choice.split_asm)
  with VSpawn inv show ?thesis by (auto simp: ids_inv_def simp flip: distinct_run_ids)
next
  case (VDefer r)
  with step inv show ?thesis by (auto simp: ids_inv_def split: serve_choice.split_asm shut_phase.split_asm)
qed (use step inv in \<open>auto simp: ids_inv_def split: serve_choice.split_asm if_split_asm\<close>)

lemma serve_registry:
  assumes step: "serve_at (sv_serve s) ch s = Some t" and inv: "registry_inv n s"
  shows "registry_inv n t"
proof (cases "sv_serve s")
  case (VAdd i)
  obtain r m where r: "mgr_add (\<lambda>x. x) (Some i) (sv_mgr s) = (r, m)" by fastforce
  have re: "mgr_reachable (\<lambda>x. x) n (sv_hist s @ (if r = None then [Added i] else [])) m"
    using inv r by (intro mgr_reachable.add) (auto simp: registry_inv_def)
  show ?thesis
  proof (cases r)
    case None
    then have "t = s\<lparr>sv_mgr := m, sv_hist := sv_hist s @ [Added i], sv_serve := VSpawn i\<rparr>"
      using step VAdd r by (auto split: serve_choice.split_asm)
    with inv VAdd re None mgr_add_ok [OF r [unfolded None]] show ?thesis by (auto simp: registry_inv_def)
  next
    case (Some e)
    then have "t = s\<lparr>sv_mgr := m, sv_serve := VReject i e\<rparr>"
      using step VAdd r by (auto split: serve_choice.split_asm)
    with inv VAdd re Some mgr_add_fails [OF r [unfolded Some]] show ?thesis by (auto simp: registry_inv_def)
  qed
next
  case VAccepting
  with step inv show ?thesis
    by (auto simp: registry_inv_def accept_transport_def Let_def split: serve_choice.split_asm if_split_asm iface.split_asm option.split_asm)
next
  case (VSpawn i)
  with step have "t = s\<lparr>sv_wg := sv_wg s + 1, sv_runs := sv_runs s @ [(i, CRun)], sv_serve := VLoop\<rparr>"
    by (auto split: serve_choice.split_asm)
  with VSpawn inv show ?thesis by (auto simp: registry_inv_def)
next
  case (VDeps x)
  with step inv show ?thesis
    by (cases x) (auto simp: registry_inv_def split: serve_choice.split_asm if_split_asm)
qed (use step inv in \<open>auto simp: registry_inv_def split: serve_choice.split_asm if_split_asm shut_phase.split_asm\<close>)

lemma serve_shut:
  assumes step: "serve_at (sv_serve s) ch s = Some t" and inv: "shut_inv s"
  shows "shut_inv t"
proof (cases "sv_serve s")
  case (VAdd i)
  obtain r m where r: "mgr_add (\<lambda>x. x) (Some i) (sv_mgr s) = (r, m)" by fastforce
  then have "mgr_closeOnce m = mgr_closeOnce (sv_mgr s)"
    by (cases r) (auto dest!: mgr_add_fails mgr_add_ok)
  with step inv VAdd r show ?thesis
    by (auto simp: shut_inv_def split: serve_choice.split_asm option.split_asm)
next
  case VAccepting
  with step inv show ?thesis
    by (auto simp: shut_inv_def accept_transport_def Let_def split: serve_choice.split_asm if_split_asm iface.split_asm option.split_asm)
next
  case (VDeps x)
  with step inv show ?thesis
    by (cases x) (auto simp: shut_inv_def split: serve_choice.split_asm if_split_asm)
next
  case (VDefer r)
  with step inv show ?thesis
    by (auto simp: shut_inv_def split: serve_choice.split_asm shut_phase.split_asm)
qed (use step inv in \<open>auto simp: shut_inv_def split: serve_choice.split_asm if_split_asm\<close>)

definition server_inv :: "int \<Rightarrow> session_server \<Rightarrow> bool" where
  "server_inv n s \<longleftrightarrow> ids_inv s \<and> registry_inv n s \<and> shut_inv s"

lemma conn_goes_inv:
  assumes k: "k < length (sv_runs s)" and step: "run_conn_at k s = Some t" and inv: "server_inv n s"
  shows "server_inv n t"
proof -
  obtain i ph where e: "sv_runs s ! k = (i, ph)" by fastforce
  have d: "distinct (map fst (sv_runs s))" and ids: "ids_inv s" and reg: "registry_inv n s" and sh: "shut_inv s"
    using inv by (auto simp: server_inv_def ids_inv_def)
  have mem: "(i, ph) \<in> set (sv_runs s)" using k e by (metis nth_mem)
  then have "i \<in> run_ids (sv_runs s)" by (force simp: run_ids_def)
  then have nothand: "i \<notin> hand (sv_serve s)" using ids by (auto simp: ids_inv_def)
  have uniq: "(i, q) \<in> set (sv_runs s) \<Longrightarrow> q = ph" for q
    using mem d by (meson distinct_map inj_on_def eq_key_imp_eq_value)
  have imgs: "run_ids ((sv_runs s)[k := (i, q)]) = run_ids (sv_runs s)" for q
    using arg_cong [OF fst_update [OF k e, of q], of set] by (simp add: run_ids_def)
  note up = in_phase_update [OF d k e] and mf = fst_update [OF k e] and ru = running_update [OF k e]
  show ?thesis
  proof (cases ph)
    case CRun
    then have t: "t = (close_transport (Some i) s)\<lparr>sv_runs := (sv_runs s)[k := (i, CRemove)]\<rparr>"
      using step e by (auto simp: run_conn_at_def)
    have "i \<notin> in_phase CRemove (sv_runs s)" using uniq [of CRemove] CRun by (auto simp: in_phase_def)
    moreover have "i \<in> in_phase CRun (sv_runs s)" using mem CRun by (simp add: in_phase_def)
    ultimately show ?thesis using ids reg sh CRun
      by (auto simp: server_inv_def ids_inv_def registry_inv_def shut_inv_def t up mf ru imgs)
  next
    case CRemove
    then have t: "t = s\<lparr>sv_mgr := mgr_remove i (sv_mgr s), sv_hist := sv_hist s @ [Removed i],
        sv_runs := (sv_runs s)[k := (i, CWgDone)]\<rparr>"
      using step e by (auto simp: run_conn_at_def)
    have "i \<notin> in_phase CRun (sv_runs s)" using uniq [of CRun] CRemove by (auto simp: in_phase_def)
    moreover have "i \<notin> spawning (sv_serve s)" using nothand spawning_hand by blast
    moreover have "mgr_reachable (\<lambda>x. x) n (sv_hist s @ [Removed i]) (mgr_remove i (sv_mgr s))"
      using reg by (intro mgr_reachable.remove) (simp add: registry_inv_def)
    moreover have "mgr_closeOnce (mgr_remove i (sv_mgr s)) = mgr_closeOnce (sv_mgr s)" by (simp add: mgr_remove_def)
    moreover have "fset (fmdom (mgr_conns (mgr_remove i (sv_mgr s)))) = fset (fmdom (mgr_conns (sv_mgr s))) - {i}"
      by (simp add: mgr_remove_def)
    ultimately show ?thesis using ids reg sh CRemove
      by (auto simp: server_inv_def ids_inv_def registry_inv_def shut_inv_def t up mf ru imgs)
  next
    case CWgDone
    then have t: "t = s\<lparr>sv_wg := sv_wg s - 1, sv_runs := (sv_runs s)[k := (i, CEnded)]\<rparr>"
      using step e by (auto simp: run_conn_at_def)
    have "i \<notin> in_phase CRun (sv_runs s)" "i \<notin> in_phase CRemove (sv_runs s)"
      using uniq [of CRun] uniq [of CRemove] CWgDone by (auto simp: in_phase_def)
    moreover have "running (sv_runs s) \<noteq> 0"
      using mem CWgDone by (force simp: running_def filter_empty_conv)
    ultimately show ?thesis using ids reg sh CWgDone
      by (auto simp: server_inv_def ids_inv_def registry_inv_def shut_inv_def t up mf ru imgs)
  next
    case CEnded
    with step e show ?thesis by (simp add: run_conn_at_def)
  qed
qed

lemma close_goes_inv:
  assumes step: "shut_at (sv_shut s) ch s = Some t" and inv: "server_inv n s"
  shows "server_inv n t"
proof (cases "sv_shut s")
  case XManager
  then obtain ks m where m: "enumerates ks (mgr_conns (sv_mgr s))" "mgr_close_take ks (sv_mgr s) = Some m"
    and t: "t = s\<lparr>sv_mgr := m, sv_hist := sv_hist s @ [CloseTook], sv_shut := XClosing\<rparr>"
    using step by (auto split: shut_choice.split_asm if_split_asm)
  have "mgr_reachable (\<lambda>x. x) n (sv_hist s @ [CloseTook]) m"
    using inv m by (intro mgr_reachable.close_take) (auto simp: server_inv_def registry_inv_def)
  moreover have "mgr_conns m = mgr_conns (sv_mgr s)" "\<exists>cs. mgr_closeOnce m = OnceBusy cs"
    using m(2) by (auto simp: mgr_close_take_def split: once.split_asm)
  ultimately show ?thesis using inv XManager
    by (auto simp: server_inv_def ids_inv_def registry_inv_def shut_inv_def t)
next
  case XClosing
  consider (one) err c m where "mgr_close_one err (sv_mgr s) = Some (c, m)"
      "t = close_transport (Some c) (s\<lparr>sv_mgr := m, sv_hist := sv_hist s @ [ConnClosed c err]\<rparr>)"
    | (ended) m where "mgr_close_end (sv_mgr s) = Some m" "t = s\<lparr>sv_mgr := m, sv_closeErr := mgr_closeErr m, sv_shut := XListener\<rparr>"
    using step XClosing by (auto split: shut_choice.split_asm)
  then show ?thesis
  proof cases
    case one
    have "mgr_reachable (\<lambda>x. x) n (sv_hist s @ [ConnClosed c err]) m"
      using inv by (intro mgr_reachable.close_one [OF _ one(1)]) (simp add: server_inv_def registry_inv_def)
    moreover have "mgr_conns m = mgr_conns (sv_mgr s)" "\<exists>cs. mgr_closeOnce m = OnceBusy cs"
      using one(1) by (auto simp: mgr_close_one_def split: once.split_asm list.split_asm)
    ultimately show ?thesis using inv XClosing
      by (auto simp: server_inv_def ids_inv_def registry_inv_def shut_inv_def one(2))
  next
    case ended
    have "mgr_reachable (\<lambda>x. x) n (sv_hist s) m"
      using inv by (intro mgr_reachable.close_end [OF _ ended(1)]) (simp add: server_inv_def registry_inv_def)
    moreover have "mgr_conns m = mgr_conns (sv_mgr s)" "mgr_closeOnce m = OnceDone"
      using ended(1) by (auto simp: mgr_close_end_def split: once.split_asm list.split_asm)
    ultimately show ?thesis using inv XClosing
      by (auto simp: server_inv_def ids_inv_def registry_inv_def shut_inv_def ended(2))
  qed
next
  case XListener
  with step inv show ?thesis
    by (auto simp: server_inv_def ids_inv_def registry_inv_def shut_inv_def split: shut_choice.split_asm)
qed (use step in simp_all)

lemma serve_begin_inv: "server_inv n s \<Longrightarrow> server_inv n (snd (serve_begin s))"
  by (auto simp: serve_begin_def server_inv_def ids_inv_def registry_inv_def shut_inv_def)

lemma shut_begin_inv: "shut_begin s = Some t \<Longrightarrow> server_inv n s \<Longrightarrow> server_inv n t"
  by (auto simp: shut_begin_def server_inv_def ids_inv_def registry_inv_def shut_inv_def split: if_splits)

lemma new_server_inv:
  assumes "new_session_server True True [with_session_manager (Some (new_session_manager n))] = Inr s"
  shows "server_inv n s"
proof -
  have "mgr_reachable (\<lambda>x. x) n [] (new_session_manager n :: nat session_manager)" by (rule mgr_reachable.made)
  with assms show ?thesis
    by (auto simp: new_session_server_def with_session_manager_def server_inv_def ids_inv_def registry_inv_def shut_inv_def
        new_session_manager_def run_ids_def running_def)
qed

lemma server_inv: "server_reachable n s \<Longrightarrow> server_inv n s"
proof (induction rule: server_reachable.induct)
  case (serve_goes s ch t)
  then show ?case using serve_ids serve_registry serve_shut unfolding server_inv_def by blast
qed (auto intro: new_server_inv serve_begin_inv conn_goes_inv shut_begin_inv close_goes_inv)

section \<open>Properties\<close>

lemma running_zero: "running rs = 0 \<Longrightarrow> p \<noteq> CEnded \<Longrightarrow> in_phase p rs = {}"
  by (auto simp: running_def in_phase_def filter_empty_conv)

text \<open>
  C23: \<open>Serve\<close> leaves nothing behind. When it has returned, or has panicked in closing what came with a failed
  \<open>Accept\<close>, the listener is closed, no goroutine
  of a connection is running, no connection is registered, and every transport that was ever
  accepted has been closed, those of rejected connections and of failed factories too.
\<close>

theorem serve_leaves_nothing_open:
  assumes "server_reachable n s" and "sv_serve s = VReturned r"
  shows "sv_open s = {||} \<and> sv_wg s = 0 \<and> server_len s = 0 \<and> sv_listenerClosed s \<and> server_isClosed s \<and>
    in_phase CRun (sv_runs s) = {} \<and> in_phase CRemove (sv_runs s) = {} \<and> in_phase CWgDone (sv_runs s) = {}"
proof -
  have inv: "ids_inv s" "registry_inv n s" "shut_inv s" using server_inv [OF assms(1)] by (simp_all add: server_inv_def)
  have w: "sv_wg s = 0" "sv_shut s = XDone" "sv_listenerClosed s" "server_isClosed s"
    using inv(3) assms(2) by (auto simp: shut_inv_def server_isClosed_def)
  then have z: "running (sv_runs s) = 0" using inv(1) by (simp add: ids_inv_def)
  note e = running_zero [OF z, of CRun] running_zero [OF z, of CRemove] running_zero [OF z, of CWgDone]
  have "fset (sv_open s) = {}" using inv(1) e assms(2) by (auto simp: ids_inv_def)
  moreover have "fset (fmdom (mgr_conns (sv_mgr s))) = {}" using inv(2) e assms(2) by (simp add: registry_inv_def)
  ultimately show ?thesis using w e by (simp add: server_len_def mgr_len_def map_len_def flip: bot_fset.rep_eq add: fset_inject)
qed

theorem serve_leaves_nothing_open_witness:
  "\<exists>s. server_reachable 1 s \<and> sv_serve s = VReturned None \<and> sv_accepted s = 2 \<and> sv_open s = {||}"
proof -
  have "map_option (\<lambda>s. (sv_serve s, sv_accepted s)) (server_exec (demo_serving @ demo_ending) demo_server) = Some (VReturned None, 2)"
    by code_simp
  then obtain s where s: "server_exec (demo_serving @ demo_ending) demo_server = Some s" "sv_serve s = VReturned None" "sv_accepted s = 2"
    by auto
  note r = server_exec_reachable [OF s(1) demo_server_reachable]
  from serve_leaves_nothing_open [OF r s(2)] s r show ?thesis by blast
qed

lemma live_before: "fmlookup (live cid (h1 @ CloseTook # h2)) i = Some c \<Longrightarrow> \<not> list_ex is_added h2 \<Longrightarrow>
  fmlookup (live cid h1) i = Some c"
proof (induction h2 rule: rev_induct)
  case Nil
  then show ?case by simp
next
  case (snoc x h2)
  have "live cid (h1 @ CloseTook # h2 @ [x]) = live_step cid (live cid (h1 @ CloseTook # h2)) x"
    using live_simps(2) [of cid "h1 @ CloseTook # h2" x] by simp
  with snoc show ?case by (cases x) (auto split: if_splits)
qed

lemma count_distinct: "distinct xs \<Longrightarrow> x \<in> set xs \<Longrightarrow> count_list xs x = 1"
  by (induction xs) (auto simp: count_notin)

text \<open>
  \<open>Close\<close> of the server reaches every connection. When it has returned, every connection
  whose \<open>Run\<close> has not returned, and one that \<open>acceptLoop\<close> has registered but not started yet, has
  been told to close, each exactly once; the listener is closed, and at no time has the
  server more connections than the limit.
\<close>

theorem server_close_reaches_all:
  assumes "server_reachable n s" and "server_close_result s \<noteq> None" and "i \<in> in_phase CRun (sv_runs s) \<or> sv_serve s = VSpawn i"
  shows "count_list (map fst (closings (sv_hist s))) i = 1 \<and> sv_listenerClosed s \<and> (0 < n \<longrightarrow> server_len s \<le> n)"
proof -
  have inv: "registry_inv n s" "shut_inv s" using server_inv [OF assms(1)] by (simp_all add: server_inv_def)
  have x: "sv_shut s = XDone" "sv_listenerClosed s"
    using assms(2) inv(2) by (auto simp: server_close_result_def shut_inv_def split: if_splits)
  have reach: "mgr_reachable (\<lambda>x. x) n (sv_hist s) (sv_mgr s)" and o: "mgr_closeOnce (sv_mgr s) = OnceDone"
    using inv x by (simp_all add: registry_inv_def shut_inv_def)
  have ok: "mgr_ok (\<lambda>x. x) n (sv_hist s) (sv_mgr s)" by (rule mgr_reachable_ok [OF reach])
  obtain h1 h2 where
    h: "sv_hist s = h1 @ CloseTook # h2" "\<not> list_ex is_added h2" "closings h1 = []"
      "distinct (map fst (closings h2))" "set (map fst (closings h2)) = fmran' (live (\<lambda>x. x) h1)"
      "opt_leaves (mgr_closeErr (sv_mgr s)) = concat (map (opt_leaves \<circ> snd) (closings h2))"
    by (rule closed_manager [OF reach o])
  have "fset (fmdom (mgr_conns (sv_mgr s))) = spawning (sv_serve s) \<union> in_phase CRun (sv_runs s) \<union> in_phase CRemove (sv_runs s)"
    using inv(1) by (simp only: registry_inv_def)
  moreover have "sv_serve s = VSpawn i \<Longrightarrow> i \<in> spawning (sv_serve s)" by simp
  ultimately have "i \<in> fset (fmdom (mgr_conns (sv_mgr s)))" using assms(3) by blast
  then obtain c where c: "fmlookup (mgr_conns (sv_mgr s)) i = Some c" by (meson fmlookup_dom_iff)
  then have "c = i" using ok by (auto simp: mgr_ok_def keyed_def)
  moreover have "mgr_conns (sv_mgr s) = live (\<lambda>x. x) (h1 @ CloseTook # h2)" using ok h(1) by (simp add: mgr_ok_def)
  ultimately have "fmlookup (live (\<lambda>x. x) h1) i = Some i" using c live_before [OF _ h(2)] by metis
  then have "i \<in> set (map fst (closings h2))" unfolding h(5) by (rule fmran'I)
  then have "count_list (map fst (closings h2)) i = 1" by (rule count_distinct [OF h(4)])
  with ok x(2) h show ?thesis by (simp add: mgr_ok_def server_len_def)
qed

theorem server_close_reaches_all_witness:
  "\<exists>s. server_reachable 1 s \<and> server_close_result s \<noteq> None \<and> 0 \<in> in_phase CRun (sv_runs s) \<and>
     count_list (map fst (closings (sv_hist s))) 0 = 1"
proof -
  have "map_option (\<lambda>s. (server_close_result s, sv_runs s)) (server_exec demo_serving demo_server) = Some (Some None, [(0, CRun)])"
    by code_simp
  then obtain s where s: "server_exec demo_serving demo_server = Some s" "server_close_result s = Some None" "sv_runs s = [(0, CRun)]"
    by auto
  note r = server_exec_reachable [OF s(1) demo_server_reachable]
  have c: "server_close_result s \<noteq> None" and i: "0 \<in> in_phase CRun (sv_runs s)" using s(2,3) by (simp_all add: in_phase_def)
  from server_close_reaches_all [OF r c disjI1 [OF i]] r c i show ?thesis by blast
qed

end
