(* ===== verification/Server_Shutdown.thy ===== *)
theory Server_Shutdown
  imports Session_Server
begin

text \<open>
  Once the server of \<^verbatim>\<open>common/network/session_server.go\<close> is closed it comes to its end: the function of \<open>closeOnce\<close>, the accept
  loop, the deferred part of \<open>Serve\<close> and all goroutines of connections, in whatever order they go on. Two things come from
  outside: \<open>Accept\<close> returns once the listener is closed, and a connection that has been told to close returns from \<open>Run\<close>,
  which theory \<^verbatim>\<open>Conn_Shutdown\<close> shows for \<open>Conn\<close>.
\<close>

section \<open>What is left to do\<close>

inductive server_internal :: "session_server \<Rightarrow> session_server \<Rightarrow> bool" where
  serve_on: "serve_at (sv_serve s) ch s = Some t \<Longrightarrow> server_internal s t"
| conn_on: "k < length (sv_runs s) \<Longrightarrow> run_conn_at k s = Some t \<Longrightarrow> server_internal s t"
| close_on: "shut_at (sv_shut s) ch s = Some t \<Longrightarrow> server_internal s t"

text \<open>A connection that the manager still takes in costs its goroutine and one more call of its \<open>Close\<close>.\<close>

fun serve_work :: "serve_phase \<Rightarrow> nat" where
  "serve_work VNone = 0" | "serve_work (VReturned r) = 0" | "serve_work (VWait r) = 1" | "serve_work (VDefer r) = 2"
| "serve_work (VFailed e) = 3" | "serve_work VLoop = 3" | "serve_work (VReject i e) = 4" | "serve_work (VSpawn i) = 7"
| "serve_work (VAdd i) = 9" | "serve_work (VDeps x) = 10" | "serve_work (VAccepted x) = 3" | "serve_work VAccepting = 4"

fun run_work :: "nat \<times> conn_phase \<Rightarrow> nat" where
  "run_work (i, CRun) = 3" | "run_work (i, CRemove) = 2" | "run_work (i, CWgDone) = 1" | "run_work (i, CEnded) = 0"

definition to_close :: "session_server \<Rightarrow> nat" where
  "to_close s = (case mgr_closeOnce (sv_mgr s) of OnceBusy cs \<Rightarrow> length cs | _ \<Rightarrow> 0)"

fun shut_work :: "shut_phase \<Rightarrow> session_server \<Rightarrow> nat" where
  "shut_work XNone s = 0" | "shut_work XDone s = 0" | "shut_work XListener s = 1"
| "shut_work XClosing s = 2 + to_close s" | "shut_work XManager s = 3 + fcard (fmdom (mgr_conns (sv_mgr s)))"

definition server_work :: "session_server \<Rightarrow> nat" where
  "server_work s = serve_work (sv_serve s) + sum_list (map run_work (sv_runs s)) + shut_work (sv_shut s) s"

definition server_over :: "session_server \<Rightarrow> bool" where
  "server_over s \<longleftrightarrow> sv_shut s = XDone \<and> (\<forall>x \<in> set (sv_runs s). snd x = CEnded) \<and> (sv_serve s = VNone \<or> (\<exists>r. sv_serve s = VReturned r))"

section \<open>It gets less\<close>

lemma shut_work_cong:
  "mgr_conns (sv_mgr t) = mgr_conns (sv_mgr s) \<Longrightarrow> mgr_closeOnce (sv_mgr t) = mgr_closeOnce (sv_mgr s) \<Longrightarrow> shut_work x t = shut_work x s"
  by (cases x) (simp_all add: to_close_def)

lemma accept_transport_simps [simp]:
  "sv_mgr (snd (accept_transport tr s)) = sv_mgr s" "sv_runs (snd (accept_transport tr s)) = sv_runs s"
  "sv_shut (snd (accept_transport tr s)) = sv_shut s" "sv_state (snd (accept_transport tr s)) = sv_state s"
  by (simp_all add: accept_transport_def)

lemma serve_shrinks:
  assumes step: "serve_at (sv_serve s) ch s = Some t" and c: "server_isClosed s" and inv: "server_inv n s"
  shows "server_work t < server_work s"
proof (cases "\<exists>i. sv_serve s = VAdd i")
  case True
  then obtain i where v: "sv_serve s = VAdd i" by blast
  obtain r m where r: "mgr_add (\<lambda>x. x) (Some i) (sv_mgr s) = (r, m)" by fastforce
  show ?thesis
  proof (cases r)
    case None
    then have t: "t = s\<lparr>sv_mgr := m, sv_hist := sv_hist s @ [Added i], sv_serve := VSpawn i\<rparr>"
      using step v r by (auto split: serve_choice.split_asm)
    have m: "m = (sv_mgr s)\<lparr>mgr_conns := fmupd i i (mgr_conns (sv_mgr s))\<rparr>" using mgr_add_ok r None by fastforce
    have "fcard (fmdom (mgr_conns m)) \<le> Suc (fcard (fmdom (mgr_conns (sv_mgr s))))"
      by (simp add: m fcard_finsert_if)
    then have "shut_work (sv_shut s) t \<le> Suc (shut_work (sv_shut s) s)"
      by (cases "sv_shut s") (simp_all add: t m to_close_def)
    then show ?thesis using v by (simp add: server_work_def t)
  next
    case (Some e)
    then have "t = s\<lparr>sv_serve := VReject i e\<rparr>"
      using step v r mgr_add_fails [of "\<lambda>x. x" "Some i" "sv_mgr s" e m] by (auto split: serve_choice.split_asm)
    then show ?thesis using v shut_work_cong [of t s] by (simp add: server_work_def)
  qed
next
  case False
  have "sv_shut s \<noteq> XNone" using c inv by (auto simp: server_isClosed_def server_inv_def shut_inv_def)
  then have "sv_mgr t = sv_mgr s \<and> sv_shut t = sv_shut s \<and>
      serve_work (sv_serve t) + sum_list (map run_work (sv_runs t)) < serve_work (sv_serve s) + sum_list (map run_work (sv_runs s))"
    using step c False by (cases "sv_serve s") (auto simp: server_isClosed_def Let_def split_def
      split: serve_choice.split_asm if_split_asm shut_phase.split_asm option.split_asm iface.split_asm)
  then show ?thesis using shut_work_cong [of t s] by (simp add: server_work_def)
qed

lemma conn_shrinks:
  assumes k: "k < length (sv_runs s)" and step: "run_conn_at k s = Some t"
  shows "server_work t < server_work s"
proof -
  obtain i ph where e: "sv_runs s ! k = (i, ph)" by fastforce
  have "\<exists>q. sv_runs t = (sv_runs s)[k := (i, q)] \<and> run_work (i, q) < run_work (sv_runs s ! k)"
    using step e by (cases ph) (auto simp: run_conn_at_def)
  then have r: "sum_list (map run_work (sv_runs t)) < sum_list (map run_work (sv_runs s))"
    using sum_list_update_less [OF k, of run_work] by metis
  have "fcard (fmdom (mgr_conns (mgr_remove i (sv_mgr s)))) \<le> fcard (fmdom (mgr_conns (sv_mgr s)))"
    unfolding mgr_remove_def by (auto intro: fcard_mono)
  moreover have "mgr_closeOnce (mgr_remove i (sv_mgr s)) = mgr_closeOnce (sv_mgr s)" by (simp add: mgr_remove_def)
  ultimately have "shut_work x t \<le> shut_work x s" for x
    using step e by (cases ph; cases x) (auto simp: run_conn_at_def to_close_def)
  moreover have "sv_serve t = sv_serve s" "sv_shut t = sv_shut s" using step e by (cases ph; auto simp: run_conn_at_def)+
  ultimately show ?thesis using r by (simp add: server_work_def add_less_le_mono)
qed

lemma snapshot_length: "length (mgr_snapshot ks s) \<le> length ks"
  by (induction ks) (auto simp: mgr_snapshot_def List.map_filter_simps split: option.splits)

lemma shut_shrinks:
  assumes step: "shut_at (sv_shut s) ch s = Some t"
  shows "server_work t < server_work s"
proof -
  have o: "sv_serve t = sv_serve s \<and> sv_runs t = sv_runs s"
    using step by (cases "sv_shut s") (auto split: shut_choice.split_asm if_split_asm)
  have "shut_work (sv_shut t) t < shut_work (sv_shut s) s"
  proof (cases "sv_shut s")
    case XManager
    then obtain ks m where m: "enumerates ks (mgr_conns (sv_mgr s))" "mgr_close_take ks (sv_mgr s) = Some m"
      and t: "t = s\<lparr>sv_mgr := m, sv_hist := sv_hist s @ [CloseTook], sv_shut := XClosing\<rparr>"
      using step by (auto split: shut_choice.split_asm if_split_asm)
    note snapshot_length [of ks "sv_mgr s"]
    moreover have "length ks = fcard (fmdom (mgr_conns (sv_mgr s)))" using enumerates_length [OF m(1)] by (simp add: map_len_def)
    ultimately show ?thesis using m(2) XManager by (auto simp: t to_close_def mgr_close_take_def split: once.split_asm)
  next
    case XClosing
    then show ?thesis using step
      by (auto simp: to_close_def mgr_close_one_def mgr_close_end_def split: shut_choice.split_asm once.split_asm list.split_asm)
  next
    case XListener
    then show ?thesis using step by (auto split: shut_choice.split_asm)
  qed (use step in simp_all)
  with o show ?thesis by (simp add: server_work_def)
qed

section \<open>It goes on\<close>

lemma shut_goes_on:
  assumes "once_of (sv_shut s) (mgr_closeOnce (sv_mgr s))" and "sv_shut s \<noteq> XNone" and "sv_shut s \<noteq> XDone"
  shows "\<exists>ch t. shut_at (sv_shut s) ch s = Some t"
proof (cases "sv_shut s")
  case XManager
  obtain ks where "distinct ks" "set ks = fset (fmdom (mgr_conns (sv_mgr s)))" using finite_distinct_list finite_fset by metis
  then have "enumerates ks (mgr_conns (sv_mgr s))" by (simp add: enumerates_def fset_inject [symmetric] fset_of_list.rep_eq)
  with assms(1) XManager show ?thesis by (intro exI [of _ "XTake ks"]) (simp add: mgr_close_take_def)
next
  case XClosing
  with assms(1) obtain cs where "mgr_closeOnce (sv_mgr s) = OnceBusy cs" by auto
  with XClosing show ?thesis
    by (cases cs) (auto simp: mgr_close_one_def mgr_close_end_def intro: exI [of _ "XConn None"] exI [of _ XEnd])
next
  case XListener
  then show ?thesis by (intro exI [of _ "XListen None"]) simp
qed (use assms in simp_all)

lemma serve_goes_on:
  assumes "sv_shut s = XDone" and "sv_wg s = 0" and "sv_serve s \<noteq> VNone" and "\<nexists>r. sv_serve s = VReturned r"
  shows "\<exists>ch t. serve_at (sv_serve s) ch s = Some t"
proof (cases "sv_serve s")
  case VAccepting
  then show ?thesis by (intro exI [of _ "AcceptFails ErrClosed NilIface"]) (simp add: Let_def split_def)
next
  case (VDeps x)
  then show ?thesis by (intro exI [of _ "Factory (Returns False)"]) simp
next
  case (VAdd i)
  then show ?thesis by (intro exI [of _ VGo]) (simp split: prod.split option.split)
qed (use assms in \<open>auto intro!: exI [of _ VGo]\<close>)

lemma server_not_stuck:
  assumes inv: "server_inv n s" and c: "server_isClosed s" and "\<not> server_over s"
  shows "\<exists>t. server_internal s t"
proof -
  have sh: "once_of (sv_shut s) (mgr_closeOnce (sv_mgr s))" "sv_shut s \<noteq> XNone" and w: "sv_wg s = running (sv_runs s)"
    using inv c by (auto simp: server_inv_def shut_inv_def ids_inv_def server_isClosed_def)
  show ?thesis
  proof (cases "sv_shut s = XDone")
    case False
    from shut_goes_on [OF sh False] show ?thesis using server_internal.close_on by blast
  next
    case x: True
    show ?thesis
    proof (cases "\<exists>y \<in> set (sv_runs s). snd y \<noteq> CEnded")
      case True
      then obtain k i ph where k: "k < length (sv_runs s)" "sv_runs s ! k = (i, ph)" "ph \<noteq> CEnded"
        by (metis in_set_conv_nth surjective_pairing)
      then have "\<exists>t. run_conn_at k s = Some t" by (cases ph) (simp_all add: run_conn_at_def)
      with k(1) show ?thesis using server_internal.conn_on by blast
    next
      case False
      then have "sv_wg s = 0" using w by (simp add: running_def filter_empty_conv)
      moreover have "sv_serve s \<noteq> VNone" "\<nexists>r. sv_serve s = VReturned r" using assms(3) x False by (auto simp: server_over_def)
      ultimately show ?thesis using serve_goes_on [OF x] server_internal.serve_on by blast
    qed
  qed
qed

lemma closed_stays_closed:
  assumes "server_internal s t" and "server_isClosed s"
  shows "server_isClosed t"
  using assms(1)
proof (cases rule: server_internal.cases)
  case (serve_on ch)
  show ?thesis
  proof (cases "sv_serve s")
    case (VAdd i)
    then show ?thesis using serve_on assms(2) by (auto simp: server_isClosed_def split: serve_choice.split_asm prod.split_asm option.split_asm)
  qed (use serve_on assms(2) in \<open>auto simp: server_isClosed_def Let_def split_def
      split: serve_choice.split_asm if_split_asm shut_phase.split_asm option.split_asm iface.split_asm\<close>)
next
  case (conn_on k)
  then show ?thesis using assms(2) by (auto simp: server_isClosed_def run_conn_at_def Let_def split: prod.split_asm conn_phase.split_asm)
next
  case (close_on ch)
  then show ?thesis using assms(2) by (cases "sv_shut s") (auto simp: server_isClosed_def split: shut_choice.split_asm if_split_asm)
qed

interpretation closing_server: winding_down server_internal "\<lambda>s. server_reachable n s \<and> server_isClosed s" server_work server_over for n
proof
  fix s t
  assume s: "server_reachable n s \<and> server_isClosed s" and step: "server_internal s t"
  from step have "server_reachable n t"
    by (cases rule: server_internal.cases) (use s in \<open>auto intro: server_reachable.intros\<close>)
  then show "server_reachable n t \<and> server_isClosed t" using closed_stays_closed [OF step] s by blast
  from step show "server_work t < server_work s"
    by (cases rule: server_internal.cases) (use s server_inv serve_shrinks conn_shrinks shut_shrinks in blast)+
qed (use server_not_stuck server_inv in blast)

section \<open>Property\<close>

text \<open>
  C24: a closed server comes to its end. After \<open>Close\<close> has begun, or \<open>Serve\<close> has come to its deferred part, at most
  \<open>server_work\<close> steps are left, whatever order the goroutines run in, also while \<open>acceptLoop\<close> is still letting a connection in; they
  are never stuck before \<open>Close\<close> and \<open>Serve\<close> have returned and every goroutine of a connection has ended, and they can always
  get there; no goroutine waits for another that waits for it. Then the registry is empty and no transport is open.
\<close>

theorem server_shutdown_terminates:
  assumes "server_reachable n s" and "server_isClosed s" and "(server_internal ^^ k) s t"
  shows "k \<le> server_work s \<and> (server_over t \<or> (\<exists>u. server_internal t u)) \<and>
    (\<exists>u. server_internal\<^sup>*\<^sup>* t u \<and> server_over u \<and> server_close_result u \<noteq> None \<and> server_len u = 0 \<and> sv_open u = {||})"
proof -
  have s: "server_reachable n s \<and> server_isClosed s" using assms(1,2) by blast
  note r = closing_server.run_bound [OF assms(3) s]
  obtain u where u: "server_internal\<^sup>*\<^sup>* t u" "server_reachable n u" "server_over u"
    using closing_server.run_ends [OF conjunct1 [OF r]] by blast
  have inv: "ids_inv u" "registry_inv n u" using server_inv [OF u(2)] by (simp_all add: server_inv_def)
  have "in_phase p (sv_runs u) = {}" if "p \<noteq> CEnded" for p
    using u(3) that by (auto simp: server_over_def in_phase_def)
  moreover have "hand (sv_serve u) = {}" using u(3) by (auto simp: server_over_def)
  ultimately have "fset (sv_open u) = {}" "fset (fmdom (mgr_conns (sv_mgr u))) = {}"
    using inv spawning_hand [of "sv_serve u"] by (auto simp: ids_inv_def registry_inv_def)
  then have "sv_open u = {||}" "server_len u = 0"
    by (simp_all add: server_len_def mgr_len_def map_len_def flip: bot_fset.rep_eq add: fset_inject)
  moreover have "server_close_result u \<noteq> None" using u(3) by (simp add: server_over_def server_close_result_def)
  ultimately show ?thesis using u closing_server.run_not_stuck [OF assms(3) s] r by auto
qed

text \<open>A server with one running connection, closed by somebody: the next step is that of \<open>closeOnce\<close> or of any goroutine.\<close>

theorem server_shutdown_terminates_witness:
  "\<exists>s u. server_reachable 1 s \<and> server_isClosed s \<and> sv_runs s = [(0, CRun)] \<and> \<not> server_over s \<and>
     server_internal\<^sup>*\<^sup>* s u \<and> server_over u \<and> sv_open u = {||}"
proof -
  have "map_option (\<lambda>s. (sv_runs s, sv_state s)) (server_exec (take 15 demo_serving) demo_server) = Some ([(0, CRun)], SessionState_Closed)"
    by code_simp
  then obtain s where s: "server_exec (take 15 demo_serving) demo_server = Some s" "sv_runs s = [(0, CRun)]" "server_isClosed s"
    by (auto simp: server_isClosed_def)
  note r = server_exec_reachable [OF s(1) demo_server_reachable]
  have z: "(server_internal ^^ 0) s s" by simp
  have "\<not> server_over s" using s(2) by (simp add: server_over_def)
  with server_shutdown_terminates [OF r s(3) z] r s show ?thesis by blast
qed

end
