(* ===== verification/Go_Strings.thy ===== *)
theory Go_Strings
  imports Go_Prelude
begin

text \<open>
  The functions of packages \<^verbatim>\<open>strings\<close> and \<^verbatim>\<open>path/filepath\<close> that the sources use. A
  string is a list of bytes; the functions on letters and blanks are those on ASCII.
\<close>

section \<open>Prefixes, suffixes and paths\<close>

definition has_prefix :: "string \<Rightarrow> string \<Rightarrow> bool" where
  "has_prefix s p \<longleftrightarrow> take (length p) s = p"

definition has_suffix :: "string \<Rightarrow> string \<Rightarrow> bool" where
  "has_suffix s p \<longleftrightarrow> length p \<le> length s \<and> drop (length s - length p) s = p"

definition trim_suffix :: "string \<Rightarrow> string \<Rightarrow> string" where
  "trim_suffix s p = (if has_suffix s p then take (length s - length p) s else s)"

text \<open>\<open>filepath.Base\<close> and \<open>filepath.Ext\<close>, with \<open>/\<close> as the separator.\<close>

definition slash :: char where "slash = CHR ''/''"

definition path_base :: "string \<Rightarrow> string" where
  "path_base p =
     (if p = [] then ''.''
      else (case dropWhile (\<lambda>c. c = slash) (rev p) of
          [] \<Rightarrow> ''/''
        | q \<Rightarrow> rev (takeWhile (\<lambda>c. c \<noteq> slash) q)))"

definition path_ext :: "string \<Rightarrow> string" where
  "path_ext p =
     (let e = takeWhile (\<lambda>c. c \<noteq> CHR ''.'' \<and> c \<noteq> slash) (rev p)
      in case drop (length e) (rev p) of
           c # q \<Rightarrow> if c = CHR ''.'' then c # rev e else []
         | [] \<Rightarrow> [])"

lemma has_prefix_append: "has_prefix s p \<Longrightarrow> has_prefix (s @ t) p"
proof -
  assume h: "has_prefix s p"
  then have "length p \<le> length s" unfolding has_prefix_def by (metis length_take min.cobounded1)
  with h show ?thesis by (simp add: has_prefix_def)
qed

lemma has_prefix_self [simp]: "has_prefix (p @ s) p"
  by (simp add: has_prefix_def)

lemma has_suffix_self [simp]: "has_suffix (s @ p) p"
  by (simp add: has_suffix_def)

section \<open>Searching\<close>

text \<open>\<open>strings.Contains\<close> with a single character, and \<open>strings.ContainsAny\<close>.\<close>

definition contains_any :: "string \<Rightarrow> string \<Rightarrow> bool" where
  "contains_any s cs \<longleftrightarrow> list_ex (\<lambda>c. c \<in> set cs) s"

text \<open>\<open>strings.Index\<close>.\<close>

fun str_index :: "string \<Rightarrow> string \<Rightarrow> nat option" where
  "str_index [] sub = (if sub = [] then Some 0 else None)"
| "str_index (c # s) sub = (if has_prefix (c # s) sub then Some 0 else map_option Suc (str_index s sub))"

definition is_blank :: "char \<Rightarrow> bool" where
  "is_blank c \<longleftrightarrow> of_char c \<in> {9, 10, 11, 12, 13, 32 :: nat}"

definition trim_space :: "string \<Rightarrow> string" where
  "trim_space s = rev (dropWhile is_blank (rev (dropWhile is_blank s)))"

definition lower_char :: "char \<Rightarrow> char" where
  "lower_char c = (let n = of_char c :: nat in if 65 \<le> n \<and> n \<le> 90 then char_of (n + 32) else c)"

definition to_lower :: "string \<Rightarrow> string" where
  "to_lower s = map lower_char s"

definition upper_char :: "char \<Rightarrow> char" where
  "upper_char c = (let n = of_char c :: nat in if 97 \<le> n \<and> n \<le> 122 then char_of (n - 32) else c)"

definition to_upper :: "string \<Rightarrow> string" where
  "to_upper s = map upper_char s"

lemma contains_any_iff: "contains_any s cs \<longleftrightarrow> (\<exists>c \<in> set s. c \<in> set cs)"
  by (auto simp: contains_any_def list_ex_iff)

lemma contains_any_append [simp]: "contains_any (s @ t) cs \<longleftrightarrow> contains_any s cs \<or> contains_any t cs"
  by (auto simp: contains_any_iff)

lemma str_index_at:
  "str_index s sub = Some i \<Longrightarrow> \<exists>t. s = take i s @ sub @ t"
proof (induction s arbitrary: i)
  case (Cons c s)
  show ?case
  proof (cases "has_prefix (c # s) sub")
    case True
    then have "c # s = sub @ drop (length sub) (c # s)" unfolding has_prefix_def by (metis append_take_drop_id)
    then show ?thesis using Cons.prems True by auto
  next
    case False
    then obtain k where k: "str_index s sub = Some k" "i = Suc k" using Cons.prems by auto
    from Cons.IH [OF this(1)] k(2) show ?thesis by auto
  qed
qed (auto split: if_splits)

end
