(* ===== verification/Log_Rollover.thy ===== *)
theory Log_Rollover
  imports Set_Model Go_Strings "HOL-Library.Multiset"
begin

text \<open>
  \<^verbatim>\<open>common/logger/log_rollover.go\<close>, a log file that is rotated by size, with
  \<^verbatim>\<open>common/file_utils/file_compress.go\<close>. The files of the log's directory are a
  finite map from names to contents. Which system calls of an operation fail, and the time, are
  its argument \<open>e\<close>; the formatting and parsing of times (package \<^verbatim>\<open>time\<close>), the
  compression (\<^verbatim>\<open>compress/gzip\<close>) and the sorting (\<^verbatim>\<open>sort.Sort\<close>, which
  is not stable) are parameters. A time is a number of milliseconds.
\<close>

section \<open>File names\<close>

definition compressSuffix :: string where "compressSuffix = ''.gz''"

definition megaByte :: int where "megaByte = 1024 * 1024"

definition defaultMaxFileSize :: int where "defaultMaxFileSize = megaByte * 100"

definition defaultFileNotExistSuffix :: string where "defaultFileNotExistSuffix = ''-rollover.log''"

text \<open>\<open>getBackupNameByTime\<close>, the name within the directory.\<close>

definition backup_name :: "(int \<Rightarrow> string) \<Rightarrow> int \<Rightarrow> string \<Rightarrow> string" where
  "backup_name fmt now name =
     (let filename = path_base name; ext = path_ext filename; prefix = trim_suffix filename ext
      in prefix @ ''_'' @ fmt now @ ext)"

text \<open>\<open>timeFromFileName\<close>: \<^term>\<open>None\<close> is a panic, \<open>Some None\<close> an error.\<close>

definition time_from_file_name :: "(string \<Rightarrow> int option) \<Rightarrow> string \<Rightarrow> string \<Rightarrow> string \<Rightarrow> int option option" where
  "time_from_file_name parse name prefix ext =
     (if \<not> has_prefix name prefix then Some None
      else if \<not> has_suffix name ext then Some None
      else do {
        ts \<leftarrow> slice_range name (int (length prefix)) (int (length name) - int (length ext));
        Some (parse ts) })"

section \<open>State\<close>

datatype log_error = WriteTooLarge int int | OsError | FileClosed

datatype handle = HOpen | HClosed

text \<open>
  \<open>lr_started\<close> is \<open>once\<close>, with the channel and the goroutine it makes; \<open>lr_signal\<close> is the place in
  the channel; \<open>lr_stopped\<close> says that the context was cancelled and the channel closed.
\<close>

record log_rollover =
  lr_Filename :: string
  lr_MaxSize :: int
  lr_MaxBackups :: int
  lr_MaxAge :: int
  lr_Compress :: bool
  lr_file :: "handle option"
  lr_size :: int
  lr_started :: bool
  lr_signal :: bool
  lr_stopped :: bool

type_synonym 'b files = "(string, 'b list) fmap"

text \<open>What the system does in one operation; \<open>e_written\<close> and \<open>e_write_err\<close> are for \<open>file.Write\<close>.\<close>

record sys =
  e_now :: int
  e_stat_err :: bool
  e_append_err :: bool
  e_mkdir_err :: bool
  e_rename_err :: bool
  e_open_err :: bool
  e_close_err :: bool
  e_written :: nat
  e_write_err :: bool

definition new_log_rollover :: "string \<Rightarrow> int \<Rightarrow> int \<Rightarrow> int \<Rightarrow> bool \<Rightarrow> log_rollover" where
  "new_log_rollover filename maxSize maxBackups maxAge compress =
     \<lparr>lr_Filename = filename, lr_MaxSize = maxSize, lr_MaxBackups = maxBackups, lr_MaxAge = maxAge,
      lr_Compress = compress, lr_file = None, lr_size = 0, lr_started = False, lr_signal = False, lr_stopped = False\<rparr>"

definition max_file_size :: "log_rollover \<Rightarrow> int" where
  "max_file_size l = (if lr_MaxSize l \<noteq> 0 then wrap64 (lr_MaxSize l * megaByte) else defaultMaxFileSize)"

text \<open>\<open>filename\<close>; \<open>prog\<close> is \<open>os.Args[0]\<close>. The file in its directory is \<open>active l prog\<close>.\<close>

definition log_filename :: "string \<Rightarrow> log_rollover \<Rightarrow> string" where
  "log_filename prog l =
     (if lr_Filename l \<noteq> [] then lr_Filename l else path_base prog @ defaultFileNotExistSuffix)"

definition active :: "string \<Rightarrow> log_rollover \<Rightarrow> string" where
  "active prog l = path_base (log_filename prog l)"

section \<open>Rotation\<close>

definition open_new :: "(int \<Rightarrow> string) \<Rightarrow> string \<Rightarrow> sys \<Rightarrow> log_rollover \<Rightarrow> 'b files \<Rightarrow> log_error option \<times> log_rollover \<times> 'b files" where
  "open_new fmt prog e l fs =
     (if e_mkdir_err e then (Some OsError, l, fs)
      else
        let name = active prog l;
            exists = (\<not> e_stat_err e \<and> fmlookup fs name \<noteq> None);
            fs1 = (if exists then fmupd (backup_name fmt (e_now e) (log_filename prog l)) (the (fmlookup fs name)) (fmdrop name fs) else fs)
        in if exists \<and> e_rename_err e then (Some OsError, l, fs)
           else if e_open_err e then (Some OsError, l, fs1)
           else (None, l\<lparr>lr_file := Some HOpen, lr_size := 0\<rparr>, fmupd name [] fs1))"

text \<open>\<open>closeFile\<close>: the field keeps the file, which is closed from then on.\<close>

definition close_file :: "sys \<Rightarrow> log_rollover \<Rightarrow> log_error option \<times> log_rollover" where
  "close_file e l =
     (case lr_file l of
        None \<Rightarrow> (None, l)
      | Some HClosed \<Rightarrow> (Some FileClosed, l)
      | Some HOpen \<Rightarrow> (if e_close_err e then Some OsError else None, l\<lparr>lr_file := Some HClosed\<rparr>))"

text \<open>
  \<open>rollover\<close>: the first call makes the channel and the goroutine; then a signal, unless there is
  one already. On a closed channel the send panics, which the callers exclude.
\<close>

definition signal_rollover :: "log_rollover \<Rightarrow> log_rollover" where
  "signal_rollover l = l\<lparr>lr_started := True, lr_signal := True\<rparr>"

definition rotate_file :: "(int \<Rightarrow> string) \<Rightarrow> string \<Rightarrow> sys \<Rightarrow> log_rollover \<Rightarrow> 'b files \<Rightarrow> log_error option \<times> log_rollover \<times> 'b files" where
  "rotate_file fmt prog e l fs =
     (case close_file e l of
        (Some err, l1) \<Rightarrow> (Some err, l1, fs)
      | (None, l1) \<Rightarrow> (case open_new fmt prog e l1 fs of
            (Some err, l2, fs2) \<Rightarrow> (Some err, l2, fs2)
          | (None, l2, fs2) \<Rightarrow> (None, signal_rollover l2, fs2)))"

definition try_open_or_create :: "(int \<Rightarrow> string) \<Rightarrow> string \<Rightarrow> int \<Rightarrow> sys \<Rightarrow> log_rollover \<Rightarrow> 'b files \<Rightarrow>
    log_error option \<times> log_rollover \<times> 'b files" where
  "try_open_or_create fmt prog rewriteSize e l fs =
     (if e_stat_err e then (Some OsError, l, fs)
      else (case fmlookup fs (active prog l) of
          None \<Rightarrow> open_new fmt prog e l fs
        | Some c \<Rightarrow>
            if int (length c) + rewriteSize \<ge> max_file_size l then rotate_file fmt prog e l fs
            else if e_append_err e then open_new fmt prog e l fs
            else (None, signal_rollover (l\<lparr>lr_file := Some HOpen, lr_size := int (length c)\<rparr>), fs)))"

text \<open>\<open>file.Write\<close>: the first \<open>e_written\<close> bytes arrive, all of them unless there is an error.\<close>

definition file_write :: "string \<Rightarrow> 'b list \<Rightarrow> sys \<Rightarrow> log_rollover \<Rightarrow> 'b files \<Rightarrow> nat \<times> log_error option \<times> 'b files" where
  "file_write prog p e l fs =
     (case lr_file l of
        Some HOpen \<Rightarrow>
          let n = (if e_write_err e then min (e_written e) (length p) else length p);
              old = (case fmlookup fs (active prog l) of None \<Rightarrow> [] | Some c \<Rightarrow> c)
          in (n, if e_write_err e then Some OsError else None, fmupd (active prog l) (old @ take n p) fs)
      | _ \<Rightarrow> (0, Some FileClosed, fs))"

definition log_write :: "(int \<Rightarrow> string) \<Rightarrow> string \<Rightarrow> 'b list \<Rightarrow> sys \<Rightarrow> log_rollover \<Rightarrow> 'b files \<Rightarrow>
    nat \<times> log_error option \<times> log_rollover \<times> 'b files" where
  "log_write fmt prog p e l fs =
     (let rewriteSize = int (length p) in
      if rewriteSize > max_file_size l then (0, Some (WriteTooLarge rewriteSize (max_file_size l)), l, fs)
      else
        case (if lr_file l = None then try_open_or_create fmt prog rewriteSize e l fs else (None, l, fs)) of
          (Some err, l1, fs1) \<Rightarrow> (0, Some err, l1, fs1)
        | (None, l1, fs1) \<Rightarrow>
            case (if rewriteSize + lr_size l1 > max_file_size l1 then rotate_file fmt prog e l1 fs1 else (None, l1, fs1)) of
              (Some err, l2, fs2) \<Rightarrow> (0, Some err, l2, fs2)
            | (None, l2, fs2) \<Rightarrow>
                (case file_write prog p e l2 fs2 of
                   (n, err, fs3) \<Rightarrow> (n, err, l2\<lparr>lr_size := lr_size l2 + int n\<rparr>, fs3)))"

text \<open>\<open>Close\<close>: the goroutine is stopped only if the file could be closed.\<close>

definition log_close :: "sys \<Rightarrow> log_rollover \<Rightarrow> log_error option \<times> log_rollover" where
  "log_close e l =
     (case close_file e l of
        (Some err, l1) \<Rightarrow> (Some err, l1)
      | (None, l1) \<Rightarrow> (None, if lr_started l1 then l1\<lparr>lr_stopped := True\<rparr> else l1))"

definition log_sync :: "sys \<Rightarrow> log_rollover \<Rightarrow> log_error option" where
  "log_sync e l =
     (case lr_file l of None \<Rightarrow> None | Some HClosed \<Rightarrow> Some FileClosed
      | Some HOpen \<Rightarrow> if e_write_err e then Some OsError else None)"

section \<open>Cleaning up\<close>

record log_meta =
  lm_time :: int
  lm_name :: string

text \<open>\<open>os.ReadDir\<close>: the name, whether it is a directory, and whether \<open>Info()\<close> works.\<close>

type_synonym dir_entry = "string \<times> bool \<times> bool"

definition file_meta :: "(string \<Rightarrow> int option) \<Rightarrow> string \<Rightarrow> string \<Rightarrow> dir_entry \<Rightarrow> log_meta list option" where
  "file_meta parse prefix ext entry =
     (case entry of (name, isDir, info) \<Rightarrow>
        if isDir \<or> \<not> info then Some []
        else do {
          t1 \<leftarrow> time_from_file_name parse name prefix ext;
          case t1 of
            Some t \<Rightarrow> Some [\<lparr>lm_time = t, lm_name = name\<rparr>]
          | None \<Rightarrow> do {
              t2 \<leftarrow> time_from_file_name parse name prefix (ext @ compressSuffix);
              case t2 of Some t \<Rightarrow> Some [\<lparr>lm_time = t, lm_name = name\<rparr>] | None \<Rightarrow> Some [] } })"

fun list_loop :: "(string \<Rightarrow> int option) \<Rightarrow> string \<Rightarrow> string \<Rightarrow> dir_entry list \<Rightarrow> log_meta list option" where
  "list_loop parse prefix ext [] = Some []"
| "list_loop parse prefix ext (x # xs) = do {
     ms \<leftarrow> file_meta parse prefix ext x; rest \<leftarrow> list_loop parse prefix ext xs; Some (ms @ rest) }"

definition load_file_list :: "(string \<Rightarrow> int option) \<Rightarrow> (log_meta list \<Rightarrow> log_meta list) \<Rightarrow> string \<Rightarrow> log_rollover \<Rightarrow>
    dir_entry list \<Rightarrow> log_meta list option" where
  "load_file_list parse sorter prog l entries =
     (let filename = path_base (log_filename prog l); ext = path_ext (log_filename prog l);
          prefix = trim_suffix filename ext @ ''_''
      in map_option sorter (list_loop parse prefix ext entries))"

text \<open>The loop over the backups by number: the set of names kept so far, kept and removed.\<close>

fun backups_loop :: "int \<Rightarrow> string goset \<Rightarrow> log_meta list \<Rightarrow> log_meta list \<times> log_meta list" where
  "backups_loop n saved [] = ([], [])"
| "backups_loop n saved (m # ms) =
     (let filename = trim_suffix (lm_name m) compressSuffix in
      if \<not> set_contains filename saved then
        if set_size saved \<ge> n
        then (let (remained, removed) = backups_loop n saved ms in (remained, m # removed))
        else (let (remained, removed) = backups_loop n (set_add [filename] saved) ms in (m # remained, removed))
      else (let (remained, removed) = backups_loop n saved ms in (m # remained, removed)))"

definition hour_ns :: int where "hour_ns = 3600000000000"

text \<open>The age limit: \<open>now\<close> and the result are nanoseconds, at 64 bits.\<close>

definition cut_off :: "int \<Rightarrow> int \<Rightarrow> int" where
  "cut_off maxAge now = now + wrap64 (- wrap64 (wrap64 (24 * maxAge) * hour_ns))"

fun age_loop :: "int \<Rightarrow> log_meta list \<Rightarrow> log_meta list \<times> log_meta list" where
  "age_loop limit [] = ([], [])"
| "age_loop limit (m # ms) =
     (let (remained, removed) = age_loop limit ms in
      if lm_time m * 1000000 < limit then (remained, m # removed) else (m # remained, removed))"

text \<open>Which backups stay and which are removed, the first part of \<open>rolloverExec\<close>.\<close>

definition retention :: "log_rollover \<Rightarrow> int \<Rightarrow> log_meta list \<Rightarrow> log_meta list \<times> log_meta list" where
  "retention l now metas =
     (let (kept1, removed1) = (if lr_MaxBackups l > 0 then backups_loop (lr_MaxBackups l) new_set metas else (metas, []));
          (kept2, removed2) = (if lr_MaxAge l > 0 then age_loop (cut_off (lr_MaxAge l) now) kept1 else (kept1, []))
      in (kept2, removed1 @ removed2))"

text \<open>\<open>CompressFileByGzip\<close>; \<open>fails\<close> says which of its system calls fails.\<close>

datatype gz_step = GzOpen | GzStat | GzCreate | GzCopy | GzFlush | GzClose | GzRemove

definition compress_file :: "('b list \<Rightarrow> 'b list) \<Rightarrow> (gz_step \<Rightarrow> bool) \<Rightarrow> string \<Rightarrow> string \<Rightarrow> 'b files \<Rightarrow> log_error option \<times> 'b files" where
  "compress_file gz fails src dst fs =
     (case fmlookup fs src of
        None \<Rightarrow> (Some OsError, fmdrop dst fs)
      | Some c \<Rightarrow>
          if fails GzOpen \<or> fails GzStat \<or> fails GzCreate then (Some OsError, fmdrop dst fs)
          else
            let fs1 = fmupd dst [] fs in
            if fails GzCopy \<or> fails GzFlush \<or> fails GzClose then (Some OsError, fmdrop dst fs1)
            else
              let fs2 = fmupd dst (gz c) fs1 in
              if fails GzRemove then (Some OsError, fmdrop dst fs2) else (None, fmdrop src fs2))"

fun remove_loop :: "(string \<Rightarrow> bool) \<Rightarrow> log_meta list \<Rightarrow> 'b files \<Rightarrow> log_error list \<times> 'b files" where
  "remove_loop fails [] fs = ([], fs)"
| "remove_loop fails (m # ms) fs =
     (if fails (lm_name m) then (let (errs, fs1) = remove_loop fails ms fs in (OsError # errs, fs1))
      else remove_loop fails ms (fmdrop (lm_name m) fs))"

fun compress_loop :: "('b list \<Rightarrow> 'b list) \<Rightarrow> (string \<Rightarrow> gz_step \<Rightarrow> bool) \<Rightarrow> log_meta list \<Rightarrow> 'b files \<Rightarrow> log_error list \<times> 'b files" where
  "compress_loop gz fails [] fs = ([], fs)"
| "compress_loop gz fails (m # ms) fs =
     (if has_suffix (lm_name m) compressSuffix then compress_loop gz fails ms fs
      else (case compress_file gz (fails (lm_name m)) (lm_name m) (lm_name m @ compressSuffix) fs of
          (err, fs1) \<Rightarrow> (let (errs, fs2) = compress_loop gz fails ms fs1 in
            ((case err of None \<Rightarrow> [] | Some x \<Rightarrow> [x]) @ errs, fs2))))"

text \<open>\<open>rolloverExec\<close>, run by the goroutine for a signal; \<^term>\<open>None\<close> is a panic, which ends the program.\<close>

definition rollover_exec :: "(string \<Rightarrow> int option) \<Rightarrow> (log_meta list \<Rightarrow> log_meta list) \<Rightarrow> ('b list \<Rightarrow> 'b list) \<Rightarrow> string \<Rightarrow>
    int \<Rightarrow> (string \<Rightarrow> bool) \<Rightarrow> (string \<Rightarrow> gz_step \<Rightarrow> bool) \<Rightarrow> dir_entry list option \<Rightarrow> log_rollover \<Rightarrow> 'b files \<Rightarrow>
    (log_error list \<times> 'b files) option" where
  "rollover_exec parse sorter gz prog now remove_fails gz_fails entries l fs =
     (if lr_MaxAge l = 0 \<and> lr_MaxBackups l = 0 \<and> \<not> lr_Compress l then Some ([], fs)
      else (case entries of
          None \<Rightarrow> Some ([OsError], fs)
        | Some es \<Rightarrow> do {
            metas \<leftarrow> load_file_list parse sorter prog l es;
            let (kept, removed) = retention l now metas;
            let (errs1, fs1) = remove_loop remove_fails removed fs;
            let (errs2, fs2) = (if lr_Compress l then compress_loop gz gz_fails kept fs1 else ([], fs1));
            Some (errs1 @ errs2, fs2) }))"

section \<open>Writing\<close>

text \<open>An open file is in the directory and the size field is its length.\<close>

definition log_inv :: "string \<Rightarrow> log_rollover \<Rightarrow> 'b files \<Rightarrow> bool" where
  "log_inv prog l fs \<longleftrightarrow>
     (lr_file l = Some HOpen \<longrightarrow> (\<exists>c. fmlookup fs (active prog l) = Some c \<and> lr_size l = int (length c)))"

lemma active_simps [simp]:
  "active prog (l\<lparr>lr_file := x\<rparr>) = active prog l" "active prog (l\<lparr>lr_size := y\<rparr>) = active prog l"
  "active prog (l\<lparr>lr_started := b\<rparr>) = active prog l" "active prog (l\<lparr>lr_signal := b\<rparr>) = active prog l"
  "log_filename prog (l\<lparr>lr_file := x\<rparr>) = log_filename prog l"
  by (simp_all add: active_def log_filename_def)

lemma max_size_simps [simp]:
  "max_file_size (l\<lparr>lr_file := x\<rparr>) = max_file_size l" "max_file_size (l\<lparr>lr_size := y\<rparr>) = max_file_size l"
  "max_file_size (l\<lparr>lr_started := b\<rparr>) = max_file_size l" "max_file_size (l\<lparr>lr_signal := b\<rparr>) = max_file_size l"
  by (simp_all add: max_file_size_def)

text \<open>What a successful rotation leaves: an empty active file, the old contents under the backup name.\<close>

definition rotated :: "(int \<Rightarrow> string) \<Rightarrow> string \<Rightarrow> sys \<Rightarrow> log_rollover \<Rightarrow> 'b files \<Rightarrow> 'b files" where
  "rotated fmt prog e l fs =
     fmupd (active prog l) [] (case fmlookup fs (active prog l) of
         None \<Rightarrow> fs
       | Some c \<Rightarrow> fmupd (backup_name fmt (e_now e) (log_filename prog l)) c (fmdrop (active prog l) fs))"

lemma open_new_ok:
  "open_new fmt prog e l fs = (None, l', fs') \<Longrightarrow> \<not> e_stat_err e \<Longrightarrow>
   l' = l\<lparr>lr_file := Some HOpen, lr_size := 0\<rparr> \<and> fs' = rotated fmt prog e l fs"
  by (auto simp: open_new_def rotated_def Let_def split: if_splits option.splits)

lemma rotate_file_ok:
  "rotate_file fmt prog e l fs = (None, l', fs') \<Longrightarrow> \<not> e_stat_err e \<Longrightarrow>
   l' = l\<lparr>lr_file := Some HOpen, lr_size := 0, lr_started := True, lr_signal := True\<rparr> \<and> fs' = rotated fmt prog e l fs"
  by (auto simp: rotate_file_def close_file_def signal_rollover_def rotated_def
      split: prod.splits option.splits handle.splits if_splits dest!: open_new_ok)

text \<open>\<open>log_write\<close> after the file is there, and the whole, as a choice between appending and rotating.\<close>

definition appends :: "string \<Rightarrow> 'b list \<Rightarrow> log_rollover \<Rightarrow> 'b files \<Rightarrow> 'b files \<Rightarrow> bool" where
  "appends prog p l fs fs' \<longleftrightarrow> (\<exists>c. fmlookup fs (active prog l) = Some c \<and> fs' = fmupd (active prog l) (c @ p) fs \<and>
     int (length (c @ p)) \<le> max_file_size l)"

definition starts_new :: "(int \<Rightarrow> string) \<Rightarrow> string \<Rightarrow> 'b list \<Rightarrow> sys \<Rightarrow> log_rollover \<Rightarrow> 'b files \<Rightarrow> 'b files \<Rightarrow> bool" where
  "starts_new fmt prog p e l fs fs' \<longleftrightarrow>
     fs' = fmupd (active prog l) p (rotated fmt prog e l fs) \<and> int (length p) \<le> max_file_size l"

lemma write_open:
  assumes "file_write prog p e l fs = (n, None, fs')" and "lr_file l = Some HOpen"
  shows "n = length p \<and> fs' = fmupd (active prog l) ((case fmlookup fs (active prog l) of None \<Rightarrow> [] | Some c \<Rightarrow> c) @ p) fs"
  using assms by (auto simp: file_write_def Let_def split: if_splits)

lemma opened:
  assumes "try_open_or_create fmt prog k e l fs = (None, l1, fs1)" and "\<not> e_stat_err e"
  shows "lr_file l1 = Some HOpen \<and> active prog l1 = active prog l \<and> max_file_size l1 = max_file_size l \<and>
    ((\<exists>c. fmlookup fs (active prog l) = Some c \<and> fs1 = fs \<and> lr_size l1 = int (length c) \<and>
        int (length c) + k < max_file_size l) \<or>
     (fs1 = rotated fmt prog e l fs \<and> lr_size l1 = 0))"
  using assms unfolding try_open_or_create_def
  by (auto simp: signal_rollover_def split: option.splits if_splits dest!: open_new_ok rotate_file_ok)

lemma rotated_active [simp]: "fmlookup (rotated fmt prog e l fs) (active prog l) = Some []"
  by (simp add: rotated_def)

lemma log_write_ok:
  assumes w: "log_write fmt prog p e l fs = (n, None, l', fs')" and s: "\<not> e_stat_err e" and inv: "log_inv prog l fs"
  shows "n = length p \<and> log_inv prog l' fs' \<and> lr_file l' = Some HOpen \<and> active prog l' = active prog l \<and>
    (appends prog p l fs fs' \<or> starts_new fmt prog p e l fs fs')"
proof -
  have le: "int (length p) \<le> max_file_size l" using w by (auto simp: log_write_def Let_def split: if_splits)
  obtain l1 fs1 where 1: "(if lr_file l = None then try_open_or_create fmt prog (int (length p)) e l fs else (None, l, fs)) = (None, l1, fs1)"
    using w le by (auto simp: log_write_def Let_def split: prod.splits option.splits)
  obtain l2 fs2 where 2: "(if int (length p) + lr_size l1 > max_file_size l1 then rotate_file fmt prog e l1 fs1 else (None, l1, fs1)) = (None, l2, fs2)"
      "file_write prog p e l2 fs2 = (n, None, fs')" "l' = l2\<lparr>lr_size := lr_size l2 + int n\<rparr>"
    using w le 1 by (simp add: log_write_def Let_def split: prod.splits option.splits)
  show ?thesis
  proof (cases "lr_file l = None")
    case True
    note o = opened [OF 1 [unfolded if_P [OF True]] s]
    then have "int (length p) + lr_size l1 \<le> max_file_size l1" using le by auto
    with 2(1) have e: "l2 = l1" "fs2 = fs1" by simp_all
    from write_open [OF 2(2)] o e have f: "n = length p"
        "fs' = fmupd (active prog l) ((case fmlookup fs1 (active prog l) of None \<Rightarrow> [] | Some c \<Rightarrow> c) @ p) fs1"
      by simp_all
    from o f e le show ?thesis
      by (auto simp: 2(3) appends_def starts_new_def log_inv_def)
  next
    case False
    with 1 have e1: "l1 = l" "fs1 = fs" by simp_all
    show ?thesis
    proof (cases "int (length p) + lr_size l > max_file_size l")
      case True
      with 2(1) e1 have "rotate_file fmt prog e l fs = (None, l2, fs2)" by simp
      from rotate_file_ok [OF this s] have r: "lr_file l2 = Some HOpen" "active prog l2 = active prog l"
          "lr_size l2 = 0" "fs2 = rotated fmt prog e l fs" by simp_all
      from write_open [OF 2(2) r(1)] r le show ?thesis by (auto simp: 2(3) starts_new_def log_inv_def)
    next
      case False
      with 2(1) e1 have e2: "l2 = l" "fs2 = fs" by simp_all
      have h: "lr_file l = Some HOpen"
        using 2(2) e2 by (auto simp: file_write_def split: option.splits handle.splits)
      with inv obtain c where c: "fmlookup fs (active prog l) = Some c" "lr_size l = int (length c)"
        by (auto simp: log_inv_def)
      from write_open [OF 2(2)] h e2 c False show ?thesis
        by (auto simp: 2(3) appends_def log_inv_def)
    qed
  qed
qed

section \<open>Cleaning up touches backups only\<close>

text \<open>The prefix that backups of the log have, as \<open>loadFileList\<close> computes it.\<close>

definition log_prefix :: "string \<Rightarrow> log_rollover \<Rightarrow> string" where
  "log_prefix prog l = trim_suffix (active prog l) (path_ext (log_filename prog l)) @ ''_''"

lemma active_no_prefix: "\<not> has_prefix (active prog l) (log_prefix prog l)"
proof -
  let ?a = "active prog l" and ?e = "path_ext (log_filename prog l)"
  have e: "?e = [] \<or> hd ?e = CHR ''.''"
    by (auto simp: path_ext_def Let_def split: list.splits)
  have "has_prefix (xs @ ys) (xs @ ''_'') \<Longrightarrow> ys \<noteq> [] \<and> hd ys = CHR ''_''" for xs ys :: string
    by (cases ys) (auto simp: has_prefix_def)
  moreover have "?a = trim_suffix ?a ?e @ drop (length (trim_suffix ?a ?e)) ?a"
    by (auto simp: trim_suffix_def)
  ultimately have "has_prefix ?a (trim_suffix ?a ?e @ ''_'') \<Longrightarrow>
      drop (length (trim_suffix ?a ?e)) ?a \<noteq> [] \<and> hd (drop (length (trim_suffix ?a ?e)) ?a) = CHR ''_''"
    by metis
  moreover have "drop (length (trim_suffix ?a ?e)) ?a = (if has_suffix ?a ?e then ?e else [])"
    by (auto simp: trim_suffix_def has_suffix_def)
  ultimately show ?thesis using e unfolding log_prefix_def by (auto split: if_splits)
qed

lemma file_meta_prefix: "file_meta parse prefix ext x = Some ms \<Longrightarrow> m \<in> set ms \<Longrightarrow> has_prefix (lm_name m) prefix"
  by (auto simp: file_meta_def time_from_file_name_def split: prod.splits if_splits option.splits bind_splits)

lemma list_loop_prefix: "list_loop parse prefix ext xs = Some ms \<Longrightarrow> m \<in> set ms \<Longrightarrow> has_prefix (lm_name m) prefix"
proof (induction xs arbitrary: ms)
  case (Cons x xs)
  then show ?case using file_meta_prefix [of parse prefix ext x] by (auto split: bind_splits)
qed simp

definition sorts :: "(log_meta list \<Rightarrow> log_meta list) \<Rightarrow> bool" where
  "sorts sorter \<longleftrightarrow> (\<forall>xs. mset (sorter xs) = mset xs \<and> sorted_wrt (\<lambda>a b. lm_time b \<le> lm_time a) (sorter xs))"

lemma load_prefix:
  assumes "load_file_list parse sorter prog l es = Some ms" and "sorts sorter" and "m \<in> set ms"
  shows "has_prefix (lm_name m) (log_prefix prog l)"
proof -
  from assms(1) obtain xs where xs: "list_loop parse (log_prefix prog l) (path_ext (log_filename prog l)) es = Some xs" "ms = sorter xs"
    by (auto simp: load_file_list_def log_prefix_def active_def Let_def)
  have "set (sorter xs) = set xs" using assms(2) unfolding sorts_def by (metis set_mset_mset)
  with list_loop_prefix [OF xs(1)] xs(2) assms(3) show ?thesis by blast
qed

lemma loop_sets:
  "set (fst (backups_loop n saved ms)) \<union> set (snd (backups_loop n saved ms)) = set ms"
  "set (fst (age_loop limit ms)) \<union> set (snd (age_loop limit ms)) = set ms"
  by (induction ms arbitrary: saved) (auto simp: Let_def split_def)

lemma retention_set:
  assumes "retention l now ms = (kept, removed)"
  shows "set kept \<union> set removed = set ms"
proof -
  let ?b = "backups_loop (lr_MaxBackups l) new_set ms"
  have b: "set (fst ?b) \<union> set (snd ?b) = set ms" by (rule loop_sets)
  have a: "set (fst (age_loop c xs)) \<union> set (snd (age_loop c xs)) = set xs" for c xs by (rule loop_sets)
  note a1 = a [of "cut_off (lr_MaxAge l) now" "fst ?b"] and a2 = a [of "cut_off (lr_MaxAge l) now" ms]
  show ?thesis
  proof (cases "lr_MaxBackups l > 0"; cases "lr_MaxAge l > 0")
    assume "lr_MaxBackups l > 0" "lr_MaxAge l > 0"
    with assms have "kept = fst (age_loop (cut_off (lr_MaxAge l) now) (fst ?b))"
        "removed = snd ?b @ snd (age_loop (cut_off (lr_MaxAge l) now) (fst ?b))"
      by (auto simp: retention_def Let_def split_def)
    with a1 b show ?thesis by auto
  qed (use assms a2 b in \<open>auto simp: retention_def Let_def split_def\<close>)
qed

lemma remove_loop_other:
  "name \<notin> lm_name ` set ms \<Longrightarrow> fmlookup (snd (remove_loop fails ms fs)) name = fmlookup fs name"
  by (induction ms arbitrary: fs) (auto simp: Let_def split_def)

lemma compress_file_other:
  "name \<noteq> src \<Longrightarrow> name \<noteq> dst \<Longrightarrow> fmlookup (snd (compress_file gz fails src dst fs)) name = fmlookup fs name"
  by (auto simp: compress_file_def Let_def split: option.splits)

lemma compress_loop_other:
  "name \<notin> lm_name ` set ms \<Longrightarrow> name \<notin> (\<lambda>m. lm_name m @ compressSuffix) ` set ms \<Longrightarrow>
   fmlookup (snd (compress_loop gz fails ms fs)) name = fmlookup fs name"
proof (induction ms arbitrary: fs)
  case (Cons m ms)
  then show ?case
    using compress_file_other [of name "lm_name m" "lm_name m @ compressSuffix" gz "fails (lm_name m)" fs]
    by (auto simp: Let_def split_def)
qed simp

lemma exec_other:
  assumes run: "rollover_exec parse sorter gz prog now rf gf entries l fs = Some (errs, fs')" and s: "sorts sorter"
    and name: "\<not> has_prefix name (log_prefix prog l)"
  shows "fmlookup fs' name = fmlookup fs name"
proof (cases "lr_MaxAge l = 0 \<and> lr_MaxBackups l = 0 \<and> \<not> lr_Compress l \<or> entries = None")
  case True
  with run show ?thesis by (auto simp: rollover_exec_def split: if_splits)
next
  case False
  then obtain es where es: "entries = Some es" by blast
  obtain metas where metas: "load_file_list parse sorter prog l es = Some metas"
    using run False es by (auto simp: rollover_exec_def split: bind_splits)
  obtain kept removed where r: "retention l now metas = (kept, removed)" by fastforce
  have mem: "m \<in> set kept \<union> set removed \<Longrightarrow> has_prefix (lm_name m) (log_prefix prog l)" for m
    using retention_set [OF r] load_prefix [OF metas s] by blast
  then have k: "name \<notin> lm_name ` set removed" "name \<notin> lm_name ` set kept"
      "name \<notin> (\<lambda>m. lm_name m @ compressSuffix) ` set kept"
    using name has_prefix_append by blast+
  let ?fs1 = "snd (remove_loop rf removed fs)"
  have "fs' = (if lr_Compress l then snd (compress_loop gz gf kept ?fs1) else ?fs1)"
    using run False es metas r by (auto simp: rollover_exec_def Let_def split_def split: if_splits)
  then show ?thesis using remove_loop_other [OF k(1), of rf fs] compress_loop_other [OF k(2,3), of gz gf ?fs1] by simp
qed

section \<open>Which backups are kept\<close>

definition backup_of :: "log_meta \<Rightarrow> string" where
  "backup_of m = trim_suffix (lm_name m) compressSuffix"

declare set_add.simps [simp del]

lemma set_add_one: "set_abs (set_add [x] s) = finsert x (set_abs s)"
  by simp

lemma kept_names_full:
  "set_size saved \<ge> n \<Longrightarrow> m \<in> set (fst (backups_loop n saved ms)) \<Longrightarrow> backup_of m |\<in>| set_abs saved"
  by (induction ms) (auto simp: Let_def split_def set_contains_abs backup_of_def split: if_splits)

lemma kept_names_bound:
  "set_size saved \<le> n \<Longrightarrow> int (card (fset (set_abs saved) \<union> backup_of ` set (fst (backups_loop n saved ms)))) \<le> n"
proof (induction ms arbitrary: saved)
  case Nil
  then show ?case by (simp add: set_size_abs fcard.rep_eq)
next
  case (Cons m ms)
  let ?f = "trim_suffix (lm_name m) compressSuffix"
  consider "?f |\<in>| set_abs saved" | "?f |\<notin>| set_abs saved" "set_size saved \<ge> n" | "?f |\<notin>| set_abs saved" "set_size saved < n"
    by linarith
  then show ?case
  proof cases
    case 1
    then have "fset (set_abs saved) \<union> backup_of ` set (fst (backups_loop n saved (m # ms))) =
        fset (set_abs saved) \<union> backup_of ` set (fst (backups_loop n saved ms))"
      by (auto simp: Let_def split_def set_contains_abs backup_of_def)
    then show ?thesis using Cons by simp
  next
    case 2
    then have "fst (backups_loop n saved (m # ms)) = fst (backups_loop n saved ms)"
      by (simp add: Let_def split_def set_contains_abs)
    then show ?thesis using Cons by simp
  next
    case 3
    then have "set_size (set_add [?f] saved) \<le> n" by (simp add: set_size_abs fcard_finsert_if)
    from Cons.IH [OF this] 3 show ?thesis
      by (simp add: Let_def split_def set_contains_abs backup_of_def)
  qed
qed

lemma kept_newer:
  assumes "sorted_wrt (\<lambda>a b. lm_time b \<le> lm_time a) ms" and "\<forall>m \<in> set ms. lm_time m = T (backup_of m)"
    and "\<forall>x. x |\<in>| set_abs saved \<longrightarrow> (\<forall>m \<in> set ms. lm_time m \<le> T x)"
    and "k \<in> set (fst (backups_loop n saved ms))" and "r \<in> set (snd (backups_loop n saved ms))"
  shows "lm_time r \<le> lm_time k"
  using assms
proof (induction ms arbitrary: saved)
  case (Cons m ms)
  let ?f = "trim_suffix (lm_name m) compressSuffix"
  have rest: "x \<in> set (fst (backups_loop n s ms)) \<or> x \<in> set (snd (backups_loop n s ms)) \<Longrightarrow> x \<in> set ms" for x s
    using loop_sets(1) [of n s ms] by blast
  have le: "x \<in> set ms \<Longrightarrow> lm_time x \<le> lm_time m" for x using Cons.prems(1) by simp
  have srt: "sorted_wrt (\<lambda>a b. lm_time b \<le> lm_time a) ms" and T: "\<forall>m \<in> set ms. lm_time m = T (backup_of m)"
    using Cons.prems(1,2) by simp_all
  have sv: "\<forall>x. x |\<in>| set_abs saved \<longrightarrow> (\<forall>m \<in> set ms. lm_time m \<le> T x)" using Cons.prems(3) by simp
  consider "?f |\<in>| set_abs saved" | "?f |\<notin>| set_abs saved" "set_size saved \<ge> n" | "?f |\<notin>| set_abs saved" "set_size saved < n"
    by linarith
  then show ?case
  proof cases
    case 1
    then have "k = m \<or> k \<in> set (fst (backups_loop n saved ms))" "r \<in> set (snd (backups_loop n saved ms))"
      using Cons.prems(4,5) by (auto simp: Let_def split_def set_contains_abs)
    then show ?thesis using Cons.IH [OF srt T sv] le rest by blast
  next
    case 2
    then have k: "k \<in> set (fst (backups_loop n saved ms))" and r: "r = m \<or> r \<in> set (snd (backups_loop n saved ms))"
      using Cons.prems(4,5) by (auto simp: Let_def split_def set_contains_abs)
    have "lm_time m \<le> T (backup_of k)" using kept_names_full [OF 2(2) k] Cons.prems(3) by simp
    moreover have "k \<in> set ms" using rest k by blast
    ultimately have "lm_time m \<le> lm_time k" using T by simp
    with r k show ?thesis using Cons.IH [OF srt T sv] by blast
  next
    case 3
    then have k: "k = m \<or> k \<in> set (fst (backups_loop n (set_add [?f] saved) ms))"
        and r: "r \<in> set (snd (backups_loop n (set_add [?f] saved) ms))"
      using Cons.prems(4,5) by (auto simp: Let_def split_def set_contains_abs)
    have "lm_time m = T ?f" using Cons.prems(2) by (simp add: backup_of_def)
    then have "\<forall>x. x |\<in>| set_abs (set_add [?f] saved) \<longrightarrow> (\<forall>m \<in> set ms. lm_time m \<le> T x)"
      using sv le by auto
    from Cons.IH [OF srt T this] k r le rest show ?thesis by blast
  qed
qed simp

lemma age_loop_sets:
  "set (fst (age_loop c ms)) = {m \<in> set ms. \<not> lm_time m * 1000000 < c}"
  "set (snd (age_loop c ms)) = {m \<in> set ms. lm_time m * 1000000 < c}"
  by (induction ms) (auto simp: Let_def split_def)

section \<open>Names of backups\<close>

lemma path_ext_rev:
  "path_ext p = (case dropWhile (\<lambda>c. c \<noteq> CHR ''.'' \<and> c \<noteq> slash) (rev p) of
     [] \<Rightarrow> [] | c # q \<Rightarrow> if c = CHR ''.'' then c # rev (takeWhile (\<lambda>c. c \<noteq> CHR ''.'' \<and> c \<noteq> slash) (rev p)) else [])"
  by (simp add: path_ext_def Let_def dropWhile_eq_drop split: list.splits)

lemma ext_of_last_part:
  "takeWhile (\<lambda>c. c \<noteq> CHR ''.'' \<and> c \<noteq> slash) (takeWhile (\<lambda>c. c \<noteq> slash) r) = takeWhile (\<lambda>c. c \<noteq> CHR ''.'' \<and> c \<noteq> slash) r \<and>
   (case dropWhile (\<lambda>c. c \<noteq> CHR ''.'' \<and> c \<noteq> slash) (takeWhile (\<lambda>c. c \<noteq> slash) r) of [] \<Rightarrow> [] | c # q \<Rightarrow> if c = CHR ''.'' then c # x else []) =
   (case dropWhile (\<lambda>c. c \<noteq> CHR ''.'' \<and> c \<noteq> slash) r of [] \<Rightarrow> [] | c # q \<Rightarrow> if c = CHR ''.'' then c # x else [])"
  by (induction r) (auto simp: slash_def)

lemma path_ext_base:
  assumes "p \<noteq> []" and "last p \<noteq> slash"
  shows "path_ext (path_base p) = path_ext p"
proof -
  obtain h r where r: "rev p = h # r" "h \<noteq> slash" using assms by (cases "rev p") (auto simp: last_rev [symmetric])
  then have "path_base p = rev (takeWhile (\<lambda>c. c \<noteq> slash) (rev p))" using assms(1) by (simp add: path_base_def)
  then have b: "rev (path_base p) = takeWhile (\<lambda>c. c \<noteq> slash) (rev p)" by simp
  show ?thesis unfolding path_ext_rev [of "path_base p"] path_ext_rev [of p] b ext_of_last_part [THEN conjunct1]
    by (rule ext_of_last_part [THEN conjunct2])
qed

lemma time_of_parts: "time_from_file_name parse (prefix @ ts @ ext) prefix ext = Some (parse ts)"
proof -
  have "has_suffix (prefix @ ts @ ext) ext" using has_suffix_self [of "prefix @ ts"] by simp
  then show ?thesis by (simp add: time_from_file_name_def)
qed

lemma backup_name_parts:
  assumes "log_filename prog l \<noteq> []" and "last (log_filename prog l) \<noteq> slash"
  shows "backup_name fmt now (log_filename prog l) = log_prefix prog l @ fmt now @ path_ext (log_filename prog l)"
  using path_ext_base [OF assms] by (simp add: backup_name_def log_prefix_def active_def Let_def)

text \<open>The slice expression of \<open>timeFromFileName\<close> panics only if prefix and extension overlap.\<close>

lemma no_overlap:
  assumes "has_prefix name (q @ ''_'')" and "has_suffix name ext" and "CHR ''_'' \<notin> set ext"
  shows "length q + 1 + length ext \<le> length name"
proof (rule ccontr)
  assume "\<not> ?thesis"
  then have l: "length name - length ext \<le> length q" by simp
  have p: "take (length q + 1) name = q @ ''_''" using assms(1) by (simp add: has_prefix_def)
  then have len: "length q < length name" by (metis One_nat_def Suc_eq_plus1 length_append_singleton length_take less_Suc_eq min_less_iff_conj nat_less_le not_le_imp_less)
  have "name ! length q = CHR ''_''" using arg_cong [OF p, of "\<lambda>x. x ! length q"] by simp
  moreover have "name ! length q = ext ! (length q - (length name - length ext))"
    using assms(2) l len by (auto simp: has_suffix_def dest!: arg_cong [where f = "\<lambda>x. x ! (length q - (length name - length ext))"])
  moreover have "length q - (length name - length ext) < length ext"
    using assms(2) l len by (auto simp: has_suffix_def)
  ultimately show False using assms(3) by (metis nth_mem)
qed

lemma time_from_no_panic: "CHR ''_'' \<notin> set ext \<Longrightarrow> time_from_file_name parse name (q @ ''_'') ext \<noteq> None"
proof -
  assume u: "CHR ''_'' \<notin> set ext"
  show ?thesis
  proof (cases "has_prefix name (q @ ''_'') \<and> has_suffix name ext")
    case True
    with no_overlap [OF _ _ u, of name q] have "slice_range name (int (length (q @ ''_''))) (int (length name) - int (length ext)) \<noteq> None"
      by (simp add: slice_range_def)
    with True show ?thesis by (auto simp: time_from_file_name_def)
  qed (auto simp: time_from_file_name_def)
qed

lemma list_loop_no_panic:
  assumes "CHR ''_'' \<notin> set ext"
  shows "list_loop parse (q @ ''_'') ext es \<noteq> None"
proof (induction es)
  case (Cons x es)
  have e: "CHR ''_'' \<notin> set (ext @ compressSuffix)" using assms by (simp add: compressSuffix_def)
  obtain name d i where x: "x = (name, d, i)" by (cases x) auto
  obtain t1 where t1: "time_from_file_name parse name (q @ ''_'') ext = Some t1" using time_from_no_panic [OF assms] by blast
  obtain t2 where t2: "time_from_file_name parse name (q @ ''_'') (ext @ compressSuffix) = Some t2" using time_from_no_panic [OF e] by blast
  have "file_meta parse (q @ ''_'') ext x \<noteq> None"
    by (cases t1; cases t2) (simp_all add: file_meta_def x t1 t2)
  with Cons show ?case by (auto split: bind_splits)
qed simp

section \<open>The life of a log\<close>

inductive log_reachable :: "(int \<Rightarrow> string) \<Rightarrow> string \<Rightarrow> log_rollover \<Rightarrow> 'b files \<Rightarrow> bool" for fmt prog where
  made: "log_reachable fmt prog (new_log_rollover name maxSize maxBackups maxAge gzip) fs"
| write_log: "log_reachable fmt prog l fs \<Longrightarrow> log_write fmt prog p e l fs = (n, err, l', fs') \<Longrightarrow> log_reachable fmt prog l' fs'"
| rotate: "log_reachable fmt prog l fs \<Longrightarrow> rotate_file fmt prog e l fs = (err, l', fs') \<Longrightarrow> log_reachable fmt prog l' fs'"
| close: "log_reachable fmt prog l fs \<Longrightarrow> log_close e l = (err, l') \<Longrightarrow> log_reachable fmt prog l' fs"
| clean: "log_reachable fmt prog l fs \<Longrightarrow> sorts sorter \<Longrightarrow>
    rollover_exec parse sorter gz prog now rf gf entries l fs = Some (errs, fs') \<Longrightarrow> log_reachable fmt prog l fs'"

lemma not_open_inv: "lr_file l \<noteq> Some HOpen \<Longrightarrow> log_inv prog l fs"
  by (simp add: log_inv_def)

lemma open_new_inv:
  assumes "open_new fmt prog e l fs = (err, l', fs')" and "lr_file l \<noteq> Some HOpen"
  shows "log_inv prog l' fs'"
  using assms by (auto simp: open_new_def log_inv_def Let_def split: if_splits)

lemma close_file_not_open: "close_file e l = (err, l') \<Longrightarrow> lr_file l' \<noteq> Some HOpen"
  by (auto simp: close_file_def split: option.splits handle.splits)

lemma signal_inv [simp]: "log_inv prog (signal_rollover l) fs = log_inv prog l fs"
  by (simp add: log_inv_def signal_rollover_def)

lemma rotate_inv:
  assumes "rotate_file fmt prog e l fs = (err, l', fs')"
  shows "log_inv prog l' fs'"
proof -
  obtain r l1 where c: "close_file e l = (r, l1)" by fastforce
  note n = close_file_not_open [OF c]
  obtain r2 l2 fs2 where o: "open_new fmt prog e l1 fs = (r2, l2, fs2)" by (metis prod.exhaust)
  from open_new_inv [OF o n] not_open_inv [OF n] assms c o show ?thesis
    by (cases r; cases r2) (auto simp: rotate_file_def)
qed

lemma try_open_inv:
  assumes "try_open_or_create fmt prog k e l fs = (err, l', fs')" and "lr_file l = None"
  shows "log_inv prog l' fs'"
proof -
  have n: "lr_file l \<noteq> Some HOpen" using assms(2) by simp
  show ?thesis
  proof (cases "e_stat_err e \<or> fmlookup fs (active prog l) = None")
    case True
    then have "(l' = l \<and> fs' = fs) \<or> open_new fmt prog e l fs = (err, l', fs')"
      using assms(1) by (auto simp: try_open_or_create_def split: if_split_asm)
    then show ?thesis using not_open_inv [OF n] open_new_inv [OF _ n] by blast
  next
    case False
    then obtain c where c: "fmlookup fs (active prog l) = Some c" "\<not> e_stat_err e" by blast
    consider "rotate_file fmt prog e l fs = (err, l', fs')" | "open_new fmt prog e l fs = (err, l', fs')"
      | (app) "fs' = fs" "l' = signal_rollover (l\<lparr>lr_file := Some HOpen, lr_size := int (length c)\<rparr>)"
      using assms(1) c by (simp add: try_open_or_create_def split: if_split_asm)
    then show ?thesis
    proof cases
      case app
      with c show ?thesis by (simp add: log_inv_def signal_rollover_def)
    qed (use rotate_inv open_new_inv [OF _ n] in blast)+
  qed
qed

lemma write_inv:
  assumes w: "log_write fmt prog p e l fs = (n, err, l', fs')" and inv: "log_inv prog l fs"
  shows "log_inv prog l' fs'"
proof (cases "int (length p) > max_file_size l")
  case True
  with w inv show ?thesis by (auto simp: log_write_def Let_def)
next
  case False
  obtain r1 l1 fs1 where 1: "(if lr_file l = None then try_open_or_create fmt prog (int (length p)) e l fs else (None, l, fs)) = (r1, l1, fs1)"
    by (metis prod.exhaust)
  have i1: "log_inv prog l1 fs1" using 1 inv try_open_inv by (auto split: if_splits)
  obtain r2 l2 fs2 where 2: "(if int (length p) + lr_size l1 > max_file_size l1 then rotate_file fmt prog e l1 fs1 else (None, l1, fs1)) = (r2, l2, fs2)"
    by (metis prod.exhaust)
  have i2: "log_inv prog l2 fs2" using 2 i1 rotate_inv by (auto split: if_splits)
  obtain m r3 fs3 where 3: "file_write prog p e l2 fs2 = (m, r3, fs3)" by (metis prod.exhaust)
  have "log_inv prog (l2\<lparr>lr_size := lr_size l2 + int m\<rparr>) fs3"
    using i2 3 by (auto simp: log_inv_def file_write_def Let_def split: option.splits handle.splits if_splits)
  with w False 1 2 3 i1 i2 show ?thesis
    by (cases r1; cases r2) (auto simp: log_write_def Let_def)
qed

lemma log_reachable_inv: "log_reachable fmt prog l fs \<Longrightarrow> log_inv prog l fs"
proof (induction rule: log_reachable.induct)
  case (made name maxSize maxBackups maxAge gzip fs)
  show ?case by (simp add: log_inv_def new_log_rollover_def)
next
  case (close l fs e err l')
  then show ?case
    by (auto simp: log_close_def log_inv_def split: prod.splits option.splits if_splits dest!: close_file_not_open)
next
  case (clean l fs sorter parse gz now rf gf entries errs fs')
  have "fmlookup fs' (active prog l) = fmlookup fs (active prog l)"
    by (rule exec_other [OF clean.hyps(3,2) active_no_prefix])
  with clean show ?case by (simp add: log_inv_def)
qed (auto intro: write_inv rotate_inv)


section \<open>Properties\<close>

text \<open>
  C25: writing loses nothing. A \<open>Write\<close> that returns no error has written all of its data at
  the end of the active file, which is not longer than the limit; the data is in one file, and
  whatever any file held before is still there: in the same file, at its beginning, or, if the
  log was rotated, under the new backup name. It takes that \<open>os.Stat\<close> works and that the backup
  name is not in use yet, as the documentation asks.
\<close>

theorem log_write_loses_nothing:
  assumes "log_reachable fmt prog l fs" and "log_write fmt prog p e l fs = (n, None, l', fs')" and "\<not> e_stat_err e"
    and "fmlookup fs (backup_name fmt (e_now e) (log_filename prog l)) = None"
    and "backup_name fmt (e_now e) (log_filename prog l) \<noteq> active prog l"
  shows "n = length p \<and>
    (\<exists>c. fmlookup fs' (active prog l) = Some (c @ p) \<and> int (length (c @ p)) \<le> max_file_size l) \<and>
    (\<forall>name c. fmlookup fs name = Some c \<longrightarrow> (\<exists>t. fmlookup fs' name = Some (c @ t)) \<or>
       name = active prog l \<and> fmlookup fs' (backup_name fmt (e_now e) (log_filename prog l)) = Some c)"
proof -
  note w = log_write_ok [OF assms(2,3) log_reachable_inv [OF assms(1)]]
  then consider (append) "appends prog p l fs fs'" | (new) "starts_new fmt prog p e l fs fs'" by blast
  then show ?thesis
  proof cases
    case append
    then obtain c where c: "fmlookup fs (active prog l) = Some c" "fs' = fmupd (active prog l) (c @ p) fs"
        "int (length (c @ p)) \<le> max_file_size l"
      by (auto simp: appends_def)
    have "\<exists>t. fmlookup fs' name = Some (d @ t)" if "fmlookup fs name = Some d" for name d
      using c that by (cases "name = active prog l") auto
    with w c show ?thesis by auto
  next
    case new
    show ?thesis
    proof (cases "fmlookup fs (active prog l)")
      case None
      with w new assms(4,5) show ?thesis by (auto simp: starts_new_def rotated_def)
    next
      case (Some c)
      with w new assms(4,5) show ?thesis by (auto simp: starts_new_def rotated_def)
    qed
  qed
qed

definition demo_log :: log_rollover where
  "demo_log = new_log_rollover ''logs/x.log'' 1 1 0 False"

definition demo_sys :: sys where
  "demo_sys = \<lparr>e_now = 7, e_stat_err = False, e_append_err = False, e_mkdir_err = False, e_rename_err = False, e_open_err = False,
     e_close_err = False, e_written = 0, e_write_err = False\<rparr>"

theorem log_write_loses_nothing_witness:
  "\<exists>l' fs'. log_write (\<lambda>t. ''7'') ''go'' [1, 2 :: nat] demo_sys demo_log fmempty = (2, None, l', fs') \<and>
     (\<exists>c. fmlookup fs' ''x.log'' = Some (c @ [1, 2]))"
proof -
  let ?fmt = "\<lambda>t :: int. ''7''"
  have r: "log_reachable ?fmt ''go'' demo_log (fmempty :: nat files)" unfolding demo_log_def by (rule log_reachable.made)
  have a: "active ''go'' demo_log = ''x.log''" and b: "backup_name ?fmt (e_now demo_sys) (log_filename ''go'' demo_log) = ''x_7.log''"
    by code_simp+
  have "fst (log_write ?fmt ''go'' [1, 2 :: nat] demo_sys demo_log fmempty) = 2 \<and>
      fst (snd (log_write ?fmt ''go'' [1, 2 :: nat] demo_sys demo_log fmempty)) = None"
    by code_simp
  then obtain n l' fs' where w: "log_write ?fmt ''go'' [1, 2 :: nat] demo_sys demo_log fmempty = (n, None, l', fs')"
    by (cases "log_write ?fmt ''go'' [1, 2 :: nat] demo_sys demo_log fmempty") auto
  have s: "\<not> e_stat_err demo_sys" by (simp add: demo_sys_def)
  have f: "fmlookup (fmempty :: nat files) (backup_name ?fmt (e_now demo_sys) (log_filename ''go'' demo_log)) = None"
      "backup_name ?fmt (e_now demo_sys) (log_filename ''go'' demo_log) \<noteq> active ''go'' demo_log"
    unfolding a b by simp_all
  from log_write_loses_nothing [OF r w s f] w show ?thesis unfolding a by auto
qed

text \<open>
  one failure to open the file breaks the log for good. If a rotation closes the full file
  and then cannot open the new one (a full disk, too many files), the closed file stays in
  place; from then on every \<open>Write\<close> and every \<open>Rotate\<close> fails and changes nothing, whatever the
  system does, also when the cause is gone.
\<close>

theorem log_stuck_after_failed_open:
  assumes "lr_file l = Some HOpen" and "\<not> e_close_err e" and "\<not> e_mkdir_err e" and "e_open_err e"
  shows "\<exists>l1 fs1. rotate_file fmt prog e l fs = (Some OsError, l1, fs1) \<and>
    (\<forall>p e'. \<exists>err. log_write fmt prog p e' l1 fs1 = (0, Some err, l1, fs1)) \<and>
    (\<forall>e'. rotate_file fmt prog e' l1 fs1 = (Some FileClosed, l1, fs1))"
proof -
  let ?l1 = "l\<lparr>lr_file := Some HClosed\<rparr>"
  have "\<exists>fs1. open_new fmt prog e ?l1 fs = (Some OsError, ?l1, fs1)"
    by (simp add: open_new_def Let_def assms(3,4))
  then obtain fs1 where "open_new fmt prog e ?l1 fs = (Some OsError, ?l1, fs1)" by blast
  then have "rotate_file fmt prog e l fs = (Some OsError, ?l1, fs1)"
    using assms(1,2) by (simp add: rotate_file_def close_file_def)
  moreover have r: "rotate_file fmt prog e' ?l1 fs1 = (Some FileClosed, ?l1, fs1)" for e'
    by (simp add: rotate_file_def close_file_def)
  moreover have "\<exists>err. log_write fmt prog p e' ?l1 fs1 = (0, Some err, ?l1, fs1)" for p e'
    using r [of e'] by (simp add: log_write_def Let_def file_write_def)
  ultimately show ?thesis by blast
qed

theorem log_stuck_after_failed_open_witness:
  "\<exists>l1 fs1. rotate_file (\<lambda>t. ''7'') ''go'' (demo_sys\<lparr>e_open_err := True\<rparr>) (demo_log\<lparr>lr_file := Some HOpen\<rparr>) (fmempty :: nat files) =
       (Some OsError, l1, fs1) \<and> rotate_file (\<lambda>t. ''7'') ''go'' demo_sys l1 fs1 = (Some FileClosed, l1, fs1)"
proof -
  have "lr_file (demo_log\<lparr>lr_file := Some HOpen\<rparr>) = Some HOpen" "\<not> e_close_err (demo_sys\<lparr>e_open_err := True\<rparr>)"
      "\<not> e_mkdir_err (demo_sys\<lparr>e_open_err := True\<rparr>)" "e_open_err (demo_sys\<lparr>e_open_err := True\<rparr>)"
    by (simp_all add: demo_sys_def)
  from log_stuck_after_failed_open [OF this, of "\<lambda>t. ''7''" "''go''" fmempty] show ?thesis by blast
qed

text \<open>
  every backup is found again: from the name that a rotation gives to the old file,
  \<open>loadFileList\<close> reads the time of the rotation, if \<open>Parse\<close> undoes \<open>Format\<close>; and no name makes
  it panic as long as the extension of the log has no underscore.
\<close>

theorem backup_name_recognised:
  assumes "log_filename prog l \<noteq> []" and "last (log_filename prog l) \<noteq> slash" and "parse (fmt now) = Some now"
  shows "file_meta parse (log_prefix prog l) (path_ext (log_filename prog l)) (backup_name fmt now (log_filename prog l), False, True) =
      Some [\<lparr>lm_time = now, lm_name = backup_name fmt now (log_filename prog l)\<rparr>] \<and>
    (CHR ''_'' \<notin> set (path_ext (log_filename prog l)) \<longrightarrow> load_file_list parse sorter prog l es \<noteq> None)"
proof -
  have "file_meta parse (log_prefix prog l) (path_ext (log_filename prog l)) (backup_name fmt now (log_filename prog l), False, True) =
      Some [\<lparr>lm_time = now, lm_name = backup_name fmt now (log_filename prog l)\<rparr>]"
    using assms(3) by (simp add: file_meta_def backup_name_parts [OF assms(1,2)] time_of_parts)
  moreover have "load_file_list parse sorter prog l es \<noteq> None" if "CHR ''_'' \<notin> set (path_ext (log_filename prog l))"
    using list_loop_no_panic [OF that] by (auto simp: load_file_list_def Let_def)
  ultimately show ?thesis by blast
qed

theorem backup_name_recognised_witness:
  "file_meta (\<lambda>s. Some 7) (log_prefix ''go'' demo_log) ''.log'' (''x_7.log'', False, True) = Some [\<lparr>lm_time = 7, lm_name = ''x_7.log''\<rparr>]"
proof -
  have "log_filename ''go'' demo_log \<noteq> []" "last (log_filename ''go'' demo_log) \<noteq> slash"
    by code_simp+
  moreover have "backup_name (\<lambda>t. ''7'') 7 (log_filename ''go'' demo_log) = ''x_7.log''" "path_ext (log_filename ''go'' demo_log) = ''.log''"
    by code_simp+
  ultimately show ?thesis
    using backup_name_recognised [of "''go''" demo_log "\<lambda>s. Some 7" "\<lambda>t. ''7''" 7] by simp
qed

text \<open>With an underscore there it can: the file of another log of the directory is enough.\<close>

lemma log_cleanup_panics:
  "load_file_list parse sorter prog (new_log_rollover ''logs/x.b.b_c'' 1 3 0 False) [(''x.b_c'', False, True)] = None"
  by (simp add: load_file_list_def new_log_rollover_def log_filename_def path_base_def path_ext_def trim_suffix_def
      has_suffix_def has_prefix_def slash_def Let_def file_meta_def time_from_file_name_def slice_range_def)

end
