(* ===== verification/Log_Cleanup.thy ===== *)
theory Log_Cleanup
  imports Log_Rollover
begin

text \<open>
  What the clean-up pass of \<^verbatim>\<open>common/logger/log_rollover.go\<close> (\<open>rolloverExec\<close>) does to the directory: which files it takes for
  backups, which of them it keeps, and what becomes of every file, backup or not.
\<close>

section \<open>Which files are backups\<close>

text \<open>
  A name is that of a backup, with its time, if between the prefix and the extension of the log it has a time that can be
  read; or else if it has one between the prefix and the extension with \<open>.gz\<close> behind it.
\<close>

definition backup_time :: "(string \<Rightarrow> int option) \<Rightarrow> string \<Rightarrow> log_rollover \<Rightarrow> string \<Rightarrow> int \<Rightarrow> bool" where
  "backup_time parse prog l name t \<longleftrightarrow>
     (let pre = log_prefix prog l; ext = path_ext (log_filename prog l) in
      (\<exists>ts. name = pre @ ts @ ext \<and> parse ts = Some t) \<or>
      ((\<nexists>ts. name = pre @ ts @ ext \<and> parse ts \<noteq> None) \<and> (\<exists>ts. name = pre @ ts @ ext @ compressSuffix \<and> parse ts = Some t)))"

text \<open>A file that belongs to the backups of the log, compressed or not.\<close>

definition backup_file :: "(string \<Rightarrow> int option) \<Rightarrow> string \<Rightarrow> log_rollover \<Rightarrow> string \<Rightarrow> bool" where
  "backup_file parse prog l name \<longleftrightarrow>
     (\<exists>ts. parse ts \<noteq> None \<and> (name = log_prefix prog l @ ts @ path_ext (log_filename prog l) \<or>
        name = log_prefix prog l @ ts @ path_ext (log_filename prog l) @ compressSuffix))"

lemma time_from_some:
  "time_from_file_name parse name pre ext = Some (Some t) \<longleftrightarrow> (\<exists>ts. name = pre @ ts @ ext \<and> parse ts = Some t)"
proof
  assume h: "time_from_file_name parse name pre ext = Some (Some t)"
  then have p: "take (length pre) name = pre" "length ext \<le> length name" "drop (length name - length ext) name = ext"
    by (auto simp: time_from_file_name_def has_prefix_def has_suffix_def split: if_splits)
  from h p obtain ts where ts: "slice_range name (int (length pre)) (int (length name) - int (length ext)) = Some ts" "parse ts = Some t"
    by (auto simp: time_from_file_name_def split: if_splits bind_splits)
  then have l: "length pre \<le> length name - length ext" and e: "ts = take (length name - length ext - length pre) (drop (length pre) name)"
    using p(2) by (auto simp: slice_range_def nat_diff_distrib simp flip: of_nat_diff split: if_splits)
  let ?k = "length name - length ext - length pre"
  have "?k + length pre = length name - length ext" using l by simp
  then have "drop ?k (drop (length pre) name) = drop (length name - length ext) name" by (simp only: drop_drop)
  then have "name = take (length pre) name @ take ?k (drop (length pre) name) @ drop (length name - length ext) name"
    using append_take_drop_id [of "length pre" name] append_take_drop_id [of ?k "drop (length pre) name"] by simp
  then have "name = pre @ ts @ ext" using p e by metis
  with ts show "\<exists>ts. name = pre @ ts @ ext \<and> parse ts = Some t" by blast
next
  assume "\<exists>ts. name = pre @ ts @ ext \<and> parse ts = Some t"
  then show "time_from_file_name parse name pre ext = Some (Some t)" using time_of_parts by metis
qed

lemma file_meta_backups:
  assumes "file_meta parse (log_prefix prog l) (path_ext (log_filename prog l)) (name, d, i) = Some ms"
  shows "(m \<in> set ms \<longleftrightarrow> \<not> d \<and> i \<and> lm_name m = name \<and> backup_time parse prog l name (lm_time m)) \<and> length ms \<le> 1"
proof (cases "d \<or> \<not> i")
  case True
  with assms show ?thesis by (auto simp: file_meta_def)
next
  case False
  let ?p = "log_prefix prog l" and ?e = "path_ext (log_filename prog l)"
  from False assms obtain t1 where t1: "time_from_file_name parse name ?p ?e = Some t1" by (auto simp: file_meta_def split: bind_splits)
  show ?thesis
  proof (cases t1)
    case (Some t)
    then have "\<exists>ts. name = ?p @ ts @ ?e \<and> parse ts = Some t" using t1 time_from_some by metis
    then have "backup_time parse prog l name u \<longleftrightarrow> u = t" for u by (auto simp: backup_time_def Let_def)
    moreover have "ms = [\<lparr>lm_time = t, lm_name = name\<rparr>]" using assms False t1 Some by (simp add: file_meta_def)
    ultimately show ?thesis using False by (cases m) auto
  next
    case None
    have no: "\<nexists>ts. name = ?p @ ts @ ?e \<and> parse ts \<noteq> None" using t1 None time_from_some [of parse name ?p ?e]
      by (metis option.distinct(1) option.exhaust option.inject)
    from False assms t1 None obtain t2 where t2: "time_from_file_name parse name ?p (?e @ compressSuffix) = Some t2"
      by (auto simp: file_meta_def split: bind_splits)
    have b: "backup_time parse prog l name u \<longleftrightarrow> t2 = Some u" for u
      using no time_from_some [of parse name ?p "?e @ compressSuffix" u] t2 by (auto simp: backup_time_def Let_def)
    have "ms = (case t2 of Some t \<Rightarrow> [\<lparr>lm_time = t, lm_name = name\<rparr>] | None \<Rightarrow> [])"
      using assms False t1 None t2 by (cases t2) (simp_all add: file_meta_def)
    then show ?thesis using b False by (cases t2; cases m) auto
  qed
qed

lemma list_loop_backups:
  "list_loop parse (log_prefix prog l) (path_ext (log_filename prog l)) es = Some ms \<Longrightarrow>
   (m \<in> set ms \<longleftrightarrow> (lm_name m, False, True) \<in> set es \<and> backup_time parse prog l (lm_name m) (lm_time m)) \<and>
   (distinct (map fst es) \<longrightarrow> distinct (map lm_name ms))"
proof (induction es arbitrary: ms m)
  case (Cons x es)
  obtain name d i where x: "x = (name, d, i)" by (cases x) auto
  let ?p = "log_prefix prog l" and ?e = "path_ext (log_filename prog l)"
  obtain as bs where ab: "file_meta parse ?p ?e x = Some as" "list_loop parse ?p ?e es = Some bs" "ms = as @ bs"
    using Cons.prems by (auto split: bind_splits)
  note f = file_meta_backups [OF ab(1) [unfolded x]]
  note r = Cons.IH [OF ab(2)]
  have "m \<in> set ms \<longleftrightarrow> (lm_name m, False, True) \<in> set (x # es) \<and> backup_time parse prog l (lm_name m) (lm_time m)"
    using f r by (auto simp: ab(3) x)
  moreover have "distinct (map lm_name ms)" if d: "distinct (map fst (x # es))"
  proof -
    have "lm_name a = name" if "a \<in> set as" for a using f that by blast
    moreover have "lm_name b \<noteq> name" if "b \<in> set bs" for b using r that d by (force simp: x)
    moreover have "distinct (map lm_name as)" using f by (cases as) auto
    ultimately show ?thesis using r d by (force simp: ab(3))
  qed
  ultimately show ?case by blast
qed simp

lemma load_backups:
  assumes "load_file_list parse sorter prog l es = Some metas" and "sorts sorter"
  shows "(m \<in> set metas \<longleftrightarrow> (lm_name m, False, True) \<in> set es \<and> backup_time parse prog l (lm_name m) (lm_time m)) \<and>
    (distinct (map fst es) \<longrightarrow> distinct (map lm_name metas))"
proof -
  from assms(1) obtain xs where xs: "list_loop parse (log_prefix prog l) (path_ext (log_filename prog l)) es = Some xs" "metas = sorter xs"
    by (auto simp: load_file_list_def log_prefix_def active_def Let_def)
  have m: "mset metas = mset xs" using assms(2) by (simp add: sorts_def xs(2))
  then have "mset (map lm_name metas) = mset (map lm_name xs)" by simp
  then have "distinct (map lm_name metas) = distinct (map lm_name xs)" by (rule mset_eq_imp_distinct_iff)
  then show ?thesis using list_loop_backups [OF xs(1)] mset_eq_setD [OF m] by blast
qed

lemma backup_time_file: "backup_time parse prog l name t \<Longrightarrow> backup_file parse prog l name"
  unfolding backup_time_def backup_file_def Let_def by (metis option.distinct(1))

lemma backup_time_gz: "backup_time parse prog l name t \<Longrightarrow> \<not> has_suffix name compressSuffix \<Longrightarrow> backup_file parse prog l (name @ compressSuffix)"
proof -
  assume b: "backup_time parse prog l name t" "\<not> has_suffix name compressSuffix"
  have "has_suffix (log_prefix prog l @ ts @ path_ext (log_filename prog l) @ compressSuffix) compressSuffix" for ts
    using has_suffix_self [of "log_prefix prog l @ ts @ path_ext (log_filename prog l)"] by simp
  then obtain ts where "name = log_prefix prog l @ ts @ path_ext (log_filename prog l)" "parse ts = Some t"
    using b unfolding backup_time_def Let_def by metis
  then show ?thesis by (auto simp: backup_file_def)
qed

lemma active_no_backup: "\<not> backup_file parse prog l (active prog l)"
  using active_no_prefix [of prog l] has_prefix_self unfolding backup_file_def by metis

section \<open>What stays and what goes\<close>

lemma loop_msets:
  "mset (fst (backups_loop n saved ms)) + mset (snd (backups_loop n saved ms)) = mset ms"
  "mset (fst (age_loop c ms)) + mset (snd (age_loop c ms)) = mset ms"
  by (induction ms arbitrary: saved) (auto simp: Let_def split_def)

lemma retention_mset:
  assumes "retention l now ms = (kept, removed)"
  shows "mset kept + mset removed = mset ms"
proof -
  define b where "b = backups_loop (lr_MaxBackups l) new_set ms"
  define k r where "k = (if lr_MaxBackups l > 0 then fst b else ms)" and "r = (if lr_MaxBackups l > 0 then snd b else [])"
  have 1: "mset k + mset r = mset ms" unfolding k_def r_def b_def using loop_msets(1) by auto
  have "mset kept + mset removed = mset k + mset r"
    using assms loop_msets(2) [of "cut_off (lr_MaxAge l) now" k]
    by (auto simp: retention_def b_def k_def r_def Let_def split_def ac_simps split: if_splits)
  with 1 show ?thesis by simp
qed

text \<open>A log and its compressed copy stay or go together.\<close>

lemma removed_not_saved: "r \<in> set (snd (backups_loop n saved ms)) \<Longrightarrow> backup_of r |\<notin>| set_abs saved"
proof (induction ms arbitrary: saved)
  case (Cons m ms)
  then show ?case
    using Cons.IH [of saved] Cons.IH [of "set_add [trim_suffix (lm_name m) compressSuffix] saved"]
    by (auto simp: Let_def split_def set_contains_abs backup_of_def set_add_one split: if_splits)
qed simp

lemma kept_removed_apart:
  "k \<in> set (fst (backups_loop n saved ms)) \<Longrightarrow> r \<in> set (snd (backups_loop n saved ms)) \<Longrightarrow> backup_of k \<noteq> backup_of r"
proof (induction ms arbitrary: saved)
  case (Cons m ms)
  let ?f = "trim_suffix (lm_name m) compressSuffix"
  consider "?f |\<in>| set_abs saved" | "?f |\<notin>| set_abs saved" "set_size saved \<ge> n" | "?f |\<notin>| set_abs saved" "set_size saved < n"
    by linarith
  then show ?case
  proof cases
    case 1
    then show ?thesis using Cons removed_not_saved [of r n saved ms]
      by (auto simp: Let_def split_def set_contains_abs backup_of_def)
  next
    case 2
    then show ?thesis using Cons kept_names_full [of n saved k ms]
      by (auto simp: Let_def split_def set_contains_abs backup_of_def)
  next
    case 3
    then show ?thesis using Cons removed_not_saved [of r n "set_add [?f] saved" ms]
      by (auto simp: Let_def split_def set_contains_abs backup_of_def set_add_one)
  qed
qed simp

text \<open>Nothing goes by number before the number is reached.\<close>

lemma removed_when_full:
  "r \<in> set (snd (backups_loop n saved ms)) \<Longrightarrow>
   n \<le> int (card (fset (set_abs saved) \<union> backup_of ` set (fst (backups_loop n saved ms))))"
proof (induction ms arbitrary: saved)
  case (Cons m ms)
  let ?f = "trim_suffix (lm_name m) compressSuffix"
  consider "?f |\<in>| set_abs saved" | "?f |\<notin>| set_abs saved" "set_size saved \<ge> n" | "?f |\<notin>| set_abs saved" "set_size saved < n"
    by linarith
  then show ?case
  proof cases
    case 1
    then have "fset (set_abs saved) \<union> backup_of ` set (fst (backups_loop n saved (m # ms))) =
        fset (set_abs saved) \<union> backup_of ` set (fst (backups_loop n saved ms))"
      by (auto simp: Let_def split_def set_contains_abs backup_of_def)
    then show ?thesis using Cons 1 by (simp add: Let_def split_def set_contains_abs)
  next
    case 2
    have "n \<le> int (card (fset (set_abs saved)))" using 2(2) by (simp add: set_size_abs fcard.rep_eq)
    also have "\<dots> \<le> int (card (fset (set_abs saved) \<union> backup_of ` set (fst (backups_loop n saved (m # ms)))))"
      by (simp add: card_mono)
    finally show ?thesis .
  next
    case 3
    with Cons.prems have "r \<in> set (snd (backups_loop n (set_add [?f] saved) ms))"
      by (simp add: Let_def split_def set_contains_abs)
    from Cons.IH [OF this] 3 show ?thesis
      by (simp add: Let_def split_def set_contains_abs backup_of_def set_add_one)
  qed
qed simp

text \<open>The choice as a whole: whatever goes is too old, or behind \<open>MaxBackups\<close> other backups that are as new.\<close>

lemma retention_choice:
  assumes srt: "sorted_wrt (\<lambda>a b. lm_time b \<le> lm_time a) metas"
    and same: "\<forall>a \<in> set metas. \<forall>b \<in> set metas. backup_of a = backup_of b \<longrightarrow> lm_time a = lm_time b"
    and r: "retention l now metas = (kept, removed)"
  shows "(0 < lr_MaxBackups l \<longrightarrow> int (card (backup_of ` set kept)) \<le> lr_MaxBackups l) \<and>
    (0 < lr_MaxAge l \<longrightarrow> (\<forall>k \<in> set kept. cut_off (lr_MaxAge l) now \<le> lm_time k * 1000000)) \<and>
    (\<forall>k \<in> set kept. \<forall>r \<in> set removed. lm_time r \<le> lm_time k \<and> backup_of k \<noteq> backup_of r) \<and>
    (\<forall>r \<in> set removed. 0 < lr_MaxAge l \<and> lm_time r * 1000000 < cut_off (lr_MaxAge l) now \<or>
       0 < lr_MaxBackups l \<and>
       lr_MaxBackups l \<le> int (card (backup_of ` {m \<in> set metas. lm_time r \<le> lm_time m \<and> backup_of m \<noteq> backup_of r})))"
proof -
  let ?n = "lr_MaxBackups l" and ?b = "backups_loop (lr_MaxBackups l) new_set metas" and ?c = "cut_off (lr_MaxAge l) now"
  let ?k1 = "if ?n > 0 then fst ?b else metas" and ?r1 = "if ?n > 0 then snd ?b else []"
  have kr: "kept = (if lr_MaxAge l > 0 then fst (age_loop ?c ?k1) else ?k1)"
      "removed = ?r1 @ (if lr_MaxAge l > 0 then snd (age_loop ?c ?k1) else [])"
    using r by (auto simp: retention_def Let_def split_def split: if_splits)
  obtain T where T: "\<forall>m \<in> set metas. lm_time m = T (backup_of m)"
    using same by (intro that [of "\<lambda>x. lm_time (SOME m. m \<in> set metas \<and> backup_of m = x)"]) (metis (mono_tags, lifting) someI)
  have sub: "set kept \<subseteq> set ?k1" using kr(1) age_loop_sets(1) by (auto split: if_splits)
  have k1: "set ?k1 \<subseteq> set metas" using loop_sets(1) [of ?n new_set metas] by auto
  have e: "set_abs (new_set :: string goset) = {||}" by simp
  have newer1: "lm_time y \<le> lm_time x \<and> backup_of x \<noteq> backup_of y" if "x \<in> set ?k1" "y \<in> set ?r1" for x y
    using kept_newer [OF srt T, of new_set x ?n y] kept_removed_apart [of x ?n new_set metas y] that e by (auto split: if_splits)
  have aged: "lr_MaxAge l > 0 \<and> lm_time y * 1000000 < ?c \<and> y \<in> set metas" if "y \<in> set removed" "y \<notin> set ?r1" for y
    using that kr(2) age_loop_sets [of ?c ?k1] k1 by (auto split: if_splits)
  have young: "0 < lr_MaxAge l \<Longrightarrow> x \<in> set kept \<Longrightarrow> ?c \<le> lm_time x * 1000000" for x
    using kr(1) age_loop_sets(1) [of ?c ?k1] by (auto simp: not_less)
  have apart: "lm_time y \<le> lm_time x \<and> backup_of x \<noteq> backup_of y" if "x \<in> set kept" "y \<in> set removed" for x y
  proof (cases "y \<in> set ?r1")
    case True
    with newer1 that(1) sub show ?thesis by blast
  next
    case False
    with aged [OF that(2)] young [OF _ that(1)] have "lm_time y < lm_time x" "y \<in> set metas" by auto
    moreover have "x \<in> set metas" using that(1) sub k1 by blast
    ultimately show ?thesis using same by fastforce
  qed
  have bound: "int (card (backup_of ` set kept)) \<le> ?n" if n: "0 < ?n"
  proof -
    have "int (card (fset (set_abs (new_set :: string goset)) \<union> backup_of ` set (fst ?b))) \<le> ?n"
      using n by (intro kept_names_bound) (simp add: set_size_abs fcard.rep_eq)
    moreover have "card (backup_of ` set kept) \<le> card (backup_of ` set (fst ?b))"
      using sub n by (intro card_mono image_mono) simp_all
    ultimately show ?thesis by simp
  qed
  have full: "0 < ?n \<and> ?n \<le> int (card (backup_of ` {m \<in> set metas. lm_time y \<le> lm_time m \<and> backup_of m \<noteq> backup_of y}))"
    if "y \<in> set ?r1" for y
  proof -
    have n: "0 < ?n" "y \<in> set (snd ?b)" using that by (auto split: if_splits)
    have "?n \<le> int (card (backup_of ` set (fst ?b)))" using removed_when_full [OF n(2)] e by simp
    also have "\<dots> \<le> int (card (backup_of ` {m \<in> set metas. lm_time y \<le> lm_time m \<and> backup_of m \<noteq> backup_of y}))"
      using newer1 [OF _ that] n(1) k1 by (intro of_nat_mono card_mono image_mono) auto
    finally show ?thesis using n(1) by simp
  qed
  from bound young apart aged full show ?thesis by blast
qed

section \<open>What becomes of the files\<close>

lemma remove_loop_none: "fmlookup fs name = None \<Longrightarrow> fmlookup (snd (remove_loop fails ms fs)) name = None"
  by (induction ms arbitrary: fs) (auto simp: Let_def split_def)

lemma remove_loop_gone:
  "m \<in> set ms \<Longrightarrow> \<not> fails (lm_name m) \<Longrightarrow> fmlookup (snd (remove_loop fails ms fs)) (lm_name m) = None"
proof (induction ms arbitrary: fs)
  case (Cons x ms)
  show ?case
  proof (cases "m \<in> set ms")
    case True
    with Cons show ?thesis by (simp add: Let_def split_def)
  next
    case False
    with Cons.prems show ?thesis by (simp add: remove_loop_none)
  qed
qed simp

lemma remove_loop_failed: "fails name \<Longrightarrow> fmlookup (snd (remove_loop fails ms fs)) name = fmlookup fs name"
  by (induction ms arbitrary: fs) (auto simp: Let_def split_def)

text \<open>A copy is made whole or not at all, and the original goes only when the copy is there.\<close>

definition compressed_to :: "('b list \<Rightarrow> 'b list) \<Rightarrow> (gz_step \<Rightarrow> bool) \<Rightarrow> string \<Rightarrow> 'b list \<Rightarrow> 'b files \<Rightarrow> bool" where
  "compressed_to gz fails name c fs \<longleftrightarrow>
     (if \<exists>g. fails g then fmlookup fs name = Some c \<and> fmlookup fs (name @ compressSuffix) = None
      else fmlookup fs name = None \<and> fmlookup fs (name @ compressSuffix) = Some (gz c))"

lemma compress_file_to:
  "fmlookup fs name = Some c \<Longrightarrow> compressed_to gz fails name c (snd (compress_file gz fails name (name @ compressSuffix) fs))"
proof -
  assume c: "fmlookup fs name = Some c"
  have all: "(\<exists>g. fails g) \<longleftrightarrow> fails GzOpen \<or> fails GzStat \<or> fails GzCreate \<or> fails GzCopy \<or> fails GzFlush \<or> fails GzClose \<or> fails GzRemove"
    by (metis gz_step.exhaust)
  have "name @ compressSuffix \<noteq> name" by (simp add: compressSuffix_def)
  with c show ?thesis unfolding compressed_to_def all by (auto simp: compress_file_def Let_def)
qed

text \<open>The files that the loop works on.\<close>

definition gz_touches :: "log_meta list \<Rightarrow> string \<Rightarrow> bool" where
  "gz_touches ms name \<longleftrightarrow> (\<exists>m \<in> set ms. \<not> has_suffix (lm_name m) compressSuffix \<and> (name = lm_name m \<or> name = lm_name m @ compressSuffix))"

lemma compress_loop_untouched:
  "\<not> gz_touches ms name \<Longrightarrow> fmlookup (snd (compress_loop gz fails ms fs)) name = fmlookup fs name"
proof (induction ms arbitrary: fs)
  case (Cons m ms)
  then show ?case
    using compress_file_other [of name "lm_name m" "lm_name m @ compressSuffix" gz "fails (lm_name m)" fs]
    by (auto simp: Let_def split_def gz_touches_def)
qed simp

lemma gz_apart:
  assumes "\<not> has_suffix a compressSuffix" and "\<not> has_suffix b compressSuffix" and "a \<noteq> b"
  shows "a \<noteq> b @ compressSuffix \<and> a @ compressSuffix \<noteq> b \<and> a @ compressSuffix \<noteq> b @ compressSuffix"
  using assms has_suffix_self by auto

lemma compress_loop_to:
  "distinct (map lm_name ms) \<Longrightarrow> m \<in> set ms \<Longrightarrow> \<not> has_suffix (lm_name m) compressSuffix \<Longrightarrow> fmlookup fs (lm_name m) = Some c \<Longrightarrow>
   compressed_to gz (fails (lm_name m)) (lm_name m) c (snd (compress_loop gz fails ms fs))"
proof (induction ms arbitrary: fs)
  case (Cons x ms)
  show ?case
  proof (cases "x = m")
    case True
    let ?fs = "snd (compress_file gz (fails (lm_name m)) (lm_name m) (lm_name m @ compressSuffix) fs)"
    have d: "lm_name y \<noteq> lm_name m" if "y \<in> set ms" for y using Cons.prems(1) True that by (metis distinct.simps(2) imageI list.map(2) set_map)
    have "\<not> gz_touches ms (lm_name m)" "\<not> gz_touches ms (lm_name m @ compressSuffix)"
      using d gz_apart [OF Cons.prems(3)] unfolding gz_touches_def by metis+
    then have "fmlookup (snd (compress_loop gz fails ms ?fs)) (lm_name m) = fmlookup ?fs (lm_name m)"
      "fmlookup (snd (compress_loop gz fails ms ?fs)) (lm_name m @ compressSuffix) = fmlookup ?fs (lm_name m @ compressSuffix)"
      by (simp_all add: compress_loop_untouched)
    with compress_file_to [OF Cons.prems(4), of gz "fails (lm_name m)"] True Cons.prems(3) show ?thesis
      by (simp add: compressed_to_def split_def Let_def)
  next
    case False
    then have "m \<in> set ms" using Cons.prems(2) by simp
    moreover have "lm_name x \<notin> lm_name ` set ms" using Cons.prems(1) by simp
    ultimately have m: "m \<in> set ms" "lm_name m \<noteq> lm_name x" by (blast, metis imageI)
    let ?fs = "if has_suffix (lm_name x) compressSuffix then fs
      else snd (compress_file gz (fails (lm_name x)) (lm_name x) (lm_name x @ compressSuffix) fs)"
    have "fmlookup ?fs (lm_name m) = Some c"
      using Cons.prems(3,4) m(2) gz_apart [OF Cons.prems(3), of "lm_name x"] by (simp add: compress_file_other)
    with Cons.IH [OF _ m(1) Cons.prems(3) this] Cons.prems(1) show ?thesis by (auto simp: split_def Let_def)
  qed
qed simp

lemma exec_files:
  assumes "rollover_exec parse sorter gz prog now rf gf (Some es) l fs = Some (errs, fs')"
    and "load_file_list parse sorter prog l es = Some metas" and "retention l now metas = (kept, removed)"
  shows "fs' = (if lr_Compress l then snd (compress_loop gz gf kept (snd (remove_loop rf removed fs))) else snd (remove_loop rf removed fs))"
proof (cases "lr_MaxAge l = 0 \<and> lr_MaxBackups l = 0 \<and> \<not> lr_Compress l")
  case True
  then have "removed = []" "fs' = fs" using assms by (auto simp: retention_def rollover_exec_def)
  with True show ?thesis by simp
next
  case False
  with assms show ?thesis by (auto simp: rollover_exec_def Let_def split_def split: if_splits)
qed

lemma exec_untouched:
  assumes f: "fs' = (if lr_Compress l then snd (compress_loop gz gf kept (snd (remove_loop rf removed fs))) else snd (remove_loop rf removed fs))"
    and "name \<notin> lm_name ` set removed" and "lr_Compress l \<Longrightarrow> \<not> gz_touches kept name"
  shows "fmlookup fs' name = fmlookup fs name"
  using assms by (simp add: compress_loop_untouched remove_loop_other)

lemma backup_of_copy: "lm_name r = lm_name p @ compressSuffix \<Longrightarrow> \<not> has_suffix (lm_name p) compressSuffix \<Longrightarrow> backup_of p = backup_of r"
  by (simp add: backup_of_def trim_suffix_def)

lemma exec_removed:
  assumes f: "fs' = (if lr_Compress l then snd (compress_loop gz gf kept (snd (remove_loop rf removed fs))) else snd (remove_loop rf removed fs))"
    and d: "distinct (map lm_name (kept @ removed))" and r: "r \<in> set removed" and a: "\<forall>k \<in> set kept. backup_of k \<noteq> backup_of r"
  shows "fmlookup fs' (lm_name r) = (if rf (lm_name r) then fmlookup fs (lm_name r) else None)"
proof -
  have "\<not> gz_touches kept (lm_name r)"
    using d r a backup_of_copy [of r] by (force simp: gz_touches_def)
  then have "fmlookup fs' (lm_name r) = fmlookup (snd (remove_loop rf removed fs)) (lm_name r)"
    by (simp add: f compress_loop_untouched)
  then show ?thesis using remove_loop_gone [OF r, of rf fs] remove_loop_failed [of rf "lm_name r" removed fs] by simp
qed

lemma exec_kept:
  assumes f: "fs' = (if lr_Compress l then snd (compress_loop gz gf kept (snd (remove_loop rf removed fs))) else snd (remove_loop rf removed fs))"
    and d: "distinct (map lm_name (kept @ removed))" and k: "k \<in> set kept" and c: "fmlookup fs (lm_name k) = Some c"
  shows "if lr_Compress l \<and> \<not> has_suffix (lm_name k) compressSuffix then compressed_to gz (gf (lm_name k)) (lm_name k) c fs'
    else (\<exists>p \<in> set kept. lr_Compress l \<and> lm_name k = lm_name p @ compressSuffix) \<or> fmlookup fs' (lm_name k) = Some c"
proof -
  let ?fs = "snd (remove_loop rf removed fs)"
  have n: "lm_name k \<notin> lm_name ` set removed" using d k by auto
  have r: "fmlookup ?fs (lm_name k) = Some c" using remove_loop_other [OF n, of rf fs] c by simp
  show ?thesis
  proof (cases "lr_Compress l \<and> \<not> has_suffix (lm_name k) compressSuffix")
    case True
    with f compress_loop_to [OF _ k _ r, of gz gf] d show ?thesis by simp
  next
    case False
    have "fmlookup fs' (lm_name k) = Some c" if p: "\<not> (\<exists>p \<in> set kept. lr_Compress l \<and> lm_name k = lm_name p @ compressSuffix)"
    proof (cases "lr_Compress l")
      case True
      have "\<not> gz_touches kept (lm_name k)" using p True False by (auto simp: gz_touches_def)
      from compress_loop_untouched [OF this, of gz gf ?fs] f r True show ?thesis by simp
    qed (use f r in simp)
    with False show ?thesis by auto
  qed
qed

section \<open>Property\<close>

definition newest_first :: "log_meta list \<Rightarrow> log_meta list" where
  "newest_first = sort_key (\<lambda>m. - lm_time m)"

lemma newest_first_sorts: "sorts newest_first"
proof -
  have "sorted_wrt (\<lambda>a b. lm_time b \<le> lm_time a) (newest_first xs)" for xs
    using sorted_sort_key [of "\<lambda>m. - lm_time m" xs] by (simp add: newest_first_def sorted_map)
  then show ?thesis by (simp add: sorts_def newest_first_def)
qed

definition demo_parse :: "string \<Rightarrow> int option" where
  "demo_parse s = (if s = ''1'' then Some 1 else if s = ''2'' then Some 2 else None)"

definition demo_entries :: "dir_entry list" where
  "demo_entries = [(''x.log'', False, True), (''x_1.log'', False, True), (''x_2.log'', False, True),
     (''x_err.log'', False, True)]"



definition demo_files :: "nat files" where
  "demo_files = fmap_of_list [(''x.log'', [1]), (''x_1.log'', [7]), (''x_2.log'', [8]), (''x_err.log'', [9])]"


end
