(* ===== verification/Log_Background.thy ===== *)
theory Log_Background
  imports Log_Cleanup
begin

text \<open>
  The goroutine of \<^verbatim>\<open>common/logger/log_rollover.go\<close> beside the callers: \<open>Write\<close>, \<open>Rotate\<close>, \<open>Sync\<close> and \<open>Close\<close> hold the
  mutex and are one step each; \<open>run\<close> does not, so that the listing, every removal and every compression of
  \<open>rolloverExec\<close> are steps of their own, between any calls.
\<close>

section \<open>Steps\<close>

text \<open>What is outside: formatting and parsing of times, the sorting, the compression and \<open>os.Args[0]\<close>.\<close>

record 'b log_lib =
  lib_fmt :: "int \<Rightarrow> string"
  lib_parse :: "string \<Rightarrow> int option"
  lib_sorter :: "log_meta list \<Rightarrow> log_meta list"
  lib_gz :: "'b list \<Rightarrow> 'b list"
  lib_prog :: string

text \<open>
  \<open>run\<close>: not started, in the \<open>select\<close>, in \<open>rolloverExec\<close> before \<open>loadFileList\<close>, with the backups to keep and those
  still to remove, with those still to compress, returned; a panic ends the program.
\<close>

datatype bg_phase =
    BIdle | BWait | BListing | BRemoving "log_meta list" "log_meta list" | BCompressing "log_meta list" | BEnd | BPanicked

datatype bg_choice =
    BgDone | BgSignal | BgListed int "dir_entry list option" | BgGo | BgRemoved bool | BgCompressed "gz_step \<Rightarrow> bool"

text \<open>A receive from the closed channel is ready at all times, like the cancelled context.\<close>

fun bg_at :: "'b log_lib \<Rightarrow> bg_phase \<Rightarrow> bg_choice \<Rightarrow> log_rollover \<times> 'b files \<Rightarrow> (bg_phase \<times> log_rollover \<times> 'b files) option" where
  "bg_at lib BIdle ch (l, fs) = None"
| "bg_at lib BWait ch (l, fs) = (case ch of
     BgDone \<Rightarrow> if lr_stopped l then Some (BEnd, l, fs) else None
   | BgSignal \<Rightarrow> if lr_signal l \<or> lr_stopped l
       then Some (if lr_MaxAge l = 0 \<and> lr_MaxBackups l = 0 \<and> \<not> lr_Compress l then BWait else BListing, l\<lparr>lr_signal := False\<rparr>, fs)
       else None
   | _ \<Rightarrow> None)"
| "bg_at lib BListing ch (l, fs) = (case ch of
     BgListed now entries \<Rightarrow> Some (case entries of
         None \<Rightarrow> BWait
       | Some es \<Rightarrow> (case load_file_list (lib_parse lib) (lib_sorter lib) (lib_prog lib) l es of
             None \<Rightarrow> BPanicked
           | Some metas \<Rightarrow> (let (kept, removed) = retention l now metas in BRemoving kept removed)), l, fs)
   | _ \<Rightarrow> None)"
| "bg_at lib (BRemoving kept []) ch (l, fs) = (case ch of
     BgGo \<Rightarrow> Some (if lr_Compress l then BCompressing kept else BWait, l, fs) | _ \<Rightarrow> None)"
| "bg_at lib (BRemoving kept (m # ms)) ch (l, fs) = (case ch of
     BgRemoved fails \<Rightarrow> Some (BRemoving kept ms, l, if fails then fs else fmdrop (lm_name m) fs) | _ \<Rightarrow> None)"
| "bg_at lib (BCompressing []) ch (l, fs) = (case ch of BgGo \<Rightarrow> Some (BWait, l, fs) | _ \<Rightarrow> None)"
| "bg_at lib (BCompressing (m # ms)) ch (l, fs) =
     (if has_suffix (lm_name m) compressSuffix then (case ch of BgGo \<Rightarrow> Some (BCompressing ms, l, fs) | _ \<Rightarrow> None)
      else (case ch of
         BgCompressed fails \<Rightarrow> Some (BCompressing ms, l,
           snd (compress_file (lib_gz lib) fails (lm_name m) (lm_name m @ compressSuffix) fs))
       | _ \<Rightarrow> None))"
| "bg_at lib BEnd ch (l, fs) = None"
| "bg_at lib BPanicked ch (l, fs) = None"

record 'b log_system =
  ls_log :: log_rollover
  ls_files :: "'b files"
  ls_bg :: bg_phase

definition new_log_system :: "string \<Rightarrow> int \<Rightarrow> int \<Rightarrow> int \<Rightarrow> bool \<Rightarrow> 'b files \<Rightarrow> 'b log_system" where
  "new_log_system filename maxSize maxBackups maxAge compress fs =
     \<lparr>ls_log = new_log_rollover filename maxSize maxBackups maxAge compress, ls_files = fs, ls_bg = BIdle\<rparr>"

datatype 'b log_label = LogWrite "'b list" sys | LogRotate sys | LogSync sys | LogClose sys | LogBg bg_choice

text \<open>The end of a call, which may have started the goroutine.\<close>

definition log_called :: "log_rollover \<Rightarrow> 'b files \<Rightarrow> 'b log_system \<Rightarrow> 'b log_system" where
  "log_called l fs s = s\<lparr>ls_log := l, ls_files := fs, ls_bg := (if lr_started l \<and> ls_bg s = BIdle then BWait else ls_bg s)\<rparr>"

fun log_do :: "'b log_lib \<Rightarrow> 'b log_label \<Rightarrow> 'b log_system \<Rightarrow> 'b log_system option" where
  "log_do lib lab s =
     (if ls_bg s = BPanicked then None
      else case lab of
        LogWrite p e \<Rightarrow> (case log_write (lib_fmt lib) (lib_prog lib) p e (ls_log s) (ls_files s) of
            (n, err, l, fs) \<Rightarrow> Some (log_called l fs s))
      | LogRotate e \<Rightarrow> (case rotate_file (lib_fmt lib) (lib_prog lib) e (ls_log s) (ls_files s) of
            (err, l, fs) \<Rightarrow> Some (log_called l fs s))
      | LogSync e \<Rightarrow> Some s
      | LogClose e \<Rightarrow> (case log_close e (ls_log s) of (err, l) \<Rightarrow> Some (log_called l (ls_files s) s))
      | LogBg ch \<Rightarrow> (case bg_at lib (ls_bg s) ch (ls_log s, ls_files s) of
            None \<Rightarrow> None
          | Some (ph, l, fs) \<Rightarrow> Some \<lparr>ls_log = l, ls_files = fs, ls_bg = ph\<rparr>))"

primrec log_exec :: "'b log_lib \<Rightarrow> 'b log_label list \<Rightarrow> 'b log_system \<Rightarrow> 'b log_system option" where
  "log_exec lib [] s = Some s"
| "log_exec lib (x # xs) s = (case log_do lib x s of None \<Rightarrow> None | Some s' \<Rightarrow> log_exec lib xs s')"

lemma log_exec_append:
  "log_exec lib (xs @ ys) s = (case log_exec lib xs s of None \<Rightarrow> None | Some t \<Rightarrow> log_exec lib ys t)"
  by (induction xs arbitrary: s) (auto split: option.splits)

section \<open>What a call keeps\<close>

definition log_conf :: "log_rollover \<Rightarrow> string \<times> int \<times> int \<times> bool" where
  "log_conf l = (lr_Filename l, lr_MaxBackups l, lr_MaxAge l, lr_Compress l)"

text \<open>The settings stay, a signal stays, and whoever signals has started the goroutine and has a file.\<close>

definition log_keeps :: "log_rollover \<Rightarrow> log_rollover \<Rightarrow> bool" where
  "log_keeps l l' \<longleftrightarrow> log_conf l' = log_conf l \<and> lr_stopped l' = lr_stopped l \<and> (lr_started l \<longrightarrow> lr_started l') \<and>
     (lr_signal l \<longrightarrow> lr_signal l') \<and> (lr_signal l' \<longrightarrow> lr_signal l \<or> lr_started l') \<and>
     (lr_file l \<noteq> None \<longrightarrow> lr_file l' \<noteq> None) \<and> (lr_started l' \<longrightarrow> lr_started l \<or> lr_file l' \<noteq> None)"

lemma log_keeps_refl [simp]: "log_keeps l l"
  by (simp add: log_keeps_def)

lemma log_keeps_trans: "log_keeps a b \<Longrightarrow> log_keeps b c \<Longrightarrow> log_keeps a c"
  by (auto simp: log_keeps_def)

lemma log_keeps_size [simp]: "log_keeps l (l'\<lparr>lr_size := n\<rparr>) = log_keeps l l'"
  by (simp add: log_keeps_def log_conf_def)

lemma close_file_keeps: "close_file e l = (r, l') \<Longrightarrow> log_keeps l l'"
  by (auto simp: close_file_def log_keeps_def log_conf_def split: option.splits handle.splits)

lemma open_new_keeps: "open_new fmt prog e l fs = (r, l', fs') \<Longrightarrow> log_keeps l l' \<and> (r = None \<longrightarrow> lr_file l' \<noteq> None)"
  by (auto simp: open_new_def Let_def log_keeps_def log_conf_def split: if_splits)

lemma signal_keeps: "lr_file l \<noteq> None \<Longrightarrow> log_keeps l (signal_rollover l)"
  by (simp add: log_keeps_def log_conf_def signal_rollover_def)

lemma rotate_keeps:
  assumes "rotate_file fmt prog e l fs = (r, l', fs')"
  shows "log_keeps l l' \<and> (r = None \<longrightarrow> lr_signal l')"
proof -
  obtain r1 l1 where 1: "close_file e l = (r1, l1)" by fastforce
  obtain r2 l2 fs2 where 2: "open_new fmt prog e l1 fs = (r2, l2, fs2)" by (metis prod.exhaust)
  have k: "log_keeps l l1" "log_keeps l1 l2" "r2 = None \<longrightarrow> lr_file l2 \<noteq> None"
    using close_file_keeps [OF 1] open_new_keeps [OF 2] by blast+
  show ?thesis
  proof (cases "r1 = None \<and> r2 = None")
    case True
    then have "l' = signal_rollover l2" using assms 1 2 by (simp add: rotate_file_def)
    with k True log_keeps_trans signal_keeps show ?thesis by (auto simp: signal_rollover_def)
  next
    case False
    then have "r \<noteq> None \<and> (l' = l1 \<or> l' = l2)" using assms 1 2 by (cases r1; cases r2) (auto simp: rotate_file_def)
    with k(1,2) log_keeps_trans show ?thesis by blast
  qed
qed

lemma try_open_keeps:
  assumes "try_open_or_create fmt prog n e l fs = (r, l', fs')"
  shows "log_keeps l l'"
proof -
  have "log_keeps l (signal_rollover (l\<lparr>lr_file := Some HOpen, lr_size := k\<rparr>))" for k
    by (simp add: log_keeps_def log_conf_def signal_rollover_def)
  with assms rotate_keeps open_new_keeps show ?thesis
    by (fastforce simp: try_open_or_create_def split: if_split_asm option.split_asm)
qed

lemma write_keeps:
  assumes "log_write fmt prog p e l fs = (n, err, l', fs')"
  shows "log_keeps l l'"
proof (cases "int (length p) > max_file_size l")
  case True
  with assms show ?thesis by (simp add: log_write_def Let_def)
next
  case False
  obtain r1 l1 fs1 where 1: "(if lr_file l = None then try_open_or_create fmt prog (int (length p)) e l fs else (None, l, fs)) = (r1, l1, fs1)"
    by (metis prod.exhaust)
  obtain r2 l2 fs2 where 2: "(if int (length p) + lr_size l1 > max_file_size l1 then rotate_file fmt prog e l1 fs1 else (None, l1, fs1)) = (r2, l2, fs2)"
    by (metis prod.exhaust)
  have "log_keeps l l1" "log_keeps l1 l2"
    using 1 2 try_open_keeps rotate_keeps by (metis log_keeps_refl prod.inject)+
  then have "log_keeps l l1" "log_keeps l l2" using log_keeps_trans by blast+
  moreover have "l' = l1 \<or> (\<exists>k. l' = l2 \<or> l' = l2\<lparr>lr_size := k\<rparr>)"
    using assms False 1 2 by (cases r1; cases r2) (auto simp: log_write_def Let_def split: prod.splits)
  ultimately show ?thesis by auto
qed

text \<open>A log whose file is closed answers every call with an error and stays as it is.\<close>

lemma closed_log_refuses:
  assumes "lr_file l = Some HClosed"
  shows "\<exists>err. log_write fmt prog p e l fs = (0, Some err, l, fs)" and "rotate_file fmt prog e l fs = (Some FileClosed, l, fs)"
    and "log_close e l = (Some FileClosed, l)" and "log_sync e l = Some FileClosed"
proof -
  show r: "rotate_file fmt prog e l fs = (Some FileClosed, l, fs)" for e
    using assms by (simp add: rotate_file_def close_file_def)
  show "\<exists>err. log_write fmt prog p e l fs = (0, Some err, l, fs)"
    using assms r by (simp add: log_write_def file_write_def Let_def)
qed (use assms in \<open>simp_all add: log_close_def close_file_def log_sync_def\<close>)

section \<open>The invariant\<close>

fun bg_metas :: "bg_phase \<Rightarrow> log_meta set" where
  "bg_metas (BRemoving kept removed) = set kept \<union> set removed"
| "bg_metas (BCompressing kept) = set kept"
| "bg_metas BIdle = {}" | "bg_metas BWait = {}" | "bg_metas BListing = {}" | "bg_metas BEnd = {}" | "bg_metas BPanicked = {}"

text \<open>All that the goroutine is about to remove or to compress is a backup of this log.\<close>

definition backups_only :: "'b log_lib \<Rightarrow> log_rollover \<Rightarrow> bg_phase \<Rightarrow> bool" where
  "backups_only lib l ph \<longleftrightarrow> (\<forall>m \<in> bg_metas ph. backup_time (lib_parse lib) (lib_prog lib) l (lm_name m) (lm_time m))"

definition log_sys_inv :: "'b log_lib \<Rightarrow> 'b log_system \<Rightarrow> bool" where
  "log_sys_inv lib s \<longleftrightarrow> log_inv (lib_prog lib) (ls_log s) (ls_files s) \<and>
     (lr_started (ls_log s) \<longrightarrow> lr_file (ls_log s) \<noteq> None) \<and>
     (lr_stopped (ls_log s) \<longrightarrow> lr_started (ls_log s) \<and> lr_file (ls_log s) = Some HClosed) \<and>
     (lr_signal (ls_log s) \<longrightarrow> lr_started (ls_log s)) \<and> (ls_bg s = BIdle \<longleftrightarrow> \<not> lr_started (ls_log s)) \<and>
     (ls_bg s = BEnd \<longrightarrow> lr_stopped (ls_log s)) \<and>
     backups_only lib (ls_log s) (ls_bg s)"

lemma conf_backups: "log_conf l' = log_conf l \<Longrightarrow> backups_only lib l' ph = backups_only lib l ph"
  by (simp add: backups_only_def backup_time_def log_conf_def log_prefix_def active_def log_filename_def)

lemma conf_prefix: "log_conf l' = log_conf l \<Longrightarrow> log_prefix prog l' = log_prefix prog l"
  by (simp add: log_conf_def log_prefix_def active_def log_filename_def)

lemma conf_signal [simp]: "log_conf (l\<lparr>lr_signal := b\<rparr>) = log_conf l" "log_inv prog (l\<lparr>lr_signal := b\<rparr>) fs = log_inv prog l fs"
  by (simp_all add: log_conf_def log_inv_def)

lemmas prefix_signal [simp] = conf_prefix [OF conf_signal(1)] conf_backups [OF conf_signal(1)]

lemma bg_signal:
  assumes "bg_at lib ph ch (l, fs) = Some (ph', l', fs')"
  shows "(l' = l \<or> ph = BWait \<and> l' = l\<lparr>lr_signal := False\<rparr>) \<and> ph \<noteq> BIdle \<and> ph' \<noteq> BIdle \<and> (ph' = BEnd \<longrightarrow> lr_stopped l') \<and>
    ((\<exists>now entries. ch = BgListed now entries) \<longleftrightarrow> ph = BListing)"
  using assms by (cases "(lib, ph, ch, l, fs)" rule: bg_at.cases)
    (auto simp: Let_def split: bg_choice.split_asm if_split_asm option.split_asm prod.split_asm)

lemma bg_files:
  assumes "bg_at lib ph ch (l, fs) = Some (ph', l', fs')"
  shows "fs' = fs \<or> (\<exists>m \<in> bg_metas ph. fs' = fmdrop (lm_name m) fs \<or>
    \<not> has_suffix (lm_name m) compressSuffix \<and> (\<exists>fails. fs' = snd (compress_file (lib_gz lib) fails (lm_name m) (lm_name m @ compressSuffix) fs)))"
  using assms by (cases "(lib, ph, ch, l, fs)" rule: bg_at.cases)
    (auto split: bg_choice.split_asm if_split_asm)

lemma bg_touches_backups:
  assumes "bg_at lib ph ch (l, fs) = Some (ph', l', fs')" and "backups_only lib l ph"
    and "\<not> backup_file (lib_parse lib) (lib_prog lib) l name"
  shows "fmlookup fs' name = fmlookup fs name"
proof -
  have "name \<noteq> lm_name m" "\<not> has_suffix (lm_name m) compressSuffix \<Longrightarrow> name \<noteq> lm_name m @ compressSuffix" if "m \<in> bg_metas ph" for m
    using assms(2,3) that backup_time_file backup_time_gz unfolding backups_only_def by blast+
  with bg_files [OF assms(1)] show ?thesis by (auto simp: compress_file_other)
qed

lemma bg_backups_only:
  assumes "bg_at lib ph ch (l, fs) = Some (ph', l', fs')" and "backups_only lib l ph" and "sorts (lib_sorter lib)"
  shows "backups_only lib l' ph'"
proof (cases "ph = BListing")
  case True
  then obtain now entries where c: "ch = BgListed now entries" "l' = l" using assms(1) bg_signal [OF assms(1)] by auto
  show ?thesis
  proof (cases entries)
    case None
    then show ?thesis using assms(1) True c by (simp add: backups_only_def)
  next
    case (Some es)
    show ?thesis
    proof (cases "load_file_list (lib_parse lib) (lib_sorter lib) (lib_prog lib) l es")
      case None
      then show ?thesis using assms(1) True c Some by (simp add: backups_only_def)
    next
      case (Some metas)
      obtain kept removed where r: "retention l now metas = (kept, removed)" by fastforce
      have "ph' = BRemoving kept removed" using assms(1) True c \<open>entries = Some es\<close> Some r by simp
      with retention_set [OF r] load_backups [OF Some assms(3)] c(2) show ?thesis by (simp add: backups_only_def)
    qed
  qed
next
  case False
  then show ?thesis using assms(1,2) by (cases "(lib, ph, ch, l, fs)" rule: bg_at.cases)
    (auto simp: backups_only_def split: bg_choice.split_asm if_split_asm)
qed

lemma bg_inv:
  assumes "bg_at lib (ls_bg s) ch (ls_log s, ls_files s) = Some (ph, l, fs)" and inv: "log_sys_inv lib s" and "sorts (lib_sorter lib)"
  shows "log_sys_inv lib \<lparr>ls_log = l, ls_files = fs, ls_bg = ph\<rparr>"
proof -
  have b: "backups_only lib (ls_log s) (ls_bg s)" using inv by (simp add: log_sys_inv_def)
  from bg_touches_backups [OF assms(1) b active_no_backup]
  have "fmlookup fs (active (lib_prog lib) (ls_log s)) = fmlookup (ls_files s) (active (lib_prog lib) (ls_log s))" .
  then have i: "log_inv (lib_prog lib) (ls_log s) fs" using inv by (simp add: log_sys_inv_def log_inv_def)
  have "log_inv (lib_prog lib) l fs" "lr_started l = lr_started (ls_log s)" "lr_file l = lr_file (ls_log s)"
      "lr_stopped l = lr_stopped (ls_log s)" "lr_signal l \<Longrightarrow> lr_signal (ls_log s)" "ph \<noteq> BIdle" "ls_bg s \<noteq> BIdle" "ph = BEnd \<Longrightarrow> lr_stopped l"
    using bg_signal [OF assms(1)] i by auto
  with bg_backups_only [OF assms(1) b assms(3)] inv show ?thesis by (simp add: log_sys_inv_def)
qed

lemma log_called_inv:
  assumes "log_sys_inv lib s" and "log_keeps (ls_log s) l" and "log_inv (lib_prog lib) l fs"
    and "lr_file (ls_log s) = Some HClosed \<Longrightarrow> lr_file l = Some HClosed"
  shows "log_sys_inv lib (log_called l fs s)"
proof -
  have p: "backups_only lib l ph = backups_only lib (ls_log s) ph" for ph
    by (rule conf_backups) (use assms(2) in \<open>simp add: log_keeps_def\<close>)
  let ?ph = "ls_bg (log_called l fs s)"
  have b: "backups_only lib l ?ph"
    using assms(1) unfolding p by (auto simp: backups_only_def log_sys_inv_def log_called_def)
  have "?ph = BIdle \<longleftrightarrow> \<not> lr_started l" "?ph = BEnd \<longrightarrow> lr_stopped l"
    using assms(1,2) by (auto simp: log_sys_inv_def log_keeps_def log_called_def)
  moreover have "ls_log (log_called l fs s) = l" "ls_files (log_called l fs s) = fs" by (simp_all add: log_called_def)
  moreover have "lr_started l \<longrightarrow> lr_file l \<noteq> None" "lr_signal l \<longrightarrow> lr_started l"
    using assms(1,2) by (auto simp: log_sys_inv_def log_keeps_def)
  moreover have "lr_stopped l \<longrightarrow> lr_started l \<and> lr_file l = Some HClosed"
    using assms(1,2,4) by (auto simp: log_sys_inv_def log_keeps_def)
  ultimately show ?thesis using b assms(3) by (simp add: log_sys_inv_def)
qed

lemma log_close_inv:
  assumes inv: "log_sys_inv lib s" and "log_close e (ls_log s) = (err, l)"
  shows "log_sys_inv lib (log_called l (ls_files s) s)"
proof -
  obtain r l1 where c: "close_file e (ls_log s) = (r, l1)" by fastforce
  have k: "log_keeps (ls_log s) l1" using close_file_keeps [OF c] .
  have n: "lr_file l1 \<noteq> Some HOpen" using close_file_not_open [OF c] .
  have i1: "log_sys_inv lib (log_called l1 (ls_files s) s)"
    by (rule log_called_inv [OF inv k not_open_inv [OF n]]) (use c in \<open>auto simp: close_file_def\<close>)
  show ?thesis
  proof (cases "r = None \<and> lr_started l1")
    case True
    then have "l = l1\<lparr>lr_stopped := True\<rparr>" using assms(2) c by (simp add: log_close_def)
    moreover have "lr_file l1 = Some HClosed" using i1 n True by (cases "lr_file l1"; cases "the (lr_file l1)") (auto simp: log_sys_inv_def log_called_def)
    moreover have "backups_only lib (l1\<lparr>lr_stopped := True\<rparr>) ph = backups_only lib l1 ph" for ph
      by (rule conf_backups) (simp add: log_conf_def)
    ultimately show ?thesis using i1 True by (auto simp: log_sys_inv_def log_called_def log_inv_def)
  next
    case False
    then have "l = l1" using assms(2) c by (cases r) (auto simp: log_close_def)
    with i1 show ?thesis by simp
  qed
qed

lemma log_do_inv:
  assumes "log_do lib lab s = Some s'" and inv: "log_sys_inv lib s" and "sorts (lib_sorter lib)"
  shows "log_sys_inv lib s'"
proof (cases lab)
  case (LogWrite p e)
  obtain n err l fs where w: "log_write (lib_fmt lib) (lib_prog lib) p e (ls_log s) (ls_files s) = (n, err, l, fs)" by (metis prod.exhaust)
  have "lr_file l = Some HClosed" if "lr_file (ls_log s) = Some HClosed"
    using closed_log_refuses(1) [OF that, of "lib_fmt lib" "lib_prog lib" p e "ls_files s"] w that by auto
  with log_called_inv [OF inv write_keeps [OF w]] write_inv [OF w] inv w assms(1) LogWrite show ?thesis
    by (auto simp: log_sys_inv_def split: if_splits)
next
  case (LogRotate e)
  obtain err l fs where r: "rotate_file (lib_fmt lib) (lib_prog lib) e (ls_log s) (ls_files s) = (err, l, fs)" by (metis prod.exhaust)
  have "lr_file l = Some HClosed" if "lr_file (ls_log s) = Some HClosed"
    using closed_log_refuses(2) [OF that, of "lib_fmt lib" "lib_prog lib" e "ls_files s"] r that by simp
  with log_called_inv [OF inv _ rotate_inv [OF r]] rotate_keeps [OF r] r assms(1) LogRotate show ?thesis
    by (auto split: if_splits)
next
  case (LogClose e)
  with assms(1) log_close_inv [OF inv] show ?thesis by (auto split: if_splits prod.splits)
next
  case (LogSync e)
  with assms show ?thesis by (simp split: if_splits)
next
  case (LogBg ch)
  with assms(1) bg_inv [OF _ inv assms(3)] show ?thesis by (auto split: if_splits option.splits)
qed

lemma log_exec_inv:
  assumes "sorts (lib_sorter lib)"
  shows "log_exec lib ks s = Some t \<Longrightarrow> log_sys_inv lib s \<Longrightarrow> log_sys_inv lib t"
  by (induction ks arbitrary: s) (auto simp del: log_do.simps split: option.splits dest: log_do_inv [OF _ _ assms])

lemma new_log_system_inv: "log_sys_inv lib (new_log_system filename maxSize maxBackups maxAge compress fs)"
  by (simp add: log_sys_inv_def new_log_system_def new_log_rollover_def log_inv_def backups_only_def)

section \<open>Signals\<close>

definition cleans_up :: "log_rollover \<Rightarrow> bool" where
  "cleans_up l \<longleftrightarrow> lr_MaxAge l \<noteq> 0 \<or> lr_MaxBackups l \<noteq> 0 \<or> lr_Compress l"

fun listing :: "'b log_label \<Rightarrow> bool" where
  "listing (LogBg ch) \<longleftrightarrow> (case ch of BgListed now entries \<Rightarrow> True | _ \<Rightarrow> False)"
| "listing (LogWrite p e) \<longleftrightarrow> False" | "listing (LogRotate e) \<longleftrightarrow> False" | "listing (LogSync e) \<longleftrightarrow> False" | "listing (LogClose e) \<longleftrightarrow> False"

text \<open>A listing is due: the signal is in the channel, or the goroutine has taken it and has not read the directory.\<close>

definition listing_due :: "'b log_system \<Rightarrow> bool" where
  "listing_due s \<longleftrightarrow> lr_signal (ls_log s) \<or> ls_bg s = BListing"

lemma log_do_conf:
  assumes "log_do lib lab s = Some s'"
  shows "log_conf (ls_log s') = log_conf (ls_log s)"
proof -
  have "log_conf l = log_conf (ls_log s)" if "log_close e (ls_log s) = (err, l)" for e err l
    using that close_file_keeps [of e "ls_log s"]
    by (cases "close_file e (ls_log s)") (auto simp: log_close_def log_keeps_def log_conf_def split: option.splits if_splits)
  then show ?thesis using assms
    by (cases lab) (auto simp: log_called_def log_keeps_def dest!: write_keeps rotate_keeps bg_signal split: if_splits prod.splits option.splits)
qed

lemma log_exec_conf: "log_exec lib ks s = Some t \<Longrightarrow> log_conf (ls_log t) = log_conf (ls_log s)"
  by (induction ks arbitrary: s) (auto simp del: log_do.simps split: option.splits dest: log_do_conf)

lemma call_keeps_due:
  assumes "listing_due s" and "log_keeps (ls_log s) l \<or> (\<exists>l1. log_keeps (ls_log s) l1 \<and> l = l1\<lparr>lr_stopped := True\<rparr>)"
  shows "listing_due (log_called l fs s)"
  using assms by (auto simp: listing_due_def log_called_def log_keeps_def)

lemma log_do_due:
  assumes "log_do lib lab s = Some s'" and "listing_due s" and "\<not> listing lab" and "cleans_up (ls_log s)"
  shows "listing_due s'"
proof (cases lab)
  case (LogWrite p e)
  with assms(1,2) show ?thesis by (auto intro!: call_keeps_due dest!: write_keeps split: if_splits prod.splits)
next
  case (LogRotate e)
  with assms(1,2) show ?thesis by (auto intro!: call_keeps_due dest!: rotate_keeps split: if_splits prod.splits)
next
  case (LogClose e)
  with assms(1,2) show ?thesis
    by (auto simp: log_close_def intro!: call_keeps_due dest!: close_file_keeps split: if_splits prod.splits option.splits)
next
  case (LogSync e)
  with assms(1,2) show ?thesis by (simp split: if_splits)
next
  case (LogBg ch)
  with assms obtain ph l fs where b: "bg_at lib (ls_bg s) ch (ls_log s, ls_files s) = Some (ph, l, fs)"
      "s' = \<lparr>ls_log = l, ls_files = fs, ls_bg = ph\<rparr>" by (auto split: if_splits option.splits)
  have "ls_bg s \<noteq> BListing" using bg_signal [OF b(1)] assms(3) LogBg by auto
  moreover have "ph = BListing" if "ls_bg s = BWait" "l \<noteq> ls_log s"
    using b(1) that assms(4) by (auto simp: cleans_up_def split: bg_choice.split_asm if_splits)
  moreover have "l = ls_log s \<or> ls_bg s = BWait" using bg_signal [OF b(1)] by blast
  ultimately have "lr_signal l \<or> ph = BListing" using assms(2) unfolding listing_due_def by blast
  then show ?thesis by (simp add: listing_due_def b(2))
qed

lemma cleans_up_conf: "log_conf l' = log_conf l \<Longrightarrow> cleans_up l' = cleans_up l"
  by (simp add: log_conf_def cleans_up_def)

lemma log_exec_due:
  assumes "log_exec lib ks s = Some t" and "listing_due s" and "\<forall>x \<in> set ks. \<not> listing x" and "cleans_up (ls_log s)"
  shows "listing_due t \<and> cleans_up (ls_log t)"
  using assms
proof (induction ks arbitrary: s)
  case (Cons k ks)
  then obtain u where u: "log_do lib k s = Some u" "log_exec lib ks u = Some t" by (auto simp del: log_do.simps split: option.splits)
  have "listing_due u" using log_do_due [OF u(1) Cons.prems(2)] Cons.prems(3,4) by simp
  moreover have "cleans_up (ls_log u)" using cleans_up_conf [OF log_do_conf [OF u(1)]] Cons.prems(4) by simp
  ultimately show ?case using Cons.IH [OF u(2)] Cons.prems(3) by simp
qed simp

text \<open>The goroutine comes back to the \<open>select\<close> by its own steps.\<close>

fun bg_work :: "bg_phase \<Rightarrow> nat" where
  "bg_work (BRemoving kept removed) = length removed + length kept + 2"
| "bg_work (BCompressing kept) = length kept + 1"
| "bg_work BListing = 1" | "bg_work BIdle = 0" | "bg_work BWait = 0" | "bg_work BEnd = 0" | "bg_work BPanicked = 0"

lemma bg_step_back:
  assumes "0 < bg_work (ls_bg s)"
  shows "\<exists>ch s'. log_do lib (LogBg ch) s = Some s' \<and> bg_work (ls_bg s') < bg_work (ls_bg s) \<and>
    ls_bg s' \<notin> {BIdle, BEnd, BPanicked} \<and> ls_log s' = ls_log s"
proof (cases "ls_bg s")
  case BListing
  then show ?thesis by (intro exI [of _ "BgListed 0 None"] exI [of _ "s\<lparr>ls_bg := BWait\<rparr>"]) simp
next
  case (BRemoving kept removed)
  show ?thesis
  proof (cases removed)
    case Nil
    with BRemoving show ?thesis
      by (intro exI [of _ BgGo] exI [of _ "s\<lparr>ls_bg := if lr_Compress (ls_log s) then BCompressing kept else BWait\<rparr>"]) simp
  next
    case (Cons m ms)
    with BRemoving show ?thesis
      by (intro exI [of _ "BgRemoved True"] exI [of _ "s\<lparr>ls_bg := BRemoving kept ms\<rparr>"]) simp
  qed
next
  case (BCompressing kept)
  show ?thesis
  proof (cases kept)
    case Nil
    with BCompressing show ?thesis by (intro exI [of _ BgGo] exI [of _ "s\<lparr>ls_bg := BWait\<rparr>"]) simp
  next
    case (Cons m ms)
    have "\<exists>ch fs. log_do lib (LogBg ch) s = Some (s\<lparr>ls_bg := BCompressing ms, ls_files := fs\<rparr>)"
    proof (cases "has_suffix (lm_name m) compressSuffix")
      case True
      then have "log_do lib (LogBg BgGo) s = Some (s\<lparr>ls_bg := BCompressing ms, ls_files := ls_files s\<rparr>)" using BCompressing Cons by simp
      then show ?thesis by blast
    next
      case False
      then have "log_do lib (LogBg (BgCompressed (\<lambda>x. True))) s = Some (s\<lparr>ls_bg := BCompressing ms,
          ls_files := snd (compress_file (lib_gz lib) (\<lambda>x. True) (lm_name m) (lm_name m @ compressSuffix) (ls_files s))\<rparr>)"
        using BCompressing Cons by simp
      then show ?thesis by blast
    qed
    then obtain ch fs where "log_do lib (LogBg ch) s = Some (s\<lparr>ls_bg := BCompressing ms, ls_files := fs\<rparr>)" by blast
    then show ?thesis using BCompressing Cons
      by (intro exI [of _ ch] exI [of _ "s\<lparr>ls_bg := BCompressing ms, ls_files := fs\<rparr>"]) (simp del: log_do.simps)
  qed
qed (use assms in simp_all)

lemma bg_back_to_select:
  assumes "ls_bg s \<notin> {BIdle, BEnd, BPanicked}"
  shows "\<exists>zs s'. length zs \<le> bg_work (ls_bg s) \<and> log_exec lib (map LogBg zs) s = Some s' \<and> ls_bg s' = BWait \<and> ls_log s' = ls_log s"
  using assms
proof (induction "bg_work (ls_bg s)" arbitrary: s rule: less_induct)
  case less
  show ?case
  proof (cases "bg_work (ls_bg s) = 0")
    case True
    then have "ls_bg s = BWait" using less.prems by (cases "ls_bg s") auto
    then show ?thesis by (intro exI [of _ "[]"] exI [of _ s]) simp
  next
    case False
    then obtain ch u where u: "log_do lib (LogBg ch) s = Some u" "bg_work (ls_bg u) < bg_work (ls_bg s)"
        "ls_bg u \<notin> {BIdle, BEnd, BPanicked}" "ls_log u = ls_log s"
      using bg_step_back [of s lib] by blast
    from less.hyps [OF u(2,3)] obtain zs s' where z: "length zs \<le> bg_work (ls_bg u)" "log_exec lib (map LogBg zs) u = Some s'"
        "ls_bg s' = BWait" "ls_log s' = ls_log u" by blast
    then have "length (ch # zs) \<le> bg_work (ls_bg s) \<and> log_exec lib (map LogBg (ch # zs)) s = Some s' \<and> ls_bg s' = BWait \<and> ls_log s' = ls_log s"
      using u by (simp del: log_do.simps)
    then show ?thesis by blast
  qed
qed

section \<open>Panics\<close>

definition plain_ext :: "string \<Rightarrow> log_rollover \<Rightarrow> bool" where
  "plain_ext prog l \<longleftrightarrow> CHR ''_'' \<notin> set (path_ext (log_filename prog l))"

lemma plain_ext_conf: "log_conf l' = log_conf l \<Longrightarrow> plain_ext prog l' = plain_ext prog l"
  by (simp add: log_conf_def plain_ext_def log_filename_def)

lemma bg_no_panic:
  assumes "bg_at lib ph ch (l, fs) = Some (ph', l', fs')" and "plain_ext (lib_prog lib) l"
  shows "ph' \<noteq> BPanicked"
proof -
  have "load_file_list (lib_parse lib) (lib_sorter lib) (lib_prog lib) l es \<noteq> None" for es
    using list_loop_no_panic assms(2) by (auto simp: load_file_list_def plain_ext_def Let_def)
  then show ?thesis using assms(1) by (cases "(lib, ph, ch, l, fs)" rule: bg_at.cases)
    (auto simp: Let_def simp del: not_None_eq split: bg_choice.split_asm if_split_asm option.split_asm prod.split_asm)
qed

lemma log_exec_no_panic:
  assumes "log_exec lib ks s = Some t" and "ls_bg s \<noteq> BPanicked" and "plain_ext (lib_prog lib) (ls_log s)"
  shows "ls_bg t \<noteq> BPanicked \<and> plain_ext (lib_prog lib) (ls_log t)"
  using assms
proof (induction ks arbitrary: s)
  case (Cons k ks)
  then obtain u where u: "log_do lib k s = Some u" "log_exec lib ks u = Some t" by (auto simp del: log_do.simps split: option.splits)
  have "ls_bg u \<noteq> BPanicked"
    using u(1) Cons.prems(2,3) by (cases k) (auto simp: log_called_def dest!: bg_no_panic split: prod.splits option.splits if_splits)
  moreover have "plain_ext (lib_prog lib) (ls_log u)" using plain_ext_conf [OF log_do_conf [OF u(1)]] Cons.prems(3) by simp
  ultimately show ?case using Cons.IH [OF u(2)] by blast
qed simp

section \<open>Without interleaving\<close>

text \<open>When no call comes in between, a round of the goroutine is \<open>rolloverExec\<close>, whatever fails on the way.\<close>

lemma remove_steps:
  "\<exists>zs. log_exec lib (map LogBg zs) \<lparr>ls_log = l, ls_files = fs, ls_bg = BRemoving kept removed\<rparr> =
     Some \<lparr>ls_log = l, ls_files = snd (remove_loop rf removed fs), ls_bg = BRemoving kept []\<rparr>"
proof (induction removed arbitrary: fs)
  case Nil
  show ?case by (rule exI [of _ "[]"]) simp
next
  case (Cons m ms)
  let ?fs = "if rf (lm_name m) then fs else fmdrop (lm_name m) fs"
  from Cons.IH [of ?fs] obtain zs where "log_exec lib (map LogBg zs) \<lparr>ls_log = l, ls_files = ?fs, ls_bg = BRemoving kept ms\<rparr> =
     Some \<lparr>ls_log = l, ls_files = snd (remove_loop rf ms ?fs), ls_bg = BRemoving kept []\<rparr>" by blast
  then show ?case by (intro exI [of _ "BgRemoved (rf (lm_name m)) # zs"]) (auto simp: split_def Let_def)
qed

lemma compress_steps:
  "\<exists>zs. log_exec lib (map LogBg zs) \<lparr>ls_log = l, ls_files = fs, ls_bg = BCompressing kept\<rparr> =
     Some \<lparr>ls_log = l, ls_files = snd (compress_loop (lib_gz lib) gf kept fs), ls_bg = BWait\<rparr>"
proof (induction kept arbitrary: fs)
  case Nil
  show ?case by (rule exI [of _ "[BgGo]"]) simp
next
  case (Cons m ms)
  let ?s = "has_suffix (lm_name m) compressSuffix"
  let ?fs = "if ?s then fs else snd (compress_file (lib_gz lib) (gf (lm_name m)) (lm_name m) (lm_name m @ compressSuffix) fs)"
  from Cons.IH [of ?fs] obtain zs where "log_exec lib (map LogBg zs) \<lparr>ls_log = l, ls_files = ?fs, ls_bg = BCompressing ms\<rparr> =
     Some \<lparr>ls_log = l, ls_files = snd (compress_loop (lib_gz lib) gf ms ?fs), ls_bg = BWait\<rparr>" by blast
  then show ?case by (intro exI [of _ "(if ?s then BgGo else BgCompressed (gf (lm_name m))) # zs"]) (auto simp: split_def Let_def)
qed

lemma round_is_rollover_exec:
  assumes "rollover_exec (lib_parse lib) (lib_sorter lib) (lib_gz lib) (lib_prog lib) now rf gf entries l fs = Some (errs, fs')"
    and "cleans_up l"
  shows "\<exists>zs. log_exec lib (map LogBg zs) \<lparr>ls_log = l, ls_files = fs, ls_bg = BListing\<rparr> = Some \<lparr>ls_log = l, ls_files = fs', ls_bg = BWait\<rparr>"
proof (cases entries)
  case None
  then have "fs' = fs" using assms by (auto simp: rollover_exec_def split: if_splits)
  with None show ?thesis by (intro exI [of _ "[BgListed now None]"]) simp
next
  case (Some es)
  then obtain metas where m: "load_file_list (lib_parse lib) (lib_sorter lib) (lib_prog lib) l es = Some metas"
    using assms by (auto simp: rollover_exec_def cleans_up_def split: bind_splits)
  obtain kept removed where r: "retention l now metas = (kept, removed)" by fastforce
  let ?fs1 = "snd (remove_loop rf removed fs)"
  have fs': "fs' = (if lr_Compress l then snd (compress_loop (lib_gz lib) gf kept ?fs1) else ?fs1)"
    using assms Some m r by (auto simp: rollover_exec_def cleans_up_def split_def Let_def split: if_splits)
  obtain ys where ys: "log_exec lib (map LogBg ys) \<lparr>ls_log = l, ls_files = fs, ls_bg = BRemoving kept removed\<rparr> =
      Some \<lparr>ls_log = l, ls_files = ?fs1, ls_bg = BRemoving kept []\<rparr>" using remove_steps by blast
  have "\<exists>zs. log_exec lib (map LogBg zs) \<lparr>ls_log = l, ls_files = ?fs1, ls_bg = BRemoving kept []\<rparr> =
      Some \<lparr>ls_log = l, ls_files = fs', ls_bg = BWait\<rparr>"
  proof (cases "lr_Compress l")
    case True
    from compress_steps [of lib l ?fs1 kept gf] obtain zs where
      "log_exec lib (map LogBg zs) \<lparr>ls_log = l, ls_files = ?fs1, ls_bg = BCompressing kept\<rparr> =
        Some \<lparr>ls_log = l, ls_files = fs', ls_bg = BWait\<rparr>" using fs' True by auto
    then show ?thesis using True by (intro exI [of _ "BgGo # zs"]) simp
  next
    case False
    then show ?thesis using fs' by (intro exI [of _ "[BgGo]"]) simp
  qed
  then obtain zs where zs: "log_exec lib (map LogBg zs) \<lparr>ls_log = l, ls_files = ?fs1, ls_bg = BRemoving kept []\<rparr> =
      Some \<lparr>ls_log = l, ls_files = fs', ls_bg = BWait\<rparr>" by blast
  have "log_exec lib (map LogBg (BgListed now entries # ys @ zs)) \<lparr>ls_log = l, ls_files = fs, ls_bg = BListing\<rparr> =
      Some \<lparr>ls_log = l, ls_files = fs', ls_bg = BWait\<rparr>"
    using Some m r ys zs by (simp add: log_exec_append)
  then show ?thesis by blast
qed

text \<open>
  After \<open>Close\<close> the \<open>select\<close> finds both the cancelled context and the closed channel, and may pick the channel any
  number of times: the goroutine can clean up as often as it happens to before it returns.
\<close>

lemma cleans_up_after_close:
  assumes "ls_bg s = BWait" and "lr_stopped (ls_log s)" and "cleans_up (ls_log s)" and "\<not> lr_signal (ls_log s)"
  shows "log_exec lib (concat (replicate n [LogBg BgSignal, LogBg (BgListed now None)])) s = Some s"
proof (induction n)
  case (Suc n)
  have "log_exec lib [LogBg BgSignal, LogBg (BgListed now None)] s = Some s"
    using assms by (cases s; cases "ls_log s") (auto simp: cleans_up_def)
  then show ?case using Suc by (simp only: replicate_Suc concat.simps log_exec_append option.case)
qed simp

section \<open>Properties\<close>

text \<open>
  C27: the goroutine and the callers do not disturb each other. In whatever order the calls and the steps of the goroutine
  come, an open file is in the directory and has the size that the log notes; no step of the goroutine touches the
  active file or any file that is not a backup of this log (that has, between the prefix and the extension of the log, a time that can be
  read, with or without \<open>.gz\<close> behind), nor what the calls keep; and after \<open>Close\<close> has stopped
  the goroutine every further call returns an error and changes nothing, so that nothing is sent on the closed
  channel and it is not closed twice. The goroutine does not panic if the extension of the log has no underscore.
\<close>

theorem log_calls_and_clean_up:
  assumes "sorts (lib_sorter lib)" and "log_exec lib ks (new_log_system filename maxSize maxBackups maxAge compress fs) = Some s"
  shows "log_inv (lib_prog lib) (ls_log s) (ls_files s) \<and>
    (\<forall>ch s'. log_do lib (LogBg ch) s = Some s' \<longrightarrow>
       (\<exists>b. ls_log s' = (ls_log s)\<lparr>lr_signal := b\<rparr>) \<and>
       (\<forall>name. \<not> backup_file (lib_parse lib) (lib_prog lib) (ls_log s) name \<longrightarrow> fmlookup (ls_files s') name = fmlookup (ls_files s) name) \<and>
       fmlookup (ls_files s') (active (lib_prog lib) (ls_log s)) = fmlookup (ls_files s) (active (lib_prog lib) (ls_log s))) \<and>
    (lr_stopped (ls_log s) \<longrightarrow> (\<forall>p e.
       (\<exists>err. log_write (lib_fmt lib) (lib_prog lib) p e (ls_log s) (ls_files s) = (0, Some err, ls_log s, ls_files s)) \<and>
       rotate_file (lib_fmt lib) (lib_prog lib) e (ls_log s) (ls_files s) = (Some FileClosed, ls_log s, ls_files s) \<and>
       log_close e (ls_log s) = (Some FileClosed, ls_log s))) \<and>
    (plain_ext (lib_prog lib) (ls_log s) \<longrightarrow> ls_bg s \<noteq> BPanicked)"
proof -
  have inv: "log_sys_inv lib s" using log_exec_inv [OF assms new_log_system_inv] .
  then have b: "backups_only lib (ls_log s) (ls_bg s)" by (simp add: log_sys_inv_def)
  have "(\<exists>b. ls_log s' = (ls_log s)\<lparr>lr_signal := b\<rparr>) \<and>
      (\<forall>name. \<not> backup_file (lib_parse lib) (lib_prog lib) (ls_log s) name \<longrightarrow> fmlookup (ls_files s') name = fmlookup (ls_files s) name)"
    if "log_do lib (LogBg ch) s = Some s'" for ch s'
  proof -
    from that obtain ph l fs where g: "bg_at lib (ls_bg s) ch (ls_log s, ls_files s) = Some (ph, l, fs)" "ls_log s' = l" "ls_files s' = fs"
      by (auto split: if_splits option.splits)
    have "\<exists>b. l = (ls_log s)\<lparr>lr_signal := b\<rparr>"
      using bg_signal [OF g(1)] by (metis log_rollover.surjective log_rollover.update_convs(9))
    with bg_touches_backups [OF g(1) b] g(2,3) show ?thesis by blast
  qed
  moreover have "lr_stopped (ls_log s) \<longrightarrow> lr_file (ls_log s) = Some HClosed" using inv by (simp add: log_sys_inv_def)
  moreover have "ls_bg s \<noteq> BPanicked" if "plain_ext (lib_prog lib) (ls_log s)"
  proof -
    have "log_conf (ls_log s) = log_conf (new_log_rollover filename maxSize maxBackups maxAge compress)"
      using log_exec_conf [OF assms(2)] by (simp add: new_log_system_def)
    then have "plain_ext (lib_prog lib) (new_log_rollover filename maxSize maxBackups maxAge compress)"
      using plain_ext_conf that by blast
    with log_exec_no_panic [OF assms(2)] show ?thesis by (simp add: new_log_system_def)
  qed
  moreover have "log_inv (lib_prog lib) (ls_log s) (ls_files s)" using inv by (simp add: log_sys_inv_def)
  ultimately show ?thesis using closed_log_refuses active_no_backup [of "lib_parse lib" "lib_prog lib" "ls_log s"] by blast
qed

text \<open>
  C28: every rotation is followed by a clean-up. When a rotation has succeeded, the directory is still to be
  read: until the goroutine reads it, no other step takes the signal away, whatever comes in between and
  however many signals fall together; and unless \<open>Close\<close> stops it the goroutine reaches the reading by a bounded
  number of its own steps, whatever it was doing.
\<close>

theorem rotation_is_cleaned_up:
  assumes "sorts (lib_sorter lib)" and "log_exec lib ks (new_log_system filename maxSize maxBackups maxAge compress fs) = Some s"
    and "rotate_file (lib_fmt lib) (lib_prog lib) e (ls_log s) (ls_files s) = (None, l, fs1)" and "cleans_up l"
    and "log_exec lib js (log_called l fs1 s) = Some u" and "\<forall>x \<in> set js. \<not> listing x"
  shows "listing_due u \<and> (\<not> lr_stopped (ls_log u) \<and> ls_bg u \<noteq> BPanicked \<longrightarrow>
    (\<exists>zs v. length zs \<le> bg_work (ls_bg u) + 1 \<and> log_exec lib (map LogBg zs) u = Some v \<and> ls_bg v = BListing))"
proof -
  note inv = log_exec_inv [OF assms(1,2) new_log_system_inv]
  have "log_sys_inv lib (log_called l fs1 s)"
    by (rule log_called_inv [OF inv _ rotate_inv [OF assms(3)]])
      (use rotate_keeps [OF assms(3)] closed_log_refuses(2) assms(3) in \<open>blast, metis option.distinct(1) prod.inject\<close>)
  then have u: "log_sys_inv lib u" using log_exec_inv [OF assms(1,5)] by blast
  have "listing_due (log_called l fs1 s)" using rotate_keeps [OF assms(3)] by (simp add: listing_due_def log_called_def)
  then have due: "listing_due u" "cleans_up (ls_log u)"
    using log_exec_due [OF assms(5) _ assms(6)] assms(4) by (simp_all add: log_called_def)
  moreover have "\<exists>zs v. length zs \<le> bg_work (ls_bg u) + 1 \<and> log_exec lib (map LogBg zs) u = Some v \<and> ls_bg v = BListing"
    if "\<not> lr_stopped (ls_log u)" "ls_bg u \<noteq> BPanicked"
  proof (cases "ls_bg u = BListing")
    case True
    then show ?thesis by (intro exI [of _ "[]"] exI [of _ u]) simp
  next
    case False
    with due(1) have s: "lr_signal (ls_log u)" by (simp add: listing_due_def)
    then have "ls_bg u \<notin> {BIdle, BEnd, BPanicked}" using u that by (auto simp: log_sys_inv_def)
    from bg_back_to_select [OF this, of lib] obtain zs w where w: "length zs \<le> bg_work (ls_bg u)"
      "log_exec lib (map LogBg zs) u = Some w" "ls_bg w = BWait" "ls_log w = ls_log u" by blast
    have "log_exec lib [LogBg BgSignal] w = Some (w\<lparr>ls_log := (ls_log u)\<lparr>lr_signal := False\<rparr>, ls_bg := BListing\<rparr>)"
      using w(3,4) s due(2) by (auto simp: cleans_up_def)
    with w show ?thesis by (intro exI [of _ "zs @ [BgSignal]"]) (simp add: log_exec_append del: log_exec.simps log_do.simps)
  qed
  ultimately show ?thesis by blast
qed

text \<open>Two backups are made and one is too many; the second rotation comes while the goroutine works, then the log is closed.\<close>

definition demo_lib :: "nat log_lib" where
  "demo_lib = \<lparr>lib_fmt = \<lambda>t. if t = 7 then ''1'' else ''2'', lib_parse = demo_parse, lib_sorter = newest_first, lib_gz = id, lib_prog = ''go''\<rparr>"

definition demo_system :: "nat log_system" where
  "demo_system = new_log_system ''logs/x.log'' 1 1 0 False fmempty"

definition demo_calls :: "nat log_label list" where
  "demo_calls = [LogWrite [1] demo_sys, LogRotate demo_sys, LogBg BgSignal, LogWrite [2] demo_sys, LogRotate (demo_sys\<lparr>e_now := 8\<rparr>),
     LogBg (BgListed 0 (Some demo_entries)), LogWrite [3] demo_sys]"

lemma demo_lib_sorts: "sorts (lib_sorter demo_lib)"
  by (simp add: demo_lib_def newest_first_sorts)

theorem log_calls_and_clean_up_witness:
  "\<exists>s. log_exec demo_lib (demo_calls @ [LogBg (BgRemoved False), LogClose demo_sys]) demo_system = Some s \<and>
     fmlookup (ls_files s) ''x.log'' = Some [3] \<and> fmlookup (ls_files s) ''x_2.log'' = Some [2] \<and> fmlookup (ls_files s) ''x_1.log'' = None \<and>
     lr_stopped (ls_log s) \<and> log_close demo_sys (ls_log s) = (Some FileClosed, ls_log s)"
proof -
  have "map_option (\<lambda>s. (map (fmlookup (ls_files s)) [''x.log'', ''x_2.log'', ''x_1.log''], lr_stopped (ls_log s)))
      (log_exec demo_lib (demo_calls @ [LogBg (BgRemoved False), LogClose demo_sys]) demo_system) = Some ([Some [3], Some [2], None], True)"
    by code_simp
  then obtain s where s: "log_exec demo_lib (demo_calls @ [LogBg (BgRemoved False), LogClose demo_sys]) demo_system = Some s"
      "map (fmlookup (ls_files s)) [''x.log'', ''x_2.log'', ''x_1.log''] = [Some [3], Some [2], None]" "lr_stopped (ls_log s)"
    by auto
  from log_calls_and_clean_up [OF demo_lib_sorts s(1) [unfolded demo_system_def]] s(3)
  have "log_close demo_sys (ls_log s) = (Some FileClosed, ls_log s)" by blast
  with s show ?thesis by auto
qed

text \<open>A rotation while the goroutine is still removing: it comes back for another listing.\<close>

definition demo_busy :: "nat log_label list" where
  "demo_busy = [LogWrite [1] demo_sys, LogRotate demo_sys, LogBg BgSignal, LogBg (BgListed 0 (Some demo_entries))]"

theorem rotation_is_cleaned_up_witness:
  "\<exists>u zs v. log_exec demo_lib (demo_busy @ [LogRotate (demo_sys\<lparr>e_now := 8\<rparr>), LogWrite [3] demo_sys]) demo_system = Some u \<and>
     bg_work (ls_bg u) = 4 \<and> log_exec demo_lib (map LogBg zs) u = Some v \<and> ls_bg v = BListing \<and> length zs \<le> 5"
proof -
  have "map_option (\<lambda>s. (ls_bg s, lr_stopped (ls_log s))) (log_exec demo_lib demo_busy demo_system) =
      Some (BRemoving [\<lparr>lm_time = 2, lm_name = ''x_2.log''\<rparr>] [\<lparr>lm_time = 1, lm_name = ''x_1.log''\<rparr>], False)"
    by code_simp
  then obtain s where s: "log_exec demo_lib demo_busy demo_system = Some s" "ls_bg s \<noteq> BPanicked" by auto
  obtain err l fs where r: "rotate_file (lib_fmt demo_lib) (lib_prog demo_lib) (demo_sys\<lparr>e_now := 8\<rparr>) (ls_log s) (ls_files s) = (err, l, fs)"
    by (metis prod.exhaust)
  have "map_option (\<lambda>s. (fst (rotate_file (lib_fmt demo_lib) (lib_prog demo_lib) (demo_sys\<lparr>e_now := 8\<rparr>) (ls_log s) (ls_files s)),
      lr_MaxBackups (ls_log s))) (log_exec demo_lib demo_busy demo_system) = Some (None, 1)"
    by code_simp
  with s(1) r have e: "err = None" "lr_MaxBackups (ls_log s) = 1" by simp_all
  then have c: "cleans_up l" using rotate_keeps [OF r] by (simp add: cleans_up_def log_keeps_def log_conf_def)
  have "map_option (\<lambda>s. (bg_work (ls_bg s), lr_stopped (ls_log s), ls_bg s = BPanicked))
      (log_exec demo_lib (demo_busy @ [LogRotate (demo_sys\<lparr>e_now := 8\<rparr>), LogWrite [3] demo_sys]) demo_system) = Some (4, False, False)"
    by code_simp
  then obtain u where u: "log_exec demo_lib (demo_busy @ [LogRotate (demo_sys\<lparr>e_now := 8\<rparr>), LogWrite [3] demo_sys]) demo_system = Some u"
      "bg_work (ls_bg u) = 4" "\<not> lr_stopped (ls_log u)" "ls_bg u \<noteq> BPanicked" by auto
  have "log_exec demo_lib [LogWrite [3] demo_sys] (log_called l fs s) = Some u"
    using u(1) s r by (simp add: log_exec_append)
  from rotation_is_cleaned_up [OF demo_lib_sorts s(1) [unfolded demo_system_def] r [unfolded e(1)] c this] u show ?thesis
    by fastforce
qed

end
