(* ===== verification/Conn_Model.thy ===== *)
theory Conn_Model
  imports Net_Base Go_Chan
begin

text \<open>
  \<^verbatim>\<open>common/network/conn_impl.go\<close>: one connection. Its goroutines are the caller of
  \<open>Run\<close>, the write loop, the read loop, the heartbeat loop, and any number of callers of
  \<open>Send\<close>, \<open>TrySend\<close> and \<open>Close\<close>. Each has a phase, the place it has reached in its function,
  and a step function that takes it to the next; a step is what one goroutine does between two
  points where others can come in. What a call of the transport, the codec's \<open>Decode\<close>, a callback,
  the clock or a ticker gives, and which ready case a \<open>select\<close> picks, is the choice the step gets
  as its argument, so whatever is proved holds for all of them. A choice that is not possible
  has the result \<^term>\<open>None\<close>.
\<close>

section \<open>Configuration and dependencies\<close>

type_synonym bytes = "8 word list"

record conn_config =
  SendQueueSize :: int
  ReadBufferSize :: int
  HeartbeatInterval :: int
  HeartbeatTimeout :: int

definition defaultConnSendQueueSize :: int where
  "defaultConnSendQueueSize = 256"

definition defaultConnReadBufferSize :: int where
  "defaultConnReadBufferSize = 4096"

definition HeartbeatKind_Ping :: nat where "HeartbeatKind_Ping = 1"

definition HeartbeatKind_Pong :: nat where "HeartbeatKind_Pong = 2"

record 'p heartbeator =
  hb_ping :: "64 word \<Rightarrow> 'p"
  hb_pong :: "64 word \<Rightarrow> 'p"
  hb_inspect :: "'p \<Rightarrow> nat \<times> 64 word \<times> bool"

text \<open>
  \<open>ConnDependencies\<close>: \<open>Encode\<close> of the codec, the heartbeator, and which of the receiver and the
  two callbacks are there. What the callbacks and \<open>Decode\<close> do is a choice of the step.
\<close>

record 'p conn_deps =
  d_encode :: "'p \<Rightarrow> bytes outcome"
  d_heartbeat :: "'p heartbeator option"
  d_receiver :: bool
  d_onOpen :: bool
  d_onClose :: bool

section \<open>Phases\<close>

text \<open>The goroutines that call \<open>closeWithCause\<close>; callers of \<open>Close\<close> are numbered.\<close>

datatype thread = TMain | TWriter | TReader | THeart | TCaller nat

text \<open>\<open>Send\<close> and \<open>TrySend\<close>: before \<open>c.Err()\<close>, before \<open>ctx.Err()\<close>, in the \<open>select\<close>, returned.\<close>

datatype send_phase =
    SErr bytes | SCtx bytes | SSelect bytes
  | STryErr bytes | STrySelect bytes
  | SReturned "net_error option"

datatype send_choice = SGo | SCtxErr "net_error option" | SPickCtx net_error | SPickConn | SPickQueue | SPickDefault

datatype main_phase =
    MNew | MOpening | MClose net_error | MClosing | MCheck | MStart | MWait
  | MFinal | MFinalClosing | MOnClose | MInOnClose | MDone

datatype main_choice = MGo | MReturned | MFails net_error | MPanics string | MNow int | MClosed "net_error option"

datatype write_phase = WIdle | WSelect | WGot bytes | WWriting bytes | WClose net_error | WClosing | WDone

datatype write_choice =
    WGo | WStop | WTake | WWrote int "net_error option" | WPanics string | WClosed "net_error option"

datatype 'p read_phase =
    RIdle | RCheck | RDecoding | RRead 'p | RActive 'p | RDeliver 'p | RSend send_phase | ROnMessage 'p
  | RClose net_error | RClosing | RDone

datatype 'p read_choice =
    RGo | RDecoded 'p int | RFails net_error | RPanics string | RNow int | RSending send_choice | RReturned
  | RClosed "net_error option"

text \<open>\<open>HSend\<close> and \<open>HSent\<close> hold what the context of the Ping has ended with, if it has.\<close>

datatype heart_phase =
    HIdle | HSelect "64 word" | HTick "64 word" | HTime "64 word"
  | HSend "64 word" "net_error option" send_phase | HSent "64 word" net_error "net_error option"
  | HClose net_error | HClosing | HDone

datatype heart_choice =
    HGo | HStop | HTicked | HNow int | HPanics string | HExpire | HSending send_choice | HClosed "net_error option"

datatype close_phase = CCall | CClosing | CReturned "net_error option"

section \<open>State\<close>

text \<open>
  \<open>cn_cause\<close> is the cause the context was cancelled with; the context is done once there is one.
  The fields from \<open>cn_accepted\<close> on record what happened: the data the queue took, the data
  written completely, what \<open>Decode\<close> gave, the packets handed to \<open>OnMessage\<close>, how often the
  transport was closed, and the causes \<open>OnClose\<close> was called with.
\<close>

record 'p conn =
  cn_id :: "64 word"
  cn_conf :: conn_config
  cn_statistics :: traffic_statistics
  cn_cause :: "net_error option"
  cn_sendQueue :: "bytes chan"
  cn_wg :: int
  cn_started :: bool
  cn_closeOnce :: "thread once"
  cn_closeErr :: "net_error option"
  cn_lastActive :: int
  cn_main :: main_phase
  cn_writer :: write_phase
  cn_reader :: "'p read_phase"
  cn_heart :: heart_phase
  cn_sends :: "send_phase list"
  cn_closers :: "close_phase list"
  cn_accepted :: "bytes list"
  cn_wrote :: "bytes list"
  cn_decoded :: "('p \<times> int) list"
  cn_delivered :: "'p list"
  cn_closes :: nat
  cn_onClosed :: "net_error option list"

text \<open>\<open>newConn\<close>: \<open>gen\<close> is the identifier generator, \<open>rwc\<close> says whether there is a transport.\<close>

definition conn_defaults :: "conn_config \<Rightarrow> conn_config" where
  "conn_defaults conf =
     (let c1 = (if SendQueueSize conf \<le> 0 then conf\<lparr>SendQueueSize := defaultConnSendQueueSize\<rparr> else conf)
      in if ReadBufferSize c1 \<le> 0 then c1\<lparr>ReadBufferSize := defaultConnReadBufferSize\<rparr> else c1)"

definition new_conn :: "bool \<Rightarrow> conn_config \<Rightarrow> 64 word \<Rightarrow> (net_error + 'p conn) \<times> 64 word" where
  "new_conn rwc conf gen =
     (if \<not> rwc then (Inl (NewError ''network/conn: transport is nil''), gen)
      else (Inr \<lparr>cn_id = gen + 1, cn_conf = conn_defaults conf, cn_statistics = no_traffic, cn_cause = None,
        cn_sendQueue = make_chan (nat (SendQueueSize (conn_defaults conf))), cn_wg = 0, cn_started = False,
        cn_closeOnce = OnceNew, cn_closeErr = None, cn_lastActive = 0, cn_main = MNew, cn_writer = WIdle,
        cn_reader = RIdle, cn_heart = HIdle, cn_sends = [], cn_closers = [], cn_accepted = [], cn_wrote = [],
        cn_decoded = [], cn_delivered = [], cn_closes = 0, cn_onClosed = []\<rparr>, gen + 1))"

definition conn_Err :: "'p conn \<Rightarrow> net_error option" where
  "conn_Err c = cn_cause c"

definition conn_Statistics :: "'p conn \<Rightarrow> traffic_snapshot" where
  "conn_Statistics c = traffic_snapshot_of (cn_statistics c)"

text \<open>\<open>Err()\<close> of the connection's context: \<open>context.Canceled\<close>, whatever the cause.\<close>

definition ctx_err :: "'p conn \<Rightarrow> net_error option" where
  "ctx_err c = (if cn_cause c = None then None else Some Canceled)"

section \<open>Closing\<close>

text \<open>
  \<open>closeWithCause\<close>: the first caller sets the cause and goes on to close the transport
  (\<^const>\<open>True\<close>); a caller that comes while it does so has to wait; a later one returns at once.
\<close>

definition close_enter :: "net_error option \<Rightarrow> thread \<Rightarrow> 'p conn \<Rightarrow> (bool \<times> 'p conn) option" where
  "close_enter cause t c =
     (case cn_closeOnce c of
        OnceNew \<Rightarrow> Some (True, c\<lparr>cn_closeOnce := OnceBusy t,
            cn_cause := Some (case cause of None \<Rightarrow> ErrClosed | Some e \<Rightarrow> e)\<rparr>)
      | OnceBusy t' \<Rightarrow> None
      | OnceDone \<Rightarrow> Some (False, c))"

definition close_leave :: "net_error option \<Rightarrow> 'p conn \<Rightarrow> 'p conn" where
  "close_leave err c = c\<lparr>cn_closeErr := err, cn_closeOnce := OnceDone, cn_closes := cn_closes c + 1\<rparr>"

text \<open>\<open>Close\<close>.\<close>

fun closer_at :: "close_phase \<Rightarrow> nat \<Rightarrow> net_error option \<Rightarrow> 'p conn \<Rightarrow> 'p conn option" where
  "closer_at CCall i err c = (case close_enter (Some ErrClosed) (TCaller i) c of
     None \<Rightarrow> None
   | Some (True, c1) \<Rightarrow> Some (c1\<lparr>cn_closers := (cn_closers c1)[i := CClosing]\<rparr>)
   | Some (False, c1) \<Rightarrow> Some (c1\<lparr>cn_closers := (cn_closers c1)[i := CReturned (cn_closeErr c1)]\<rparr>))"
| "closer_at CClosing i err c =
     (let c1 = close_leave err c in Some (c1\<lparr>cn_closers := (cn_closers c1)[i := CReturned (cn_closeErr c1)]\<rparr>))"
| "closer_at (CReturned e) i err c = None"

section \<open>Sending\<close>

text \<open>\<open>Send\<close> and \<open>TrySend\<close> begin by encoding; that may panic in the caller.\<close>

definition send_begin :: "('p \<Rightarrow> bytes outcome) \<Rightarrow> 'p \<Rightarrow> send_phase outcome" where
  "send_begin enc p =
     (case enc p of Returns d \<Rightarrow> Returns (SErr d) | Fails e \<Rightarrow> Returns (SReturned (Some e)) | Panics m \<Rightarrow> Panics m)"

definition try_begin :: "('p \<Rightarrow> bytes outcome) \<Rightarrow> 'p \<Rightarrow> send_phase outcome" where
  "try_begin enc p =
     (case enc p of Returns d \<Rightarrow> Returns (STryErr d) | Fails e \<Rightarrow> Returns (SReturned (Some e)) | Panics m \<Rightarrow> Panics m)"

text \<open>\<open>c.sendQueue <- data\<close> as a case of a \<open>select\<close>: it is ready if there is room.\<close>

definition enqueue :: "bytes \<Rightarrow> 'p conn \<Rightarrow> 'p conn option" where
  "enqueue d c =
     (case chan_try_send d (cn_sendQueue c) of
        Some (True, q) \<Rightarrow> Some (c\<lparr>cn_sendQueue := q, cn_accepted := cn_accepted c @ [d]\<rparr>)
      | _ \<Rightarrow> None)"

text \<open>
  The caller's context is the argument of the choices \<open>SCtxErr\<close> and \<open>SPickCtx\<close>: what
  \<open>ctx.Err()\<close> gives.
\<close>

fun send_at :: "send_phase \<Rightarrow> send_choice \<Rightarrow> 'p conn \<Rightarrow> (send_phase \<times> 'p conn) option" where
  "send_at (SErr d) ch c = (case ch of
     SGo \<Rightarrow> Some (case conn_Err c of Some e \<Rightarrow> SReturned (Some e) | None \<Rightarrow> SCtx d, c) | _ \<Rightarrow> None)"
| "send_at (SCtx d) ch c = (case ch of
     SCtxErr err \<Rightarrow> Some (case err of Some e \<Rightarrow> SReturned (Some e) | None \<Rightarrow> SSelect d, c) | _ \<Rightarrow> None)"
| "send_at (SSelect d) ch c = (case ch of
     SPickCtx e \<Rightarrow> Some (SReturned (Some e), c)
   | SPickConn \<Rightarrow> map_option (\<lambda>e. (SReturned (Some e), c)) (conn_Err c)
   | SPickQueue \<Rightarrow> map_option (\<lambda>c1. (SReturned None, c1)) (enqueue d c)
   | _ \<Rightarrow> None)"
| "send_at (STryErr d) ch c = (case ch of
     SGo \<Rightarrow> Some (case conn_Err c of Some e \<Rightarrow> SReturned (Some e) | None \<Rightarrow> STrySelect d, c) | _ \<Rightarrow> None)"
| "send_at (STrySelect d) ch c = (case ch of
     SPickConn \<Rightarrow> map_option (\<lambda>e. (SReturned (Some e), c)) (conn_Err c)
   | SPickQueue \<Rightarrow> map_option (\<lambda>c1. (SReturned None, c1)) (enqueue d c)
   | SPickDefault \<Rightarrow> if conn_Err c = None \<and> enqueue d c = None
       then Some (SReturned (Some ErrSendQueueFull), c) else None
   | _ \<Rightarrow> None)"
| "send_at (SReturned err) ch c = None"

text \<open>The choices that are possible when the caller's context is in the given state.\<close>

fun ctx_allows :: "net_error option \<Rightarrow> send_choice \<Rightarrow> bool" where
  "ctx_allows ctx (SCtxErr err) \<longleftrightarrow> err = ctx"
| "ctx_allows ctx (SPickCtx e) \<longleftrightarrow> ctx = Some e"
| "ctx_allows ctx ch \<longleftrightarrow> True"

section \<open>The write loop\<close>

definition write_exit :: "'p conn \<Rightarrow> 'p conn" where
  "write_exit c = c\<lparr>cn_writer := WDone, cn_wg := cn_wg c - 1\<rparr>"

fun write_at :: "write_phase \<Rightarrow> write_choice \<Rightarrow> 'p conn \<Rightarrow> 'p conn option" where
  "write_at WIdle ch c = None"
| "write_at WSelect ch c = (case ch of
     WStop \<Rightarrow> if cn_cause c \<noteq> None then Some (write_exit c) else None
   | WTake \<Rightarrow> (case chan_recv (cn_sendQueue c) of
         Some (Some d, q) \<Rightarrow> Some (c\<lparr>cn_sendQueue := q, cn_writer := WGot d\<rparr>) | _ \<Rightarrow> None)
   | _ \<Rightarrow> None)"
| "write_at (WGot d) ch c = (case ch of
     WGo \<Rightarrow> if conn_Err c \<noteq> None then Some (write_exit c) else Some (c\<lparr>cn_writer := WWriting d\<rparr>)
   | _ \<Rightarrow> None)"
| "write_at (WWriting d) ch c = (case ch of
     WWrote n err \<Rightarrow> (case err of
         Some e \<Rightarrow> Some (c\<lparr>cn_writer := WClose e\<rparr>)
       | None \<Rightarrow> if n \<noteq> int (length d) then Some (c\<lparr>cn_writer := WClose ErrShortWrite\<rparr>)
           else Some (c\<lparr>cn_statistics := incr_write (word_of_int n) (cn_statistics c),
             cn_wrote := cn_wrote c @ [d], cn_writer := WSelect\<rparr>))
   | WPanics m \<Rightarrow> Some (c\<lparr>cn_writer := WClose (PanicError ''write loop'' m)\<rparr>)
   | _ \<Rightarrow> None)"
| "write_at (WClose e) ch c = (case ch of
     WGo \<Rightarrow> (case close_enter (Some e) TWriter c of
         None \<Rightarrow> None
       | Some (True, c1) \<Rightarrow> Some (c1\<lparr>cn_writer := WClosing\<rparr>)
       | Some (False, c1) \<Rightarrow> Some (write_exit c1))
   | _ \<Rightarrow> None)"
| "write_at WClosing ch c = (case ch of
     WClosed err \<Rightarrow> Some (write_exit (close_leave err c)) | _ \<Rightarrow> None)"
| "write_at WDone ch c = None"

section \<open>The read loop\<close>

definition read_exit :: "'p conn \<Rightarrow> 'p conn" where
  "read_exit c = c\<lparr>cn_reader := RDone, cn_wg := cn_wg c - 1\<rparr>"

text \<open>\<open>deliverPacket\<close> up to the call it makes: the answer to a Ping, or \<open>OnMessage\<close>.\<close>

definition to_receiver :: "'p conn_deps \<Rightarrow> 'p \<Rightarrow> 'p conn \<Rightarrow> 'p conn" where
  "to_receiver D p c =
     (if d_receiver D then c\<lparr>cn_reader := ROnMessage p, cn_delivered := cn_delivered c @ [p]\<rparr>
      else c\<lparr>cn_reader := RCheck\<rparr>)"

definition deliver_packet :: "'p conn_deps \<Rightarrow> 'p \<Rightarrow> 'p conn \<Rightarrow> 'p conn" where
  "deliver_packet D p c =
     (case d_heartbeat D of
        None \<Rightarrow> to_receiver D p c
      | Some h \<Rightarrow> (let (kind, seq, ok) = hb_inspect h p in
          if ok then
            if kind = HeartbeatKind_Ping then
              (case send_begin (d_encode D) (hb_pong h seq) of
                 Returns ph \<Rightarrow> c\<lparr>cn_reader := RSend ph\<rparr>
               | Fails e \<Rightarrow> c\<lparr>cn_reader := RClose e\<rparr>
               | Panics m \<Rightarrow> c\<lparr>cn_reader := RClose (PanicError ''read loop'' m)\<rparr>)
            else if kind = HeartbeatKind_Pong then c\<lparr>cn_reader := RCheck\<rparr>
            else c\<lparr>cn_reader := RClose (InvalidHeartbeatKind kind)\<rparr>
          else to_receiver D p c))"

fun read_at :: "'p conn_deps \<Rightarrow> 'p read_phase \<Rightarrow> 'p read_choice \<Rightarrow> 'p conn \<Rightarrow> 'p conn option" where
  "read_at D RIdle ch c = None"
| "read_at D RCheck ch c = (case ch of
     RGo \<Rightarrow> if conn_Err c \<noteq> None then Some (read_exit c) else Some (c\<lparr>cn_reader := RDecoding\<rparr>)
   | _ \<Rightarrow> None)"
| "read_at D RDecoding ch c = (case ch of
     RFails e \<Rightarrow> Some (c\<lparr>cn_reader := RClose e\<rparr>)
   | RPanics m \<Rightarrow> Some (c\<lparr>cn_reader := RClose (PanicError ''read loop'' m)\<rparr>)
   | RDecoded p n \<Rightarrow> Some (c\<lparr>cn_statistics := incr_read (word_of_int n) (cn_statistics c),
         cn_decoded := cn_decoded c @ [(p, n)], cn_reader := RRead p\<rparr>)
   | _ \<Rightarrow> None)"
| "read_at D (RRead p) ch c = (case ch of
     RGo \<Rightarrow> if conn_Err c \<noteq> None then Some (read_exit c) else Some (c\<lparr>cn_reader := RActive p\<rparr>)
   | _ \<Rightarrow> None)"
| "read_at D (RActive p) ch c = (case ch of
     RNow t \<Rightarrow> Some (c\<lparr>cn_lastActive := t, cn_reader := RDeliver p\<rparr>) | _ \<Rightarrow> None)"
| "read_at D (RDeliver p) ch c = (case ch of
     RGo \<Rightarrow> Some (deliver_packet D p c)
   | RPanics m \<Rightarrow> if d_heartbeat D = None then None
       else Some (c\<lparr>cn_reader := RClose (PanicError ''read loop'' m)\<rparr>)
   | _ \<Rightarrow> None)"
| "read_at D (RSend ph) ch c = (case ch of
     RGo \<Rightarrow> (case ph of
         SReturned err \<Rightarrow> Some (c\<lparr>cn_reader := (case err of None \<Rightarrow> RCheck | Some e \<Rightarrow> RClose e)\<rparr>)
       | _ \<Rightarrow> None)
   | RSending sc \<Rightarrow> if ctx_allows (ctx_err c) sc
       then map_option (\<lambda>(ph1, c1). c1\<lparr>cn_reader := RSend ph1\<rparr>) (send_at ph sc c) else None
   | _ \<Rightarrow> None)"
| "read_at D (ROnMessage p) ch c = (case ch of
     RReturned \<Rightarrow> Some (c\<lparr>cn_reader := RCheck\<rparr>)
   | RPanics m \<Rightarrow> Some (c\<lparr>cn_reader := RClose (PanicError ''OnMessage'' m)\<rparr>)
   | _ \<Rightarrow> None)"
| "read_at D (RClose e) ch c = (case ch of
     RGo \<Rightarrow> (case close_enter (Some e) TReader c of
         None \<Rightarrow> None
       | Some (True, c1) \<Rightarrow> Some (c1\<lparr>cn_reader := RClosing\<rparr>)
       | Some (False, c1) \<Rightarrow> Some (read_exit c1))
   | _ \<Rightarrow> None)"
| "read_at D RClosing ch c = (case ch of
     RClosed err \<Rightarrow> Some (read_exit (close_leave err c)) | _ \<Rightarrow> None)"
| "read_at D RDone ch c = None"

section \<open>The heartbeat loop\<close>

definition heart_exit :: "'p conn \<Rightarrow> 'p conn" where
  "heart_exit c = c\<lparr>cn_heart := HDone, cn_wg := cn_wg c - 1\<rparr>"

definition heart_timeout :: "conn_config \<Rightarrow> int" where
  "heart_timeout conf =
     (if HeartbeatTimeout conf \<le> 0 then wrap64 (3 * HeartbeatInterval conf) else HeartbeatTimeout conf)"

text \<open>\<open>time.Since\<close>, which saturates.\<close>

definition since :: "int \<Rightarrow> int \<Rightarrow> int" where
  "since now t = max (- (2 ^ 63)) (min (2 ^ 63 - 1) (now - t))"

definition heart_check :: "'p conn_deps \<Rightarrow> 64 word \<Rightarrow> int \<Rightarrow> 'p conn \<Rightarrow> 'p conn option" where
  "heart_check D seq now c =
     (if since now (cn_lastActive c) \<ge> heart_timeout (cn_conf c)
      then Some (c\<lparr>cn_heart := HClose ErrHeartbeatTimeout\<rparr>)
      else (case d_heartbeat D of
          None \<Rightarrow> None
        | Some h \<Rightarrow> (case send_begin (d_encode D) (hb_ping h (seq + 1)) of
              Returns ph \<Rightarrow> Some (c\<lparr>cn_heart := HSend (seq + 1) None ph\<rparr>)
            | Fails e \<Rightarrow> Some (c\<lparr>cn_heart := HClose e\<rparr>)
            | Panics m \<Rightarrow> Some (c\<lparr>cn_heart := HClose (PanicError ''heartbeat loop'' m)\<rparr>))))"

text \<open>\<open>context.WithTimeout(c.ctx, interval)\<close>: ended by its deadline or with the connection.\<close>

definition ping_ctx :: "net_error option \<Rightarrow> 'p conn \<Rightarrow> net_error option" where
  "ping_ctx x c = (case x of None \<Rightarrow> ctx_err c | Some e \<Rightarrow> Some e)"

fun heart_at :: "'p conn_deps \<Rightarrow> heart_phase \<Rightarrow> heart_choice \<Rightarrow> 'p conn \<Rightarrow> 'p conn option" where
  "heart_at D HIdle ch c = None"
| "heart_at D (HSelect seq) ch c = (case ch of
     HStop \<Rightarrow> if cn_cause c \<noteq> None then Some (heart_exit c) else None
   | HTicked \<Rightarrow> Some (c\<lparr>cn_heart := HTick seq\<rparr>)
   | _ \<Rightarrow> None)"
| "heart_at D (HTick seq) ch c = (case ch of
     HGo \<Rightarrow> if conn_Err c \<noteq> None then Some (heart_exit c) else Some (c\<lparr>cn_heart := HTime seq\<rparr>)
   | _ \<Rightarrow> None)"
| "heart_at D (HTime seq) ch c = (case ch of
     HNow t \<Rightarrow> heart_check D seq t c
   | HPanics m \<Rightarrow> Some (c\<lparr>cn_heart := HClose (PanicError ''heartbeat loop'' m)\<rparr>)
   | _ \<Rightarrow> None)"
| "heart_at D (HSend seq x ph) ch c = (case ch of
     HExpire \<Rightarrow> if x = None then Some (c\<lparr>cn_heart := HSend seq (Some DeadlineExceeded) ph\<rparr>) else None
   | HGo \<Rightarrow> (case ph of
         SReturned err \<Rightarrow> Some (c\<lparr>cn_heart := HSent seq (case x of None \<Rightarrow> Canceled | Some e \<Rightarrow> e) err\<rparr>)
       | _ \<Rightarrow> None)
   | HSending sc \<Rightarrow> if ctx_allows (ping_ctx x c) sc
       then map_option (\<lambda>(ph1, c1). c1\<lparr>cn_heart := HSend seq x ph1\<rparr>) (send_at ph sc c) else None
   | _ \<Rightarrow> None)"
| "heart_at D (HSent seq x err) ch c = (case ch of
     HGo \<Rightarrow> if conn_Err c \<noteq> None then Some (heart_exit c)
       else (case err of
           None \<Rightarrow> Some (c\<lparr>cn_heart := HSelect seq\<rparr>)
         | Some e \<Rightarrow> if x = DeadlineExceeded \<and> errors_is e DeadlineExceeded
             then Some (c\<lparr>cn_heart := HSelect seq\<rparr>) else Some (c\<lparr>cn_heart := HClose e\<rparr>))
   | _ \<Rightarrow> None)"
| "heart_at D (HClose e) ch c = (case ch of
     HGo \<Rightarrow> (case close_enter (Some e) THeart c of
         None \<Rightarrow> None
       | Some (True, c1) \<Rightarrow> Some (c1\<lparr>cn_heart := HClosing\<rparr>)
       | Some (False, c1) \<Rightarrow> Some (heart_exit c1))
   | _ \<Rightarrow> None)"
| "heart_at D HClosing ch c = (case ch of
     HClosed err \<Rightarrow> Some (heart_exit (close_leave err c)) | _ \<Rightarrow> None)"
| "heart_at D HDone ch c = None"

section \<open>Run\<close>

text \<open>\<open>Run\<close>, up to the start of the write loop; a second call returns at once.\<close>

definition conn_run :: "'p conn \<Rightarrow> 'p conn" where
  "conn_run c =
     (if cn_started c then c
      else c\<lparr>cn_started := True, cn_wg := cn_wg c + 1, cn_writer := WSelect, cn_main := MOpening\<rparr>)"

text \<open>After \<open>OnOpen\<close>, with the time now: the read loop, and the heartbeat loop if asked for.\<close>

definition start_loops :: "'p conn_deps \<Rightarrow> int \<Rightarrow> 'p conn \<Rightarrow> 'p conn" where
  "start_loops D now c =
     (let c1 = c\<lparr>cn_lastActive := now, cn_wg := cn_wg c + 1, cn_reader := RCheck, cn_main := MWait\<rparr>
      in if d_heartbeat D \<noteq> None \<and> HeartbeatInterval (cn_conf c1) > 0
         then c1\<lparr>cn_wg := cn_wg c1 + 1, cn_heart := HSelect 0\<rparr> else c1)"

text \<open>\<open>callOnOpen\<close> and what \<open>Run\<close> makes of its error; a panic becomes an error.\<close>

definition call_on_open :: "'p conn_deps \<Rightarrow> main_choice \<Rightarrow> 'p conn \<Rightarrow> 'p conn option" where
  [simp]: "call_on_open D ch c =
     (if \<not> d_onOpen D then (case ch of MGo \<Rightarrow> Some (c\<lparr>cn_main := MCheck\<rparr>) | _ \<Rightarrow> None)
      else (case ch of
          MReturned \<Rightarrow> Some (c\<lparr>cn_main := MCheck\<rparr>)
        | MFails e \<Rightarrow> Some (c\<lparr>cn_main := MClose e\<rparr>)
        | MPanics m \<Rightarrow> Some (c\<lparr>cn_main := MClose (PanicError ''OnOpen'' m)\<rparr>)
        | _ \<Rightarrow> None))"

text \<open>\<open>callOnClose\<close>: the call, and its return or panic, which changes nothing.\<close>

definition call_on_close :: "'p conn_deps \<Rightarrow> 'p conn \<Rightarrow> 'p conn" where
  [simp]: "call_on_close D c =
     (if d_onClose D then c\<lparr>cn_onClosed := cn_onClosed c @ [conn_Err c], cn_main := MInOnClose\<rparr>
      else c\<lparr>cn_main := MDone\<rparr>)"

fun main_at :: "'p conn_deps \<Rightarrow> main_phase \<Rightarrow> main_choice \<Rightarrow> 'p conn \<Rightarrow> 'p conn option" where
  "main_at D MNew ch c = None"
| "main_at D MOpening ch c = call_on_open D ch c"
| "main_at D (MClose e) ch c = (case ch of
     MGo \<Rightarrow> (case close_enter (Some e) TMain c of
         None \<Rightarrow> None
       | Some (True, c1) \<Rightarrow> Some (c1\<lparr>cn_main := MClosing\<rparr>)
       | Some (False, c1) \<Rightarrow> Some (c1\<lparr>cn_main := MCheck\<rparr>))
   | _ \<Rightarrow> None)"
| "main_at D MClosing ch c = (case ch of
     MClosed err \<Rightarrow> Some ((close_leave err c)\<lparr>cn_main := MCheck\<rparr>) | _ \<Rightarrow> None)"
| "main_at D MCheck ch c = (case ch of
     MGo \<Rightarrow> Some (c\<lparr>cn_main := (if conn_Err c = None then MStart else MWait)\<rparr>) | _ \<Rightarrow> None)"
| "main_at D MStart ch c = (case ch of MNow t \<Rightarrow> Some (start_loops D t c) | _ \<Rightarrow> None)"
| "main_at D MWait ch c = (case ch of
     MGo \<Rightarrow> if cn_wg c = 0 then Some (c\<lparr>cn_main := MFinal\<rparr>) else None | _ \<Rightarrow> None)"
| "main_at D MFinal ch c = (case ch of
     MGo \<Rightarrow> (case close_enter (conn_Err c) TMain c of
         None \<Rightarrow> None
       | Some (True, c1) \<Rightarrow> Some (c1\<lparr>cn_main := MFinalClosing\<rparr>)
       | Some (False, c1) \<Rightarrow> Some (c1\<lparr>cn_main := MOnClose\<rparr>))
   | _ \<Rightarrow> None)"
| "main_at D MFinalClosing ch c = (case ch of
     MClosed err \<Rightarrow> Some ((close_leave err c)\<lparr>cn_main := MOnClose\<rparr>) | _ \<Rightarrow> None)"
| "main_at D MOnClose ch c = (case ch of MGo \<Rightarrow> Some (call_on_close D c) | _ \<Rightarrow> None)"
| "main_at D MInOnClose ch c = (case ch of
     MReturned \<Rightarrow> Some (c\<lparr>cn_main := MDone\<rparr>) | MPanics m \<Rightarrow> Some (c\<lparr>cn_main := MDone\<rparr>) | _ \<Rightarrow> None)"
| "main_at D MDone ch c = None"

section \<open>The connection as a whole\<close>

text \<open>
  What goes on by itself: the goroutines of \<open>Run\<close> and the calls under way. The other steps of
  \<open>conn_step\<close> are new calls from outside, or from inside a callback.
\<close>

inductive conn_internal :: "'p conn_deps \<Rightarrow> 'p conn \<Rightarrow> 'p conn \<Rightarrow> bool" for D where
  main_goes: "main_at D (cn_main c) m c = Some c' \<Longrightarrow> conn_internal D c c'"
| write_goes: "write_at (cn_writer c) w c = Some c' \<Longrightarrow> conn_internal D c c'"
| read_goes: "read_at D (cn_reader c) r c = Some c' \<Longrightarrow> conn_internal D c c'"
| heart_goes: "heart_at D (cn_heart c) h c = Some c' \<Longrightarrow> conn_internal D c c'"
| send_goes: "i < length (cn_sends c) \<Longrightarrow> send_at (cn_sends c ! i) ch c = Some (ph, c') \<Longrightarrow>
    conn_internal D c (c'\<lparr>cn_sends := (cn_sends c')[i := ph]\<rparr>)"
| close_goes: "i < length (cn_closers c) \<Longrightarrow> closer_at (cn_closers c ! i) i err c = Some c' \<Longrightarrow> conn_internal D c c'"

inductive conn_step :: "'p conn_deps \<Rightarrow> 'p conn \<Rightarrow> 'p conn \<Rightarrow> bool" for D where
  internal: "conn_internal D c c' \<Longrightarrow> conn_step D c c'"
| run: "conn_step D c (conn_run c)"
| new_send: "send_begin (d_encode D) p = Returns ph \<Longrightarrow> conn_step D c (c\<lparr>cn_sends := cn_sends c @ [ph]\<rparr>)"
| new_try: "try_begin (d_encode D) p = Returns ph \<Longrightarrow> conn_step D c (c\<lparr>cn_sends := cn_sends c @ [ph]\<rparr>)"
| new_close: "conn_step D c (c\<lparr>cn_closers := cn_closers c @ [CCall]\<rparr>)"

inductive conn_reachable :: "'p conn_deps \<Rightarrow> 'p conn \<Rightarrow> bool" for D where
  made: "fst (new_conn True conf gen) = Inr c \<Longrightarrow> conn_reachable D c"
| step: "conn_reachable D c \<Longrightarrow> conn_step D c c' \<Longrightarrow> conn_reachable D c'"

text \<open>A schedule: which goroutine goes on, with which choice, and which calls come in.\<close>

datatype 'p conn_label =
    LRun | LMain main_choice | LWrite write_choice | LRead "'p read_choice" | LHeart heart_choice
  | LSend nat send_choice | LClose nat "net_error option" | LNewSend 'p | LNewTry 'p | LNewClose

definition call_begins :: "send_phase outcome \<Rightarrow> 'p conn \<Rightarrow> 'p conn option" where
  "call_begins x c = (case x of Returns ph \<Rightarrow> Some (c\<lparr>cn_sends := cn_sends c @ [ph]\<rparr>) | _ \<Rightarrow> None)"

fun conn_do :: "'p conn_deps \<Rightarrow> 'p conn_label \<Rightarrow> 'p conn \<Rightarrow> 'p conn option" where
  "conn_do D LRun c = Some (conn_run c)"
| "conn_do D (LMain m) c = main_at D (cn_main c) m c"
| "conn_do D (LWrite w) c = write_at (cn_writer c) w c"
| "conn_do D (LRead r) c = read_at D (cn_reader c) r c"
| "conn_do D (LHeart h) c = heart_at D (cn_heart c) h c"
| "conn_do D (LSend i ch) c =
     (if i < length (cn_sends c)
      then map_option (\<lambda>(ph, c'). c'\<lparr>cn_sends := (cn_sends c')[i := ph]\<rparr>) (send_at (cn_sends c ! i) ch c) else None)"
| "conn_do D (LClose i err) c =
     (if i < length (cn_closers c) then closer_at (cn_closers c ! i) i err c else None)"
| "conn_do D (LNewSend p) c = call_begins (send_begin (d_encode D) p) c"
| "conn_do D (LNewTry p) c = call_begins (try_begin (d_encode D) p) c"
| "conn_do D LNewClose c = Some (c\<lparr>cn_closers := cn_closers c @ [CCall]\<rparr>)"

primrec conn_exec :: "'p conn_deps \<Rightarrow> 'p conn_label list \<Rightarrow> 'p conn \<Rightarrow> 'p conn option" where
  "conn_exec D [] c = Some c"
| "conn_exec D (l # ls) c = (case conn_do D l c of None \<Rightarrow> None | Some c' \<Rightarrow> conn_exec D ls c')"

lemma conn_do_step: "conn_do D l c = Some c' \<Longrightarrow> conn_step D c c'"
proof (cases l)
  case (LSend i ch)
  assume "conn_do D l c = Some c'"
  with LSend obtain ph c1 where "i < length (cn_sends c)" "send_at (cn_sends c ! i) ch c = Some (ph, c1)"
    "c' = c1\<lparr>cn_sends := (cn_sends c1)[i := ph]\<rparr>"
    by (auto split: if_splits)
  then show ?thesis by (auto intro: conn_step.internal conn_internal.send_goes)
qed (auto simp: call_begins_def intro: conn_step.intros conn_internal.intros split: if_splits outcome.splits)

lemma conn_exec_steps: "conn_exec D ls c = Some c' \<Longrightarrow> (conn_step D)\<^sup>*\<^sup>* c c'"
proof (induction ls arbitrary: c)
  case (Cons l ls)
  then show ?case by (auto split: option.splits dest: conn_do_step intro: converse_rtranclp_into_rtranclp)
qed simp

lemma conn_steps_reachable: "(conn_step D)\<^sup>*\<^sup>* c c' \<Longrightarrow> conn_reachable D c \<Longrightarrow> conn_reachable D c'"
  by (induction rule: rtranclp_induct) (auto intro: conn_reachable.step)

lemma conn_exec_append:
  "conn_exec D (ls @ ks) c = (case conn_exec D ls c of None \<Rightarrow> None | Some d \<Rightarrow> conn_exec D ks d)"
  by (induction ls arbitrary: c) (auto split: option.splits)

lemmas conn_exec_reachable = conn_steps_reachable [OF conn_exec_steps]

text \<open>A small connection, on which the claims below are tried: numbers as packets, one byte each.\<close>

definition demo_deps :: "nat conn_deps" where
  "demo_deps = \<lparr>d_encode = (\<lambda>p. Returns [of_nat p]), d_heartbeat = None, d_receiver = True, d_onOpen = False, d_onClose = True\<rparr>"

definition demo_conf :: conn_config where
  "demo_conf = \<lparr>SendQueueSize = 2, ReadBufferSize = 0, HeartbeatInterval = 0, HeartbeatTimeout = 0\<rparr>"

definition demo_conn :: "nat conn" where
  "demo_conn = \<lparr>cn_id = 1, cn_conf = demo_conf\<lparr>ReadBufferSize := 4096\<rparr>, cn_statistics = no_traffic, cn_cause = None,
     cn_sendQueue = make_chan 2, cn_wg = 0, cn_started = False, cn_closeOnce = OnceNew, cn_closeErr = None,
     cn_lastActive = 0, cn_main = MNew, cn_writer = WIdle, cn_reader = RIdle, cn_heart = HIdle, cn_sends = [],
     cn_closers = [], cn_accepted = [], cn_wrote = [], cn_decoded = [], cn_delivered = [], cn_closes = 0, cn_onClosed = []\<rparr>"

lemma demo_reachable: "conn_reachable D demo_conn"
proof (rule conn_reachable.made)
  show "fst (new_conn True demo_conf 0) = Inr demo_conn"
    by (simp add: new_conn_def demo_conn_def demo_conf_def conn_defaults_def Let_def defaultConnReadBufferSize_def)
qed

lemmas demo_defs = demo_conn_def demo_deps_def demo_conf_def conn_run_def write_exit_def read_exit_def close_enter_def close_leave_def
  conn_Err_def call_begins_def send_begin_def try_begin_def enqueue_def chan_try_send_def chan_recv_def make_chan_def
  start_loops_def deliver_packet_def to_receiver_def

text \<open>Two messages are sent and one received, then somebody closes and \<open>Run\<close> ends.\<close>

definition demo_start :: "nat conn_label list" where
  "demo_start = [LRun, LMain MGo, LMain MGo, LMain (MNow 5), LNewSend 7, LSend 0 SGo, LSend 0 (SCtxErr None),
     LSend 0 SPickQueue, LNewTry 8, LSend 1 SGo, LSend 1 SPickQueue, LWrite WTake, LWrite WGo, LWrite (WWrote 1 None),
     LRead RGo, LRead (RDecoded 3 4), LRead RGo, LRead (RNow 6), LRead RGo]"

definition demo_stop :: "nat conn_label list" where
  "demo_stop = [LNewClose, LClose 0 None, LClose 0 None, LRead RReturned, LRead RGo, LWrite WStop,
     LMain MGo, LMain MGo, LMain MGo, LMain MReturned]"

end
