(* ===== verification/Conn_Life.thy ===== *)
theory Conn_Life
  imports Conn_Model
begin

text \<open>
  The life of a connection: the transport is closed once, the first cause stays, the loops run
  only inside \<open>Run\<close>, and \<open>OnClose\<close> comes last. The invariant speaks about the phases of all
  goroutines; it is kept by each of their steps.
\<close>

section \<open>Invariant\<close>

fun w_active :: "write_phase \<Rightarrow> bool" where
  "w_active WIdle \<longleftrightarrow> False" | "w_active WDone \<longleftrightarrow> False" | "w_active WSelect \<longleftrightarrow> True"
| "w_active (WGot d) \<longleftrightarrow> True" | "w_active (WWriting d) \<longleftrightarrow> True" | "w_active (WClose e) \<longleftrightarrow> True"
| "w_active WClosing \<longleftrightarrow> True"

fun r_active :: "'p read_phase \<Rightarrow> bool" where
  "r_active RIdle \<longleftrightarrow> False" | "r_active RDone \<longleftrightarrow> False" | "r_active RCheck \<longleftrightarrow> True"
| "r_active RDecoding \<longleftrightarrow> True" | "r_active (RRead p) \<longleftrightarrow> True" | "r_active (RActive p) \<longleftrightarrow> True"
| "r_active (RDeliver p) \<longleftrightarrow> True" | "r_active (RSend ph) \<longleftrightarrow> True" | "r_active (ROnMessage p) \<longleftrightarrow> True"
| "r_active (RClose e) \<longleftrightarrow> True" | "r_active RClosing \<longleftrightarrow> True"

fun h_active :: "heart_phase \<Rightarrow> bool" where
  "h_active HIdle \<longleftrightarrow> False" | "h_active HDone \<longleftrightarrow> False" | "h_active (HSelect s) \<longleftrightarrow> True"
| "h_active (HTick s) \<longleftrightarrow> True" | "h_active (HTime s) \<longleftrightarrow> True" | "h_active (HSend s x ph) \<longleftrightarrow> True"
| "h_active (HSent s x e) \<longleftrightarrow> True" | "h_active (HClose e) \<longleftrightarrow> True" | "h_active HClosing \<longleftrightarrow> True"

text \<open>Where \<open>Run\<close> is: before the other loops are started, waiting, after the wait, closed.\<close>

fun m_early :: "main_phase \<Rightarrow> bool" where
  "m_early MNew \<longleftrightarrow> True" | "m_early MOpening \<longleftrightarrow> True" | "m_early (MClose e) \<longleftrightarrow> True" | "m_early MClosing \<longleftrightarrow> True"
| "m_early MCheck \<longleftrightarrow> True" | "m_early MStart \<longleftrightarrow> True" | "m_early MWait \<longleftrightarrow> False" | "m_early MFinal \<longleftrightarrow> False"
| "m_early MFinalClosing \<longleftrightarrow> False" | "m_early MOnClose \<longleftrightarrow> False" | "m_early MInOnClose \<longleftrightarrow> False" | "m_early MDone \<longleftrightarrow> False"

definition m_over :: "main_phase \<Rightarrow> bool" where
  "m_over m \<longleftrightarrow> m \<in> {MOnClose, MInOnClose, MDone}"

definition m_late :: "main_phase \<Rightarrow> bool" where
  "m_late m \<longleftrightarrow> m \<in> {MFinal, MFinalClosing, MOnClose, MInOnClose, MDone}"


text \<open>The goroutine is inside the function that \<open>closeOnce\<close> runs.\<close>

fun closing_at :: "thread \<Rightarrow> 'p conn \<Rightarrow> bool" where
  "closing_at TMain c \<longleftrightarrow> cn_main c = MClosing \<or> cn_main c = MFinalClosing"
| "closing_at TWriter c \<longleftrightarrow> cn_writer c = WClosing"
| "closing_at TReader c \<longleftrightarrow> cn_reader c = RClosing"
| "closing_at THeart c \<longleftrightarrow> cn_heart c = HClosing"
| "closing_at (TCaller i) c \<longleftrightarrow> i < length (cn_closers c) \<and> cn_closers c ! i = CClosing"

definition once_inv :: "'p conn \<Rightarrow> bool" where
  "once_inv c \<longleftrightarrow> (cn_cause c = None \<longleftrightarrow> cn_closeOnce c = OnceNew) \<and>
     (\<forall>t. closing_at t c \<longleftrightarrow> cn_closeOnce c = OnceBusy t) \<and>
     cn_closes c = (if cn_closeOnce c = OnceDone then 1 else 0)"

definition loops_inv :: "'p conn_deps \<Rightarrow> 'p conn \<Rightarrow> bool" where
  "loops_inv D c \<longleftrightarrow>
     cn_wg c = act (w_active (cn_writer c)) + act (r_active (cn_reader c)) + act (h_active (cn_heart c)) \<and>
     (cn_started c \<longleftrightarrow> cn_main c \<noteq> MNew) \<and> (cn_writer c = WIdle \<longleftrightarrow> cn_main c = MNew) \<and>
     (m_early (cn_main c) \<longrightarrow> cn_reader c = RIdle \<and> cn_heart c = HIdle) \<and>
     (m_late (cn_main c) \<longrightarrow> \<not> w_active (cn_writer c) \<and> \<not> r_active (cn_reader c) \<and> \<not> h_active (cn_heart c)) \<and>
     (cn_heart c \<noteq> HIdle \<longrightarrow> d_heartbeat D \<noteq> None) \<and>
     (m_over (cn_main c) \<longrightarrow> cn_closeOnce c = OnceDone) \<and>
     cn_onClosed c = (if d_onClose D \<and> (cn_main c = MInOnClose \<or> cn_main c = MDone) then [cn_cause c] else [])"


definition same_close :: "'p conn \<Rightarrow> 'p conn \<Rightarrow> bool" where
  "same_close c c' \<longleftrightarrow> cn_closeOnce c' = cn_closeOnce c \<and> cn_cause c' = cn_cause c \<and> cn_closes c' = cn_closes c"

text \<open>
  What a step of goroutine \<open>t\<close> can mean for the closing: it enters the function of \<open>closeOnce\<close>,
  it leaves it, or it has nothing to do with it.
\<close>


definition close_move :: "thread \<Rightarrow> 'p conn \<Rightarrow> 'p conn \<Rightarrow> bool" where
  "close_move t c c' \<longleftrightarrow> (\<forall>u. u \<noteq> t \<longrightarrow> closing_at u c' = closing_at u c) \<and>
     (cn_closeOnce c = OnceNew \<and> cn_closeOnce c' = OnceBusy t \<and> cn_cause c' \<noteq> None \<and>
        cn_closes c' = cn_closes c \<and> closing_at t c' \<or>
      closing_at t c \<and> cn_closeOnce c' = OnceDone \<and> cn_cause c' = cn_cause c \<and>
        cn_closes c' = cn_closes c + 1 \<and> \<not> closing_at t c' \<or>
      same_close c c' \<and> closing_at t c' = closing_at t c)"

lemma close_moveI:
  "(\<And>u. u \<noteq> t \<Longrightarrow> closing_at u c' = closing_at u c) \<Longrightarrow>
   cn_closeOnce c = OnceNew \<and> cn_closeOnce c' = OnceBusy t \<and> cn_cause c' \<noteq> None \<and>
     cn_closes c' = cn_closes c \<and> closing_at t c' \<or>
   closing_at t c \<and> cn_closeOnce c' = OnceDone \<and> cn_cause c' = cn_cause c \<and>
     cn_closes c' = cn_closes c + 1 \<and> \<not> closing_at t c' \<or>
   same_close c c' \<and> closing_at t c' = closing_at t c \<Longrightarrow> close_move t c c'"
  unfolding close_move_def by blast

lemma close_move_inv:
  assumes inv: "once_inv c" and mv: "close_move t c c'"
  shows "once_inv c' \<and> (cn_cause c \<noteq> None \<longrightarrow> cn_cause c' = cn_cause c)"
proof -
  have u: "u \<noteq> t \<Longrightarrow> closing_at u c' = closing_at u c" for u using mv by (simp add: close_move_def)
  consider (enter) "cn_closeOnce c = OnceNew" "cn_closeOnce c' = OnceBusy t" "cn_cause c' \<noteq> None"
        "cn_closes c' = cn_closes c" "closing_at t c'"
    | (leave) "closing_at t c" "cn_closeOnce c' = OnceDone" "cn_cause c' = cn_cause c"
        "cn_closes c' = cn_closes c + 1" "\<not> closing_at t c'"
    | (quiet) "same_close c c'" "closing_at t c' = closing_at t c"
    using mv by (auto simp: close_move_def)
  then show ?thesis
  proof cases
    case enter
    have "closing_at v c' = (v = t)" for v
      using u [of v] enter(1,5) inv by (cases "v = t") (simp_all add: once_inv_def)
    with enter inv show ?thesis by (auto simp: once_inv_def)
  next
    case leave
    then have o: "cn_closeOnce c = OnceBusy t" using inv by (simp add: once_inv_def)
    then have "closing_at v c = (v = t)" for v using inv by (auto simp: once_inv_def)
    then have "\<not> closing_at v c'" for v using u [of v] leave(5) by (cases "v = t") simp_all
    then show ?thesis using leave inv o by (simp add: once_inv_def)
  next
    case quiet
    then have "closing_at v c' = closing_at v c" for v using u [of v] by (cases "v = t") simp_all
    with quiet(1) inv show ?thesis by (simp add: once_inv_def same_close_def)
  qed
qed

lemmas step_defs = close_leave_def close_enter_def same_close_def write_exit_def read_exit_def heart_exit_def
  start_loops_def heart_check_def Let_def

lemma send_frame: "send_at ph ch c = Some (ph', c') \<Longrightarrow>
  c' = c \<or> (\<exists>d q. c' = c\<lparr>cn_sendQueue := q, cn_accepted := cn_accepted c @ [d]\<rparr> \<and>
    chan_try_send d (cn_sendQueue c) = Some (True, q))"
  by (cases ph) (auto simp: enqueue_def split: send_choice.split_asm if_split_asm option.split_asm bool.split_asm prod.split_asm)


lemma deliver_frame [simp]:
  "cn_main (deliver_packet D p c) = cn_main c" "cn_writer (deliver_packet D p c) = cn_writer c"
  "cn_heart (deliver_packet D p c) = cn_heart c" "cn_closers (deliver_packet D p c) = cn_closers c"
  "cn_closeOnce (deliver_packet D p c) = cn_closeOnce c" "cn_cause (deliver_packet D p c) = cn_cause c"
  "cn_closes (deliver_packet D p c) = cn_closes c" "cn_wg (deliver_packet D p c) = cn_wg c"
  "cn_started (deliver_packet D p c) = cn_started c" "cn_onClosed (deliver_packet D p c) = cn_onClosed c"
  "cn_sendQueue (deliver_packet D p c) = cn_sendQueue c" "cn_accepted (deliver_packet D p c) = cn_accepted c"
  "cn_wrote (deliver_packet D p c) = cn_wrote c" "cn_statistics (deliver_packet D p c) = cn_statistics c"
  "cn_decoded (deliver_packet D p c) = cn_decoded c" "cn_conf (deliver_packet D p c) = cn_conf c"
  "cn_sends (deliver_packet D p c) = cn_sends c"
  "cn_reader (deliver_packet D p c) \<noteq> RClosing" "r_active (cn_reader (deliver_packet D p c))"
  by (auto simp: deliver_packet_def to_receiver_def split: option.splits prod.splits outcome.splits)

lemma write_frame:
  assumes "write_at (cn_writer c) m c = Some c'"
  shows "cn_main c' = cn_main c \<and> cn_reader c' = cn_reader c \<and> cn_heart c' = cn_heart c \<and>
    cn_started c' = cn_started c \<and> cn_onClosed c' = cn_onClosed c \<and> cn_sends c' = cn_sends c \<and>
    cn_closers c' = cn_closers c \<and> cn_accepted c' = cn_accepted c \<and> cn_decoded c' = cn_decoded c \<and>
    cn_delivered c' = cn_delivered c \<and> cn_conf c' = cn_conf c \<and>
    w_active (cn_writer c) \<and> cn_writer c' \<noteq> WIdle \<and> cn_wg c' = cn_wg c - 1 + act (w_active (cn_writer c'))"
  using assms by (cases "cn_writer c")
    (auto simp: step_defs split: write_choice.split_asm if_split_asm once.split_asm option.split_asm)

lemma read_frame:
  assumes "read_at D (cn_reader c) m c = Some c'"
  shows "cn_main c' = cn_main c \<and> cn_writer c' = cn_writer c \<and> cn_heart c' = cn_heart c \<and>
    cn_started c' = cn_started c \<and> cn_onClosed c' = cn_onClosed c \<and> cn_sends c' = cn_sends c \<and>
    cn_closers c' = cn_closers c \<and> cn_wrote c' = cn_wrote c \<and> cn_conf c' = cn_conf c \<and>
    r_active (cn_reader c) \<and> cn_reader c' \<noteq> RIdle \<and> cn_wg c' = cn_wg c - 1 + act (r_active (cn_reader c'))"
proof -
  have "cn_reader (deliver_packet D p c) \<noteq> RIdle" for p
    using deliver_frame(19) [of D p c] by (cases "cn_reader (deliver_packet D p c)") simp_all
  with assms show ?thesis by (cases "cn_reader c") (auto simp: step_defs
     split: read_choice.split_asm if_split_asm once.split_asm option.split_asm send_phase.split_asm dest!: send_frame)
qed

lemma heart_frame:
  assumes "heart_at D (cn_heart c) m c = Some c'"
  shows "cn_main c' = cn_main c \<and> cn_writer c' = cn_writer c \<and> cn_reader c' = cn_reader c \<and>
    cn_started c' = cn_started c \<and> cn_onClosed c' = cn_onClosed c \<and> cn_sends c' = cn_sends c \<and>
    cn_closers c' = cn_closers c \<and> cn_wrote c' = cn_wrote c \<and> cn_decoded c' = cn_decoded c \<and>
    cn_delivered c' = cn_delivered c \<and> cn_statistics c' = cn_statistics c \<and> cn_conf c' = cn_conf c \<and>
    h_active (cn_heart c) \<and> cn_heart c' \<noteq> HIdle \<and> cn_wg c' = cn_wg c - 1 + act (h_active (cn_heart c'))"
  using assms by (cases "cn_heart c") (auto simp: step_defs
     split: heart_choice.split_asm if_split_asm once.split_asm option.split_asm send_phase.split_asm outcome.split_asm dest!: send_frame)

lemma main_frame:
  assumes "main_at D (cn_main c) m c = Some c'"
  shows "cn_writer c' = cn_writer c \<and> cn_sends c' = cn_sends c \<and> cn_closers c' = cn_closers c \<and>
    cn_sendQueue c' = cn_sendQueue c \<and> cn_accepted c' = cn_accepted c \<and> cn_wrote c' = cn_wrote c \<and>
    cn_decoded c' = cn_decoded c \<and> cn_delivered c' = cn_delivered c \<and> cn_statistics c' = cn_statistics c \<and> cn_conf c' = cn_conf c"
  using assms by (cases "cn_main c") (auto simp: step_defs split: main_choice.split_asm if_split_asm once.split_asm)

lemma closer_frame:
  assumes "closer_at (cn_closers c ! i) i err c = Some c'"
  shows "cn_writer c' = cn_writer c \<and> cn_reader c' = cn_reader c \<and> cn_heart c' = cn_heart c \<and> cn_main c' = cn_main c \<and>
    cn_wg c' = cn_wg c \<and> cn_started c' = cn_started c \<and> cn_onClosed c' = cn_onClosed c \<and>
    cn_sends c' = cn_sends c \<and> length (cn_closers c') = length (cn_closers c) \<and>
    cn_sendQueue c' = cn_sendQueue c \<and> cn_accepted c' = cn_accepted c \<and> cn_wrote c' = cn_wrote c \<and>
    cn_decoded c' = cn_decoded c \<and> cn_delivered c' = cn_delivered c \<and> cn_statistics c' = cn_statistics c \<and> cn_conf c' = cn_conf c"
  using assms by (cases "cn_closers c ! i") (auto simp: step_defs split: once.split_asm)

lemma main_close_move:
  assumes a: "main_at D (cn_main c) m c = Some c'" and inv: "loops_inv D c"
  shows "close_move TMain c c'"
proof (cases "cn_main c = MStart")
  case True
  then obtain t where c': "c' = start_loops D t c" using a by (auto split: main_choice.split_asm)
  have "cn_reader c = RIdle" "cn_heart c = HIdle" using inv True by (simp_all add: loops_inv_def)
  then have "closing_at u c' = closing_at u c" for u
    using True c' by (cases u) (auto simp: start_loops_def Let_def)
  moreover have "same_close c c'" using c' by (simp add: start_loops_def Let_def same_close_def)
  ultimately show ?thesis by (simp add: close_move_def)
next
  case False
  show ?thesis
  proof (rule close_moveI)
    show "u \<noteq> TMain \<Longrightarrow> closing_at u c' = closing_at u c" for u
      using a False by (cases "cn_main c"; cases u) (auto simp: step_defs split: main_choice.split_asm if_split_asm once.split_asm)
  qed (use a False in \<open>cases "cn_main c"; auto simp: step_defs split: main_choice.split_asm if_split_asm once.split_asm\<close>)
qed

lemma write_close_move:
  assumes a: "write_at (cn_writer c) m c = Some c'"
  shows "close_move TWriter c c'"
proof (rule close_moveI)
  show "u \<noteq> TWriter \<Longrightarrow> closing_at u c' = closing_at u c" for u
    using write_frame [OF a] by (cases u) simp_all
qed (use a in \<open>cases "cn_writer c"; auto simp: step_defs split: write_choice.split_asm if_split_asm once.split_asm option.split_asm\<close>)

lemma read_close_move:
  assumes a: "read_at D (cn_reader c) m c = Some c'"
  shows "close_move TReader c c'"
proof (rule close_moveI)
  show "u \<noteq> TReader \<Longrightarrow> closing_at u c' = closing_at u c" for u
    using read_frame [OF a] by (cases u) simp_all
qed (use a in \<open>cases "cn_reader c"; auto simp: step_defs
        split: read_choice.split_asm if_split_asm once.split_asm option.split_asm send_phase.split_asm
        dest!: send_frame\<close>)

lemma heart_close_move:
  assumes a: "heart_at D (cn_heart c) m c = Some c'"
  shows "close_move THeart c c'"
proof (rule close_moveI)
  show "u \<noteq> THeart \<Longrightarrow> closing_at u c' = closing_at u c" for u
    using heart_frame [OF a] by (cases u) simp_all
qed (use a in \<open>cases "cn_heart c"; auto simp: step_defs
        split: heart_choice.split_asm if_split_asm once.split_asm option.split_asm send_phase.split_asm outcome.split_asm dest!: send_frame\<close>)

lemma closer_close_move:
  assumes a: "closer_at (cn_closers c ! i) i err c = Some c'" and i: "i < length (cn_closers c)"
  shows "close_move (TCaller i) c c'"
proof (rule close_moveI)
  show "u \<noteq> TCaller i \<Longrightarrow> closing_at u c' = closing_at u c" for u
    using a by (cases "cn_closers c ! i"; cases u) (auto simp: step_defs nth_list_update split: once.split_asm)
qed (use a i in \<open>cases "cn_closers c ! i"; auto simp: step_defs split: once.split_asm\<close>)


lemma late_over: "m_over m \<Longrightarrow> m_late m" "m = MInOnClose \<Longrightarrow> m_late m" "m = MDone \<Longrightarrow> m_late m"
  by (auto simp: m_late_def m_over_def)

lemma write_loops:
  assumes "write_at (cn_writer c) m c = Some c'" and "loops_inv D c"
  shows "loops_inv D c'"
  using write_frame [OF assms(1)] assms(2) late_over [of "cn_main c"] unfolding loops_inv_def by auto

lemma read_loops:
  assumes "read_at D (cn_reader c) m c = Some c'" and "loops_inv D c"
  shows "loops_inv D c'"
proof -
  have "\<not> m_early (cn_main c)" using read_frame [OF assms(1)] assms(2) by (auto simp: loops_inv_def)
  then show ?thesis
    using read_frame [OF assms(1)] assms(2) late_over [of "cn_main c"] unfolding loops_inv_def by auto
qed

lemma heart_loops:
  assumes "heart_at D (cn_heart c) m c = Some c'" and "loops_inv D c"
  shows "loops_inv D c'"
proof -
  have "\<not> m_early (cn_main c)" "d_heartbeat D \<noteq> None"
    using heart_frame [OF assms(1)] assms(2) by (auto simp: loops_inv_def)
  then show ?thesis
    using heart_frame [OF assms(1)] assms(2) late_over [of "cn_main c"] unfolding loops_inv_def by auto
qed

lemma closer_loops:
  assumes "closer_at (cn_closers c ! i) i err c = Some c'" and "i < length (cn_closers c)" and "loops_inv D c" and "once_inv c"
  shows "loops_inv D c'"
proof -
  have "m_over (cn_main c) \<Longrightarrow> cn_closeOnce c = OnceDone" using assms(3) by (simp add: loops_inv_def)
  moreover have "cn_closeOnce c = OnceDone \<Longrightarrow> same_close c c'"
    using closer_close_move [OF assms(1,2)] assms(4) by (auto simp: close_move_def once_inv_def simp del: closing_at.simps)
  ultimately have "m_over (cn_main c) \<Longrightarrow> cn_closeOnce c' = OnceDone \<and> cn_cause c' = cn_cause c"
    by (simp add: same_close_def)
  then show ?thesis
    using closer_frame [OF assms(1)] assms(3) unfolding loops_inv_def by (auto simp: m_over_def)
qed


lemma early_late: "m_early m \<Longrightarrow> \<not> m_late m \<and> \<not> m_over m \<and> m \<noteq> MInOnClose \<and> m \<noteq> MDone"
  by (cases m) (simp_all add: m_late_def m_over_def)

text \<open>\<open>Run\<close> before its wait, and after it: only its own phase and the closing change.\<close>

definition same_loops :: "'p conn \<Rightarrow> 'p conn \<Rightarrow> bool" where
  "same_loops c c' \<longleftrightarrow> cn_writer c' = cn_writer c \<and> cn_reader c' = cn_reader c \<and> cn_heart c' = cn_heart c \<and>
     cn_wg c' = cn_wg c \<and> cn_started c' = cn_started c"

lemma loops_early:
  assumes "loops_inv D c" and "same_loops c c'" and "cn_onClosed c' = cn_onClosed c"
    and "m_early (cn_main c)" and "cn_main c \<noteq> MNew" and "m_early (cn_main c') \<or> cn_main c' = MWait" and "cn_main c' \<noteq> MNew"
  shows "loops_inv D c'"
proof -
  have "\<not> m_late (cn_main c') \<and> \<not> m_over (cn_main c') \<and> cn_main c' \<noteq> MInOnClose \<and> cn_main c' \<noteq> MDone"
    using assms(6) early_late by (auto simp: m_late_def m_over_def)
  then show ?thesis using assms(1-5,7) early_late [OF assms(4)] by (simp add: loops_inv_def same_loops_def)
qed

lemma loops_late:
  assumes "loops_inv D c" and "same_loops c c'" and "m_late (cn_main c)" and "m_late (cn_main c')"
    and "m_over (cn_main c') \<Longrightarrow> cn_closeOnce c' = OnceDone"
    and "cn_onClosed c' = (if d_onClose D \<and> (cn_main c' = MInOnClose \<or> cn_main c' = MDone) then [cn_cause c'] else [])"
  shows "loops_inv D c'"
proof -
  have "\<not> m_early (cn_main c')" "cn_main c \<noteq> MNew" "cn_main c' \<noteq> MNew"
    using assms(3,4) early_late by (auto simp: m_late_def)
  then show ?thesis using assms unfolding loops_inv_def same_loops_def by simp
qed

lemma main_loops:
  assumes a: "main_at D (cn_main c) m c = Some c'" and inv: "loops_inv D c" and once: "once_inv c"
  shows "loops_inv D c'"
proof -
  have early: "m_early (cn_main c) \<Longrightarrow> cn_main c \<noteq> MNew \<Longrightarrow> cn_main c \<noteq> MStart \<Longrightarrow>
      same_loops c c' \<and> cn_onClosed c' = cn_onClosed c \<and> (m_early (cn_main c') \<or> cn_main c' = MWait) \<and> cn_main c' \<noteq> MNew"
    using a by (cases "cn_main c") (auto simp: close_enter_def close_leave_def same_loops_def split: main_choice.split_asm if_split_asm once.split_asm)
  have late: "m_late (cn_main c) \<Longrightarrow> same_loops c c' \<and> m_late (cn_main c') \<and>
      (m_over (cn_main c') \<longrightarrow> cn_closeOnce c' = OnceDone) \<and>
      cn_onClosed c' = (if d_onClose D \<and> (cn_main c' = MInOnClose \<or> cn_main c' = MDone) then [cn_cause c'] else [])"
    using a inv by (cases "cn_main c")
      (auto simp: close_enter_def close_leave_def same_loops_def loops_inv_def m_late_def m_over_def conn_Err_def
        split: main_choice.split_asm if_split_asm once.split_asm)
  consider "m_early (cn_main c)" "cn_main c \<noteq> MNew" "cn_main c \<noteq> MStart" | (new) "cn_main c = MNew" | (start) "cn_main c = MStart"
    | (waiting) "cn_main c = MWait" | (late) "m_late (cn_main c)"
    by (cases "cn_main c") (simp_all add: m_late_def)
  then show ?thesis
  proof cases
    case 1
    with early show ?thesis by (intro loops_early [OF inv]) blast+
  next
    case new
    with a show ?thesis by simp
  next
    case start
    with a inv show ?thesis
      by (auto simp: loops_inv_def start_loops_def Let_def m_late_def m_over_def split: main_choice.split_asm if_split_asm)
  next
    case waiting
    with a inv show ?thesis by (auto simp: loops_inv_def act_zero m_late_def m_over_def split: main_choice.split_asm if_split_asm)
  next
    case late
    note l = \<open>m_late (cn_main c) \<Longrightarrow> _\<close> [OF late]
    show ?thesis by (rule loops_late [OF inv]) (use l late in blast)+
  qed
qed


definition conn_inv :: "'p conn_deps \<Rightarrow> 'p conn \<Rightarrow> bool" where
  "conn_inv D c \<longleftrightarrow> once_inv c \<and> loops_inv D c"

lemma send_same:
  assumes "send_at ph ch c = Some (ph', c')"
  shows "same_close c c'" "same_loops c c'" "cn_main c' = cn_main c" "cn_onClosed c' = cn_onClosed c"
    "cn_closers c' = cn_closers c" "cn_sends c' = cn_sends c"
  using send_frame [OF assms] by (auto simp: same_close_def same_loops_def)

lemma closing_at_sends [simp]: "closing_at t (c\<lparr>cn_sends := x\<rparr>) = closing_at t c"
  by (cases t) simp_all

lemma conn_inv_same:
  assumes "conn_inv D c" and "same_close c c'" and "same_loops c c'" and "cn_main c' = cn_main c"
    and "cn_onClosed c' = cn_onClosed c" and "cn_closers c' = cn_closers c \<or> cn_closers c' = cn_closers c @ [CCall]"
  shows "conn_inv D c'"
proof -
  have "closing_at t c' = closing_at t c" for t
    using assms(3,4,6) by (cases t) (auto simp: same_loops_def nth_append less_Suc_eq)
  then show ?thesis
    using assms unfolding conn_inv_def once_inv_def loops_inv_def same_loops_def same_close_def by simp
qed

lemma internal_inv:
  assumes "conn_internal D c c'" and "conn_inv D c"
  shows "conn_inv D c' \<and> (cn_cause c \<noteq> None \<longrightarrow> cn_cause c' = cn_cause c)"
proof -
  have o: "once_inv c" and l: "loops_inv D c" using assms(2) by (simp_all add: conn_inv_def)
  from assms(1) show ?thesis
  proof (cases rule: conn_internal.cases)
    case (main_goes m)
    from close_move_inv [OF o main_close_move [OF main_goes l]] main_loops [OF main_goes l o] show ?thesis
      by (simp add: conn_inv_def)
  next
    case (write_goes w)
    from close_move_inv [OF o write_close_move [OF write_goes]] write_loops [OF write_goes l] show ?thesis
      by (simp add: conn_inv_def)
  next
    case (read_goes r)
    from close_move_inv [OF o read_close_move [OF read_goes]] read_loops [OF read_goes l] show ?thesis
      by (simp add: conn_inv_def)
  next
    case (heart_goes h)
    from close_move_inv [OF o heart_close_move [OF heart_goes]] heart_loops [OF heart_goes l] show ?thesis
      by (simp add: conn_inv_def)
  next
    case (send_goes i ch ph c1)
    have "conn_inv D c'"
      by (rule conn_inv_same [OF assms(2)]) (use send_same [OF send_goes(3)] send_goes(1) in \<open>simp_all add: same_close_def same_loops_def\<close>)
    moreover have "cn_cause c' = cn_cause c" using send_same(1) [OF send_goes(3)] send_goes(1) by (simp add: same_close_def)
    ultimately show ?thesis by simp
  next
    case (close_goes i err)
    from close_move_inv [OF o closer_close_move [OF close_goes(2,1)]] closer_loops [OF close_goes(2,1) l o] show ?thesis
      by (simp add: conn_inv_def)
  qed
qed

lemma conn_run_inv:
  assumes "conn_inv D c"
  shows "conn_inv D (conn_run c) \<and> cn_cause (conn_run c) = cn_cause c"
proof (cases "cn_started c")
  case True
  with assms show ?thesis by (simp add: conn_run_def)
next
  case False
  then have m: "cn_main c = MNew" "cn_writer c = WIdle" "cn_reader c = RIdle" "cn_heart c = HIdle" "cn_onClosed c = []"
    "cn_wg c = 0" using assms by (auto simp: conn_inv_def loops_inv_def)
  then have "closing_at t (conn_run c) = closing_at t c" for t by (cases t) (simp_all add: conn_run_def False)
  moreover have "same_close c (conn_run c)" by (simp add: conn_run_def same_close_def)
  ultimately have "once_inv (conn_run c)" using assms by (simp add: conn_inv_def once_inv_def same_close_def)
  moreover have "loops_inv D (conn_run c)" using m False by (simp add: loops_inv_def conn_run_def m_late_def m_over_def)
  ultimately show ?thesis by (simp add: conn_inv_def conn_run_def)
qed

lemma step_inv:
  assumes "conn_step D c c'" and "conn_inv D c"
  shows "conn_inv D c' \<and> (cn_cause c \<noteq> None \<longrightarrow> cn_cause c' = cn_cause c)"
  using assms(1)
proof (cases rule: conn_step.cases)
  case internal
  then show ?thesis using internal_inv assms(2) by blast
next
  case run
  then show ?thesis using conn_run_inv [OF assms(2)] by simp
qed (use conn_inv_same [OF assms(2), of c'] in \<open>simp_all add: same_close_def same_loops_def\<close>)

lemma new_conn_fields:
  assumes "fst (new_conn True conf gen) = Inr c"
  shows "conn_inv D c \<and> cn_sendQueue c = make_chan (nat (SendQueueSize (conn_defaults conf))) \<and>
    cn_conf c = conn_defaults conf \<and> cn_accepted c = [] \<and> cn_wrote c = [] \<and> cn_decoded c = [] \<and> cn_delivered c = [] \<and>
    cn_statistics c = no_traffic \<and> cn_writer c = WIdle \<and> cn_reader c = RIdle \<and> cn_sends c = [] \<and> cn_closers c = [] \<and>
    cn_main c = MNew"
proof -
  have "\<not> closing_at t c" for t using assms by (cases t) (auto simp: new_conn_def)
  then show ?thesis using assms
    by (auto simp: new_conn_def conn_inv_def once_inv_def loops_inv_def m_late_def m_over_def)
qed

lemma reachable_inv: "conn_reachable D c \<Longrightarrow> conn_inv D c"
  by (induction rule: conn_reachable.induct) (use new_conn_fields step_inv in blast)+

section \<open>Properties\<close>

text \<open>
  the connection ends once. \<open>Err()\<close> is nil exactly as long as nobody has closed; the first
  cause stays whatever else happens; and the transport is closed at most once, which has
  happened as soon as \<open>closeOnce\<close> lets later callers of \<open>Close\<close> through.
\<close>

theorem conn_first_cause_stays:
  assumes "conn_reachable D c" and "(conn_step D)\<^sup>*\<^sup>* c c'"
  shows "(conn_Err c \<noteq> None \<longrightarrow> conn_Err c' = conn_Err c) \<and> cn_closes c' \<le> 1 \<and>
    (cn_closes c' = 1 \<longleftrightarrow> cn_closeOnce c' = OnceDone) \<and> (conn_Err c' = None \<longleftrightarrow> cn_closeOnce c' = OnceNew)"
proof -
  have "conn_inv D c' \<and> (cn_cause c \<noteq> None \<longrightarrow> cn_cause c' = cn_cause c)"
    using assms(2)
  proof (induction rule: rtranclp_induct)
    case base
    show ?case using reachable_inv [OF assms(1)] by simp
  next
    case (step d e)
    then show ?case using step_inv [of D d e] by auto
  qed
  then show ?thesis by (auto simp: conn_inv_def once_inv_def conn_Err_def)
qed

theorem conn_first_cause_stays_witness:
  "\<exists>c c'. conn_reachable demo_deps c \<and> (conn_step demo_deps)\<^sup>*\<^sup>* c c' \<and> conn_Err c = Some ErrClosed \<and>
     conn_Err c' = Some ErrClosed \<and> cn_main c' = MDone"
proof -
  have "map_option conn_Err (conn_exec demo_deps (demo_start @ take 2 demo_stop) demo_conn) = Some (Some ErrClosed)"
    by code_simp
  then obtain c where c: "conn_exec demo_deps (demo_start @ take 2 demo_stop) demo_conn = Some c" "conn_Err c = Some ErrClosed"
    by auto
  have "map_option cn_main (conn_exec demo_deps ((demo_start @ take 2 demo_stop) @ drop 2 demo_stop) demo_conn) = Some MDone"
    by code_simp
  then obtain c' where "conn_exec demo_deps ((demo_start @ take 2 demo_stop) @ drop 2 demo_stop) demo_conn = Some c'"
      and d: "cn_main c' = MDone"
    by auto
  then have c': "conn_exec demo_deps (drop 2 demo_stop) c = Some c'"
    unfolding conn_exec_append [of _ "demo_start @ take 2 demo_stop"] c(1) by simp
  note r = conn_exec_reachable [OF c(1) demo_reachable] and s = conn_exec_steps [OF c']
  from conn_first_cause_stays [OF r s] c(2) r s d show ?thesis by auto
qed

text \<open>
  C18: \<open>OnClose\<close> comes last and once. Whenever it has been called, the write loop, the read loop
  and the heartbeat loop are over, the transport has been closed, and the argument was the
  connection's final cause; when \<open>Run\<close> has returned it has been called exactly once, if there
  is one.
\<close>

theorem conn_onClose_comes_last:
  assumes "conn_reachable D c"
  shows "(cn_onClosed c \<noteq> [] \<longrightarrow> cn_onClosed c = [conn_Err c] \<and> conn_Err c \<noteq> None \<and> cn_closes c = 1 \<and>
      \<not> w_active (cn_writer c) \<and> \<not> r_active (cn_reader c) \<and> \<not> h_active (cn_heart c)) \<and>
    (cn_main c = MDone \<longrightarrow> cn_closes c = 1 \<and> cn_wg c = 0 \<and>
      cn_onClosed c = (if d_onClose D then [conn_Err c] else []))"
proof -
  have inv: "once_inv c" "loops_inv D c" using reachable_inv [OF assms] by (simp_all add: conn_inv_def)
  have "m_over (cn_main c) \<Longrightarrow> cn_closeOnce c = OnceDone \<and> m_late (cn_main c)"
    using inv(2) late_over by (simp add: loops_inv_def)
  with inv show ?thesis
    by (auto simp: once_inv_def loops_inv_def conn_Err_def m_over_def split: if_splits)
qed

theorem conn_onClose_comes_last_witness:
  "\<exists>c. conn_reachable demo_deps c \<and> cn_main c = MDone \<and> cn_onClosed c = [Some ErrClosed] \<and> cn_closes c = 1"
proof -
  have "map_option (\<lambda>c. (cn_main c, conn_Err c)) (conn_exec demo_deps (demo_start @ demo_stop) demo_conn) =
      Some (MDone, Some ErrClosed)"
    by code_simp
  then obtain c where c: "conn_exec demo_deps (demo_start @ demo_stop) demo_conn = Some c"
      "cn_main c = MDone" "conn_Err c = Some ErrClosed"
    by auto
  note r = conn_exec_reachable [OF c(1) demo_reachable]
  have "d_onClose demo_deps" by (simp add: demo_deps_def)
  moreover have "cn_closes c = 1" "cn_onClosed c = (if d_onClose demo_deps then [conn_Err c] else [])"
    using conn_onClose_comes_last [OF r] c(2) by blast+
  ultimately show ?thesis using r c(2,3) by (intro exI [of _ c]) simp
qed

end
