(* ===== verification/Conn_Shutdown.thy ===== *)
theory Conn_Shutdown
  imports Conn_Life
begin

text \<open>
  Once a connection has a cause, everything under way comes to an end: every step of a
  goroutine makes the work that is left smaller, and as long as something is unfinished a step
  is possible. The steps stand for calls that return: \<open>Close\<close> makes a blocked \<open>Read\<close> or
  \<open>Write\<close> of the transport return, as its interface demands, and callbacks return.
\<close>

section \<open>Work left\<close>

fun s_work :: "send_phase \<Rightarrow> nat" where
  "s_work (SErr d) = 3" | "s_work (SCtx d) = 2" | "s_work (SSelect d) = 1"
| "s_work (STryErr d) = 2" | "s_work (STrySelect d) = 1" | "s_work (SReturned e) = 0"

fun w_work :: "write_phase \<Rightarrow> nat" where
  "w_work WIdle = 0" | "w_work WDone = 0" | "w_work WClosing = 1" | "w_work (WClose e) = 2"
| "w_work (WGot d) = 1" | "w_work WSelect = 2" | "w_work (WWriting d) = 3"

fun r_work :: "'p read_phase \<Rightarrow> nat" where
  "r_work RIdle = 0" | "r_work RDone = 0" | "r_work RClosing = 1" | "r_work (RClose e) = 2"
| "r_work RCheck = 1" | "r_work (RRead p) = 1" | "r_work RDecoding = 3" | "r_work (ROnMessage p) = 3"
| "r_work (RSend ph) = 3 + s_work ph" | "r_work (RDeliver p) = 7" | "r_work (RActive p) = 8"

fun h_work :: "heart_phase \<Rightarrow> nat" where
  "h_work HIdle = 0" | "h_work HDone = 0" | "h_work HClosing = 1" | "h_work (HClose e) = 2"
| "h_work (HTick s) = 1" | "h_work (HSelect s) = 2" | "h_work (HSent s x e) = 1"
| "h_work (HSend s x ph) = 2 * s_work ph + (if x = None then 3 else 2)" | "h_work (HTime s) = 10"

fun m_work :: "main_phase \<Rightarrow> nat" where
  "m_work MNew = 0" | "m_work MDone = 0" | "m_work MInOnClose = 1" | "m_work MOnClose = 2"
| "m_work MFinalClosing = 3" | "m_work MFinal = 4" | "m_work MWait = 5" | "m_work MStart = 9"
| "m_work MCheck = 10" | "m_work MClosing = 11" | "m_work (MClose e) = 12" | "m_work MOpening = 13"

fun c_work :: "close_phase \<Rightarrow> nat" where
  "c_work CCall = 2" | "c_work CClosing = 1" | "c_work (CReturned e) = 0"

definition conn_work :: "'p conn \<Rightarrow> nat" where
  "conn_work c = m_work (cn_main c) + w_work (cn_writer c) + r_work (cn_reader c) + h_work (cn_heart c) +
     sum_list (map s_work (cn_sends c)) + sum_list (map c_work (cn_closers c))"

definition finished :: "'p conn \<Rightarrow> bool" where
  "finished c \<longleftrightarrow> cn_main c = MDone \<and> (\<forall>ph \<in> set (cn_sends c). s_work ph = 0) \<and>
     (\<forall>ph \<in> set (cn_closers c). c_work ph = 0)"

lemma send_work: "send_at ph ch c = Some (ph', c1) \<Longrightarrow> s_work ph' < s_work ph"
  by (cases ph) (auto split: send_choice.split_asm if_split_asm option.splits)

lemma s_work_le: "s_work ph \<le> 3"
  by (cases ph) simp_all

lemma send_begin_work: "send_begin enc p = Returns ph \<Longrightarrow> s_work ph \<le> 3"
  by (rule s_work_le)

lemma write_work:
  assumes "write_at (cn_writer c) w c = Some c'" and "cn_cause c \<noteq> None" and "cn_closeOnce c \<noteq> OnceNew"
  shows "w_work (cn_writer c') < w_work (cn_writer c)"
  using assms by (cases "cn_writer c")
    (auto simp: step_defs conn_Err_def split: write_choice.split_asm if_split_asm once.split_asm option.split_asm)

lemma deliver_work: "r_work (cn_reader (deliver_packet D p c)) \<le> 6"
  by (auto simp: deliver_packet_def to_receiver_def s_work_le split: option.splits prod.splits outcome.splits)

lemma read_work:
  assumes "read_at D (cn_reader c) r c = Some c'" and "cn_cause c \<noteq> None" and "cn_closeOnce c \<noteq> OnceNew"
  shows "r_work (cn_reader c') < r_work (cn_reader c)"
proof (cases "cn_reader c")
  case (RDeliver p)
  then show ?thesis using assms deliver_work [of D p c] by (auto split: read_choice.split_asm if_split_asm)
next
  case (RSend ph)
  then show ?thesis using assms
    by (auto split: read_choice.split_asm if_split_asm send_phase.split_asm option.splits dest!: send_work)
qed (use assms in \<open>auto simp: step_defs conn_Err_def split: read_choice.split_asm if_split_asm once.split_asm\<close>)

lemma heart_work:
  assumes "heart_at D (cn_heart c) h c = Some c'" and "cn_cause c \<noteq> None" and "cn_closeOnce c \<noteq> OnceNew"
  shows "h_work (cn_heart c') < h_work (cn_heart c)"
proof (cases "cn_heart c")
  case (HTime seq)
  then show ?thesis using assms s_work_le
    by (auto simp: heart_check_def less_eq_Suc_le dest: send_begin_work
        split: heart_choice.split_asm if_split_asm option.split_asm outcome.split_asm)
next
  case (HSend seq x ph)
  then show ?thesis using assms
    by (auto split: heart_choice.split_asm if_split_asm send_phase.split_asm dest!: send_work)
qed (use assms in \<open>auto simp: step_defs conn_Err_def split: heart_choice.split_asm if_split_asm once.split_asm\<close>)

lemma main_work:
  assumes "main_at D (cn_main c) m c = Some c'" and "cn_cause c \<noteq> None" and "cn_closeOnce c \<noteq> OnceNew" and inv: "loops_inv D c"
  shows "m_work (cn_main c') + r_work (cn_reader c') + h_work (cn_heart c') <
    m_work (cn_main c) + r_work (cn_reader c) + h_work (cn_heart c)"
proof (cases "cn_main c")
  case MStart
  then have "cn_reader c = RIdle" "cn_heart c = HIdle" using inv by (simp_all add: loops_inv_def)
  with MStart assms show ?thesis by (auto simp: start_loops_def Let_def split: main_choice.split_asm)
qed (use assms in \<open>auto simp: step_defs conn_Err_def split: main_choice.split_asm if_split_asm once.split_asm\<close>)

lemma closer_work:
  assumes "closer_at (cn_closers c ! i) i err c = Some c'" and "i < length (cn_closers c)" and "cn_closeOnce c \<noteq> OnceNew"
  shows "sum_list (map c_work (cn_closers c')) < sum_list (map c_work (cn_closers c))"
  using assms by (cases "cn_closers c ! i")
    (auto simp: step_defs split: once.split_asm intro!: sum_list_update_less)

lemma work_decreases:
  assumes "conn_internal D c c'" and inv: "conn_inv D c" and cause: "cn_cause c \<noteq> None"
  shows "conn_work c' < conn_work c"
proof -
  have o: "cn_closeOnce c \<noteq> OnceNew" and l: "loops_inv D c"
    using inv cause by (auto simp: conn_inv_def once_inv_def)
  from assms(1) show ?thesis
  proof (cases rule: conn_internal.cases)
    case (main_goes m)
    from main_work [OF this cause o l] main_frame [OF this] show ?thesis by (simp add: conn_work_def)
  next
    case (write_goes w)
    from write_work [OF this cause o] write_frame [OF this] show ?thesis by (simp add: conn_work_def)
  next
    case (read_goes r)
    from read_work [OF this cause o] read_frame [OF this] show ?thesis by (simp add: conn_work_def)
  next
    case (heart_goes h)
    from heart_work [OF this cause o] heart_frame [OF this] show ?thesis by (simp add: conn_work_def)
  next
    case (send_goes i ch ph c1)
    have "sum_list (map s_work ((cn_sends c)[i := ph])) < sum_list (map s_work (cn_sends c))"
      by (rule sum_list_update_less [where f = s_work, OF send_goes(2) send_work [OF send_goes(3)]])
    then show ?thesis
      using send_frame [OF send_goes(3)] send_goes(1) by (auto simp: conn_work_def)
  next
    case (close_goes i err)
    from closer_work [OF close_goes(2,1) o] closer_frame [OF close_goes(2)] show ?thesis by (simp add: conn_work_def)
  qed
qed

section \<open>Progress\<close>

lemma holder_goes:
  assumes "closing_at t c"
  shows "\<exists>c'. conn_internal D c c'"
proof (cases t)
  case TMain
  with assms have "main_at D (cn_main c) (MClosed None) c \<noteq> None" by auto
  then show ?thesis using conn_internal.main_goes by blast
next
  case TWriter
  with assms have "write_at (cn_writer c) (WClosed None) c \<noteq> None" by auto
  then show ?thesis using conn_internal.write_goes by blast
next
  case TReader
  with assms have "read_at D (cn_reader c) (RClosed None) c \<noteq> None" by auto
  then show ?thesis using conn_internal.read_goes by blast
next
  case THeart
  with assms have "heart_at D (cn_heart c) (HClosed None) c \<noteq> None" by auto
  then show ?thesis using conn_internal.heart_goes by blast
next
  case (TCaller i)
  with assms have "closer_at (cn_closers c ! i) i None c \<noteq> None" "i < length (cn_closers c)" by (auto simp: Let_def)
  then show ?thesis using conn_internal.close_goes by blast
qed

lemma send_goes_on:
  assumes "s_work ph \<noteq> 0" and "cn_cause c \<noteq> None"
  shows "\<exists>ch. ctx_allows x ch \<and> send_at ph ch c \<noteq> None"
proof (cases ph)
  case (SErr d)
  then show ?thesis by (intro exI [of _ SGo]) simp
next
  case (SCtx d)
  then show ?thesis by (intro exI [of _ "SCtxErr x"]) simp
next
  case (SSelect d)
  with assms show ?thesis by (intro exI [of _ SPickConn]) (auto simp: conn_Err_def)
next
  case (STryErr d)
  then show ?thesis by (intro exI [of _ SGo]) simp
next
  case (STrySelect d)
  with assms show ?thesis by (intro exI [of _ SPickConn]) (auto simp: conn_Err_def)
qed (use assms in simp)

lemma writer_goes_on:
  assumes "w_active (cn_writer c)" and "cn_cause c \<noteq> None" and "cn_closeOnce c = OnceDone"
  shows "\<exists>w. write_at (cn_writer c) w c \<noteq> None"
proof (cases "cn_writer c")
  case WSelect
  with assms show ?thesis by (intro exI [of _ WStop]) simp
next
  case (WGot d)
  then show ?thesis by (intro exI [of _ WGo]) simp
next
  case (WWriting d)
  then show ?thesis by (intro exI [of _ "WWrote 0 None"]) simp
next
  case (WClose e)
  with assms show ?thesis by (intro exI [of _ WGo]) (simp add: close_enter_def)
next
  case WClosing
  then show ?thesis by (intro exI [of _ "WClosed None"]) simp
qed (use assms in simp_all)

lemma reader_goes_on:
  assumes "r_active (cn_reader c)" and "cn_cause c \<noteq> None" and "cn_closeOnce c = OnceDone"
  shows "\<exists>r. read_at D (cn_reader c) r c \<noteq> None"
proof (cases "cn_reader c")
  case RDecoding
  then show ?thesis by (intro exI [of _ "RFails ErrClosed"]) simp
next
  case (RActive p)
  then show ?thesis by (intro exI [of _ "RNow 0"]) simp
next
  case (RSend ph)
  show ?thesis
  proof (cases "s_work ph = 0")
    case True
    with RSend show ?thesis by (cases ph) (auto intro: exI [of _ RGo])
  next
    case False
    from send_goes_on [OF this assms(2), of "ctx_err c"] obtain ch where "ctx_allows (ctx_err c) ch" "send_at ph ch c \<noteq> None"
      by blast
    with RSend show ?thesis by (intro exI [of _ "RSending ch"]) simp
  qed
next
  case (ROnMessage p)
  then show ?thesis by (intro exI [of _ RReturned]) simp
next
  case (RClose e)
  with assms show ?thesis by (intro exI [of _ RGo]) (simp add: close_enter_def)
next
  case RClosing
  then show ?thesis by (intro exI [of _ "RClosed None"]) simp
qed (use assms in \<open>auto intro: exI [of _ RGo]\<close>)

lemma heart_goes_on:
  assumes "h_active (cn_heart c)" and "cn_cause c \<noteq> None" and "cn_closeOnce c = OnceDone" and "d_heartbeat D \<noteq> None"
  shows "\<exists>h. heart_at D (cn_heart c) h c \<noteq> None"
proof (cases "cn_heart c")
  case (HSelect seq)
  with assms show ?thesis by (intro exI [of _ HStop]) simp
next
  case (HTime seq)
  with assms show ?thesis by (intro exI [of _ "HNow 0"]) (auto simp: heart_check_def split: outcome.splits)
next
  case (HSend seq x ph)
  show ?thesis
  proof (cases "s_work ph = 0")
    case True
    with HSend show ?thesis by (cases ph) (auto intro: exI [of _ HGo])
  next
    case False
    from send_goes_on [OF this assms(2), of "ping_ctx x c"] obtain ch where "ctx_allows (ping_ctx x c) ch" "send_at ph ch c \<noteq> None"
      by blast
    with HSend show ?thesis by (intro exI [of _ "HSending ch"]) simp
  qed
next
  case (HClose e)
  with assms show ?thesis by (intro exI [of _ HGo]) (simp add: close_enter_def)
next
  case HClosing
  then show ?thesis by (intro exI [of _ "HClosed None"]) simp
qed (use assms in \<open>auto simp: conn_Err_def intro: exI [of _ HGo]\<close>)

lemma main_goes_on:
  assumes "cn_main c \<noteq> MNew" and "cn_main c \<noteq> MDone" and "cn_closeOnce c = OnceDone"
    and "cn_main c = MWait \<Longrightarrow> cn_wg c = 0"
  shows "\<exists>m. main_at D (cn_main c) m c \<noteq> None"
proof (cases "cn_main c")
  case MOpening
  then show ?thesis by (cases "d_onOpen D") (auto intro: exI [of _ MReturned] exI [of _ MGo])
next
  case MStart
  then show ?thesis by (intro exI [of _ "MNow 0"]) simp
next
  case MClosing
  then show ?thesis by (intro exI [of _ "MClosed None"]) simp
next
  case MFinalClosing
  then show ?thesis by (intro exI [of _ "MClosed None"]) simp
next
  case MInOnClose
  then show ?thesis by (intro exI [of _ MReturned]) simp
qed (use assms in \<open>auto simp: close_enter_def intro: exI [of _ MGo]\<close>)

lemma not_stuck:
  assumes inv: "conn_inv D c" and cause: "cn_cause c \<noteq> None" and started: "cn_started c" and "\<not> finished c"
  shows "\<exists>c'. conn_internal D c c'"
proof (cases "\<exists>t. cn_closeOnce c = OnceBusy t")
  case True
  then obtain t where "cn_closeOnce c = OnceBusy t" by blast
  then have "closing_at t c" using inv by (simp add: conn_inv_def once_inv_def del: closing_at.simps)
  then show ?thesis by (rule holder_goes)
next
  case False
  then have o: "cn_closeOnce c = OnceDone" using inv cause by (cases "cn_closeOnce c") (auto simp: conn_inv_def once_inv_def)
  have l: "loops_inv D c" using inv by (simp add: conn_inv_def)
  consider (send) i where "i < length (cn_sends c)" "s_work (cn_sends c ! i) \<noteq> 0"
    | (close) i where "i < length (cn_closers c)" "c_work (cn_closers c ! i) \<noteq> 0"
    | (writer) "w_active (cn_writer c)" | (reader) "r_active (cn_reader c)" | (heart) "h_active (cn_heart c)"
    | (main) "cn_main c \<noteq> MDone" "\<not> w_active (cn_writer c)" "\<not> r_active (cn_reader c)" "\<not> h_active (cn_heart c)"
    using assms(4) by (auto simp: finished_def in_set_conv_nth)
  then show ?thesis
  proof cases
    case send
    from send_goes_on [OF send(2) cause, of None] obtain ch ph c1 where "send_at (cn_sends c ! i) ch c = Some (ph, c1)" by auto
    with send(1) show ?thesis using conn_internal.send_goes by blast
  next
    case close
    then have "closer_at (cn_closers c ! i) i None c \<noteq> None"
      using o by (cases "cn_closers c ! i") (auto simp: close_enter_def Let_def)
    with close(1) show ?thesis using conn_internal.close_goes by blast
  next
    case writer
    from writer_goes_on [OF this cause o] show ?thesis using conn_internal.write_goes by blast
  next
    case reader
    from reader_goes_on [OF this cause o] show ?thesis using conn_internal.read_goes by blast
  next
    case heart
    then have "d_heartbeat D \<noteq> None" using l by (auto simp: loops_inv_def)
    from heart_goes_on [OF heart cause o this] show ?thesis using conn_internal.heart_goes by blast
  next
    case main
    have "cn_main c \<noteq> MNew" "cn_wg c = 0" using l started main by (auto simp: loops_inv_def)
    from main_goes_on [OF this(1) main(1) o this(2)] show ?thesis using conn_internal.main_goes by blast
  qed
qed

section \<open>Property\<close>

lemma started_stays:
  assumes "conn_internal D c c'" and "cn_started c"
  shows "cn_started c'"
  using assms(1)
proof (cases rule: conn_internal.cases)
  case (main_goes m)
  then show ?thesis using assms(2)
    by (cases "cn_main c") (auto simp: step_defs split: main_choice.split_asm if_split_asm once.split_asm)
qed (use assms(2) in \<open>auto dest!: write_frame read_frame heart_frame closer_frame send_frame\<close>)

interpretation closing_conn: winding_down "conn_internal D" "\<lambda>c. conn_inv D c \<and> cn_cause c \<noteq> None \<and> cn_started c" conn_work finished for D
proof
  fix c c'
  assume c: "conn_inv D c \<and> cn_cause c \<noteq> None \<and> cn_started c" and s: "conn_internal D c c'"
  from c work_decreases [OF s] internal_inv [OF s] started_stays [OF s]
  show "conn_inv D c' \<and> cn_cause c' \<noteq> None \<and> cn_started c'" "conn_work c' < conn_work c" by auto
qed (use not_stuck in blast)

text \<open>
  C21: a closed connection comes to its end. Once there is a cause, whatever order the goroutines
  run in and whatever the calls they make return, they make at most \<open>conn_work\<close> more steps, and
  they do not get stuck before \<open>Run\<close> has returned and every \<open>Send\<close>, \<open>TrySend\<close> and \<open>Close\<close> under
  way has returned too, which they can always reach: no sender waits for room in the queue of a closed connection.
\<close>

theorem conn_shutdown_terminates:
  assumes "conn_reachable D c" and "cn_started c" and "conn_Err c \<noteq> None" and "(conn_internal D ^^ n) c c'"
  shows "n \<le> conn_work c \<and> (finished c' \<or> (\<exists>d. conn_internal D c' d)) \<and> (\<exists>d. (conn_internal D)\<^sup>*\<^sup>* c' d \<and> finished d)"
proof -
  have c: "conn_inv D c \<and> cn_cause c \<noteq> None \<and> cn_started c"
    using reachable_inv [OF assms(1)] assms(2,3) by (simp add: conn_Err_def)
  note r = closing_conn.run_bound [OF assms(4) c]
  from closing_conn.run_ends [OF conjunct1 [OF r]] closing_conn.run_not_stuck [OF assms(4) c] r show ?thesis by auto
qed

theorem conn_shutdown_terminates_witness:
  "\<exists>c c'. conn_reachable demo_deps c \<and> cn_started c \<and> conn_Err c = Some ErrClosed \<and>
     (conn_internal demo_deps ^^ 0) c c' \<and> (\<exists>d. conn_internal demo_deps c' d)"
proof -
  have "map_option (\<lambda>c. (cn_started c, conn_Err c, cn_main c)) (conn_exec demo_deps (demo_start @ take 2 demo_stop) demo_conn) =
      Some (True, Some ErrClosed, MWait)"
    by code_simp
  then obtain c where c: "conn_exec demo_deps (demo_start @ take 2 demo_stop) demo_conn = Some c" "cn_started c"
      "conn_Err c = Some ErrClosed" "cn_main c = MWait"
    by auto
  note r = conn_exec_reachable [OF c(1) demo_reachable]
  have e: "conn_Err c \<noteq> None" using c(3) by simp
  have z: "(conn_internal demo_deps ^^ 0) c c" by simp
  have "\<not> finished c" using c(4) by (simp add: finished_def)
  with conn_shutdown_terminates [OF r c(2) e z] r c(2,3) z show ?thesis by blast
qed

end
