(* ===== verification/Stream_Transport.thy ===== *)
theory Stream_Transport
  imports Net_Base
begin

text \<open>
  \<^verbatim>\<open>common/network/tcp_impl.go\<close> and \<^verbatim>\<open>common/network/kcp_impl.go\<close>: the transports over
  a TCP socket and over a KCP session. The socket is seen through the calls on it: the state
  keeps the calls made so far with their results, and the environment decides from them whether
  the next call fails. A socket call that fails has no effect. The third-party KCP package and
  package \<^verbatim>\<open>net\<close> are that environment. Times and durations are nanoseconds.
\<close>

section \<open>Sockets\<close>

datatype sock_call =
    SetKeepAlive bool | SetKeepAlivePeriod int | SetReadBuffer int | SetWriteBuffer int | SetNoDelay bool
  | SetDSCP int | SetMtu int | SetWindowSize int int | SetKcpNoDelay int int int int | SetACKNoDelay bool
  | SetWriteDelay bool | SetReadDeadline "int option" | SetWriteDeadline "int option" | SockClose

text \<open>\<open>so_in\<close> is what still arrives from the peer, \<open>so_out\<close> what has been sent to it.\<close>

record 'b sock =
  so_log :: "(sock_call \<times> net_error option) list"
  so_in :: "'b list"
  so_out :: "'b list"

text \<open>
  \<open>se_read\<close> gives, for the length of the buffer, how many bytes a read delivers and with which
  error; \<open>se_write\<close> lets a write succeed in full or fail after some bytes, as \<open>io.Writer\<close> asks:
  a write that is short has an error.
\<close>

record 'b sock_env =
  se_call :: "'b sock \<Rightarrow> sock_call \<Rightarrow> net_error option"
  se_read :: "'b sock \<Rightarrow> nat \<Rightarrow> nat \<times> net_error option"
  se_write :: "'b sock \<Rightarrow> 'b list \<Rightarrow> (nat \<times> net_error) option"

definition sock_do :: "'b sock_env \<Rightarrow> sock_call \<Rightarrow> 'b sock \<Rightarrow> net_error option \<times> 'b sock" where
  "sock_do env c s = (se_call env s c, s\<lparr>so_log := so_log s @ [(c, se_call env s c)]\<rparr>)"

definition sock_read :: "'b sock_env \<Rightarrow> nat \<Rightarrow> 'b sock \<Rightarrow> ('b list \<times> net_error option) \<times> 'b sock" where
  "sock_read env len s =
     (let (k, e) = se_read env s len; n = min k (min len (length (so_in s)))
      in ((take n (so_in s), e), s\<lparr>so_in := drop n (so_in s)\<rparr>))"

definition sock_write :: "'b sock_env \<Rightarrow> 'b list \<Rightarrow> 'b sock \<Rightarrow> (nat \<times> net_error option) \<times> 'b sock" where
  "sock_write env data s =
     (case se_write env s data of
        None \<Rightarrow> ((length data, None), s\<lparr>so_out := so_out s @ data\<rparr>)
      | Some (k, e) \<Rightarrow> (let n = min k (length data) in ((n, Some e), s\<lparr>so_out := so_out s @ take n data\<rparr>)))"

text \<open>
  A sequence of \<open>if cond { if err := conn.Set(...); err != nil { return err } }\<close>: the calls whose
  condition holds, up to the first error.
\<close>

fun sock_options :: "'b sock_env \<Rightarrow> (bool \<times> sock_call) list \<Rightarrow> 'b sock \<Rightarrow> net_error option \<times> 'b sock" where
  "sock_options env [] s = (None, s)"
| "sock_options env ((cond, c) # cs) s =
     (if cond then
        (case sock_do env c s of
           (Some e, s1) \<Rightarrow> (Some e, s1)
         | (None, s1) \<Rightarrow> sock_options env cs s1)
      else sock_options env cs s)"

text \<open>
  The deadline around a read or a write: set it if there is a timeout, do the call, and clear it
  in the deferred function, whose error is dropped.
\<close>

definition with_deadline ::
  "'b sock_env \<Rightarrow> (int option \<Rightarrow> sock_call) \<Rightarrow> int \<Rightarrow> int \<Rightarrow> 'r \<Rightarrow>
   ('b sock \<Rightarrow> ('r \<times> net_error option) \<times> 'b sock) \<Rightarrow> 'b sock \<Rightarrow> ('r \<times> net_error option) \<times> 'b sock" where
  "with_deadline env deadline now timeout zero call s =
     (if timeout > 0 then
        (case sock_do env (deadline (Some (now + timeout))) s of
           (Some e, s1) \<Rightarrow> ((zero, Some e), s1)
         | (None, s1) \<Rightarrow> (let (r, s2) = call s1 in (r, snd (sock_do env (deadline None) s2))))
      else call s)"

text \<open>
  The functions \<open>Accept\<close> and \<open>DialContext\<close> below convert the results of a constructor with
  \<open>return newTransport(...)\<close>, so that a nil pointer becomes an interface that is not nil.
\<close>

definition iface_of :: "net_error + 't \<Rightarrow> 't iface \<times> net_error option" where
  "iface_of r = (case r of Inl e \<Rightarrow> (Iface None, Some e) | Inr t \<Rightarrow> (Iface (Some t), None))"

section \<open>TCP\<close>

record tcp_config =
  tcp_KeepalivePeriod :: int
  tcp_NoDelay :: bool
  tcp_ReadTimeout :: int
  tcp_WriteTimeout :: int
  tcp_ReadBufferSize :: int
  tcp_WriteBufferSize :: int

text \<open>A \<open>TCPTransportImpl\<close>; its connection is the socket the operations pass along.\<close>

record tcp_transport =
  tt_conf :: tcp_config

definition tcp_options :: "tcp_config \<Rightarrow> (bool \<times> sock_call) list" where
  "tcp_options conf =
     [(tcp_KeepalivePeriod conf > 0, SetKeepAlive True),
      (tcp_KeepalivePeriod conf > 0, SetKeepAlivePeriod (tcp_KeepalivePeriod conf)),
      (tcp_ReadBufferSize conf > 0, SetReadBuffer (tcp_ReadBufferSize conf)),
      (tcp_WriteBufferSize conf > 0, SetWriteBuffer (tcp_WriteBufferSize conf)),
      (True, SetNoDelay (tcp_NoDelay conf))]"

definition new_tcp_transport :: "'b sock_env \<Rightarrow> bool \<Rightarrow> tcp_config \<Rightarrow> 'b sock \<Rightarrow> (net_error + tcp_transport) \<times> 'b sock" where
  "new_tcp_transport env conn conf s =
     (if \<not> conn then (Inl (NewError ''network/tcp: nil TCP connection''), s)
      else
        (case sock_options env (tcp_options conf) s of
           (Some e, s1) \<Rightarrow> (Inl e, snd (sock_do env SockClose s1))
         | (None, s1) \<Rightarrow> (Inr \<lparr>tt_conf = conf\<rparr>, s1)))"

definition tcp_read :: "'b sock_env \<Rightarrow> int \<Rightarrow> tcp_transport \<Rightarrow> nat \<Rightarrow> 'b sock \<Rightarrow> ('b list \<times> net_error option) \<times> 'b sock" where
  "tcp_read env now t len s =
     (if len = 0 then (([], None), s)
      else with_deadline env SetReadDeadline now (tcp_ReadTimeout (tt_conf t)) [] (sock_read env len) s)"

definition tcp_write :: "'b sock_env \<Rightarrow> int \<Rightarrow> tcp_transport \<Rightarrow> 'b list \<Rightarrow> 'b sock \<Rightarrow> (nat \<times> net_error option) \<times> 'b sock" where
  "tcp_write env now t data s =
     (if data = [] then ((0, None), s)
      else with_deadline env SetWriteDeadline now (tcp_WriteTimeout (tt_conf t)) 0 (sock_write env data) s)"

text \<open>\<open>Close\<close> on a pointer; on the nil pointer the access to its field panics.\<close>

definition tcp_close :: "'b sock_env \<Rightarrow> tcp_transport option \<Rightarrow> 'b sock \<Rightarrow> (net_error option \<times> 'b sock) option" where
  "tcp_close env t s = (case t of None \<Rightarrow> None | Some _ \<Rightarrow> Some (sock_do env SockClose s))"

text \<open>
  The listener and the dialer. What the operating system answers is the argument: an error, or a
  connection, with the socket of its state; a dial says whether it is a TCP connection.
\<close>

record tcp_listener =
  tl_conf :: tcp_config

definition new_tcp_listener :: "net_error option \<Rightarrow> net_error option \<Rightarrow> tcp_config \<Rightarrow> net_error + tcp_listener" where
  "new_tcp_listener resolved listened conf =
     (case resolved of Some e \<Rightarrow> Inl e | None \<Rightarrow>
        (case listened of Some e \<Rightarrow> Inl e | None \<Rightarrow> Inr \<lparr>tl_conf = conf\<rparr>))"

definition tcp_accept :: "'b sock_env \<Rightarrow> tcp_listener \<Rightarrow> net_error + 'b sock \<Rightarrow>
    (tcp_transport iface \<times> net_error option) \<times> 'b sock option" where
  "tcp_accept env ln accepted =
     (case accepted of
        Inl e \<Rightarrow> ((NilIface, Some e), None)
      | Inr s \<Rightarrow> (let (r, s1) = new_tcp_transport env True (tl_conf ln) s in (iface_of r, Some s1)))"

text \<open>\<open>Close\<close> of a listener; a listener has a socket of its own, which is the argument.\<close>

definition tcp_listener_close :: "'b sock_env \<Rightarrow> tcp_listener \<Rightarrow> 'b sock \<Rightarrow> net_error option \<times> 'b sock" where
  "tcp_listener_close env ln s = sock_do env SockClose s"

record tcp_dialer =
  td_conf :: tcp_config

definition new_tcp_dialer :: "tcp_config \<Rightarrow> tcp_dialer" where
  "new_tcp_dialer conf = \<lparr>td_conf = conf\<rparr>"

definition tcp_dial :: "'b sock_env \<Rightarrow> tcp_dialer \<Rightarrow> net_error + bool \<times> 'b sock \<Rightarrow>
    (tcp_transport iface \<times> net_error option) \<times> 'b sock option" where
  "tcp_dial env d dialed =
     (case dialed of
        Inl e \<Rightarrow> ((NilIface, Some e), None)
      | Inr (isTCP, s) \<Rightarrow>
          if \<not> isTCP then
            ((NilIface, Some (NewError ''network/tcp: dial di not return TCP connection'')), Some (snd (sock_do env SockClose s)))
          else (let (r, s1) = new_tcp_transport env True (td_conf d) s in (iface_of r, Some s1)))"

section \<open>KCP\<close>

definition KCPEncryptionNone :: string where "KCPEncryptionNone = ''''"

definition KCPEncryptionAES :: string where "KCPEncryptionAES = ''aes''"

record kcp_config =
  kcp_ReadTimeout :: int
  kcp_WriteTimeout :: int
  kcp_MTU :: int
  kcp_SendWindow :: int
  kcp_ReceiveWindow :: int
  kcp_NoDelay :: bool
  kcp_IntervalMs :: int
  kcp_FastResend :: int
  kcp_NoCongestion :: bool
  kcp_AckNoDelay :: bool
  kcp_WriteDelay :: bool
  kcp_DataShards :: int
  kcp_ParityShards :: int
  kcp_DSCP :: int
  kcp_ReadBufferSize :: int
  kcp_WriteBufferSize :: int
  kcp_Mode :: string
  kcp_Key :: "nat list"

record kcp_transport =
  kt_conf :: kcp_config

text \<open>
  The settings after the MTU: their functions return nothing, so that an error of the
  environment has no one to see it. A parameter of \<open>SetNoDelay\<close> that is -1 keeps the default.
\<close>

definition kcp_settings :: "kcp_config \<Rightarrow> sock_call list" where
  "kcp_settings conf =
     [SetWindowSize (if kcp_SendWindow conf > 0 then kcp_SendWindow conf else 0)
        (if kcp_ReceiveWindow conf > 0 then kcp_ReceiveWindow conf else 0),
      SetKcpNoDelay (if kcp_NoDelay conf then 1 else -1)
        (if kcp_IntervalMs conf > 0 then kcp_IntervalMs conf else -1)
        (if kcp_FastResend conf > 0 then kcp_FastResend conf else -1)
        (if kcp_NoCongestion conf then 1 else -1),
      SetACKNoDelay (kcp_AckNoDelay conf),
      SetWriteDelay (kcp_WriteDelay conf)]"

definition sock_settings :: "'b sock_env \<Rightarrow> sock_call list \<Rightarrow> 'b sock \<Rightarrow> 'b sock" where
  "sock_settings env cs s = foldl (\<lambda>s c. snd (sock_do env c s)) s cs"

definition new_kcp_transport :: "'b sock_env \<Rightarrow> bool \<Rightarrow> kcp_config \<Rightarrow> 'b sock \<Rightarrow> (net_error + kcp_transport) \<times> 'b sock" where
  "new_kcp_transport env session conf s =
     (if \<not> session then (Inl (NewError ''network/kcp: session is nil''), s)
      else
        (case (if kcp_MTU conf > 0 then sock_do env (SetMtu (kcp_MTU conf)) s else (None, s)) of
           (Some _, s1) \<Rightarrow> (Inl (NewError ''network/kcp: set mtu failed''), snd (sock_do env SockClose s1))
         | (None, s1) \<Rightarrow> (Inr \<lparr>kt_conf = conf\<rparr>, sock_settings env (kcp_settings conf) s1)))"

definition kcp_read :: "'b sock_env \<Rightarrow> int \<Rightarrow> kcp_transport \<Rightarrow> nat \<Rightarrow> 'b sock \<Rightarrow> ('b list \<times> net_error option) \<times> 'b sock" where
  "kcp_read env now t len s =
     (if len = 0 then (([], None), s)
      else with_deadline env SetReadDeadline now (kcp_ReadTimeout (kt_conf t)) [] (sock_read env len) s)"

definition kcp_write :: "'b sock_env \<Rightarrow> int \<Rightarrow> kcp_transport \<Rightarrow> 'b list \<Rightarrow> 'b sock \<Rightarrow> (nat \<times> net_error option) \<times> 'b sock" where
  "kcp_write env now t data s =
     (if data = [] then ((0, None), s)
      else with_deadline env SetWriteDeadline now (kcp_WriteTimeout (kt_conf t)) 0 (sock_write env data) s)"

definition kcp_close :: "'b sock_env \<Rightarrow> kcp_transport option \<Rightarrow> 'b sock \<Rightarrow> (net_error option \<times> 'b sock) option" where
  "kcp_close env t s = (case t of None \<Rightarrow> None | Some _ \<Rightarrow> Some (sock_do env SockClose s))"

text \<open>
  \<open>newBlockCrypt\<close>: the cipher is nil, or what the KCP package makes of the key. The block cipher
  is of no further concern here than whether there is one.
\<close>

definition new_block_crypt :: "(nat list \<Rightarrow> net_error + 'c) \<Rightarrow> string \<Rightarrow> nat list \<Rightarrow> net_error + 'c option" where
  "new_block_crypt aes mode key =
     (if mode = KCPEncryptionAES then map_sum id Some (aes key)
      else if mode = KCPEncryptionNone then Inr None
      else Inl (NewError ''network/kcp: unsupported encryption mode''))"

text \<open>
  The numbers of shards, checked before a socket is made. The addition is on \<open>int\<close>.
\<close>

definition shards :: "int \<Rightarrow> int" where
  "shards n = (if n > 0 then n else 0)"

definition fec_invalid :: "kcp_config \<Rightarrow> bool" where
  "fec_invalid conf \<longleftrightarrow> wrap64 (shards (kcp_DataShards conf) + shards (kcp_ParityShards conf)) > 256"

definition kcp_socket_options :: "kcp_config \<Rightarrow> (bool \<times> sock_call) list" where
  "kcp_socket_options conf =
     [(kcp_DSCP conf > 0, SetDSCP (kcp_DSCP conf)),
      (kcp_ReadBufferSize conf > 0, SetReadBuffer (kcp_ReadBufferSize conf)),
      (kcp_WriteBufferSize conf > 0, SetWriteBuffer (kcp_WriteBufferSize conf))]"

record kcp_listener =
  kl_conf :: kcp_config

text \<open>
  What the KCP package makes of the address, the cipher and the shards is the argument \<open>opened\<close>:
  an error, or a session or listener with its socket.
\<close>

definition new_kcp_listener ::
  "(nat list \<Rightarrow> net_error + 'c) \<Rightarrow> 'b sock_env \<Rightarrow> ('c option \<Rightarrow> int \<Rightarrow> int \<Rightarrow> net_error + 'b sock) \<Rightarrow> kcp_config \<Rightarrow>
   (net_error + kcp_listener) \<times> 'b sock option" where
  "new_kcp_listener aes env opened conf =
     (case new_block_crypt aes (kcp_Mode conf) (kcp_Key conf) of
        Inl e \<Rightarrow> (Inl e, None)
      | Inr block \<Rightarrow>
          if fec_invalid conf then (Inl (NewError ''network/kcp: invalid FEC shards configure''), None)
          else
            (case opened block (shards (kcp_DataShards conf)) (shards (kcp_ParityShards conf)) of
               Inl e \<Rightarrow> (Inl (ForeignError ''network/kcp: listen with address options failed'' [e]), None)
             | Inr s \<Rightarrow>
                 (case sock_options env (kcp_socket_options conf) s of
                    (Some e, s1) \<Rightarrow> (Inl e, Some (snd (sock_do env SockClose s1)))
                  | (None, s1) \<Rightarrow> (Inr \<lparr>kl_conf = conf\<rparr>, Some s1))))"

definition kcp_accept :: "'b sock_env \<Rightarrow> kcp_listener \<Rightarrow> net_error + 'b sock \<Rightarrow>
    (kcp_transport iface \<times> net_error option) \<times> 'b sock option" where
  "kcp_accept env ln accepted =
     (case accepted of
        Inl e \<Rightarrow> ((NilIface, Some e), None)
      | Inr s \<Rightarrow> (let (r, s1) = new_kcp_transport env True (kl_conf ln) s in (iface_of r, Some s1)))"

definition kcp_listener_close :: "'b sock_env \<Rightarrow> kcp_listener \<Rightarrow> 'b sock \<Rightarrow> net_error option \<times> 'b sock" where
  "kcp_listener_close env ln s = sock_do env SockClose s"

definition kcp_dial ::
  "(nat list \<Rightarrow> net_error + 'c) \<Rightarrow> 'b sock_env \<Rightarrow> ('c option \<Rightarrow> int \<Rightarrow> int \<Rightarrow> net_error + 'b sock) \<Rightarrow> kcp_config \<Rightarrow>
   (kcp_transport iface \<times> net_error option) \<times> 'b sock option" where
  "kcp_dial aes env opened conf =
     (case new_block_crypt aes (kcp_Mode conf) (kcp_Key conf) of
        Inl e \<Rightarrow> ((NilIface, Some e), None)
      | Inr block \<Rightarrow>
          if fec_invalid conf then ((NilIface, Some (NewError ''network/kcp: invalid fec configure'')), None)
          else
            (case opened block (shards (kcp_DataShards conf)) (shards (kcp_ParityShards conf)) of
               Inl e \<Rightarrow> ((NilIface, Some e), None)
             | Inr s \<Rightarrow>
                 (case sock_options env (kcp_socket_options conf) s of
                    (Some e, s1) \<Rightarrow> ((NilIface, Some e), Some (snd (sock_do env SockClose s1)))
                  | (None, s1) \<Rightarrow> (let (r, s2) = new_kcp_transport env True conf s1 in (iface_of r, Some s2)))))"

section \<open>What a transport promises\<close>

text \<open>
  The contract of \<open>Transport\<close> in \<^verbatim>\<open>common/network/net_interface.go\<close> that the connection
  and the codecs rely on: the bytes a read returns are the next ones of the stream, and a write
  without error sends all of its bytes. \<open>arriving\<close> and \<open>sent\<close> are the two streams. After an error
  nothing is promised: the connection closes the transport then.
\<close>

locale byte_transport =
  fixes tread :: "'e \<Rightarrow> nat \<Rightarrow> 's \<Rightarrow> ('b list \<times> net_error option) \<times> 's"
    and twrite :: "'e \<Rightarrow> 'b list \<Rightarrow> 's \<Rightarrow> (nat \<times> net_error option) \<times> 's"
    and arriving :: "'s \<Rightarrow> 'b list"
    and sent :: "'s \<Rightarrow> 'b list"
    and sound :: "'e \<Rightarrow> bool"
  assumes read_next: "sound e \<Longrightarrow> tread e n s = ((xs, err), s') \<Longrightarrow>
      length xs \<le> n \<and> sent s' = sent s \<and> (\<exists>ys. arriving s = xs @ ys \<and> (err = None \<longrightarrow> arriving s' = ys))"
    and read_empty: "tread e 0 s = (([], None), s)"
    and write_all: "twrite e ds s = ((k, err), s') \<Longrightarrow>
      k \<le> length ds \<and> arriving s' = arriving s \<and> (err = None \<longrightarrow> k = length ds \<and> sent s' = sent s @ ds)"
    and write_empty: "twrite e [] s = ((0, None), s)"

text \<open>A reader that goes on until an error, with a buffer of its own choice each time.\<close>

fun read_many :: "('e \<Rightarrow> nat \<Rightarrow> 's \<Rightarrow> ('b list \<times> net_error option) \<times> 's) \<Rightarrow> ('e \<times> nat) list \<Rightarrow> 's \<Rightarrow>
    ('b list \<times> net_error option) \<times> 's" where
  "read_many rd [] s = (([], None), s)"
| "read_many rd ((e, n) # ns) s =
     (case rd e n s of
        ((xs, Some err), s1) \<Rightarrow> ((xs, Some err), s1)
      | ((xs, None), s1) \<Rightarrow> (let ((ys, err), s2) = read_many rd ns s1 in ((xs @ ys, err), s2)))"

fun write_many :: "('e \<Rightarrow> 'b list \<Rightarrow> 's \<Rightarrow> (nat \<times> net_error option) \<times> 's) \<Rightarrow> ('e \<times> 'b list) list \<Rightarrow> 's \<Rightarrow> net_error option \<times> 's" where
  "write_many wr [] s = (None, s)"
| "write_many wr ((e, ds) # dss) s =
     (case wr e ds s of
        ((_, Some err), s1) \<Rightarrow> (Some err, s1)
      | ((_, None), s1) \<Rightarrow> write_many wr dss s1)"

context byte_transport
begin

lemma reads_prefix:
  "\<forall>x \<in> set ns. sound (fst x) \<Longrightarrow> read_many tread ns s = ((xs, err), s') \<Longrightarrow>
   \<exists>ys. arriving s = xs @ ys \<and> (err = None \<longrightarrow> arriving s' = ys)"
proof (induction ns arbitrary: s xs err s')
  case (Cons x ns)
  obtain e n where x: "x = (e, n)" by (cases x)
  obtain as r s1 where r: "tread e n s = ((as, r), s1)" by (metis prod.exhaust)
  have "sound e" using Cons.prems(1) x by simp
  from read_next [OF this r] obtain rest where rest: "arriving s = as @ rest" "r = None \<longrightarrow> arriving s1 = rest"
    by blast
  show ?case
  proof (cases r)
    case (Some e')
    then show ?thesis using Cons.prems(2) r rest x by auto
  next
    case None
    obtain bs err' s2 where m: "read_many tread ns s1 = ((bs, err'), s2)" by (metis prod.exhaust)
    have "\<forall>x \<in> set ns. sound (fst x)" using Cons.prems(1) by simp
    from Cons.IH [OF this m] obtain ys where "arriving s1 = bs @ ys" "err' = None \<longrightarrow> arriving s2 = ys" by blast
    then show ?thesis using Cons.prems(2) r rest x m None by auto
  qed
qed simp

lemma writes_all:
  "write_many twrite dss s = (None, s') \<Longrightarrow> sent s' = sent s @ concat (map snd dss)"
proof (induction dss arbitrary: s)
  case (Cons x dss)
  obtain e ds where x: "x = (e, ds)" by (cases x)
  obtain k r s1 where r: "twrite e ds s = ((k, r), s1)" by (metis prod.exhaust)
  with Cons.prems x have "r = None" "write_many twrite dss s1 = (None, s')" by (auto split: option.splits)
  then show ?case using Cons.IH [of s1] write_all [OF r] x by simp
qed simp

end

lemma sock_do_streams [simp]:
  "so_in (snd (sock_do env c s)) = so_in s" "so_out (snd (sock_do env c s)) = so_out s"
  "so_log (snd (sock_do env c s)) = so_log s @ [(c, fst (sock_do env c s))]"
  by (simp_all add: sock_do_def)

lemma sock_do_eq: "sock_do env c s = (r, s1) \<Longrightarrow> so_in s1 = so_in s \<and> so_out s1 = so_out s \<and> so_log s1 = so_log s @ [(c, r)]"
  by (auto simp: sock_do_def)

text \<open>A deadline around a call leaves the two streams to the call.\<close>

lemma with_deadline_cases:
  assumes "with_deadline env deadline now timeout zero call s = ((v, err), s')"
  shows "(v = zero \<and> err \<noteq> None \<and> so_in s' = so_in s \<and> so_out s' = so_out s) \<or>
    (\<exists>s1 s2. so_in s1 = so_in s \<and> so_out s1 = so_out s \<and> call s1 = ((v, err), s2) \<and> so_in s' = so_in s2 \<and> so_out s' = so_out s2)"
proof (cases "timeout > 0")
  case True
  obtain r s1 where d: "sock_do env (deadline (Some (now + timeout))) s = (r, s1)" by (metis prod.exhaust)
  obtain v2 s2 where c: "call s1 = (v2, s2)" by (metis prod.exhaust)
  show ?thesis
    using assms True d c sock_do_eq [OF d] by (cases r) (auto simp: with_deadline_def)
qed (use assms in \<open>auto simp: with_deadline_def\<close>)

lemma sock_read_next:
  "sock_read env n s = ((xs, err), s') \<Longrightarrow> length xs \<le> n \<and> so_out s' = so_out s \<and> so_in s = xs @ so_in s'"
  by (auto simp: sock_read_def Let_def split: prod.splits)

lemma sock_write_all:
  "sock_write env ds s = ((k, err), s') \<Longrightarrow>
   k \<le> length ds \<and> so_in s' = so_in s \<and> (err = None \<longrightarrow> k = length ds \<and> so_out s' = so_out s @ ds)"
  by (auto simp: sock_write_def Let_def split: option.splits)

text \<open>A socket read or write under a deadline, with the test for an empty buffer in front.\<close>

lemma deadline_read:
  assumes "(if n = 0 then (([], None), s) else with_deadline env deadline now timeout [] (sock_read env n) s) = ((xs, err), s')"
  shows "length xs \<le> n \<and> so_out s' = so_out s \<and> (\<exists>ys. so_in s = xs @ ys \<and> (err = None \<longrightarrow> so_in s' = ys))"
proof (cases "n = 0")
  case False
  with assms have w: "with_deadline env deadline now timeout [] (sock_read env n) s = ((xs, err), s')" by simp
  from with_deadline_cases [OF w] show ?thesis
  proof (elim disjE exE conjE)
    fix s1 s2
    assume "sock_read env n s1 = ((xs, err), s2)"
    from sock_read_next [OF this] show ?thesis
      if "so_in s1 = so_in s" "so_out s1 = so_out s" "so_in s' = so_in s2" "so_out s' = so_out s2"
      using that by auto
  qed auto
qed (use assms in auto)

lemma deadline_write:
  assumes "(if ds = [] then ((0, None), s) else with_deadline env deadline now timeout 0 (sock_write env ds) s) = ((k, err), s')"
  shows "k \<le> length ds \<and> so_in s' = so_in s \<and> (err = None \<longrightarrow> k = length ds \<and> so_out s' = so_out s @ ds)"
proof (cases "ds = []")
  case False
  with assms have w: "with_deadline env deadline now timeout 0 (sock_write env ds) s = ((k, err), s')" by simp
  show ?thesis using with_deadline_cases [OF w] by (auto dest: sock_write_all)
qed (use assms in auto)

interpretation tcp: byte_transport "\<lambda>(env, now). tcp_read env now t" "\<lambda>(env, now). tcp_write env now t" so_in so_out "\<lambda>e. True" for t
proof
  fix e n s xs err s'
  assume "(case e of (env, now) \<Rightarrow> tcp_read env now t) n s = ((xs, err), s')"
  then show "length xs \<le> n \<and> so_out s' = so_out s \<and> (\<exists>ys. so_in s = xs @ ys \<and> (err = None \<longrightarrow> so_in s' = ys))"
    by (cases e, simp only: tcp_read_def prod.case) (erule deadline_read)
next
  fix e ds s k err s'
  assume "(case e of (env, now) \<Rightarrow> tcp_write env now t) ds s = ((k, err), s')"
  then show "k \<le> length ds \<and> so_in s' = so_in s \<and> (err = None \<longrightarrow> k = length ds \<and> so_out s' = so_out s @ ds)"
    by (cases e, simp only: tcp_write_def prod.case) (erule deadline_write)
qed (simp_all add: tcp_read_def tcp_write_def split: prod.split)

interpretation kcp: byte_transport "\<lambda>(env, now). kcp_read env now t" "\<lambda>(env, now). kcp_write env now t" so_in so_out "\<lambda>e. True" for t
proof
  fix e n s xs err s'
  assume "(case e of (env, now) \<Rightarrow> kcp_read env now t) n s = ((xs, err), s')"
  then show "length xs \<le> n \<and> so_out s' = so_out s \<and> (\<exists>ys. so_in s = xs @ ys \<and> (err = None \<longrightarrow> so_in s' = ys))"
    by (cases e, simp only: kcp_read_def prod.case) (erule deadline_read)
next
  fix e ds s k err s'
  assume "(case e of (env, now) \<Rightarrow> kcp_write env now t) ds s = ((k, err), s')"
  then show "k \<le> length ds \<and> so_in s' = so_in s \<and> (err = None \<longrightarrow> k = length ds \<and> so_out s' = so_out s @ ds)"
    by (cases e, simp only: kcp_write_def prod.case) (erule deadline_write)
qed (simp_all add: kcp_read_def kcp_write_def split: prod.split)

section \<open>Ownership of the socket\<close>

text \<open>
  The calls of a list of options that apply, as they stand in the log when all have succeeded; and
  the log of a list that has failed: the options before the failing one, then the closing.
\<close>

definition option_calls :: "(bool \<times> sock_call) list \<Rightarrow> sock_call list" where
  "option_calls cs = map snd (filter fst cs)"

definition all_ok :: "sock_call list \<Rightarrow> (sock_call \<times> net_error option) list" where
  "all_ok cs = map (\<lambda>c. (c, None)) cs"

definition failed_at :: "(bool \<times> sock_call) list \<Rightarrow> net_error \<Rightarrow> 'b sock \<Rightarrow> 'b sock \<Rightarrow> bool" where
  "failed_at cs e s s' \<longleftrightarrow> (\<exists>before c after. option_calls cs = before @ c # after \<and>
     so_log s' = so_log s @ all_ok before @ [(c, Some e)])"

definition closes :: "'b sock \<Rightarrow> nat" where
  "closes s = length (filter (\<lambda>x. fst x = SockClose) (so_log s))"

lemma option_calls_simps [simp]:
  "option_calls [] = []" "option_calls ((b, c) # cs) = (if b then c # option_calls cs else option_calls cs)"
  by (simp_all add: option_calls_def)

lemma all_ok_simps [simp]: "all_ok [] = []" "all_ok (c # cs) = (c, None) # all_ok cs"
  by (simp_all add: all_ok_def)

lemma sock_options_log:
  "sock_options env cs s = (r, s') \<Longrightarrow>
   (case r of None \<Rightarrow> so_log s' = so_log s @ all_ok (option_calls cs) | Some e \<Rightarrow> failed_at cs e s s')"
proof (induction cs arbitrary: s)
  case (Cons x cs)
  obtain b c where x: "x = (b, c)" by (cases x)
  show ?case
  proof (cases b)
    case False
    with Cons.prems x have "sock_options env cs s = (r, s')" by simp
    from Cons.IH [OF this] show ?thesis using x False by (cases r) (simp_all add: failed_at_def)
  next
    case True
    obtain q s1 where q: "sock_do env c s = (q, s1)" by (metis prod.exhaust)
    show ?thesis
    proof (cases q)
      case (Some e)
      then have "r = Some e" "s' = s1" using Cons.prems True x q by simp_all
      moreover have "failed_at (x # cs) e s s1"
        unfolding failed_at_def using x True Some sock_do_eq [OF q] by (intro exI [of _ "[]"]) simp
      ultimately show ?thesis by simp
    next
      case None
      then have o: "sock_options env cs s1 = (r, s')" using Cons.prems True x q by simp
      have l: "so_log s1 = so_log s @ [(c, None)]" using sock_do_eq [OF q] None by simp
      show ?thesis
      proof (cases r)
        case None
        then show ?thesis using Cons.IH [OF o] l x True by simp
      next
        case (Some e)
        then have "failed_at cs e s1 s'" using Cons.IH [OF o] by simp
        then obtain before d after where "option_calls cs = before @ d # after"
          "so_log s' = so_log s1 @ all_ok before @ [(d, Some e)]" by (auto simp: failed_at_def)
        then have "failed_at (x # cs) e s s'"
          unfolding failed_at_def using l x True by (intro exI [of _ "c # before"]) simp
        then show ?thesis using Some by simp
      qed
    qed
  qed
qed (simp add: all_ok_def)

lemma new_tcp_transport_log:
  "new_tcp_transport env True conf s = (r, s') \<Longrightarrow>
   (case r of
      Inr t \<Rightarrow> tt_conf t = conf \<and> so_log s' = so_log s @ all_ok (option_calls (tcp_options conf))
    | Inl e \<Rightarrow> (\<exists>s1 q. failed_at (tcp_options conf) e s s1 \<and> so_log s' = so_log s1 @ [(SockClose, q)]))"
  using sock_options_log [of env "tcp_options conf" s]
  by (auto simp: new_tcp_transport_def split: prod.splits option.splits)

text \<open>
  C29: A TCP connection that the operating system hands to \<open>Accept\<close> has one owner, whatever fails.
  Without an error the caller gets the transport with the listener's configuration, and the log of
  the socket shows exactly the options that the configuration asks for, in order, and no closing.
  With an error, it is that of the first option that failed, no later option was tried, and
  the connection has been closed once, at the end. \<open>DialContext\<close> does the same with its
  connection, and closes a connection that is not a TCP connection.
\<close>

theorem tcp_connection_owned:
  "(case tcp_accept env ln (Inr s) of
      ((t, None), Some s') \<Rightarrow> t = Iface (Some \<lparr>tt_conf = tl_conf ln\<rparr>) \<and>
        so_log s' = so_log s @ all_ok (option_calls (tcp_options (tl_conf ln)))
    | ((t, Some e), Some s') \<Rightarrow> t = Iface None \<and>
        (\<exists>s1 q. failed_at (tcp_options (tl_conf ln)) e s s1 \<and> so_log s' = so_log s1 @ [(SockClose, q)])
    | (_, None) \<Rightarrow> False) \<and>
   (case tcp_dial env d (Inr (isTCP, s)) of
      ((t, None), Some s') \<Rightarrow> isTCP \<and> t = Iface (Some \<lparr>tt_conf = td_conf d\<rparr>) \<and>
        so_log s' = so_log s @ all_ok (option_calls (tcp_options (td_conf d)))
    | ((t, Some e), Some s') \<Rightarrow>
        (\<exists>s1 q. (if isTCP then failed_at (tcp_options (td_conf d)) e s s1 else s1 = s) \<and>
           so_log s' = so_log s1 @ [(SockClose, q)])
    | (_, None) \<Rightarrow> False)"
proof -
  obtain r1 s1 where a: "new_tcp_transport env True (tl_conf ln) s = (r1, s1)" by (metis prod.exhaust)
  obtain r2 s2 where b: "new_tcp_transport env True (td_conf d) s = (r2, s2)" by (metis prod.exhaust)
  show ?thesis
    using new_tcp_transport_log [OF a] new_tcp_transport_log [OF b] a b
    by (cases r1; cases r2; cases isTCP) (auto simp: tcp_accept_def tcp_dial_def iface_of_def)
qed

definition calls :: "'b sock \<Rightarrow> sock_call list" where
  "calls s = map fst (so_log s)"

lemma sock_settings_calls [simp]: "calls (sock_settings env cs s) = calls s @ cs"
  by (induction cs arbitrary: s) (simp_all add: sock_settings_def calls_def)

lemma kcp_settings_open [simp]: "SockClose \<notin> set (kcp_settings conf)"
  by (simp add: kcp_settings_def)

lemma kcp_socket_options_open [simp]: "SockClose \<notin> set (option_calls (kcp_socket_options conf))"
  by (simp add: kcp_socket_options_def)

text \<open>The options of a KCP session: the MTU if it is given, then the settings.\<close>

definition kcp_session_calls :: "kcp_config \<Rightarrow> sock_call list" where
  "kcp_session_calls conf = (if kcp_MTU conf > 0 then [SetMtu (kcp_MTU conf)] else []) @ kcp_settings conf"

lemma new_kcp_transport_calls:
  assumes "new_kcp_transport env True conf s = (r, s')"
  shows "case r of
      Inr t \<Rightarrow> kt_conf t = conf \<and> calls s' = calls s @ kcp_session_calls conf
    | Inl e \<Rightarrow> kcp_MTU conf > 0 \<and> calls s' = calls s @ [SetMtu (kcp_MTU conf), SockClose]"
proof (cases "kcp_MTU conf > 0")
  case True
  obtain q s1 where q: "sock_do env (SetMtu (kcp_MTU conf)) s = (q, s1)" by (metis prod.exhaust)
  then have "calls s1 = calls s @ [SetMtu (kcp_MTU conf)]" using sock_do_eq [OF q] by (simp add: calls_def)
  then show ?thesis using assms True q
    by (cases q) (auto simp: new_kcp_transport_def kcp_session_calls_def, simp add: calls_def)
qed (use assms in \<open>auto simp: new_kcp_transport_def kcp_session_calls_def\<close>)

lemma failed_at_calls:
  "failed_at cs e s s' \<Longrightarrow> \<exists>before c after. option_calls cs = before @ c # after \<and> calls s' = calls s @ before @ [c]"
  by (auto simp: failed_at_def calls_def all_ok_def comp_def)

lemma all_ok_calls: "so_log s' = so_log s @ all_ok cs \<Longrightarrow> calls s' = calls s @ cs"
  by (simp add: calls_def all_ok_def comp_def)

text \<open>
  A KCP dial either returns a transport and leaves its session open with the whole
  configuration applied, or it returns an error and the session it may have opened has
  been closed, once and as the last call. Sessions are only opened after the
  encryption mode and the number of shards have been checked, with the numbers that are not
  positive taken as 0, and the socket options come before those of the session. A
  listener is made in the same way.
\<close>

theorem kcp_session_owned:
  "(case kcp_dial aes env opened conf of
      ((t, err), None) \<Rightarrow> t = NilIface \<and> err \<noteq> None
    | ((t, err), Some s') \<Rightarrow> \<not> fec_invalid conf \<and>
        (\<exists>block s. new_block_crypt aes (kcp_Mode conf) (kcp_Key conf) = Inr block \<and>
           opened block (shards (kcp_DataShards conf)) (shards (kcp_ParityShards conf)) = Inr s \<and>
           (if err = None
            then t = Iface (Some \<lparr>kt_conf = conf\<rparr>) \<and>
              calls s' = calls s @ option_calls (kcp_socket_options conf) @ kcp_session_calls conf
            else (\<exists>cs. calls s' = calls s @ cs @ [SockClose] \<and> SockClose \<notin> set cs)))) \<and>
   (case new_kcp_listener aes env opened conf of
      (r, None) \<Rightarrow> \<exists>e. r = Inl e
    | (r, Some s') \<Rightarrow> \<not> fec_invalid conf \<and>
        (\<exists>block s. new_block_crypt aes (kcp_Mode conf) (kcp_Key conf) = Inr block \<and>
           opened block (shards (kcp_DataShards conf)) (shards (kcp_ParityShards conf)) = Inr s \<and>
           (case r of
              Inr ln \<Rightarrow> kl_conf ln = conf \<and> calls s' = calls s @ option_calls (kcp_socket_options conf)
            | Inl e \<Rightarrow> (\<exists>cs. calls s' = calls s @ cs @ [SockClose] \<and> SockClose \<notin> set cs))))"
proof (cases "new_block_crypt aes (kcp_Mode conf) (kcp_Key conf)")
  case (Inr block)
  show ?thesis
  proof (cases "fec_invalid conf")
    case False
    show ?thesis
    proof (cases "opened block (shards (kcp_DataShards conf)) (shards (kcp_ParityShards conf))")
      case opened: (Inr s)
      obtain q s1 where q: "sock_options env (kcp_socket_options conf) s = (q, s1)" by (metis prod.exhaust)
      show ?thesis
      proof (cases q)
        case (Some e)
        from sock_options_log [OF q] Some have "failed_at (kcp_socket_options conf) e s s1" by simp
        then obtain before c after where "option_calls (kcp_socket_options conf) = before @ c # after"
          and c: "calls s1 = calls s @ before @ [c]" by (auto dest: failed_at_calls)
        then have "SockClose \<notin> set (before @ [c])" using kcp_socket_options_open [of conf] by auto
        then have "\<exists>cs. calls (snd (sock_do env SockClose s1)) = calls s @ cs @ [SockClose] \<and> SockClose \<notin> set cs"
          using c by (intro exI [of _ "before @ [c]"]) (simp add: calls_def)
        then show ?thesis using Inr False opened q Some by (simp add: kcp_dial_def new_kcp_listener_def)
      next
        case None
        then have c: "calls s1 = calls s @ option_calls (kcp_socket_options conf)"
          using sock_options_log [OF q] by (simp add: all_ok_calls)
        obtain r s2 where r: "new_kcp_transport env True conf s1 = (r, s2)" by (metis prod.exhaust)
        have "\<exists>cs. calls s2 = calls s @ cs @ [SockClose] \<and> SockClose \<notin> set cs" if "r = Inl e" for e
          using new_kcp_transport_calls [OF r] that c
          by (intro exI [of _ "option_calls (kcp_socket_options conf) @ [SetMtu (kcp_MTU conf)]"]) simp
        then show ?thesis using Inr False opened q None r c new_kcp_transport_calls [OF r]
          by (cases r) (auto simp: kcp_dial_def new_kcp_listener_def iface_of_def)
      qed
    qed (use Inr False in \<open>simp add: kcp_dial_def new_kcp_listener_def\<close>)
  qed (use Inr in \<open>simp add: kcp_dial_def new_kcp_listener_def\<close>)
qed (simp add: kcp_dial_def new_kcp_listener_def)

section \<open>A failed Accept or dial in the server and the client\<close>

text \<open>
  What \<open>acceptLoop\<close> of the server and \<open>DialContext\<close> of the client do with the transport that comes
  beside an error: \<open>if transport != nil { transport.Close() }\<close>. \<open>None\<close> is the panic.
\<close>

definition close_if_present :: "('t option \<Rightarrow> 'b sock \<Rightarrow> (net_error option \<times> 'b sock) option) \<Rightarrow> 't iface \<Rightarrow> 'b sock \<Rightarrow> 'b sock option" where
  "close_if_present close_of t s =
     (case t of NilIface \<Rightarrow> Some s | Iface p \<Rightarrow> map_option snd (close_of p s))"

text \<open>
  C30: The interface that the TCP listener and the KCP listener return beside an error of their
  constructor is not nil but holds a nil pointer. The server's accept loop therefore panics when
  the options cannot be set on a connection that has been accepted: exactly then, not
  when the acceptance itself has failed.
\<close>

theorem failed_options_panic:
  "(case tcp_accept env ln r of ((t, err), _) \<Rightarrow>
      err \<noteq> None \<and> close_if_present (tcp_close env) t s = None \<longleftrightarrow>
      (\<exists>s0 e. r = Inr s0 \<and> fst (sock_options env (tcp_options (tl_conf ln)) s0) = Some e)) \<and>
   (case kcp_accept env kn r of ((t, err), _) \<Rightarrow>
      err \<noteq> None \<and> close_if_present (kcp_close env) t s = None \<longleftrightarrow>
      (\<exists>s0 e. r = Inr s0 \<and> kcp_MTU (kl_conf kn) > 0 \<and> fst (sock_do env (SetMtu (kcp_MTU (kl_conf kn))) s0) = Some e))"
  by (auto simp: tcp_accept_def kcp_accept_def new_tcp_transport_def new_kcp_transport_def iface_of_def
      close_if_present_def tcp_close_def kcp_close_def split: sum.split prod.split option.split)

section \<open>The streams\<close>

text \<open>
  TCP and KCP transports carry a byte stream. What any number of reads returns, with any
  buffers and any deadlines, is the beginning of the bytes that arrive, and without an error
  the next read goes on behind it. Writes that all succeed have put their data behind
  one another into the stream, none twice and none left out. An empty buffer touches neither stream nor socket.
\<close>

theorem transports_carry_bytes:
  "(case read_many (\<lambda>(env, now). tcp_read env now t) ns s of ((xs, err), s') \<Rightarrow>
      \<exists>ys. so_in s = xs @ ys \<and> (err = None \<longrightarrow> so_in s' = ys)) \<and>
   (case read_many (\<lambda>(env, now). kcp_read env now k) ns s of ((xs, err), s') \<Rightarrow>
      \<exists>ys. so_in s = xs @ ys \<and> (err = None \<longrightarrow> so_in s' = ys)) \<and>
   (case write_many (\<lambda>(env, now). tcp_write env now t) dss s of (err, s') \<Rightarrow>
      err = None \<longrightarrow> so_out s' = so_out s @ concat (map snd dss)) \<and>
   (case write_many (\<lambda>(env, now). kcp_write env now k) dss s of (err, s') \<Rightarrow>
      err = None \<longrightarrow> so_out s' = so_out s @ concat (map snd dss)) \<and>
   tcp_read env now t 0 s = (([], None), s) \<and> kcp_read env now k 0 s = (([], None), s) \<and>
   tcp_write env now t [] s = ((0, None), s) \<and> kcp_write env now k [] s = ((0, None), s)"
  using tcp.reads_prefix [of ns t s] kcp.reads_prefix [of ns k s] tcp.writes_all [of t dss s] kcp.writes_all [of k dss s]
  by (auto simp: tcp_read_def kcp_read_def tcp_write_def kcp_write_def split: prod.split)

definition calm_env :: "'b sock_env" where
  "calm_env = \<lparr>se_call = \<lambda>s c. None, se_read = \<lambda>s n. (n, None), se_write = \<lambda>s ds. None\<rparr>"

definition demo_tcp :: tcp_transport where
  "demo_tcp = \<lparr>tt_conf = \<lparr>tcp_KeepalivePeriod = 0, tcp_NoDelay = True, tcp_ReadTimeout = 5, tcp_WriteTimeout = 0,
     tcp_ReadBufferSize = 0, tcp_WriteBufferSize = 0\<rparr>\<rparr>"

theorem transports_carry_bytes_witness:
  "read_many (\<lambda>(env, now). tcp_read env now demo_tcp) [((calm_env, 0), 2), ((calm_env, 9), 2)]
       \<lparr>so_log = [], so_in = [1::nat, 2, 3, 4, 5], so_out = []\<rparr> =
     (([1, 2, 3, 4], None), \<lparr>so_log = [(SetReadDeadline (Some 5), None), (SetReadDeadline None, None),
        (SetReadDeadline (Some 14), None), (SetReadDeadline None, None)], so_in = [5], so_out = []\<rparr>) \<and>
   so_out (snd (write_many (\<lambda>(env, now). tcp_write env now demo_tcp) [((calm_env, 0), [1]), ((calm_env, 0), [2::nat, 3])]
       \<lparr>so_log = [], so_in = [], so_out = [7]\<rparr>)) = [7, 1, 2, 3]"
proof -
  have r: "read_many (\<lambda>(env, now). tcp_read env now demo_tcp) [((calm_env, 0), 2), ((calm_env, 9), 2)]
       \<lparr>so_log = [], so_in = [1::nat, 2, 3, 4, 5], so_out = []\<rparr> =
     (([1, 2, 3, 4], None), \<lparr>so_log = [(SetReadDeadline (Some 5), None), (SetReadDeadline None, None),
        (SetReadDeadline (Some 14), None), (SetReadDeadline None, None)], so_in = [5], so_out = []\<rparr>)"
    by code_simp
  define s0 where "s0 = \<lparr>so_log = [], so_in = [], so_out = [7::nat]\<rparr>"
  define ds where "ds = [((calm_env :: nat sock_env, 0::int), [1::nat]), ((calm_env, 0), [2, 3])]"
  obtain err s' where w: "write_many (\<lambda>(env, now). tcp_write env now demo_tcp) ds s0 = (err, s')" by (metis prod.exhaust)
  have "fst (write_many (\<lambda>(env, now). tcp_write env now demo_tcp) ds s0) = None" unfolding s0_def ds_def by code_simp
  then have "err = None" using w by simp
  then have "so_out s' = so_out s0 @ concat (map snd ds)"
    using transports_carry_bytes [where t = demo_tcp and ns = "[]" and s = s0 and dss = ds] by (simp add: w)
  then show ?thesis using r w by (simp add: s0_def ds_def)
qed

end
