(* ===== verification/Ws_Transport.thy ===== *)
theory Ws_Transport
  imports Stream_Transport
begin

text \<open>
  The transport and the dialer of \<^verbatim>\<open>common/network/ws_impl.go\<close>. The WebSocket library is
  seen as a connection on which whole messages arrive and are sent; a message that arrives
  is read in pieces, as the library likes. Package \<^verbatim>\<open>net/url\<close> is a parameter of the dialer.
\<close>

section \<open>The WebSocket connection\<close>

text \<open>
  Types of messages: \<open>BinaryMessage\<close> is 2, \<open>TextMessage\<close> is 1. \<open>ws_in\<close> are the messages that will
  still arrive, after which \<open>NextReader\<close> reports the error \<open>ws_end\<close>; \<open>ws_reader\<close> is the field
  \<open>reader\<close>, with what is left of its message.
\<close>

definition BinaryMessage :: nat where "BinaryMessage = 2"

record 'b ws_conn =
  ws_in :: "(nat \<times> 'b list) list"
  ws_end :: net_error
  ws_reader :: "'b list option"
  ws_out :: "(nat \<times> 'b list) list"
  ws_deadline :: "int option"
  ws_writeDeadline :: "int option"
  ws_closes :: nat
  ws_readLimit :: "int option"

definition EOF :: net_error where "EOF = ForeignError ''EOF'' []"

text \<open>
  What the reader of a message does with a buffer: it gives some bytes, and may say with the last
  ones that the message is over or say it in a read of its own; or it breaks.
\<close>

datatype piece = Piece nat bool | Broken nat net_error

definition message_read :: "piece \<Rightarrow> nat \<Rightarrow> 'b list \<Rightarrow> ('b list \<times> net_error option) \<times> 'b list" where
  "message_read p n msg =
     (case p of
        Piece k over \<Rightarrow> (let m = min k (min n (length msg)) in
          ((take m msg, if m = length msg \<and> (over \<or> msg = []) then Some EOF else None), drop m msg))
      | Broken k e \<Rightarrow> (let m = min k (min n (length msg)) in ((take m msg, Some e), drop m msg)))"

text \<open>
  The environment of a call: the clock, the errors of the deadline calls, the piece the reader
  gives for a message and a buffer, and the error of \<open>WriteMessage\<close>, with whether the
  message went out all the same.
\<close>

record 'b ws_env =
  we_now :: int
  we_deadline :: "net_error option"
  we_piece :: "nat \<Rightarrow> 'b list \<Rightarrow> piece"
  we_write :: "(bool \<times> net_error) option"

text \<open>The error of a broken reader is not the end of the message (\<open>io.Reader\<close>).\<close>

definition ws_sound :: "'b ws_env \<Rightarrow> bool" where
  "ws_sound env \<longleftrightarrow> (\<forall>n msg k e. we_piece env n msg = Broken k e \<longrightarrow> \<not> errors_is e EOF)"

section \<open>The transport\<close>

text \<open>Of \<open>tls.Config\<close> what the sources look at: the least version, and the three sources of a certificate.\<close>

record tls_config =
  tls_MinVersion :: nat
  tls_Certificates :: nat
  tls_GetCertificate :: bool
  tls_GetConfigForClient :: bool

record ws_config =
  wc_MaxMessageSize :: int
  wc_Path :: string
  wc_EnableCompression :: bool
  wc_HandshakeTimeout :: int
  wc_ReadTimeout :: int
  wc_WriteTimeout :: int
  wc_ReadBufferSize :: int
  wc_WriteBufferSize :: int
  wc_Subprotocols :: "string list"
  wc_TLSConfig :: "tls_config option"

record ws_transport =
  wt_conf :: ws_config

definition new_ws_transport :: "ws_config \<Rightarrow> 'b ws_conn \<Rightarrow> ws_transport \<times> 'b ws_conn" where
  "new_ws_transport conf c =
     (\<lparr>wt_conf = conf\<rparr>, if wc_MaxMessageSize conf > 0 then c\<lparr>ws_readLimit := Some (wc_MaxMessageSize conf)\<rparr> else c)"

text \<open>
  The loop of \<open>Read\<close>. An iteration without data uses up the rest of a message, so that the loop
  comes to the end of the messages that arrive.
\<close>

definition ws_pending :: "'b ws_conn \<Rightarrow> nat" where
  "ws_pending c = 2 * length (ws_in c) + (case ws_reader c of None \<Rightarrow> 0 | Some _ \<Rightarrow> 1)"

function (sequential) ws_read_loop :: "'b ws_env \<Rightarrow> nat \<Rightarrow> 'b ws_conn \<Rightarrow> ('b list \<times> net_error option) \<times> 'b ws_conn" where
  "ws_read_loop env n c =
     (case ws_reader c of
        None \<Rightarrow>
          (case ws_in c of
             [] \<Rightarrow> (([], Some (ws_end c)), c)
           | (ty, msg) # rest \<Rightarrow>
               if ty \<noteq> BinaryMessage
               then (([], Some (NewError ''network/ws: expected binary message'')), c\<lparr>ws_in := rest\<rparr>)
               else ws_read_loop env n (c\<lparr>ws_in := rest, ws_reader := Some msg\<rparr>))
      | Some msg \<Rightarrow>
          (let ((xs, err), left) = message_read (we_piece env n msg) n msg
           in if err \<noteq> None \<and> errors_is (the err) EOF
              then (if xs \<noteq> [] then ((xs, None), c\<lparr>ws_reader := None\<rparr>)
                    else ws_read_loop env n (c\<lparr>ws_reader := None\<rparr>))
              else ((xs, err), c\<lparr>ws_reader := Some left\<rparr>)))"
  by pat_completeness auto
termination
  by (relation "measure (\<lambda>(env, n, c). ws_pending c)") (auto simp: ws_pending_def)

declare ws_read_loop.simps [simp del]

definition ws_read :: "'b ws_env \<Rightarrow> ws_transport \<Rightarrow> nat \<Rightarrow> 'b ws_conn \<Rightarrow> ('b list \<times> net_error option) \<times> 'b ws_conn" where
  "ws_read env t n c =
     (if n = 0 then (([], None), c)
      else if wc_ReadTimeout (wt_conf t) > 0 then
        (case we_deadline env of
           Some e \<Rightarrow> (([], Some e), c)
         | None \<Rightarrow> (let (r, c1) = ws_read_loop env n (c\<lparr>ws_deadline := Some (we_now env + wc_ReadTimeout (wt_conf t))\<rparr>)
             in (r, c1\<lparr>ws_deadline := None\<rparr>)))
      else ws_read_loop env n c)"

definition write_message :: "'b ws_env \<Rightarrow> 'b list \<Rightarrow> 'b ws_conn \<Rightarrow> net_error option \<times> 'b ws_conn" where
  "write_message env data c =
     (case we_write env of
        None \<Rightarrow> (None, c\<lparr>ws_out := ws_out c @ [(BinaryMessage, data)]\<rparr>)
      | Some (went, e) \<Rightarrow> (Some e, if went then c\<lparr>ws_out := ws_out c @ [(BinaryMessage, data)]\<rparr> else c))"

text \<open>\<open>Write\<close> with the deadline set: the library does not say how much of a message went out.\<close>

definition ws_send :: "'b ws_env \<Rightarrow> 'b list \<Rightarrow> 'b ws_conn \<Rightarrow> (nat \<times> net_error option) \<times> 'b ws_conn" where
  "ws_send env data c =
     (case write_message env data c of
        (Some e, c1) \<Rightarrow> ((0, Some e), c1)
      | (None, c1) \<Rightarrow> ((length data, None), c1))"

definition ws_write :: "'b ws_env \<Rightarrow> ws_transport \<Rightarrow> 'b list \<Rightarrow> 'b ws_conn \<Rightarrow> (nat \<times> net_error option) \<times> 'b ws_conn" where
  "ws_write env t data c =
     (if data = [] then ((0, None), c)
      else if wc_WriteTimeout (wt_conf t) > 0 then
        (case we_deadline env of
           Some e \<Rightarrow> ((0, Some e), c)
         | None \<Rightarrow> (let (r, c1) = ws_send env data (c\<lparr>ws_writeDeadline := Some (we_now env + wc_WriteTimeout (wt_conf t))\<rparr>)
             in (r, c1\<lparr>ws_writeDeadline := None\<rparr>)))
      else ws_send env data c)"

definition ws_close :: "net_error option \<Rightarrow> 'b ws_conn \<Rightarrow> net_error option \<times> 'b ws_conn" where
  "ws_close err c = (err, c\<lparr>ws_closes := ws_closes c + 1\<rparr>)"

section \<open>The byte stream\<close>

text \<open>The bytes that arrive: the rest of the open message, and the messages up to the first that is not binary.\<close>

definition ws_bytes :: "'b ws_conn \<Rightarrow> 'b list" where
  "ws_bytes c = (case ws_reader c of None \<Rightarrow> [] | Some msg \<Rightarrow> msg) @
     concat (map snd (takeWhile (\<lambda>m. fst m = BinaryMessage) (ws_in c)))"

definition ws_sent :: "'b ws_conn \<Rightarrow> 'b list" where
  "ws_sent c = concat (map snd (ws_out c))"

lemma EOF_is [simp]: "errors_is EOF EOF"
  by (simp add: EOF_def)

lemma message_read_ok:
  "message_read p n msg = ((xs, err), left) \<Longrightarrow> length xs \<le> n \<and> msg = xs @ left"
  by (auto simp: message_read_def Let_def split: piece.splits)

lemma message_read_over:
  "message_read (we_piece env n msg) n msg = ((xs, Some e), left) \<Longrightarrow> errors_is e EOF \<Longrightarrow> ws_sound env \<Longrightarrow> left = []"
  by (auto simp: message_read_def Let_def ws_sound_def split: piece.splits if_splits)

lemma ws_read_loop_next:
  "ws_sound env \<Longrightarrow> ws_read_loop env n c = ((xs, err), c') \<Longrightarrow>
    length xs \<le> n \<and> ws_out c' = ws_out c \<and> ws_deadline c' = ws_deadline c \<and>
    (\<exists>ys. ws_bytes c = xs @ ys \<and> (err = None \<longrightarrow> ws_bytes c' = ys))"
proof (induction env n c arbitrary: xs err c' rule: ws_read_loop.induct)
  case (1 env n c)
  show ?case
  proof (cases "ws_reader c")
    case None
    show ?thesis
    proof (cases "ws_in c")
      case (Cons m rest)
      obtain ty msg where m: "m = (ty, msg)" by (cases m)
      show ?thesis
      proof (cases "ty = BinaryMessage")
        case True
        let ?c = "c\<lparr>ws_in := rest, ws_reader := Some msg\<rparr>"
        have "ws_read_loop env n ?c = ((xs, err), c')"
          using "1.prems"(2) None Cons m True by (subst (asm) ws_read_loop.simps) simp
        moreover have "ws_bytes ?c = ws_bytes c" using None Cons m True by (simp add: ws_bytes_def)
        ultimately show ?thesis using "1.IH"(1) [OF None Cons m [symmetric]] "1.prems"(1) True by simp
      qed (use "1.prems"(2) None Cons m in \<open>subst (asm) ws_read_loop.simps, auto\<close>)
    qed (use "1.prems"(2) None in \<open>subst (asm) ws_read_loop.simps, auto\<close>)
  next
    case (Some msg)
    obtain ys r left where r: "message_read (we_piece env n msg) n msg = ((ys, r), left)" by (metis prod.exhaust)
    note ok = message_read_ok [OF r]
    let ?c = "c\<lparr>ws_reader := None\<rparr>"
    have b: "ws_bytes c = ys @ left @ ws_bytes ?c" using Some ok by (simp add: ws_bytes_def)
    show ?thesis
    proof (cases "r \<noteq> None \<and> errors_is (the r) EOF")
      case over: True
      then obtain e where e: "r = Some e" "errors_is e EOF" by auto
      with message_read_over [of env n msg ys e left] r "1.prems"(1) have left: "left = []" by simp
      show ?thesis
      proof (cases "ys = []")
        case True
        then have "ws_read_loop env n ?c = ((xs, err), c')"
          using "1.prems"(2) Some r over by (subst (asm) ws_read_loop.simps) simp
        with "1.IH"(2) [OF Some r [symmetric] refl refl over] "1.prems"(1) True b left show ?thesis by auto
      next
        case False
        then have "xs = ys \<and> err = None \<and> c' = ?c"
          using "1.prems"(2) Some r over by (subst (asm) ws_read_loop.simps) simp
        then show ?thesis using b left ok by simp
      qed
    next
      case False
      then have "xs = ys \<and> err = r \<and> c' = c\<lparr>ws_reader := Some left\<rparr>"
        using "1.prems"(2) Some r by (subst (asm) ws_read_loop.simps) auto
      then show ?thesis using b ok by (auto simp: ws_bytes_def)
    qed
  qed
qed

lemma ws_read_next:
  assumes "ws_sound env" and "ws_read env t n c = ((xs, err), c')"
  shows "length xs \<le> n \<and> ws_sent c' = ws_sent c \<and>
    (\<exists>ys. ws_bytes c = xs @ ys \<and> (err = None \<longrightarrow> ws_bytes c' = ys))"
proof -
  have same: "ws_bytes (d\<lparr>ws_deadline := x\<rparr>) = ws_bytes d" "ws_sent (d\<lparr>ws_deadline := x\<rparr>) = ws_sent d" for d :: "'a ws_conn" and x
    by (simp_all add: ws_bytes_def ws_sent_def)
  have loop: "length ys \<le> n \<and> ws_sent d' = ws_sent d \<and> (\<exists>zs. ws_bytes d = ys @ zs \<and> (r = None \<longrightarrow> ws_bytes d' = zs))"
    if "ws_read_loop env n d = ((ys, r), d')" for ys r d d'
    using ws_read_loop_next [OF assms(1) that] by (auto simp: ws_sent_def)
  show ?thesis
    using assms(2) same by (auto simp: ws_read_def split: if_splits option.splits prod.splits dest!: loop)
qed

lemma ws_write_next:
  "ws_write env t ds c = ((k, err), c') \<Longrightarrow>
   k \<le> length ds \<and> ws_bytes c' = ws_bytes c \<and> (err = None \<longrightarrow> k = length ds \<and> ws_sent c' = ws_sent c @ ds)"
  by (cases "we_deadline env") (auto simp: ws_write_def ws_send_def write_message_def ws_bytes_def ws_sent_def split: if_splits option.splits prod.splits, metis)

interpretation ws: byte_transport "\<lambda>env. ws_read env t" "\<lambda>env. ws_write env t" ws_bytes ws_sent ws_sound for t
  by unfold_locales (rule ws_read_next, assumption+, simp add: ws_read_def, erule ws_write_next, simp add: ws_write_def)

section \<open>From one end to the other\<close>

text \<open>A read that meets no failure: the deadline is set, and the reader gives at least a byte of a message that has one.\<close>

definition ws_quiet :: "'b ws_env \<Rightarrow> bool" where
  "ws_quiet env \<longleftrightarrow> we_deadline env = None \<and>
     (\<forall>n msg. \<exists>k over. we_piece env n msg = Piece k over \<and> (msg \<noteq> [] \<longrightarrow> 0 < k))"

definition all_binary :: "'b ws_conn \<Rightarrow> bool" where
  "all_binary c \<longleftrightarrow> (\<forall>m \<in> set (ws_in c). fst m = BinaryMessage)"

lemma quiet_sound [simp]: "ws_quiet env \<Longrightarrow> ws_sound env"
  unfolding ws_quiet_def ws_sound_def by (metis piece.distinct(1))

lemma message_read_quiet:
  assumes "ws_quiet env" and "message_read (we_piece env n msg) n msg = ((xs, err), left)" and "0 < n"
  shows "(err = None \<and> xs \<noteq> []) \<or> (err = Some EOF \<and> (xs = [] \<longrightarrow> msg = []))"
proof -
  obtain k over where "we_piece env n msg = Piece k over" "msg \<noteq> [] \<longrightarrow> 0 < k"
    using assms(1) unfolding ws_quiet_def by blast
  then show ?thesis using assms(2,3) by (auto simp: message_read_def Let_def min_def split: if_splits)
qed

lemma ws_read_loop_quiet:
  "ws_quiet env \<Longrightarrow> 0 < n \<Longrightarrow> all_binary c \<Longrightarrow> ws_read_loop env n c = ((xs, err), c') \<Longrightarrow>
   all_binary c' \<and> ws_end c' = ws_end c \<and>
   (err = None \<and> xs \<noteq> [] \<or> err = Some (ws_end c) \<and> xs = [] \<and> ws_bytes c = [])"
proof (induction env n c arbitrary: xs err c' rule: ws_read_loop.induct)
  case (1 env n c)
  show ?case
  proof (cases "ws_reader c")
    case None
    show ?thesis
    proof (cases "ws_in c")
      case Nil
      then show ?thesis using "1.prems" None by (subst (asm) ws_read_loop.simps) (auto simp: ws_bytes_def)
    next
      case (Cons m rest)
      obtain ty msg where m: "m = (ty, msg)" by (cases m)
      have ty: "ty = BinaryMessage" using "1.prems"(3) Cons m by (simp add: all_binary_def)
      let ?c = "c\<lparr>ws_in := rest, ws_reader := Some msg\<rparr>"
      have "ws_read_loop env n ?c = ((xs, err), c')"
        using "1.prems"(4) None Cons m ty by (subst (asm) ws_read_loop.simps) simp
      moreover have "ws_bytes ?c = ws_bytes c" "all_binary ?c"
        using None Cons m ty "1.prems"(3) by (simp_all add: ws_bytes_def all_binary_def)
      ultimately show ?thesis using "1.IH"(1) [OF None Cons m [symmetric]] "1.prems"(1,2) ty by simp
    qed
  next
    case (Some msg)
    obtain ys r left where r: "message_read (we_piece env n msg) n msg = ((ys, r), left)" by (metis prod.exhaust)
    let ?c = "c\<lparr>ws_reader := None\<rparr>"
    from message_read_quiet [OF "1.prems"(1) r "1.prems"(2)] show ?thesis
    proof (elim disjE conjE)
      assume "r = None" "ys \<noteq> []"
      then show ?thesis using "1.prems" Some r by (subst (asm) ws_read_loop.simps) (auto simp: all_binary_def)
    next
      assume e: "r = Some EOF" and y: "ys = [] \<longrightarrow> msg = []"
      show ?thesis
      proof (cases "ys = []")
        case True
        then have "ws_read_loop env n ?c = ((xs, err), c')"
          using "1.prems"(4) Some r e by (subst (asm) ws_read_loop.simps) simp
        moreover have "ws_bytes ?c = ws_bytes c" "all_binary ?c"
          using True y Some "1.prems"(3) by (simp_all add: ws_bytes_def all_binary_def)
        ultimately show ?thesis using "1.IH"(2) [OF Some r [symmetric] refl refl _ _ "1.prems"(1,2)] True e by simp
      next
        case False
        then show ?thesis using "1.prems" Some r e by (subst (asm) ws_read_loop.simps) (auto simp: all_binary_def)
      qed
    qed
  qed
qed

lemma ws_read_quiet:
  assumes "ws_quiet env" and "0 < n" and "all_binary c" and "ws_read env t n c = ((xs, err), c')"
  shows "all_binary c' \<and> ws_end c' = ws_end c \<and>
    (err = None \<and> xs \<noteq> [] \<or> err = Some (ws_end c) \<and> xs = [] \<and> ws_bytes c = [])"
proof -
  let ?d = "c\<lparr>ws_deadline := Some (we_now env + wc_ReadTimeout (wt_conf t))\<rparr>"
  have d: "all_binary ?d" "ws_end ?d = ws_end c" "ws_bytes ?d = ws_bytes c"
    using assms(3) by (simp_all add: all_binary_def ws_bytes_def)
  obtain r c1 where l: "ws_read_loop env n ?d = (r, c1)" by (metis prod.exhaust)
  obtain ys e where r: "r = (ys, e)" by (cases r)
  show ?thesis
  proof (cases "wc_ReadTimeout (wt_conf t) > 0")
    case True
    then have "ys = xs" "e = err" "c' = c1\<lparr>ws_deadline := None\<rparr>"
      using assms l r by (auto simp: ws_read_def ws_quiet_def)
    then show ?thesis using ws_read_loop_quiet [OF assms(1,2) d(1) l [unfolded r]] d by (simp add: all_binary_def)
  next
    case False
    then have "ws_read_loop env n c = ((xs, err), c')" using assms by (simp add: ws_read_def)
    then show ?thesis using ws_read_loop_quiet [OF assms(1,2,3)] by simp
  qed
qed

lemma ws_reads_quiet:
  "\<forall>x \<in> set ns. ws_quiet (fst x) \<and> 0 < snd x \<Longrightarrow> all_binary c \<Longrightarrow>
   read_many (\<lambda>env. ws_read env t) ns c = ((xs, err), c') \<Longrightarrow>
   (err = None \<and> length ns \<le> length xs) \<or> (err = Some (ws_end c) \<and> ws_bytes c = xs)"
proof (induction ns arbitrary: c xs err c')
  case (Cons x ns)
  obtain env n where x: "x = (env, n)" by (cases x)
  obtain as r c1 where r: "ws_read env t n c = ((as, r), c1)" by (metis prod.exhaust)
  have q: "ws_quiet env" "0 < n" using Cons.prems(1) x by simp_all
  note step = ws_read_quiet [OF q Cons.prems(2) r] and adv = ws_read_next [OF quiet_sound [OF q(1)] r]
  show ?case
  proof (cases r)
    case (Some e)
    then show ?thesis using Cons.prems(3) r x step by auto
  next
    case None
    obtain bs e c2 where m: "read_many (\<lambda>env. ws_read env t) ns c1 = ((bs, e), c2)" by (metis prod.exhaust)
    have "as \<noteq> []" "all_binary c1" "ws_end c1 = ws_end c" "ws_bytes c = as @ ws_bytes c1"
      using step adv None by auto
    moreover have "xs = as @ bs" "err = e" using Cons.prems(3) r x m None by simp_all
    moreover have "e = None \<and> length ns \<le> length bs \<or> e = Some (ws_end c1) \<and> ws_bytes c1 = bs"
      using Cons.IH [OF _ \<open>all_binary c1\<close> m] Cons.prems(1) by simp
    ultimately show ?thesis by (cases as) auto
  qed
qed simp

lemma ws_writes_binary:
  "write_many (\<lambda>env. ws_write env t) dss c = (None, c') \<Longrightarrow>
   \<forall>m \<in> set (ws_out c). fst m = BinaryMessage \<Longrightarrow> \<forall>m \<in> set (ws_out c'). fst m = BinaryMessage"
proof (induction dss arbitrary: c)
  case (Cons x dss)
  obtain env ds where x: "x = (env, ds)" by (cases x)
  obtain k r c1 where r: "ws_write env t ds c = ((k, r), c1)" by (metis prod.exhaust)
  then have "r = None" "write_many (\<lambda>env. ws_write env t) dss c1 = (None, c')"
    using Cons.prems(1) x by (auto split: option.splits)
  moreover from r have "\<forall>m \<in> set (ws_out c1). fst m = BinaryMessage"
    using Cons.prems(2) by (auto simp: ws_write_def ws_send_def write_message_def split: if_splits option.splits prod.splits)
  ultimately show ?case using Cons.IH by blast
qed simp

text \<open>
  C31: The WebSocket transport hides the boundaries of the messages. What one end has written with
  any number of calls, the other end reads as one stream, in the same order and without a gap,
  whatever buffers it offers, however the library cuts the messages into pieces and wherever the
  message boundaries fall. Reads return at least one byte each, so that reading goes
  on to the end of the data, where the error of the connection is reported.
\<close>

theorem ws_stream_round_trip:
  assumes "write_many (\<lambda>env. ws_write env t) dss c = (None, c')" and "ws_out c = []"
    and "ws_in p = ws_out c'" and "ws_reader p = None"
    and "\<forall>x \<in> set ns. ws_quiet (fst x) \<and> 0 < snd x"
    and "read_many (\<lambda>env. ws_read env t') ns p = ((xs, err), p')"
  shows "(\<exists>ys. concat (map snd dss) = xs @ ys \<and> (err = None \<longrightarrow> ws_bytes p' = ys)) \<and>
    (length (concat (map snd dss)) < length ns \<longrightarrow> xs = concat (map snd dss) \<and> err = Some (ws_end p))"
proof -
  have bin: "\<forall>m \<in> set (ws_out c'). fst m = BinaryMessage" using ws_writes_binary [OF assms(1)] assms(2) by simp
  then have "takeWhile (\<lambda>m. fst m = BinaryMessage) (ws_out c') = ws_out c'"
    using takeWhile_eq_all_conv by blast
  then have "ws_bytes p = ws_sent c'" by (simp only: ws_bytes_def ws_sent_def assms(3,4) option.case append_Nil)
  then have b: "ws_bytes p = concat (map snd dss)"
    using ws.writes_all [OF assms(1)] assms(2) by (simp add: ws_sent_def)
  have "\<forall>x \<in> set ns. ws_sound (fst x)" using assms(5) by simp
  from ws.reads_prefix [OF this assms(6)] obtain ys where ys: "ws_bytes p = xs @ ys" "err = None \<longrightarrow> ws_bytes p' = ys" by blast
  have "all_binary p" using bin assms(3) by (simp add: all_binary_def)
  have "length xs \<le> length (concat (map snd dss))" using b ys by (metis append_eq_conv_conj length_append le_add1)
  with ws_reads_quiet [OF assms(5) \<open>all_binary p\<close> assms(6)] b ys show ?thesis by auto
qed

definition demo_ws_conf :: ws_config where
  "demo_ws_conf = \<lparr>wc_MaxMessageSize = 0, wc_Path = ''/'', wc_EnableCompression = False, wc_HandshakeTimeout = 1,
     wc_ReadTimeout = 7, wc_WriteTimeout = 0, wc_ReadBufferSize = 0, wc_WriteBufferSize = 0, wc_Subprotocols = [], wc_TLSConfig = None\<rparr>"

definition demo_ws_env :: "nat \<Rightarrow> bool \<Rightarrow> 'b ws_env" where
  "demo_ws_env k over = \<lparr>we_now = 3, we_deadline = None, we_piece = \<lambda>n msg. Piece (Suc k) over, we_write = None\<rparr>"

definition demo_ws_conn :: "(nat \<times> 'b list) list \<Rightarrow> (nat \<times> 'b list) list \<Rightarrow> 'b ws_conn" where
  "demo_ws_conn inp outp = \<lparr>ws_in = inp, ws_end = ErrClosed, ws_reader = None, ws_out = outp, ws_deadline = None, ws_writeDeadline = None, ws_closes = 0, ws_readLimit = None\<rparr>"

lemma demo_ws_quiet [simp]: "ws_quiet (demo_ws_env k over)"
  by (simp add: ws_quiet_def demo_ws_env_def)

theorem ws_stream_round_trip_witness:
  "\<exists>c' p'. write_many (\<lambda>env. ws_write env \<lparr>wt_conf = demo_ws_conf\<rparr>) [(demo_ws_env 0 True, [1::nat, 2, 3]), (demo_ws_env 0 True, [4, 5])]
       (demo_ws_conn [] []) = (None, c') \<and>
     read_many (\<lambda>env. ws_read env \<lparr>wt_conf = demo_ws_conf\<rparr>)
       [(demo_ws_env 5 False, 2), (demo_ws_env 0 True, 9), (demo_ws_env 1 True, 4), (demo_ws_env 1 True, 4), (demo_ws_env 1 True, 4), (demo_ws_env 1 True, 4)]
       (demo_ws_conn (ws_out c') []) = (([1, 2, 3, 4, 5], Some ErrClosed), p')"
proof -
  let ?w = "write_many (\<lambda>env. ws_write env \<lparr>wt_conf = demo_ws_conf\<rparr>) [(demo_ws_env 0 True, [1::nat, 2, 3]), (demo_ws_env 0 True, [4, 5])]
       (demo_ws_conn [] [])"
  let ?ns = "[(demo_ws_env 5 False, 2), (demo_ws_env 0 True, 9), (demo_ws_env 1 True, 4), (demo_ws_env 1 True, 4), (demo_ws_env 1 True, 4), (demo_ws_env 1 True, 4)]"
  have w: "?w = (None, demo_ws_conn [] [(2, [1, 2, 3]), (2, [4, 5])])"
    by (simp add: ws_write_def ws_send_def write_message_def demo_ws_env_def demo_ws_conn_def demo_ws_conf_def BinaryMessage_def)
  obtain xs err p' where r: "read_many (\<lambda>env. ws_read env \<lparr>wt_conf = demo_ws_conf\<rparr>) ?ns (demo_ws_conn [(2, [1::nat, 2, 3]), (2, [4, 5])] []) = ((xs, err), p')"
    by (metis prod.exhaust)
  have "xs = [1, 2, 3, 4, 5] \<and> err = Some ErrClosed"
    using ws_stream_round_trip [OF w _ _ _ _ r] by (simp add: demo_ws_conn_def)
  then show ?thesis using w r by (auto simp: demo_ws_conn_def)
qed

end
