(* ===== verification/Ws_Config.thy ===== *)
theory Ws_Config
  imports Ws_Transport Go_Strings
begin

text \<open>
  The configuration of \<^verbatim>\<open>common/network/ws_impl.go\<close>: what \<open>NewWsListenerImpl\<close> and
  \<open>NewWsDialerImpl\<close> make of it, and the dialer, whose \<open>endpoint\<close> completes and checks an address.
  Package \<^verbatim>\<open>net/url\<close> is a parameter. Durations are nanoseconds.
\<close>

section \<open>Defaults\<close>

definition defaultWsMaxPendingConnections :: int where "defaultWsMaxPendingConnections = 1024"

definition defaultWsHandshakeTimeout :: int where "defaultWsHandshakeTimeout = 10 * 10 ^ 9"

definition defaultWsReadHeaderTimeout :: int where "defaultWsReadHeaderTimeout = 10 * 10 ^ 9"

definition defaultWsIdleTimeout :: int where "defaultWsIdleTimeout = 60 * 10 ^ 9"

text \<open>\<open>http.DefaultMaxHeaderBytes\<close> and \<open>tls.VersionTLS12\<close>.\<close>

definition DefaultMaxHeaderBytes :: int where "DefaultMaxHeaderBytes = 1048576"

definition VersionTLS12 :: nat where "VersionTLS12 = 771"

definition ws_path :: "string \<Rightarrow> string" where
  "ws_path p = (let q = (if p = [] then ''/'' else p) in if has_prefix q ''/'' then q else ''/'' @ q)"

definition or_default :: "int \<Rightarrow> int \<Rightarrow> int" where
  "or_default d n = (if n \<le> 0 then d else n)"

definition clone_tls :: "tls_config \<Rightarrow> tls_config" where
  "clone_tls t = (if tls_MinVersion t = 0 then t\<lparr>tls_MinVersion := VersionTLS12\<rparr> else t)"

section \<open>The listener's configuration\<close>

record ws_listener_config =
  wl_MaxPendingConnections :: int
  wl_MaxHeaderBytes :: int
  wl_ReadHeaderTimeout :: int
  wl_IdleTimeout :: int
  wl_WsConf :: ws_config

definition no_certificate :: "tls_config \<Rightarrow> bool" where
  "no_certificate t \<longleftrightarrow> tls_Certificates t = 0 \<and> \<not> tls_GetCertificate t \<and> \<not> tls_GetConfigForClient t"

text \<open>The upgrader: a buffer size of 0 is that of the library's default.\<close>

record ws_upgrader =
  up_HandshakeTimeout :: int
  up_EnableCompression :: bool
  up_Subprotocols :: "string list"
  up_ReadBufferSize :: int
  up_WriteBufferSize :: int

definition new_upgrader :: "ws_config \<Rightarrow> ws_upgrader" where
  "new_upgrader w =
     \<lparr>up_HandshakeTimeout = wc_HandshakeTimeout w, up_EnableCompression = wc_EnableCompression w,
      up_Subprotocols = wc_Subprotocols w,
      up_ReadBufferSize = (if wc_ReadBufferSize w > 0 then wc_ReadBufferSize w else 0),
      up_WriteBufferSize = (if wc_WriteBufferSize w > 0 then wc_WriteBufferSize w else 0)\<rparr>"

text \<open>\<open>NewWsListenerImpl\<close> up to the registration of the path: the configuration completed, or an error.\<close>

definition listener_config :: "ws_listener_config \<Rightarrow> net_error + ws_listener_config" where
  "listener_config c =
     (let w = wl_WsConf c; w1 = w\<lparr>wc_Path := ws_path (wc_Path w)\<rparr> in
      if contains_any (wc_Path w1) ''?#'' then Inl (NewError ''network/ws: path contains query or fragment'')
      else
        let w2 = w1\<lparr>wc_HandshakeTimeout := or_default defaultWsHandshakeTimeout (wc_HandshakeTimeout w1)\<rparr>;
            c1 = c\<lparr>wl_MaxPendingConnections := or_default defaultWsMaxPendingConnections (wl_MaxPendingConnections c),
              wl_ReadHeaderTimeout := or_default defaultWsReadHeaderTimeout (wl_ReadHeaderTimeout c),
              wl_IdleTimeout := or_default defaultWsIdleTimeout (wl_IdleTimeout c),
              wl_MaxHeaderBytes := or_default DefaultMaxHeaderBytes (wl_MaxHeaderBytes c)\<rparr>
        in (case wc_TLSConfig w2 of
              None \<Rightarrow> Inr (c1\<lparr>wl_WsConf := w2\<rparr>)
            | Some t \<Rightarrow>
                if no_certificate t then Inl (NewError ''network/ws: server TLS no certificate configured'')
                else Inr (c1\<lparr>wl_WsConf := w2\<lparr>wc_TLSConfig := Some (clone_tls t)\<rparr>\<rparr>)))"

text \<open>
  What \<open>http.ServeMux\<close> takes as a pattern that begins with a slash (\<open>parsePattern\<close> of package \<^verbatim>\<open>net/http\<close>): no blank, which
  would end a method, and every segment with a brace is a wildcard \<open>{name}\<close>, with a name of its own, or \<open>{name...}\<close> or
  \<open>{$}\<close> in the last place. Which names are identifiers is decided by the tables of package \<^verbatim>\<open>unicode\<close>, the parameter \<open>ident\<close>.
\<close>

fun split_slash :: "string \<Rightarrow> string list" where
  "split_slash [] = [[]]"
| "split_slash (c # s) = (if c = slash then [] # split_slash s
     else (case split_slash s of [] \<Rightarrow> [[c]] | seg # rest \<Rightarrow> (c # seg) # rest))"

fun segments_ok :: "(string \<Rightarrow> bool) \<Rightarrow> string list \<Rightarrow> string list \<Rightarrow> bool" where
  "segments_ok ident seen [] \<longleftrightarrow> True"
| "segments_ok ident seen (seg # rest) \<longleftrightarrow>
     (if CHR ''{'' \<notin> set seg then segments_ok ident seen rest
      else if hd seg \<noteq> CHR ''{'' \<or> last seg \<noteq> CHR ''}'' then False
      else
        let name = butlast (tl seg); multi = has_suffix name ''...''; name1 = trim_suffix name ''...'' in
        if name = ''$'' then rest = []
        else if multi \<and> rest \<noteq> [] \<or> name1 = [] \<or> \<not> ident name1 \<or> name1 \<in> set seen then False
        else segments_ok ident (name1 # seen) rest)"

definition mux_accepts :: "(string \<Rightarrow> bool) \<Rightarrow> string \<Rightarrow> bool" where
  "mux_accepts ident p \<longleftrightarrow> \<not> contains_any p [CHR '' '', CHR 0x09] \<and> has_prefix p ''/'' \<and> segments_ok ident [] (split_slash (tl p))"

text \<open>
  The constructor up to the socket: \<open>HandleFunc\<close> panics, \<^term>\<open>None\<close>, on a path that is no such pattern.
\<close>

definition register_path :: "(string \<Rightarrow> bool) \<Rightarrow> ws_listener_config \<Rightarrow> (net_error + ws_listener_config) option" where
  "register_path ident c =
     (case listener_config c of
        Inl e \<Rightarrow> Some (Inl e)
      | Inr c1 \<Rightarrow> if mux_accepts ident (wc_Path (wl_WsConf c1)) then Some (Inr c1) else None)"

text \<open>
  A complete configuration: every limit is positive, the path is absolute, without a query or fragment, and a
  pattern that the multiplexer takes, and TLS has a version and a certificate.
\<close>

definition config_complete :: "(string \<Rightarrow> bool) \<Rightarrow> ws_listener_config \<Rightarrow> bool" where
  "config_complete ident c \<longleftrightarrow> 0 < wl_MaxPendingConnections c \<and> 0 < wl_MaxHeaderBytes c \<and> 0 < wl_ReadHeaderTimeout c \<and>
     0 < wl_IdleTimeout c \<and> 0 < wc_HandshakeTimeout (wl_WsConf c) \<and> has_prefix (wc_Path (wl_WsConf c)) ''/'' \<and>
     \<not> contains_any (wc_Path (wl_WsConf c)) ''?#'' \<and> mux_accepts ident (wc_Path (wl_WsConf c)) \<and>
     (case wc_TLSConfig (wl_WsConf c) of None \<Rightarrow> True | Some t \<Rightarrow> tls_MinVersion t \<noteq> 0 \<and> \<not> no_certificate t)"

lemma defaults_positive [simp]:
  "0 < defaultWsMaxPendingConnections" "0 < defaultWsHandshakeTimeout" "0 < defaultWsReadHeaderTimeout"
  "0 < defaultWsIdleTimeout" "0 < DefaultMaxHeaderBytes" "VersionTLS12 \<noteq> 0"
  by (simp_all add: defaultWsMaxPendingConnections_def defaultWsHandshakeTimeout_def defaultWsReadHeaderTimeout_def
      defaultWsIdleTimeout_def DefaultMaxHeaderBytes_def VersionTLS12_def)

lemma or_default_simps [simp]: "0 < d \<Longrightarrow> 0 < or_default d n" "0 < n \<Longrightarrow> or_default d n = n"
  by (simp_all add: or_default_def)

lemma ws_path_prefix [simp]: "has_prefix (ws_path p) ''/''"
  by (simp add: ws_path_def Let_def has_prefix_def)

lemma ws_path_id [simp]: "has_prefix p ''/'' \<Longrightarrow> ws_path p = p"
  by (auto simp: ws_path_def Let_def has_prefix_def)

lemma clone_tls_simps [simp]: "tls_MinVersion (clone_tls t) \<noteq> 0" "no_certificate (clone_tls t) = no_certificate t"
  by (simp_all add: clone_tls_def no_certificate_def VersionTLS12_def)

lemma segments_plain: "\<forall>seg \<in> set segs. CHR ''{'' \<notin> set seg \<Longrightarrow> segments_ok ident seen segs"
  by (induction segs) simp_all

lemma split_slash_chars: "seg \<in> set (split_slash s) \<Longrightarrow> set seg \<subseteq> set s"
  by (induction s arbitrary: seg) (fastforce split: list.splits if_splits)+

text \<open>A path without blanks and braces is always taken.\<close>

lemma mux_accepts_plain:
  assumes "\<not> contains_any p [CHR '' '', CHR 0x09, CHR ''{'']"
  shows "mux_accepts ident (ws_path p)"
proof -
  have "set (ws_path p) \<subseteq> insert CHR ''/'' (set p)" by (auto simp: ws_path_def Let_def)
  then have c: "CHR ''{'' \<notin> set (ws_path p) \<and> \<not> contains_any (ws_path p) [CHR '' '', CHR 0x09]"
    using assms by (auto simp: contains_any_iff)
  have "set (tl (ws_path p)) \<subseteq> set (ws_path p)" by (cases "ws_path p") auto
  then have "\<forall>seg \<in> set (split_slash (tl (ws_path p))). CHR ''{'' \<notin> set seg" using c split_slash_chars by blast
  from segments_plain [OF this] c show ?thesis by (simp add: mux_accepts_def)
qed

lemma completed:
  assumes "listener_config c = Inr c1"
  shows "c1 = \<lparr>wl_MaxPendingConnections = (if 0 < wl_MaxPendingConnections c then wl_MaxPendingConnections c else 1024),
      wl_MaxHeaderBytes = (if 0 < wl_MaxHeaderBytes c then wl_MaxHeaderBytes c else 2 ^ 20),
      wl_ReadHeaderTimeout = (if 0 < wl_ReadHeaderTimeout c then wl_ReadHeaderTimeout c else 10 * 10 ^ 9),
      wl_IdleTimeout = (if 0 < wl_IdleTimeout c then wl_IdleTimeout c else 60 * 10 ^ 9),
      wl_WsConf = (wl_WsConf c)\<lparr>wc_Path := ws_path (wc_Path (wl_WsConf c)),
        wc_HandshakeTimeout := (if 0 < wc_HandshakeTimeout (wl_WsConf c) then wc_HandshakeTimeout (wl_WsConf c) else 10 * 10 ^ 9),
        wc_TLSConfig := map_option (\<lambda>t. if tls_MinVersion t = 0 then t\<lparr>tls_MinVersion := VersionTLS12\<rparr> else t) (wc_TLSConfig (wl_WsConf c))\<rparr>\<rparr>"
  using assms
  by (cases "wc_TLSConfig (wl_WsConf c)") (auto simp: listener_config_def Let_def or_default_def clone_tls_def
      defaultWsMaxPendingConnections_def defaultWsHandshakeTimeout_def defaultWsReadHeaderTimeout_def
      defaultWsIdleTimeout_def DefaultMaxHeaderBytes_def split: if_splits)

text \<open>
  C34: The constructor of the WebSocket listener refuses a configuration whose path has a query or fragment, and then one
  whose TLS configuration has no source of certificates, with the error that says so. It panics on a path that
  the multiplexer cannot take as a pattern, which only happens with a blank or a brace, and accepts everything
  else, as far as it does not open the socket. The configuration it then works with is complete: limits that are not positive have become their
  defaults, the path is absolute and TLS has a version, and nothing else has changed; so a
  configuration that is complete already is taken as it is, and completing a second time changes nothing.
\<close>

theorem listener_config_completes:
  "(case register_path ident c of
      None \<Rightarrow> \<not> mux_accepts ident (ws_path (wc_Path (wl_WsConf c))) \<and> contains_any (wc_Path (wl_WsConf c)) [CHR '' '', CHR 0x09, CHR ''{''] \<and>
        \<not> contains_any (wc_Path (wl_WsConf c)) ''?#'' \<and> (\<forall>t. wc_TLSConfig (wl_WsConf c) = Some t \<longrightarrow> \<not> no_certificate t)
    | Some (Inl e) \<Rightarrow>
        if contains_any (wc_Path (wl_WsConf c)) ''?#'' then e = NewError ''network/ws: path contains query or fragment''
        else (\<exists>t. wc_TLSConfig (wl_WsConf c) = Some t \<and> no_certificate t) \<and> e = NewError ''network/ws: server TLS no certificate configured''
    | Some (Inr c1) \<Rightarrow> config_complete ident c1 \<and> register_path ident c1 = Some (Inr c1) \<and> (config_complete ident c \<longrightarrow> c1 = c) \<and>
        c1 = \<lparr>wl_MaxPendingConnections = (if 0 < wl_MaxPendingConnections c then wl_MaxPendingConnections c else 1024),
          wl_MaxHeaderBytes = (if 0 < wl_MaxHeaderBytes c then wl_MaxHeaderBytes c else 2 ^ 20),
          wl_ReadHeaderTimeout = (if 0 < wl_ReadHeaderTimeout c then wl_ReadHeaderTimeout c else 10 * 10 ^ 9),
          wl_IdleTimeout = (if 0 < wl_IdleTimeout c then wl_IdleTimeout c else 60 * 10 ^ 9),
          wl_WsConf = (wl_WsConf c)\<lparr>
            wc_Path := (if has_prefix (wc_Path (wl_WsConf c)) ''/'' then wc_Path (wl_WsConf c) else ''/'' @ wc_Path (wl_WsConf c)),
            wc_HandshakeTimeout := (if 0 < wc_HandshakeTimeout (wl_WsConf c) then wc_HandshakeTimeout (wl_WsConf c) else 10 * 10 ^ 9),
            wc_TLSConfig := map_option (\<lambda>t. if tls_MinVersion t = 0 then t\<lparr>tls_MinVersion := VersionTLS12\<rparr> else t) (wc_TLSConfig (wl_WsConf c))\<rparr>\<rparr>)"
proof -
  let ?w = "wl_WsConf c"
  have path: "contains_any (ws_path (wc_Path ?w)) ''?#'' = contains_any (wc_Path ?w) ''?#''"
    by (simp add: ws_path_def Let_def contains_any_iff)
  have keep: "config_complete ident c \<Longrightarrow> listener_config c = Inr c \<and> mux_accepts ident (wc_Path (wl_WsConf c))" for c
    by (cases "wc_TLSConfig (wl_WsConf c)") (auto simp: config_complete_def listener_config_def Let_def clone_tls_def)
  have conf: "wc_Path (wl_WsConf c1) = ws_path (wc_Path ?w) \<and> (mux_accepts ident (ws_path (wc_Path ?w)) \<longrightarrow> config_complete ident c1) \<and>
      \<not> contains_any (wc_Path ?w) ''?#'' \<and> (\<forall>t. wc_TLSConfig ?w = Some t \<longrightarrow> \<not> no_certificate t)" if "listener_config c = Inr c1" for c1
    using that by (cases "wc_TLSConfig ?w") (auto simp: config_complete_def listener_config_def Let_def path split: if_splits)
  have pth: "ws_path p = (if has_prefix p ''/'' then p else ''/'' @ p)" for p
    by (simp add: ws_path_def Let_def has_prefix_def)
  show ?thesis
  proof (cases "listener_config c")
    case (Inl e)
    then have "if contains_any (wc_Path ?w) ''?#'' then e = NewError ''network/ws: path contains query or fragment''
        else (\<exists>t. wc_TLSConfig ?w = Some t \<and> no_certificate t) \<and> e = NewError ''network/ws: server TLS no certificate configured''"
      by (cases "wc_TLSConfig ?w") (auto simp: listener_config_def Let_def path split: if_splits)
    with Inl show ?thesis by (simp add: register_path_def)
  next
    case (Inr c1)
    note f = conf [OF Inr]
    show ?thesis
    proof (cases "mux_accepts ident (ws_path (wc_Path ?w))")
      case True
      then have r: "register_path ident c = Some (Inr c1)" and cc: "config_complete ident c1" using Inr f by (simp_all add: register_path_def)
      have "register_path ident c1 = Some (Inr c1)" "config_complete ident c \<longrightarrow> c1 = c"
        using keep [OF cc] keep [of c] Inr by (auto simp: register_path_def)
      moreover note completed [OF Inr, unfolded pth]
      ultimately show ?thesis using r cc by simp
    next
      case False
      then have "register_path ident c = None" using Inr f by (simp add: register_path_def)
      with False f mux_accepts_plain [of "wc_Path ?w" ident] show ?thesis by auto
    qed
  qed
qed

definition demo_listener_config :: ws_listener_config where
  "demo_listener_config = \<lparr>wl_MaxPendingConnections = 3, wl_MaxHeaderBytes = 4096, wl_ReadHeaderTimeout = 5, wl_IdleTimeout = 6,
     wl_WsConf = demo_ws_conf\<lparr>wc_Path := ''/ws'', wc_TLSConfig := Some \<lparr>tls_MinVersion = 772, tls_Certificates = 1,
       tls_GetCertificate = False, tls_GetConfigForClient = False\<rparr>\<rparr>\<rparr>"

text \<open>Paths that the multiplexer takes, and two on which it panics.\<close>

definition ascii_ident :: "string \<Rightarrow> bool" where
  "ascii_ident s \<longleftrightarrow> s \<noteq> [] \<and> list_all (\<lambda>c. lower_char c \<in> set ''abcdefghijklmnopqrstuvwxyz_'') s"

lemma mux_examples:
  "mux_accepts ascii_ident ''/ws/{room}/{rest...}''" "mux_accepts ascii_ident ''/''"
  "\<not> mux_accepts ascii_ident ''/{''" "\<not> mux_accepts ascii_ident ''/a b''" "\<not> mux_accepts ascii_ident ''/{x}/{x}''"
  by code_simp+

theorem listener_config_completes_witness:
  "register_path ascii_ident demo_listener_config = Some (Inr demo_listener_config) \<and>
   (\<exists>c1. register_path ascii_ident (demo_listener_config\<lparr>wl_IdleTimeout := -1\<rparr>) = Some (Inr c1) \<and> config_complete ascii_ident c1 \<and>
      wl_IdleTimeout c1 = 60000000000)"
proof -
  have s: "config_complete ascii_ident demo_listener_config" by code_simp
  have "register_path ascii_ident demo_listener_config \<noteq> None" by code_simp
  moreover have "\<nexists>e. register_path ascii_ident demo_listener_config = Some (Inl e)"
    by (simp add: register_path_def listener_config_def demo_listener_config_def demo_ws_conf_def contains_any_def no_certificate_def
        ws_path_def has_prefix_def Let_def)
  ultimately obtain c1 where r: "register_path ascii_ident demo_listener_config = Some (Inr c1)"
    by (metis option.exhaust sum.exhaust)
  with listener_config_completes [of ascii_ident demo_listener_config] s have "c1 = demo_listener_config" by simp
  moreover have e: "register_path ascii_ident (demo_listener_config\<lparr>wl_IdleTimeout := -1\<rparr>) =
      Some (Inr (demo_listener_config\<lparr>wl_IdleTimeout := 60000000000\<rparr>))"
    by code_simp
  moreover have "config_complete ascii_ident (demo_listener_config\<lparr>wl_IdleTimeout := 60000000000\<rparr>)"
    using listener_config_completes [of ascii_ident "demo_listener_config\<lparr>wl_IdleTimeout := -1\<rparr>"]
    unfolding e option.case sum.case by (rule conjunct1)
  ultimately show ?thesis using r by simp
qed

section \<open>The dialer\<close>

text \<open>A proxy function that is not given is \<open>http.ProxyFromEnvironment\<close>.\<close>

datatype 'p proxy = ProxyFromEnvironment | Proxy 'p

record 'p ws_dialer_config =
  wd_RequireTLS :: bool
  wd_WsConf :: ws_config
  wd_Header :: "(string \<times> string list) list"
  wd_Proxy :: "'p proxy option"

record 'p ws_dialer =
  dl_Proxy :: "'p proxy"
  dl_HandshakeTimeout :: int
  dl_EnableCompression :: bool
  dl_TLSClientConfig :: "tls_config option"
  dl_Subprotocols :: "string list"
  dl_ReadBufferSize :: int
  dl_WriteBufferSize :: int
  dl_conf :: "'p ws_dialer_config"

definition new_ws_dialer :: "'p ws_dialer_config \<Rightarrow> 'p ws_dialer" where
  "new_ws_dialer c =
     (let w = wd_WsConf c;
          w1 = w\<lparr>wc_Path := ws_path (wc_Path w),
            wc_HandshakeTimeout := or_default defaultWsHandshakeTimeout (wc_HandshakeTimeout w),
            wc_TLSConfig := map_option clone_tls (wc_TLSConfig w)\<rparr>;
          proxy = (case wd_Proxy c of None \<Rightarrow> ProxyFromEnvironment | Some p \<Rightarrow> p)
      in \<lparr>dl_Proxy = proxy, dl_HandshakeTimeout = wc_HandshakeTimeout w1, dl_EnableCompression = wc_EnableCompression w1,
          dl_TLSClientConfig = wc_TLSConfig w1, dl_Subprotocols = wc_Subprotocols w1,
          dl_ReadBufferSize = (if wc_ReadBufferSize w1 > 0 then wc_ReadBufferSize w1 else 0),
          dl_WriteBufferSize = (if wc_WriteBufferSize w1 > 0 then wc_WriteBufferSize w1 else 0),
          dl_conf = c\<lparr>wd_WsConf := w1, wd_Proxy := Some proxy\<rparr>\<rparr>)"

text \<open>
  Of a parsed address: the scheme, the host name, the path with its raw form, and the rest, which
  the dialer does not look at. \<open>ParseError\<close> is \<open>*url.Error\<close>, which holds the address, and the error
  below it.
\<close>

record 'r url =
  u_Scheme :: string
  u_Hostname :: string
  u_Path :: string
  u_RawPath :: string
  u_rest :: 'r

datatype parse_error = ParseError string net_error | OtherParseError net_error

definition underlying :: "parse_error \<Rightarrow> net_error" where
  "underlying e = (case e of ParseError _ err \<Rightarrow> err | OtherParseError err \<Rightarrow> err)"

definition has_scheme :: "string \<Rightarrow> bool" where
  "has_scheme address =
     (case str_index address ''://'' of
        None \<Rightarrow> False
      | Some schemeEnd \<Rightarrow> \<not> contains_any (take schemeEnd address) ''/?#'')"

definition with_scheme :: "'p ws_dialer_config \<Rightarrow> string \<Rightarrow> string" where
  "with_scheme c address =
     (if has_scheme address then address
      else (if wd_RequireTLS c \<or> wc_TLSConfig (wd_WsConf c) \<noteq> None then ''wss'' else ''ws'') @ ''://'' @ address)"

definition ws_endpoint :: "(string \<Rightarrow> parse_error + 'r url) \<Rightarrow> ('r url \<Rightarrow> string) \<Rightarrow> 'p ws_dialer \<Rightarrow> string \<Rightarrow> net_error + string" where
  "ws_endpoint parse render d address =
     (if address = [] then Inl (NewError ''network/ws: address is empty'')
      else if address \<noteq> trim_space address then Inl (NewError ''network/ws: address contains surrounding whitespace'')
      else if contains_any address ''#'' then Inl (NewError ''network/ws: address must not contain fragment'')
      else
        (case parse (with_scheme (dl_conf d) address) of
           Inl e \<Rightarrow> Inl (ForeignError ''network/ws: parse address'' [underlying e])
         | Inr u0 \<Rightarrow>
             let u = u0\<lparr>u_Scheme := to_lower (u_Scheme u0)\<rparr> in
             if u_Scheme u \<noteq> ''ws'' \<and> u_Scheme u \<noteq> ''wss'' then Inl (NewError ''network/ws: address must use ws or wss'')
             else if wd_RequireTLS (dl_conf d) \<and> u_Scheme u \<noteq> ''wss''
             then Inl (NewError ''network/ws: TLS required, address must use wss'')
             else if u_Hostname u = [] then Inl (NewError ''network/ws: address must have host'')
             else Inr (render (if u_Path u = [] then u\<lparr>u_Path := wc_Path (wd_WsConf (dl_conf d)), u_RawPath := []\<rparr> else u))))"

text \<open>\<open>DialContext\<close>: what the library's dialer did with the endpoint is the argument \<open>dialed\<close>.\<close>

definition ws_dial :: "(string \<Rightarrow> parse_error + 'r url) \<Rightarrow> ('r url \<Rightarrow> string) \<Rightarrow> (string \<Rightarrow> net_error + 'b ws_conn) \<Rightarrow> 'p ws_dialer \<Rightarrow> string \<Rightarrow>
    (ws_transport iface \<times> net_error option) \<times> 'b ws_conn option" where
  "ws_dial parse render dialed d address =
     (case ws_endpoint parse render d address of
        Inl e \<Rightarrow> ((NilIface, Some e), None)
      | Inr endpoint \<Rightarrow>
          (case dialed endpoint of
             Inl e \<Rightarrow> ((NilIface, Some e), None)
           | Inr c \<Rightarrow> (let (t, c1) = new_ws_transport (wd_WsConf (dl_conf d)) c in ((Iface (Some t), None), Some c1))))"

text \<open>
  \<open>url.Parse\<close> reads the scheme in front of the first \<open>://\<close> as it stands, for the two schemes the
  dialer puts there.
\<close>

definition parse_keeps_scheme :: "(string \<Rightarrow> parse_error + 'r url) \<Rightarrow> bool" where
  "parse_keeps_scheme parse \<longleftrightarrow>
     (\<forall>scheme \<in> {''ws'', ''wss''}. \<forall>a u. parse (scheme @ ''://'' @ a) = Inr u \<longrightarrow> u_Scheme u = scheme)"

lemma ws_endpoint_cases:
  assumes "ws_endpoint parse render d address = Inr e"
  obtains u0 where "parse (with_scheme (dl_conf d) address) = Inr u0"
    and "to_lower (u_Scheme u0) = ''ws'' \<or> to_lower (u_Scheme u0) = ''wss''"
    and "wd_RequireTLS (dl_conf d) \<longrightarrow> to_lower (u_Scheme u0) = ''wss''" and "u_Hostname u0 \<noteq> []"
    and "e = render (u0\<lparr>u_Scheme := to_lower (u_Scheme u0), u_Path := (if u_Path u0 = [] then wc_Path (wd_WsConf (dl_conf d)) else u_Path u0),
        u_RawPath := (if u_Path u0 = [] then [] else u_RawPath u0)\<rparr>)"
    and "address \<noteq> []" and "address = trim_space address" and "\<not> contains_any address ''#''"
  using assms by (auto simp: ws_endpoint_def Let_def split: if_splits sum.splits)

lemma to_lower_ws [simp]: "to_lower ''ws'' = ''ws''" "to_lower ''wss'' = ''wss''"
  by code_simp+

text \<open>
  C33: A dialer never dials an address without checking it. Every endpoint it hands to the library has
  the scheme \<open>ws\<close> or \<open>wss\<close>, a host and a path, and comes from an address without a fragment; with
  \<open>RequireTLS\<close> its scheme is \<open>wss\<close>. An address without a scheme gets \<open>wss\<close> if TLS is required
  or configured and \<open>ws\<close> otherwise. An address that cannot be parsed is not repeated in the
  error: two addresses that fail for the same reason give the same error.
\<close>

theorem ws_endpoint_checked:
  assumes "parse_keeps_scheme parse"
  shows "(case ws_endpoint parse render (new_ws_dialer c) address of
      Inl err \<Rightarrow> \<forall>e. parse (with_scheme (dl_conf (new_ws_dialer c)) address) = Inl e \<and> address \<noteq> [] \<and>
        address = trim_space address \<and> \<not> contains_any address ''#'' \<longrightarrow> err = ForeignError ''network/ws: parse address'' [underlying e]
    | Inr endpoint \<Rightarrow> \<exists>u. endpoint = render u \<and> u_Scheme u \<in> {''ws'', ''wss''} \<and> u_Hostname u \<noteq> [] \<and> u_Path u \<noteq> [] \<and>
        \<not> contains_any address ''#'' \<and> (wd_RequireTLS c \<longrightarrow> u_Scheme u = ''wss'') \<and>
        (\<not> has_scheme address \<longrightarrow> u_Scheme u = (if wd_RequireTLS c \<or> wc_TLSConfig (wd_WsConf c) \<noteq> None then ''wss'' else ''ws'')))"
proof (cases "ws_endpoint parse render (new_ws_dialer c) address")
  case (Inl err)
  then show ?thesis by (auto simp: ws_endpoint_def)
next
  case (Inr endpoint)
  let ?c = "dl_conf (new_ws_dialer c)"
  have conf: "wd_RequireTLS ?c = wd_RequireTLS c" "wc_TLSConfig (wd_WsConf ?c) = None \<longleftrightarrow> wc_TLSConfig (wd_WsConf c) = None"
    "wc_Path (wd_WsConf ?c) \<noteq> []"
    by (simp_all add: new_ws_dialer_def Let_def ws_path_def has_prefix_def)
  from ws_endpoint_cases [OF Inr] obtain u0 where u0: "parse (with_scheme ?c address) = Inr u0"
    and rest: "to_lower (u_Scheme u0) = ''ws'' \<or> to_lower (u_Scheme u0) = ''wss''"
      "wd_RequireTLS ?c \<longrightarrow> to_lower (u_Scheme u0) = ''wss''" "u_Hostname u0 \<noteq> []" "\<not> contains_any address ''#''"
    and e: "endpoint = render (u0\<lparr>u_Scheme := to_lower (u_Scheme u0), u_Path := (if u_Path u0 = [] then wc_Path (wd_WsConf ?c) else u_Path u0),
        u_RawPath := (if u_Path u0 = [] then [] else u_RawPath u0)\<rparr>)" by blast
  have "u_Scheme u0 = (if wd_RequireTLS c \<or> wc_TLSConfig (wd_WsConf c) \<noteq> None then ''wss'' else ''ws'')" if "\<not> has_scheme address"
    using u0 that conf assms by (auto simp: with_scheme_def parse_keeps_scheme_def split: if_splits)
  then have sch: "to_lower (u_Scheme u0) = (if wd_RequireTLS c \<or> wc_TLSConfig (wd_WsConf c) \<noteq> None then ''wss'' else ''ws'')" if "\<not> has_scheme address"
    using that by auto
  define u where "u = u0\<lparr>u_Scheme := to_lower (u_Scheme u0), u_Path := (if u_Path u0 = [] then wc_Path (wd_WsConf ?c) else u_Path u0),
      u_RawPath := (if u_Path u0 = [] then [] else u_RawPath u0)\<rparr>"
  have u: "endpoint = render u" "u_Scheme u = to_lower (u_Scheme u0)" "u_Hostname u = u_Hostname u0" "u_Path u \<noteq> []"
    using e conf(3) by (simp_all add: u_def)
  have scheme: "u_Scheme u \<in> {''ws'', ''wss''}" unfolding u(2) using rest(1) by blast
  have tls: "wd_RequireTLS c \<longrightarrow> u_Scheme u = ''wss''" using rest(2) unfolding conf(1) u(2) .
  have def: "\<not> has_scheme address \<longrightarrow> u_Scheme u = (if wd_RequireTLS c \<or> wc_TLSConfig (wd_WsConf c) \<noteq> None then ''wss'' else ''ws'')"
    unfolding u(2) by (rule impI, rule sch)
  have host: "u_Hostname u \<noteq> []" unfolding u(3) by (rule rest(3))
  show ?thesis unfolding Inr sum.case
    by (intro exI conjI) (rule u(1) scheme host u(4) rest(4) tls def)+
qed

text \<open>A parser for addresses of the form \<open>scheme://host/path\<close>.\<close>

definition demo_url_parse :: "string \<Rightarrow> parse_error + unit url" where
  "demo_url_parse a =
     (case str_index a ''://'' of
        None \<Rightarrow> Inl (ParseError a (NewError ''missing protocol scheme''))
      | Some i \<Rightarrow> (let r = drop (i + 3) a in
          Inr \<lparr>u_Scheme = take i a, u_Hostname = takeWhile (\<lambda>c. c \<noteq> slash) r, u_Path = dropWhile (\<lambda>c. c \<noteq> slash) r,
            u_RawPath = [], u_rest = ()\<rparr>))"

definition demo_render :: "unit url \<Rightarrow> string" where
  "demo_render u = u_Scheme u @ ''://'' @ u_Hostname u @ u_Path u"

definition demo_dialer_config :: "unit ws_dialer_config" where
  "demo_dialer_config = \<lparr>wd_RequireTLS = True, wd_WsConf = demo_ws_conf, wd_Header = [], wd_Proxy = None\<rparr>"

theorem ws_endpoint_checked_witness:
  "ws_endpoint demo_url_parse demo_render (new_ws_dialer demo_dialer_config) ''example.org'' = Inr ''wss://example.org/'' \<and>
   (\<exists>u. ''wss://example.org/'' = demo_render u \<and> u_Scheme u = ''wss'' \<and> u_Hostname u \<noteq> [] \<and> u_Path u \<noteq> [])"
proof -
  have p: "parse_keeps_scheme demo_url_parse"
    by (auto simp: parse_keeps_scheme_def demo_url_parse_def has_prefix_def Let_def)
  have e: "ws_endpoint demo_url_parse demo_render (new_ws_dialer demo_dialer_config) ''example.org'' = Inr ''wss://example.org/''"
    by code_simp
  have "\<not> has_scheme ''example.org''" by code_simp
  then show ?thesis
    using ws_endpoint_checked [OF p, where render = demo_render and c = demo_dialer_config and address = "''example.org''"]
    unfolding e sum.case by (auto simp: demo_dialer_config_def)
qed

end
