(* ===== verification/Ws_Listener.thy ===== *)
theory Ws_Listener
  imports Ws_Config
begin

text \<open>
  The listener of \<^verbatim>\<open>common/network/ws_impl.go\<close>: the handlers of the HTTP server upgrade
  connections and hand them to the callers of \<open>Accept\<close> over a channel without a buffer;
  \<open>pendingSlots\<close> limits them, and \<open>closeWithCause\<close> ends the listener and waits for them. The
  goroutines interleave at every operation on the channels, the wait group and \<open>closeMu\<close>.
  A connection is the number of the handler that upgraded it.
\<close>

section \<open>State\<close>

text \<open>
  Where a handler is. From \<open>HUpgrade\<close> on it holds a slot, from \<open>HSlot\<close> on it is counted in
  \<open>upgradeWg\<close>; the deferred calls give the slot back first. The last field of \<open>HEnd\<close> is whether
  the request was refused with the status 503.
\<close>

datatype handler = HEnter | HSlot | HUpgrade | HOffer | HReject | HRelease | HWgDone bool | HEnd bool

text \<open>A call of \<open>Accept\<close>; the flag says that the listener had been closed when it began.\<close>

datatype accepting = AWait | AGot nat | AReturned "nat option"

datatype closing = KNone | KServer | KListener "net_error option" | KWait | KDone

text \<open>\<open>lis_open\<close> are the upgraded connections that are open, \<open>lis_delivered\<close> those \<open>Accept\<close> has returned.\<close>

record ws_listener =
  lis_cap :: int
  lis_slots :: int
  lis_wg :: int
  lis_closed :: bool
  lis_done :: bool
  lis_acceptErr :: "net_error option"
  lis_closeErr :: "net_error option"
  lis_once :: closing
  lis_handlers :: "handler list"
  lis_accepts :: "(bool \<times> accepting) list"
  lis_open :: "nat fset"
  lis_delivered :: "nat list"

text \<open>
  The constructor, with what \<open>net.Listen\<close> said; \<^term>\<open>None\<close> is the panic of \<open>HandleFunc\<close> on a path that
  the multiplexer does not take.
\<close>

definition new_ws_listener ::
  "(string \<Rightarrow> bool) \<Rightarrow> ws_listener_config \<Rightarrow> net_error option \<Rightarrow> (net_error + ws_listener) option" where
  "new_ws_listener ident conf listened =
     (case register_path ident conf of
        None \<Rightarrow> None
      | Some (Inl e) \<Rightarrow> Some (Inl e)
      | Some (Inr c) \<Rightarrow>
          (case listened of
             Some e \<Rightarrow> Some (Inl e)
           | None \<Rightarrow> Some (Inr \<lparr>lis_cap = wl_MaxPendingConnections c, lis_slots = 0, lis_wg = 0, lis_closed = False, lis_done = False,
               lis_acceptErr = None, lis_closeErr = None, lis_once = KNone, lis_handlers = [], lis_accepts = [],
               lis_open = {||}, lis_delivered = []\<rparr>)))"

section \<open>The handlers\<close>

text \<open>What a handler meets: its own next step, with the outcome of \<open>Upgrade\<close>.\<close>

datatype handler_choice = HGo | HUpgraded bool

abbreviation goes :: "nat \<Rightarrow> handler \<Rightarrow> ws_listener \<Rightarrow> ws_listener" where
  "goes i h s \<equiv> s\<lparr>lis_handlers := (lis_handlers s)[i := h]\<rparr>"

definition handle_upgrade :: "nat \<Rightarrow> handler_choice \<Rightarrow> ws_listener \<Rightarrow> ws_listener option" where
  "handle_upgrade i ch s =
     (case lis_handlers s ! i of
        HEnter \<Rightarrow> (case ch of
            HGo \<Rightarrow> Some (if lis_closed s then goes i (HEnd True) s else goes i HSlot (s\<lparr>lis_wg := lis_wg s + 1\<rparr>)) | _ \<Rightarrow> None)
      | HSlot \<Rightarrow> (case ch of
            HGo \<Rightarrow> Some (if lis_slots s < lis_cap s then goes i HUpgrade (s\<lparr>lis_slots := lis_slots s + 1\<rparr>) else goes i (HWgDone True) s)
          | _ \<Rightarrow> None)
      | HUpgrade \<Rightarrow> (case ch of
            HUpgraded True \<Rightarrow> Some (goes i HOffer (s\<lparr>lis_open := finsert i (lis_open s)\<rparr>))
          | HUpgraded False \<Rightarrow> Some (goes i HRelease s)
          | HGo \<Rightarrow> None)
      | HOffer \<Rightarrow> (case ch of HGo \<Rightarrow> if lis_done s then Some (goes i HReject s) else None | _ \<Rightarrow> None)
      | HReject \<Rightarrow> (case ch of HGo \<Rightarrow> Some (goes i HRelease (s\<lparr>lis_open := lis_open s |-| {|i|}\<rparr>)) | _ \<Rightarrow> None)
      | HRelease \<Rightarrow> (case ch of HGo \<Rightarrow> Some (goes i (HWgDone False) (s\<lparr>lis_slots := lis_slots s - 1\<rparr>)) | _ \<Rightarrow> None)
      | HWgDone r \<Rightarrow> (case ch of HGo \<Rightarrow> Some (goes i (HEnd r) (s\<lparr>lis_wg := lis_wg s - 1\<rparr>)) | _ \<Rightarrow> None)
      | HEnd r \<Rightarrow> None)"

section \<open>Accept\<close>

abbreviation accepts_at :: "nat \<Rightarrow> accepting \<Rightarrow> ws_listener \<Rightarrow> ws_listener" where
  "accepts_at j a s \<equiv> s\<lparr>lis_accepts := (lis_accepts s)[j := (fst (lis_accepts s ! j), a)]\<rparr>"

text \<open>\<open>AReceive i\<close> is the exchange with the handler \<open>i\<close>, \<open>AClosed\<close> the case of the closed channel \<open>done\<close>.\<close>

datatype accept_choice = AReceive nat | AClosed | AGo

definition ws_accept :: "nat \<Rightarrow> accept_choice \<Rightarrow> ws_listener \<Rightarrow> ws_listener option" where
  "ws_accept j ch s =
     (case snd (lis_accepts s ! j) of
        AWait \<Rightarrow> (case ch of
            AReceive i \<Rightarrow> if i < length (lis_handlers s) \<and> lis_handlers s ! i = HOffer
              then Some (accepts_at j (AGot i) (goes i HRelease s)) else None
          | AClosed \<Rightarrow> if lis_done s then Some (accepts_at j (AReturned None) s) else None
          | AGo \<Rightarrow> None)
      | AGot i \<Rightarrow> (case ch of
            AGo \<Rightarrow> Some (if lis_done s then accepts_at j (AReturned None) (s\<lparr>lis_open := lis_open s |-| {|i|}\<rparr>)
              else accepts_at j (AReturned (Some i)) (s\<lparr>lis_delivered := lis_delivered s @ [i]\<rparr>))
          | _ \<Rightarrow> None)
      | AReturned r \<Rightarrow> None)"

section \<open>Closing\<close>

definition ErrServerClosed :: net_error where "ErrServerClosed = ForeignError ''http: Server closed'' []"

definition drop_closed :: "net_error option \<Rightarrow> net_error option" where
  "drop_closed e = (case e of None \<Rightarrow> None | Some x \<Rightarrow> if errors_is x ErrClosed \<or> errors_is x ErrServerClosed then None else Some x)"

text \<open>
  The beginning of \<open>closeWithCause\<close>, under \<open>closeMu\<close>, by the caller that runs the function of
  \<open>closeOnce\<close>. Its other callers wait for \<open>KDone\<close>.
\<close>

definition close_with_cause :: "net_error option \<Rightarrow> ws_listener \<Rightarrow> ws_listener option" where
  "close_with_cause cause s =
     (if lis_once s = KNone then
        Some (s\<lparr>lis_closed := True, lis_acceptErr := Some (case cause of None \<Rightarrow> ErrClosed | Some e \<Rightarrow> e),
          lis_done := True, lis_once := KServer\<rparr>)
      else None)"

datatype close_choice = KErr "net_error option" | KGo

definition close_goes_on :: "close_choice \<Rightarrow> ws_listener \<Rightarrow> ws_listener option" where
  "close_goes_on ch s =
     (case lis_once s of
        KNone \<Rightarrow> None
      | KServer \<Rightarrow> (case ch of KErr e \<Rightarrow> Some (s\<lparr>lis_once := KListener (drop_closed e)\<rparr>) | _ \<Rightarrow> None)
      | KListener serverErr \<Rightarrow> (case ch of
            KErr e \<Rightarrow> Some (s\<lparr>lis_closeErr := errors_join [serverErr, drop_closed e], lis_once := KWait\<rparr>) | _ \<Rightarrow> None)
      | KWait \<Rightarrow> (case ch of KGo \<Rightarrow> if lis_wg s = 0 then Some (s\<lparr>lis_once := KDone\<rparr>) else None | _ \<Rightarrow> None)
      | KDone \<Rightarrow> None)"

text \<open>\<open>serve\<close>: the cause with which it closes the listener when the HTTP server has returned.\<close>

definition serve_cause :: "net_error option \<Rightarrow> net_error option" where
  "serve_cause err = (if drop_closed err = None then Some ErrClosed else err)"

definition ws_close_result :: "ws_listener \<Rightarrow> net_error option option" where
  "ws_close_result s = (if lis_once s = KDone then Some (lis_closeErr s) else None)"

definition ws_accept_error :: "ws_listener \<Rightarrow> net_error option" where
  "ws_accept_error s = lis_acceptErr s"

section \<open>The listener as a whole\<close>

inductive ws_internal :: "ws_listener \<Rightarrow> ws_listener \<Rightarrow> bool" where
  handler_goes: "i < length (lis_handlers s) \<Longrightarrow> handle_upgrade i ch s = Some t \<Longrightarrow> ws_internal s t"
| accept_goes: "j < length (lis_accepts s) \<Longrightarrow> ws_accept j ch s = Some t \<Longrightarrow> ws_internal s t"
| close_goes: "close_goes_on ch s = Some t \<Longrightarrow> ws_internal s t"

inductive ws_reachable :: "ws_listener_config \<Rightarrow> ws_listener \<Rightarrow> bool" for conf where
  made: "new_ws_listener ident conf None = Some (Inr s) \<Longrightarrow> ws_reachable conf s"
| request: "ws_reachable conf s \<Longrightarrow> ws_reachable conf (s\<lparr>lis_handlers := lis_handlers s @ [HEnter]\<rparr>)"
| accept: "ws_reachable conf s \<Longrightarrow> ws_reachable conf (s\<lparr>lis_accepts := lis_accepts s @ [(lis_closed s, AWait)]\<rparr>)"
| close: "ws_reachable conf s \<Longrightarrow> close_with_cause cause s = Some t \<Longrightarrow> ws_reachable conf t"
| internal: "ws_reachable conf s \<Longrightarrow> ws_internal s t \<Longrightarrow> ws_reachable conf t"

text \<open>A schedule of the listener, to run it on a concrete input.\<close>

datatype ws_label = LRequest | LHandler nat handler_choice | LAccept | LAccepting nat accept_choice | LClose | LClosing close_choice

fun ws_do :: "ws_label \<Rightarrow> ws_listener \<Rightarrow> ws_listener option" where
  "ws_do LRequest s = Some (s\<lparr>lis_handlers := lis_handlers s @ [HEnter]\<rparr>)"
| "ws_do (LHandler i ch) s = (if i < length (lis_handlers s) then handle_upgrade i ch s else None)"
| "ws_do LAccept s = Some (s\<lparr>lis_accepts := lis_accepts s @ [(lis_closed s, AWait)]\<rparr>)"
| "ws_do (LAccepting j ch) s = (if j < length (lis_accepts s) then ws_accept j ch s else None)"
| "ws_do LClose s = close_with_cause None s"
| "ws_do (LClosing ch) s = close_goes_on ch s"

primrec ws_exec :: "ws_label list \<Rightarrow> ws_listener \<Rightarrow> ws_listener option" where
  "ws_exec [] s = Some s"
| "ws_exec (l # ls) s = (case ws_do l s of None \<Rightarrow> None | Some t \<Rightarrow> ws_exec ls t)"

lemma ws_do_reachable: "ws_do l s = Some t \<Longrightarrow> ws_reachable conf s \<Longrightarrow> ws_reachable conf t"
  by (cases l) (auto intro: ws_reachable.intros ws_internal.intros split: if_splits)

lemma ws_exec_reachable: "ws_exec ls s = Some t \<Longrightarrow> ws_reachable conf s \<Longrightarrow> ws_reachable conf t"
  by (induction ls arbitrary: s) (auto split: option.splits dest: ws_do_reachable)

text \<open>
  With room for two, three requests come; the third is refused. One connection is accepted, then
  the listener is closed with another one waiting.
\<close>

definition demo_listener :: ws_listener where
  "demo_listener = \<lparr>lis_cap = 2, lis_slots = 0, lis_wg = 0, lis_closed = False, lis_done = False, lis_acceptErr = None,
     lis_closeErr = None, lis_once = KNone, lis_handlers = [], lis_accepts = [], lis_open = {||}, lis_delivered = []\<rparr>"

definition demo_upgrades :: "ws_label list" where
  "demo_upgrades = [LRequest, LRequest, LRequest, LHandler 0 HGo, LHandler 1 HGo, LHandler 2 HGo, LHandler 0 HGo, LHandler 1 HGo,
     LHandler 2 HGo, LHandler 0 (HUpgraded True), LHandler 1 (HUpgraded True), LAccept, LAccepting 0 (AReceive 0), LAccepting 0 AGo, LClose]"

definition demo_closing :: "ws_label list" where
  "demo_closing = [LClosing (KErr (Some ErrServerClosed)), LClosing (KErr None), LHandler 1 HGo, LHandler 1 HGo, LHandler 1 HGo, LHandler 1 HGo,
     LHandler 0 HGo, LHandler 0 HGo, LHandler 2 HGo, LClosing KGo]"

lemma demo_listener_reachable: "ws_reachable (demo_listener_config\<lparr>wl_MaxPendingConnections := 2\<rparr>) demo_listener"
proof (rule ws_reachable.made)
  show "new_ws_listener ascii_ident (demo_listener_config\<lparr>wl_MaxPendingConnections := 2\<rparr>) None = Some (Inr demo_listener)" by code_simp
qed

section \<open>Invariant\<close>

fun holding :: "handler \<Rightarrow> int" where
  "holding HUpgrade = 1" | "holding HOffer = 1" | "holding HReject = 1" | "holding HRelease = 1"
| "holding HEnter = 0" | "holding HSlot = 0" | "holding (HWgDone r) = 0" | "holding (HEnd r) = 0"

fun counted :: "handler \<Rightarrow> int" where
  "counted HEnter = 0" | "counted (HEnd r) = 0" | "counted HSlot = 1" | "counted HUpgrade = 1" | "counted HOffer = 1"
| "counted HReject = 1" | "counted HRelease = 1" | "counted (HWgDone r) = 1"

definition offers :: "handler \<Rightarrow> bool" where
  "offers h \<longleftrightarrow> h = HOffer \<or> h = HReject"

definition released :: "handler \<Rightarrow> bool" where
  "released h \<longleftrightarrow> h = HRelease \<or> (\<exists>r. h = HWgDone r \<or> h = HEnd r)"

definition slots_inv :: "ws_listener \<Rightarrow> bool" where
  "slots_inv s \<longleftrightarrow> lis_slots s = sum_list (map holding (lis_handlers s)) \<and> lis_slots s \<le> lis_cap s \<and>
     lis_wg s = sum_list (map counted (lis_handlers s))"

definition close_inv :: "ws_listener \<Rightarrow> bool" where
  "close_inv s \<longleftrightarrow> (lis_closed s \<longleftrightarrow> lis_once s \<noteq> KNone) \<and> (lis_done s \<longleftrightarrow> lis_closed s) \<and>
     (lis_closed s \<longleftrightarrow> lis_acceptErr s \<noteq> None) \<and> (lis_once s = KDone \<longrightarrow> lis_wg s = 0)"

definition offered :: "handler list \<Rightarrow> nat \<Rightarrow> bool" where
  "offered hs i \<longleftrightarrow> i < length hs \<and> offers (hs ! i)"

definition past :: "handler list \<Rightarrow> nat \<Rightarrow> bool" where
  "past hs i \<longleftrightarrow> i < length hs \<and> released (hs ! i)"

definition got :: "(bool \<times> accepting) list \<Rightarrow> nat \<Rightarrow> nat \<Rightarrow> bool" where
  "got as j i \<longleftrightarrow> j < length as \<and> snd (as ! j) = AGot i"

definition owns :: "nat fset \<Rightarrow> handler list \<Rightarrow> (bool \<times> accepting) list \<Rightarrow> nat list \<Rightarrow> bool" where
  "owns op hs as ds \<longleftrightarrow> (\<forall>i. i |\<in>| op \<longleftrightarrow> offered hs i \<or> (\<exists>j. got as j i) \<or> i \<in> set ds) \<and>
     (\<forall>i. (\<exists>j. got as j i) \<or> i \<in> set ds \<longrightarrow> past hs i) \<and>
     (\<forall>i j. got as j i \<longrightarrow> i \<notin> set ds) \<and> (\<forall>i j j'. got as j i \<and> got as j' i \<longrightarrow> j = j') \<and> distinct ds"

abbreviation own_inv :: "ws_listener \<Rightarrow> bool" where
  "own_inv s \<equiv> owns (lis_open s) (lis_handlers s) (lis_accepts s) (lis_delivered s)"

text \<open>A call of \<open>Accept\<close> that began on a closed listener does not return a connection.\<close>

definition late_inv :: "ws_listener \<Rightarrow> bool" where
  "late_inv s \<longleftrightarrow> (\<forall>x \<in> set (lis_accepts s). fst x \<longrightarrow> lis_closed s \<and> (\<forall>i. snd x \<noteq> AReturned (Some i)))"

definition ws_inv :: "ws_listener \<Rightarrow> bool" where
  "ws_inv s \<longleftrightarrow> slots_inv s \<and> close_inv s \<and> own_inv s \<and> late_inv s"

lemma offers_simps [simp]:
  "offers HOffer" "offers HReject" "\<not> offers HEnter" "\<not> offers HSlot" "\<not> offers HUpgrade" "\<not> offers HRelease"
  "\<not> offers (HWgDone r)" "\<not> offers (HEnd r)"
  by (simp_all add: offers_def)

lemma released_simps [simp]:
  "released HRelease" "released (HWgDone r)" "released (HEnd r)" "\<not> released HEnter" "\<not> released HSlot" "\<not> released HUpgrade"
  "\<not> released HOffer" "\<not> released HReject"
  by (simp_all add: released_def)

lemma holding_nonneg [simp]: "0 \<le> holding h"
  by (cases h) simp_all

lemma counted_nonneg [simp]: "0 \<le> counted h"
  by (cases h) simp_all

lemma offers_not_released: "offers h \<Longrightarrow> \<not> released h"
  by (auto simp: offers_def)

text \<open>The effect of one step on the places of the connections.\<close>

lemma offered_update [simp]: "k < length hs \<Longrightarrow> offered (hs[k := h]) i = (if i = k then offers h else offered hs i)"
  by (simp add: offered_def)

lemma past_update [simp]: "k < length hs \<Longrightarrow> past (hs[k := h]) i = (if i = k then released h else past hs i)"
  by (simp add: past_def)

lemma got_update [simp]: "j < length as \<Longrightarrow> got (as[j := (l, a)]) k i = (if k = j then a = AGot i else got as k i)"
  by (auto simp: got_def)

lemma handle_upgrade_elim:
  assumes "handle_upgrade i ch s = Some t"
  obtains (refused) "lis_handlers s ! i = HEnter" "lis_closed s" "t = goes i (HEnd True) s"
    | (added) "lis_handlers s ! i = HEnter" "\<not> lis_closed s" "t = goes i HSlot (s\<lparr>lis_wg := lis_wg s + 1\<rparr>)"
    | (slot) "lis_handlers s ! i = HSlot" "lis_slots s < lis_cap s" "t = goes i HUpgrade (s\<lparr>lis_slots := lis_slots s + 1\<rparr>)"
    | (full) "lis_handlers s ! i = HSlot" "\<not> lis_slots s < lis_cap s" "t = goes i (HWgDone True) s"
    | (upgraded) "lis_handlers s ! i = HUpgrade" "t = goes i HOffer (s\<lparr>lis_open := finsert i (lis_open s)\<rparr>)"
    | (failed) "lis_handlers s ! i = HUpgrade" "t = goes i HRelease s"
    | (rejects) "lis_handlers s ! i = HOffer" "lis_done s" "t = goes i HReject s"
    | (closes) "lis_handlers s ! i = HReject" "t = goes i HRelease (s\<lparr>lis_open := lis_open s |-| {|i|}\<rparr>)"
    | (releases) "lis_handlers s ! i = HRelease" "t = goes i (HWgDone False) (s\<lparr>lis_slots := lis_slots s - 1\<rparr>)"
    | (ends) r where "lis_handlers s ! i = HWgDone r" "t = goes i (HEnd r) (s\<lparr>lis_wg := lis_wg s - 1\<rparr>)"
proof (cases "lis_handlers s ! i")
  case HEnter
  show ?thesis
  proof (cases "lis_closed s")
    case True
    with assms HEnter have "t = goes i (HEnd True) s" by (cases ch) (simp_all add: handle_upgrade_def)
    then show ?thesis by (rule refused [OF HEnter True])
  next
    case False
    with assms HEnter have "t = goes i HSlot (s\<lparr>lis_wg := lis_wg s + 1\<rparr>)" by (cases ch) (simp_all add: handle_upgrade_def)
    then show ?thesis by (rule added [OF HEnter False])
  qed
next
  case HSlot
  show ?thesis
  proof (cases "lis_slots s < lis_cap s")
    case True
    with assms HSlot have "t = goes i HUpgrade (s\<lparr>lis_slots := lis_slots s + 1\<rparr>)" by (cases ch) (simp_all add: handle_upgrade_def)
    then show ?thesis by (rule slot [OF HSlot True])
  next
    case False
    with assms HSlot have "t = goes i (HWgDone True) s" by (cases ch) (simp_all add: handle_upgrade_def)
    then show ?thesis by (rule full [OF HSlot False])
  qed
next
  case HUpgrade
  with assms obtain b where b: "ch = HUpgraded b" by (cases ch) (simp_all add: handle_upgrade_def)
  show ?thesis
  proof (cases b)
    case True
    with assms b HUpgrade have "t = goes i HOffer (s\<lparr>lis_open := finsert i (lis_open s)\<rparr>)" by (simp add: handle_upgrade_def)
    then show ?thesis by (rule upgraded [OF HUpgrade])
  next
    case False
    with assms b HUpgrade have "t = goes i HRelease s" by (simp add: handle_upgrade_def)
    then show ?thesis by (rule failed [OF HUpgrade])
  qed
next
  case HOffer
  with assms have d: "lis_done s" by (cases ch; cases "lis_done s") (simp_all add: handle_upgrade_def)
  with assms HOffer have "t = goes i HReject s" by (cases ch) (simp_all add: handle_upgrade_def)
  then show ?thesis by (rule rejects [OF HOffer d])
next
  case HReject
  with assms have "t = goes i HRelease (s\<lparr>lis_open := lis_open s |-| {|i|}\<rparr>)" by (cases ch) (simp_all add: handle_upgrade_def)
  then show ?thesis by (rule closes [OF HReject])
next
  case HRelease
  with assms have "t = goes i (HWgDone False) (s\<lparr>lis_slots := lis_slots s - 1\<rparr>)" by (cases ch) (simp_all add: handle_upgrade_def)
  then show ?thesis by (rule releases [OF HRelease])
next
  case (HWgDone r)
  with assms have "t = goes i (HEnd r) (s\<lparr>lis_wg := lis_wg s - 1\<rparr>)" by (cases ch) (simp_all add: handle_upgrade_def)
  then show ?thesis by (rule ends [OF HWgDone])
next
  case (HEnd r) then show ?thesis using assms by (simp add: handle_upgrade_def)
qed

lemma ws_accept_elim:
  assumes "ws_accept j ch s = Some t"
  obtains (receives) i where "snd (lis_accepts s ! j) = AWait" "i < length (lis_handlers s)" "lis_handlers s ! i = HOffer"
      "t = accepts_at j (AGot i) (goes i HRelease s)"
    | (fails) "snd (lis_accepts s ! j) = AWait" "lis_done s" "t = accepts_at j (AReturned None) s"
    | (closes) i where "snd (lis_accepts s ! j) = AGot i" "lis_done s"
      "t = accepts_at j (AReturned None) (s\<lparr>lis_open := lis_open s |-| {|i|}\<rparr>)"
    | (delivers) i where "snd (lis_accepts s ! j) = AGot i" "\<not> lis_done s"
      "t = accepts_at j (AReturned (Some i)) (s\<lparr>lis_delivered := lis_delivered s @ [i]\<rparr>)"
proof (cases "snd (lis_accepts s ! j)")
  case AWait
  show ?thesis
  proof (cases ch)
    case (AReceive i)
    with assms AWait have h: "i < length (lis_handlers s)" "lis_handlers s ! i = HOffer"
      by (simp_all add: ws_accept_def split: if_splits)
    with assms AWait AReceive have "t = accepts_at j (AGot i) (goes i HRelease s)" by (simp add: ws_accept_def)
    then show ?thesis by (rule receives [OF AWait h])
  next
    case AClosed
    with assms AWait have d: "lis_done s" by (simp add: ws_accept_def split: if_splits)
    with assms AWait AClosed have "t = accepts_at j (AReturned None) s" by (simp add: ws_accept_def)
    then show ?thesis by (rule fails [OF AWait d])
  next
    case AGo
    with assms AWait have False by (simp add: ws_accept_def)
    then show ?thesis ..
  qed
next
  case (AGot i)
  show ?thesis
  proof (cases "lis_done s")
    case True
    with assms AGot have "t = accepts_at j (AReturned None) (s\<lparr>lis_open := lis_open s |-| {|i|}\<rparr>)"
      by (cases ch) (simp_all add: ws_accept_def)
    then show ?thesis by (rule closes [OF AGot True])
  next
    case False
    with assms AGot have "t = accepts_at j (AReturned (Some i)) (s\<lparr>lis_delivered := lis_delivered s @ [i]\<rparr>)"
      by (cases ch) (simp_all add: ws_accept_def)
    then show ?thesis by (rule delivers [OF AGot False])
  qed
next
  case (AReturned r)
  with assms have False by (simp add: ws_accept_def)
  then show ?thesis ..
qed

lemma close_goes_elim:
  assumes "close_goes_on ch s = Some t"
  obtains (server) e where "lis_once s = KServer" "t = s\<lparr>lis_once := KListener e\<rparr>"
    | (listener) e e' where "lis_once s = KListener e" "t = s\<lparr>lis_closeErr := e', lis_once := KWait\<rparr>"
    | (waited) "lis_once s = KWait" "lis_wg s = 0" "t = s\<lparr>lis_once := KDone\<rparr>"
  using assms by (auto simp: close_goes_on_def split: closing.splits close_choice.splits if_splits)

lemma handler_slots:
  assumes "handle_upgrade i ch s = Some t" and "i < length (lis_handlers s)" and "slots_inv s"
  shows "slots_inv t"
  using assms(1)
  by (cases rule: handle_upgrade_elim) (use assms(2,3) in \<open>simp_all add: slots_inv_def sum_update\<close>)

lemma accept_slots:
  assumes "ws_accept j ch s = Some t" and "slots_inv s"
  shows "slots_inv t"
  using assms(1) by (cases rule: ws_accept_elim) (use assms(2) in \<open>simp_all add: slots_inv_def sum_update\<close>)

text \<open>With nothing left in the wait group every handler is outside of it.\<close>

lemma wg_zero:
  assumes "slots_inv s" and "lis_wg s = 0" and "i < length (lis_handlers s)"
  shows "counted (lis_handlers s ! i) = 0"
proof -
  have "counted (lis_handlers s ! i) \<le> 0"
    using sum_elem [of counted i "lis_handlers s"] assms by (simp add: slots_inv_def)
  then show ?thesis using counted_nonneg [of "lis_handlers s ! i"] by linarith
qed

lemma handler_close:
  assumes "handle_upgrade i ch s = Some t" and "i < length (lis_handlers s)" and "slots_inv s" and "close_inv s"
  shows "close_inv t"
  using assms(1)
  by (cases rule: handle_upgrade_elim) (use wg_zero [OF assms(3) _ assms(2)] assms(4) in \<open>auto simp: close_inv_def\<close>)

lemma accept_close: "ws_accept j ch s = Some t \<Longrightarrow> close_inv s \<Longrightarrow> close_inv t"
  by (erule ws_accept_elim) (auto simp: close_inv_def)

lemma closing_close: "close_goes_on ch s = Some t \<Longrightarrow> close_inv s \<Longrightarrow> close_inv t"
  by (erule close_goes_elim) (auto simp: close_inv_def)

lemma handler_late: "handle_upgrade i ch s = Some t \<Longrightarrow> late_inv s \<Longrightarrow> late_inv t"
  by (erule handle_upgrade_elim) (auto simp: late_inv_def)

lemma accept_late:
  assumes "ws_accept j ch s = Some t" and "j < length (lis_accepts s)" and "close_inv s" and "late_inv s"
  shows "late_inv t"
proof -
  have "fst (lis_accepts s ! j) \<Longrightarrow> lis_done s" using assms(2,3,4) by (auto simp: late_inv_def close_inv_def)
  with assms(1) show ?thesis
    by (cases rule: ws_accept_elim) (use assms(2,3,4) in \<open>auto simp: late_inv_def close_inv_def dest!: set_update_subset_insert [THEN subsetD]\<close>)
qed

lemma offered_not_past: "offered hs i \<Longrightarrow> \<not> past hs i"
  using offers_not_released by (auto simp: offered_def past_def)

lemma ownsD:
  assumes "owns op hs as ds"
  shows "i |\<in>| op \<longleftrightarrow> offered hs i \<or> (\<exists>j. got as j i) \<or> i \<in> set ds"
    and "got as j i \<Longrightarrow> past hs i" and "i \<in> set ds \<Longrightarrow> past hs i"
    and "got as j i \<Longrightarrow> i \<notin> set ds" and "got as j i \<Longrightarrow> got as j' i \<Longrightarrow> j = j'" and "distinct ds"
  using assms unfolding owns_def by blast+

text \<open>A handler changes its phase: it starts to offer its connection, closes it, or neither.\<close>

lemma owns_handler:
  assumes o: "owns op hs as ds" and k: "k < length hs" and "released (hs ! k) \<longrightarrow> released h"
    and "offers h \<longrightarrow> op' = finsert k op" and "\<not> offers h \<longrightarrow> op' = (if offers (hs ! k) then op |-| {|k|} else op)"
    and "\<not> released (hs ! k) \<or> \<not> offers h"
  shows "owns op' (hs[k := h]) as ds"
proof -
  note d = ownsD [OF o]
  have at: "past hs k \<longleftrightarrow> released (hs ! k)" "offered hs k \<longleftrightarrow> offers (hs ! k)" using k by (simp_all add: past_def offered_def)
  have np: "\<not> got as j k" "k \<notin> set ds" if "\<not> released (hs ! k)" for j using d(2,3) at that by blast+
  have nr: "offers (hs ! k) \<Longrightarrow> \<not> released (hs ! k)" by (rule offers_not_released)
  have "i |\<in>| op' \<longleftrightarrow> offered (hs[k := h]) i \<or> (\<exists>j. got as j i) \<or> i \<in> set ds" for i
    using assms(3-6) k d(1) [of i] np nr at by (cases "offers h"; cases "i = k") (auto split: if_splits)
  moreover have "past (hs[k := h]) i" if "(\<exists>j. got as j i) \<or> i \<in> set ds" for i
    using that d(2) [of _ i] d(3) [of i] assms(3) k at by (cases "i = k") auto
  ultimately show ?thesis unfolding owns_def using d(4,5,6) by blast
qed

lemma handler_own:
  assumes h: "handle_upgrade k ch s = Some t" and k: "k < length (lis_handlers s)" and o: "own_inv s"
  shows "own_inv t"
  using h
proof (cases rule: handle_upgrade_elim)
  case rejects
  have "k |\<in>| lis_open s" using ownsD(1) [OF o, of k] k rejects(1) by (simp add: offered_def)
  then have "finsert k (lis_open s) = lis_open s" by auto
  with owns_handler [OF o k, where h = HReject and op' = "lis_open s"] rejects show ?thesis by simp
qed (use owns_handler [OF o k] in simp_all)

lemma accept_own:
  assumes h: "ws_accept j ch s = Some t" and j: "j < length (lis_accepts s)" and o: "own_inv s"
  shows "own_inv t"
proof -
  note d = ownsD [OF o]
  have at: "got (lis_accepts s) j i \<longleftrightarrow> snd (lis_accepts s ! j) = AGot i" for i using j by (simp add: got_def)
  from h show ?thesis
  proof (cases rule: ws_accept_elim)
    case (receives k)
    then have k: "offered (lis_handlers s) k" "\<not> past (lis_handlers s) k" by (simp_all add: offered_def past_def)
    then have np: "\<not> got (lis_accepts s) j' k \<and> k \<notin> set (lis_delivered s)" for j' using d(2,3) by blast
    have ne: "got (lis_accepts s) ja i \<Longrightarrow> ja \<noteq> j" for ja i using receives at by auto
    show ?thesis using receives j d k np ne unfolding owns_def by (auto; blast)
  next
    case fails
    then have ne: "got (lis_accepts s) ja i \<Longrightarrow> ja \<noteq> j" for ja i using at by auto
    show ?thesis using fails j d ne unfolding owns_def by (auto; blast)
  next
    case (closes k)
    then have ne: "got (lis_accepts s) ja i \<Longrightarrow> i \<noteq> k \<Longrightarrow> ja \<noteq> j" for ja i using at by auto
    have k: "got (lis_accepts s) j k" using closes at by simp
    show ?thesis using closes j d ne k offered_not_past unfolding owns_def by (auto; blast)
  next
    case (delivers k)
    then have ne: "got (lis_accepts s) ja i \<Longrightarrow> i \<noteq> k \<Longrightarrow> ja \<noteq> j" for ja i using at by auto
    have k: "got (lis_accepts s) j k" using delivers at by simp
    have ex: "(\<exists>j'. j' \<noteq> j \<and> got (lis_accepts s) j' i) \<longleftrightarrow> (\<exists>j'. got (lis_accepts s) j' i) \<and> i \<noteq> k" for i
      using d(5) k ne by blast
    have g: "got (lis_accepts t) j' i \<longleftrightarrow> j' \<noteq> j \<and> got (lis_accepts s) j' i" for j' i using delivers j by auto
    have t: "lis_open t = lis_open s" "lis_handlers t = lis_handlers s" "lis_delivered t = lis_delivered s @ [k]"
      using delivers by simp_all
    show ?thesis unfolding owns_def t g ex
    proof (intro conjI allI impI)
      fix i j1 j2
      show "i |\<in>| lis_open s \<longleftrightarrow> offered (lis_handlers s) i \<or> ((\<exists>j'. got (lis_accepts s) j' i) \<and> i \<noteq> k) \<or> i \<in> set (lis_delivered s @ [k])"
        using d(1) [of i] k by auto
      show "past (lis_handlers s) i" if "((\<exists>j'. got (lis_accepts s) j' i) \<and> i \<noteq> k) \<or> i \<in> set (lis_delivered s @ [k])"
        using that d(2) [of _ i] d(2) [OF k] d(3) [of i] by auto
      show "i \<notin> set (lis_delivered s @ [k])" if "j1 \<noteq> j \<and> got (lis_accepts s) j1 i"
        using that d(4) d(5) [OF k] by auto
      show "j1 = j2" if "(j1 \<noteq> j \<and> got (lis_accepts s) j1 i) \<and> j2 \<noteq> j \<and> got (lis_accepts s) j2 i"
        using that d(5) by blast
      show "distinct (lis_delivered s @ [k])" using d(4) [OF k] d(6) by simp
    qed
  qed
qed

section \<open>Reachable states\<close>

lemma got_append [simp]: "got (as @ [(l, AWait)]) j i = got as j i"
  by (auto simp: got_def nth_append)

lemma offered_append [simp]: "offered (hs @ [HEnter]) i = offered hs i" "past (hs @ [HEnter]) i = past hs i"
  by (auto simp: offered_def past_def nth_append)

lemma ws_internal_inv:
  assumes "ws_internal s t" and "ws_inv s"
  shows "ws_inv t \<and> lis_cap t = lis_cap s"
  using assms(1)
proof cases
  case (handler_goes i ch)
  have "lis_cap t = lis_cap s" using handler_goes(2) by (cases rule: handle_upgrade_elim) simp_all
  then show ?thesis
    using assms(2) handler_slots [OF handler_goes(2,1)] handler_close [OF handler_goes(2,1)] handler_own [OF handler_goes(2,1)]
      handler_late [OF handler_goes(2)] by (simp add: ws_inv_def)
next
  case (accept_goes j ch)
  have "lis_cap t = lis_cap s" using accept_goes(2) by (cases rule: ws_accept_elim) simp_all
  then show ?thesis
    using assms(2) accept_slots [OF accept_goes(2)] accept_close [OF accept_goes(2)] accept_own [OF accept_goes(2,1)]
      accept_late [OF accept_goes(2,1)] by (simp add: ws_inv_def)
next
  case (close_goes ch)
  from close_goes show ?thesis
    using assms(2) closing_close [OF close_goes]
    by (elim close_goes_elim) (auto simp: ws_inv_def slots_inv_def late_inv_def)
qed

lemma ws_reachable_inv:
  "ws_reachable conf s \<Longrightarrow>
   ws_inv s \<and> (\<exists>c. listener_config conf = Inr c \<and> lis_cap s = wl_MaxPendingConnections c)"
proof (induction rule: ws_reachable.induct)
  case (made ident s)
  then obtain c where c: "listener_config conf = Inr c"
    "s = \<lparr>lis_cap = wl_MaxPendingConnections c, lis_slots = 0, lis_wg = 0, lis_closed = False, lis_done = False,
       lis_acceptErr = None, lis_closeErr = None, lis_once = KNone, lis_handlers = [], lis_accepts = [], lis_open = {||}, lis_delivered = []\<rparr>"
    by (auto simp: new_ws_listener_def register_path_def split: sum.splits option.splits if_splits)
  have "listener_config conf = Inr c \<Longrightarrow> 0 < wl_MaxPendingConnections c"
    by (cases "wc_TLSConfig (wl_WsConf conf)") (auto simp: listener_config_def Let_def split: if_splits)
  then show ?case using c
    by (simp add: ws_inv_def slots_inv_def close_inv_def late_inv_def owns_def offered_def past_def got_def)
next
  case (request s)
  then show ?case by (auto simp: ws_inv_def slots_inv_def close_inv_def late_inv_def owns_def)
next
  case (accept s)
  then show ?case by (auto simp: ws_inv_def slots_inv_def close_inv_def late_inv_def owns_def)
next
  case (close s cause t)
  then show ?case by (auto simp: ws_inv_def slots_inv_def close_inv_def late_inv_def close_with_cause_def split: if_splits)
next
  case (internal s t)
  then show ?case using ws_internal_inv by auto
qed

text \<open>The connections that are upgraded and still wait, with the upgrades under way.\<close>

definition waiting_upgrades :: "ws_listener \<Rightarrow> nat" where
  "waiting_upgrades s = length (filter (\<lambda>h. h = HUpgrade \<or> offers h) (lis_handlers s))"

definition accept_hand :: "ws_listener \<Rightarrow> nat set" where
  "accept_hand s = {i. \<exists>j. got (lis_accepts s) j i}"

lemma pending_holding: "int (length (filter (\<lambda>h. h = HUpgrade \<or> offers h) hs)) \<le> sum_list (map holding hs)"
proof (induction hs)
  case (Cons h hs)
  then show ?case by (cases h) simp_all
qed simp

text \<open>
  C32: The WebSocket listener never loses a connection and never keeps too many. In every state that it
  can reach, at most \<open>MaxPendingConnections\<close> of the (completed) configuration are being
  upgraded or wait for \<open>Accept\<close>; no connection is returned twice; a call of \<open>Accept\<close> that
  began on the closed listener returns none; and when \<open>Close\<close> has returned, the connections that are
  open are exactly those that \<open>Accept\<close> has returned or is about to deal with: every connection that was
  upgraded and not accepted has been closed, and no handler is left that could upgrade another one.
\<close>

theorem ws_listener_owns_connections:
  assumes "ws_reachable conf s"
  shows "(\<exists>c. listener_config conf = Inr c \<and> int (waiting_upgrades s) \<le> wl_MaxPendingConnections c) \<and>
    distinct (lis_delivered s) \<and> accept_hand s \<inter> set (lis_delivered s) = {} \<and>
    (\<forall>i. (True, AReturned (Some i)) \<notin> set (lis_accepts s)) \<and>
    (ws_close_result s \<noteq> None \<longrightarrow> fset (lis_open s) = set (lis_delivered s) \<union> accept_hand s \<and>
       (\<forall>h \<in> set (lis_handlers s). h = HEnter \<or> (\<exists>r. h = HEnd r)))"
proof -
  from ws_reachable_inv [OF assms] obtain c where c: "listener_config conf = Inr c" "lis_cap s = wl_MaxPendingConnections c"
    and i: "slots_inv s" "close_inv s" "own_inv s" "late_inv s" by (auto simp: ws_inv_def)
  note d = ownsD [OF i(3)]
  have "int (waiting_upgrades s) \<le> wl_MaxPendingConnections c"
    using pending_holding [of "lis_handlers s"] i(1) c by (simp add: slots_inv_def waiting_upgrades_def)
  moreover have "accept_hand s \<inter> set (lis_delivered s) = {}" using d(4) by (auto simp: accept_hand_def)
  moreover have "(True, AReturned (Some i)) \<notin> set (lis_accepts s)" for i using i(4) by (force simp: late_inv_def)
  moreover have "fset (lis_open s) = set (lis_delivered s) \<union> accept_hand s \<and> (\<forall>h \<in> set (lis_handlers s). h = HEnter \<or> (\<exists>r. h = HEnd r))"
    if "ws_close_result s \<noteq> None"
  proof -
    from that have "lis_wg s = 0" using i(2) by (auto simp: ws_close_result_def close_inv_def split: if_splits)
    then have z: "\<forall>h \<in> set (lis_handlers s). counted h = 0" using wg_zero [OF i(1)] by (auto simp: in_set_conv_nth)
    have "counted h = 0 \<Longrightarrow> h = HEnter \<or> (\<exists>r. h = HEnd r)" for h by (cases h) simp_all
    with z have e: "\<forall>h \<in> set (lis_handlers s). h = HEnter \<or> (\<exists>r. h = HEnd r)" by blast
    have "\<not> offered (lis_handlers s) i" for i
    proof
      assume "offered (lis_handlers s) i"
      then have "lis_handlers s ! i \<in> set (lis_handlers s)" "offers (lis_handlers s ! i)" by (simp_all add: offered_def)
      with e show False by (auto simp: offers_def)
    qed
    then show ?thesis using d(1) e by (auto simp: accept_hand_def)
  qed
  ultimately show ?thesis using c(1) d(6) by blast
qed

section \<open>The end of a listener\<close>

fun handler_work :: "handler \<Rightarrow> nat" where
  "handler_work HEnter = 7" | "handler_work HSlot = 6" | "handler_work HUpgrade = 5" | "handler_work HOffer = 4"
| "handler_work HReject = 3" | "handler_work HRelease = 2" | "handler_work (HWgDone r) = 1" | "handler_work (HEnd r) = 0"

fun accept_work :: "bool \<times> accepting \<Rightarrow> nat" where
  "accept_work (l, AWait) = 2" | "accept_work (l, AGot i) = 1" | "accept_work (l, AReturned r) = 0"

fun close_work :: "closing \<Rightarrow> nat" where
  "close_work KNone = 0" | "close_work KServer = 3" | "close_work (KListener e) = 2" | "close_work KWait = 1" | "close_work KDone = 0"

definition ws_work :: "ws_listener \<Rightarrow> nat" where
  "ws_work s = sum_list (map handler_work (lis_handlers s)) + sum_list (map accept_work (lis_accepts s)) + close_work (lis_once s)"

definition listener_settled :: "ws_listener \<Rightarrow> bool" where
  "listener_settled s \<longleftrightarrow> lis_once s = KDone \<and> (\<forall>h \<in> set (lis_handlers s). \<exists>r. h = HEnd r) \<and>
     (\<forall>x \<in> set (lis_accepts s). \<exists>r. snd x = AReturned r)"

lemma accept_work_at: "accept_work x = (case snd x of AWait \<Rightarrow> 2 | AGot i \<Rightarrow> 1 | AReturned r \<Rightarrow> 0)"
  by (cases x rule: accept_work.cases) simp_all

lemma handler_work_step:
  assumes "handle_upgrade i ch s = Some t" and "i < length (lis_handlers s)"
  shows "ws_work t < ws_work s"
  using assms(1)
  by (cases rule: handle_upgrade_elim) (use assms(2) in \<open>simp_all add: ws_work_def sum_list_update_less\<close>)

lemma accept_work_step:
  assumes "ws_accept j ch s = Some t" and "j < length (lis_accepts s)"
  shows "ws_work t < ws_work s"
  using assms(1)
proof (cases rule: ws_accept_elim)
  case (receives i)
  have "sum_list (map handler_work ((lis_handlers s)[i := HRelease])) < sum_list (map handler_work (lis_handlers s))"
    by (rule sum_list_update_less) (use receives in simp_all)
  moreover have "sum_list (map accept_work (lis_accepts t)) < sum_list (map accept_work (lis_accepts s))"
    using receives assms(2) by (simp add: sum_list_update_less accept_work_at)
  ultimately show ?thesis using receives by (simp add: ws_work_def)
qed (use assms(2) in \<open>simp_all add: ws_work_def sum_list_update_less accept_work_at\<close>)

lemma listener_work_decreases:
  assumes "ws_internal s t"
  shows "ws_work t < ws_work s"
  using assms
proof cases
  case (close_goes ch)
  then show ?thesis by (elim close_goes_elim) (simp_all add: ws_work_def)
qed (blast intro: handler_work_step accept_work_step)+

lemma closed_stays: "ws_internal s t \<Longrightarrow> lis_closed s \<Longrightarrow> lis_closed t"
  by (erule ws_internal.cases) (auto elim!: handle_upgrade_elim ws_accept_elim close_goes_elim)

lemma handler_can_go:
  assumes "lis_done s" and "\<nexists>r. lis_handlers s ! i = HEnd r"
  shows "\<exists>ch t. handle_upgrade i ch s = Some t"
proof (cases "lis_handlers s ! i")
  case HUpgrade
  then show ?thesis by (intro exI [of _ "HUpgraded False"]) (simp add: handle_upgrade_def)
qed (use assms in \<open>auto simp: handle_upgrade_def intro!: exI [of _ HGo]\<close>)

lemma accept_can_go:
  assumes "lis_done s" and "\<nexists>r. snd (lis_accepts s ! j) = AReturned r"
  shows "\<exists>ch t. ws_accept j ch s = Some t"
proof (cases "snd (lis_accepts s ! j)")
  case AWait
  then show ?thesis using assms by (intro exI [of _ AClosed]) (simp add: ws_accept_def)
next
  case (AGot i)
  then show ?thesis by (intro exI [of _ AGo]) (simp add: ws_accept_def)
qed (use assms in simp)

lemma ws_not_stuck:
  assumes "ws_inv s" and "lis_closed s" and "\<not> listener_settled s"
  shows "\<exists>t. ws_internal s t"
proof -
  have i: "slots_inv s" "close_inv s" and d: "lis_done s" using assms by (simp_all add: ws_inv_def close_inv_def)
  consider (handler) i where "i < length (lis_handlers s)" "\<nexists>r. lis_handlers s ! i = HEnd r"
    | (accept) j where "j < length (lis_accepts s)" "\<nexists>r. snd (lis_accepts s ! j) = AReturned r"
    | (close) "lis_once s \<noteq> KDone" "\<forall>h \<in> set (lis_handlers s). \<exists>r. h = HEnd r"
    using assms(3) unfolding listener_settled_def by (metis in_set_conv_nth)
  then show ?thesis
  proof cases
    case handler
    then show ?thesis using handler_can_go [OF d] by (meson ws_internal.handler_goes)
  next
    case accept
    then show ?thesis using accept_can_go [OF d] by (meson ws_internal.accept_goes)
  next
    case close
    have "sum_list (map counted hs) = 0" if "\<forall>h \<in> set hs. \<exists>r. h = HEnd r" for hs
      using that by (induction hs) auto
    then have "lis_wg s = 0" using close(2) i(1) by (simp add: slots_inv_def)
    moreover have "lis_once s \<noteq> KNone" using assms(2) i(2) by (simp add: close_inv_def)
    ultimately have "\<exists>ch t. close_goes_on ch s = Some t"
      using close(1) by (cases "lis_once s") (auto simp: close_goes_on_def intro: exI [of _ KGo] exI [of _ "KErr None"])
    then show ?thesis by (meson ws_internal.close_goes)
  qed
qed

interpretation closing_listener: winding_down ws_internal "\<lambda>s. ws_inv s \<and> lis_closed s" ws_work listener_settled
  by unfold_locales (use ws_internal_inv closed_stays listener_work_decreases ws_not_stuck in blast)+

text \<open>
  Closing a WebSocket listener comes to its end. Once \<open>closeWithCause\<close> has begun, the handlers and
  the calls under way make at most \<open>ws_work\<close> steps in any order, and they do not get
  stuck before \<open>Close\<close> has returned and every handler and every call of \<open>Accept\<close> has ended: no handler
  waits for a caller of \<open>Accept\<close> any more. This uses that \<open>Upgrade\<close> returns, which the
  handshake timeout of the configuration sees to.
\<close>

theorem ws_listener_close_terminates:
  assumes "ws_reachable conf s" and "lis_closed s" and "(ws_internal ^^ n) s t"
  shows "n \<le> ws_work s \<and> (listener_settled t \<or> (\<exists>u. ws_internal t u))"
proof -
  have s: "ws_inv s \<and> lis_closed s" using ws_reachable_inv [OF assms(1)] assms(2) by simp
  from closing_listener.run_bound [OF assms(3) s] closing_listener.run_not_stuck [OF assms(3) s] show ?thesis by auto
qed

theorem ws_listener_owns_connections_witness:
  "\<exists>s. ws_reachable (demo_listener_config\<lparr>wl_MaxPendingConnections := 2\<rparr>) s \<and> ws_close_result s = Some None \<and>
     lis_handlers s = [HEnd False, HEnd False, HEnd True] \<and> fset (lis_open s) = {0} \<and> lis_delivered s = [0]"
proof -
  have "map_option (\<lambda>s. (ws_close_result s, lis_handlers s, lis_accepts s, lis_delivered s)) (ws_exec (demo_upgrades @ demo_closing) demo_listener) =
      Some (Some None, [HEnd False, HEnd False, HEnd True], [(False, AReturned (Some 0))], [0])"
    by code_simp
  then obtain s where s: "ws_exec (demo_upgrades @ demo_closing) demo_listener = Some s" "ws_close_result s = Some None"
      "lis_handlers s = [HEnd False, HEnd False, HEnd True]" "lis_accepts s = [(False, AReturned (Some 0))]" "lis_delivered s = [0]"
    by auto
  note r = ws_exec_reachable [OF s(1) demo_listener_reachable]
  have "accept_hand s = {}" using s(4) by (auto simp: accept_hand_def got_def)
  then have "fset (lis_open s) = {0}" using ws_listener_owns_connections [OF r] s(2,5) by simp
  with r s show ?thesis by blast
qed

theorem ws_listener_close_terminates_witness:
  "\<exists>s t. ws_reachable (demo_listener_config\<lparr>wl_MaxPendingConnections := 2\<rparr>) s \<and> lis_closed s \<and>
     (ws_internal ^^ 1) s t \<and> \<not> listener_settled t \<and> (\<exists>u. ws_internal t u)"
proof -
  have "map_option (\<lambda>s. (lis_closed s, lis_once s)) (ws_exec demo_upgrades demo_listener) = Some (True, KServer)" by code_simp
  then obtain s where s: "ws_exec demo_upgrades demo_listener = Some s" "lis_closed s" "lis_once s = KServer" by auto
  note r = ws_exec_reachable [OF s(1) demo_listener_reachable]
  let ?t = "s\<lparr>lis_once := KListener None\<rparr>"
  have "close_goes_on (KErr None) s = Some ?t" using s(3) by (simp add: close_goes_on_def drop_closed_def)
  then have one: "(ws_internal ^^ 1) s ?t" by (auto intro: ws_internal.close_goes)
  moreover have "\<not> listener_settled ?t" by (simp add: listener_settled_def)
  ultimately show ?thesis using ws_listener_close_terminates [OF r s(2) one] r s(2) by blast
qed

end
