(* ===== verification/Mongo_Builders.thy ===== *)
theory Mongo_Builders
  imports Go_Prelude "HOL-Library.Multiset"
begin

text \<open>
  The builders of \<^verbatim>\<open>common/mongo_driver\<close>: \<^verbatim>\<open>filter.go\<close>, \<^verbatim>\<open>operator.go\<close> and
  \<^verbatim>\<open>projection.go\<close>. A document is an ordered list of keys and values (\<open>bson.D\<close>); a value that the
  caller supplies as \<open>any\<close> is a \<open>BAny\<close>.
\<close>

section \<open>Documents\<close>

datatype 'v bson =
    BAny 'v | BDoc "(string \<times> 'v bson) list" | BDocs "(string \<times> 'v bson) list list"
  | BInts "int list" | BInt int | BBool bool | BString string

type_synonym 'v doc = "(string \<times> 'v bson) list"

section \<open>Filters\<close>

record 'v filter_builder =
  fb_fields :: "(string, 'v doc) fmap"
  fb_logical :: "'v doc"

definition new_filter_builder :: "'v filter_builder" where
  "new_filter_builder = \<lparr>fb_fields = fmempty, fb_logical = []\<rparr>"

text \<open>\<open>Build\<close> ranges over the map of fields; the order is the argument.\<close>

fun build_loop :: "string list \<Rightarrow> (string, 'v doc) fmap \<Rightarrow> 'v doc \<Rightarrow> 'v doc" where
  "build_loop [] fm acc = acc"
| "build_loop (k # ks) fm acc =
     build_loop ks fm (acc @ [(k, BDoc (case fmlookup fm k of Some d \<Rightarrow> d | None \<Rightarrow> []))])"

definition fb_build :: "string list \<Rightarrow> 'v filter_builder \<Rightarrow> 'v doc" where
  "fb_build ks fb = build_loop ks (fb_fields fb) [] @ fb_logical fb"

definition add_operator :: "string \<Rightarrow> string \<Rightarrow> 'v bson \<Rightarrow> 'v filter_builder \<Rightarrow> 'v filter_builder" where
  "add_operator key operator v fb =
     (let conditions = (case fmlookup (fb_fields fb) key of Some d \<Rightarrow> d | None \<Rightarrow> [])
      in fb\<lparr>fb_fields := fmupd key (conditions @ [(operator, v)]) (fb_fields fb)\<rparr>)"

definition fb_EQ :: "string \<Rightarrow> 'v bson \<Rightarrow> 'v filter_builder \<Rightarrow> 'v filter_builder" where
  "fb_EQ key v fb = add_operator key ''$eq'' v fb"

definition fb_NE :: "string \<Rightarrow> 'v bson \<Rightarrow> 'v filter_builder \<Rightarrow> 'v filter_builder" where
  "fb_NE key v fb = add_operator key ''$ne'' v fb"

definition fb_GT :: "string \<Rightarrow> 'v bson \<Rightarrow> 'v filter_builder \<Rightarrow> 'v filter_builder" where
  "fb_GT key v fb = add_operator key ''$gt'' v fb"

definition fb_GTE :: "string \<Rightarrow> 'v bson \<Rightarrow> 'v filter_builder \<Rightarrow> 'v filter_builder" where
  "fb_GTE key v fb = add_operator key ''$gte'' v fb"

definition fb_LT :: "string \<Rightarrow> 'v bson \<Rightarrow> 'v filter_builder \<Rightarrow> 'v filter_builder" where
  "fb_LT key v fb = add_operator key ''$lt'' v fb"

definition fb_LTE :: "string \<Rightarrow> 'v bson \<Rightarrow> 'v filter_builder \<Rightarrow> 'v filter_builder" where
  "fb_LTE key v fb = add_operator key ''$lte'' v fb"

definition fb_CloseInterval :: "string \<Rightarrow> 'v bson \<Rightarrow> 'v bson \<Rightarrow> 'v filter_builder \<Rightarrow> 'v filter_builder" where
  "fb_CloseInterval key lo hi fb = add_operator key ''$lte'' hi (add_operator key ''$gte'' lo fb)"

definition fb_LeftCloseRightOpen :: "string \<Rightarrow> 'v bson \<Rightarrow> 'v bson \<Rightarrow> 'v filter_builder \<Rightarrow> 'v filter_builder" where
  "fb_LeftCloseRightOpen key lo hi fb = add_operator key ''$lt'' hi (add_operator key ''$gte'' lo fb)"

definition fb_LeftOpenRightOpen :: "string \<Rightarrow> 'v bson \<Rightarrow> 'v bson \<Rightarrow> 'v filter_builder \<Rightarrow> 'v filter_builder" where
  "fb_LeftOpenRightOpen key lo hi fb = add_operator key ''$lt'' hi (add_operator key ''$gt'' lo fb)"

definition fb_LeftOpenRightClose :: "string \<Rightarrow> 'v bson \<Rightarrow> 'v bson \<Rightarrow> 'v filter_builder \<Rightarrow> 'v filter_builder" where
  "fb_LeftOpenRightClose key lo hi fb = add_operator key ''$lte'' hi (add_operator key ''$gt'' lo fb)"

definition fb_IN :: "string \<Rightarrow> 'v bson \<Rightarrow> 'v filter_builder \<Rightarrow> 'v filter_builder" where
  "fb_IN key v fb = add_operator key ''$in'' v fb"

definition fb_NIN :: "string \<Rightarrow> 'v bson \<Rightarrow> 'v filter_builder \<Rightarrow> 'v filter_builder" where
  "fb_NIN key v fb = add_operator key ''$nin'' v fb"

definition fb_ALL :: "string \<Rightarrow> 'v bson \<Rightarrow> 'v filter_builder \<Rightarrow> 'v filter_builder" where
  "fb_ALL key v fb = add_operator key ''$all'' v fb"

definition fb_SIZE :: "string \<Rightarrow> 'v bson \<Rightarrow> 'v filter_builder \<Rightarrow> 'v filter_builder" where
  "fb_SIZE key v fb = add_operator key ''$size'' v fb"

definition fb_ElemMatch :: "string \<Rightarrow> 'v doc \<Rightarrow> 'v filter_builder \<Rightarrow> 'v filter_builder" where
  "fb_ElemMatch key filters fb = add_operator key ''$elemMatch'' (BDoc filters) fb"

definition fb_Slice :: "string \<Rightarrow> int \<Rightarrow> int \<Rightarrow> 'v filter_builder \<Rightarrow> 'v filter_builder" where
  "fb_Slice key offset cnt fb = add_operator key ''$slice'' (BInts [offset, cnt]) fb"

definition fb_EXISTS :: "string \<Rightarrow> bool \<Rightarrow> 'v filter_builder \<Rightarrow> 'v filter_builder" where
  "fb_EXISTS key present fb = add_operator key ''$exists'' (BBool present) fb"

definition fb_TYPE :: "string \<Rightarrow> string \<Rightarrow> 'v filter_builder \<Rightarrow> 'v filter_builder" where
  "fb_TYPE key strType fb = add_operator key ''$type'' (BString strType) fb"

definition fb_NOT :: "string \<Rightarrow> 'v doc \<Rightarrow> 'v filter_builder \<Rightarrow> 'v filter_builder" where
  "fb_NOT key conditions fb =
     (if key = [] \<or> conditions = [] then fb else add_operator key ''$not'' (BDoc conditions) fb)"

definition fb_AND :: "'v doc list \<Rightarrow> 'v filter_builder \<Rightarrow> 'v filter_builder" where
  "fb_AND filters fb = (if filters \<noteq> [] then fb\<lparr>fb_logical := fb_logical fb @ [(''$and'', BDocs filters)]\<rparr> else fb)"

definition fb_OR :: "'v doc list \<Rightarrow> 'v filter_builder \<Rightarrow> 'v filter_builder" where
  "fb_OR filters fb = (if filters \<noteq> [] then fb\<lparr>fb_logical := fb_logical fb @ [(''$or'', BDocs filters)]\<rparr> else fb)"

definition fb_NOR :: "'v doc list \<Rightarrow> 'v filter_builder \<Rightarrow> 'v filter_builder" where
  "fb_NOR filters fb = (if filters \<noteq> [] then fb\<lparr>fb_logical := fb_logical fb @ [(''$nor'', BDocs filters)]\<rparr> else fb)"

text \<open>The calls a client can make on a builder.\<close>

datatype 'v filter_call =
    CEQ string "'v bson" | CNE string "'v bson" | CGT string "'v bson" | CGTE string "'v bson" | CLT string "'v bson" | CLTE string "'v bson"
  | CCloseInterval string "'v bson" "'v bson" | CLeftCloseRightOpen string "'v bson" "'v bson"
  | CLeftOpenRightOpen string "'v bson" "'v bson" | CLeftOpenRightClose string "'v bson" "'v bson"
  | CIN string "'v bson" | CNIN string "'v bson" | CALL string "'v bson" | CSIZE string "'v bson" | CElemMatch string "'v doc"
  | CSlice string int int | CEXISTS string bool | CTYPE string string | CNOT string "'v doc"
  | CAND "'v doc list" | COR "'v doc list" | CNOR "'v doc list"

fun filter_step :: "'v filter_call \<Rightarrow> 'v filter_builder \<Rightarrow> 'v filter_builder" where
  "filter_step (CEQ k v) = fb_EQ k v" | "filter_step (CNE k v) = fb_NE k v" | "filter_step (CGT k v) = fb_GT k v"
| "filter_step (CGTE k v) = fb_GTE k v" | "filter_step (CLT k v) = fb_LT k v" | "filter_step (CLTE k v) = fb_LTE k v"
| "filter_step (CCloseInterval k l h) = fb_CloseInterval k l h" | "filter_step (CLeftCloseRightOpen k l h) = fb_LeftCloseRightOpen k l h"
| "filter_step (CLeftOpenRightOpen k l h) = fb_LeftOpenRightOpen k l h"
| "filter_step (CLeftOpenRightClose k l h) = fb_LeftOpenRightClose k l h" | "filter_step (CIN k v) = fb_IN k v"
| "filter_step (CNIN k v) = fb_NIN k v" | "filter_step (CALL k v) = fb_ALL k v" | "filter_step (CSIZE k v) = fb_SIZE k v"
| "filter_step (CElemMatch k d) = fb_ElemMatch k d" | "filter_step (CSlice k a b) = fb_Slice k a b"
| "filter_step (CEXISTS k b) = fb_EXISTS k b" | "filter_step (CTYPE k t) = fb_TYPE k t" | "filter_step (CNOT k d) = fb_NOT k d"
| "filter_step (CAND ds) = fb_AND ds" | "filter_step (COR ds) = fb_OR ds" | "filter_step (CNOR ds) = fb_NOR ds"

section \<open>What a filter says\<close>

text \<open>
  The specification: every call states conditions on one field, or one condition on the document
  that combines filters.
\<close>

fun states :: "'v filter_call \<Rightarrow> (string \<times> string \<times> 'v bson) list" where
  "states (CEQ k v) = [(k, ''$eq'', v)]" | "states (CNE k v) = [(k, ''$ne'', v)]" | "states (CGT k v) = [(k, ''$gt'', v)]"
| "states (CGTE k v) = [(k, ''$gte'', v)]" | "states (CLT k v) = [(k, ''$lt'', v)]" | "states (CLTE k v) = [(k, ''$lte'', v)]"
| "states (CCloseInterval k l h) = [(k, ''$gte'', l), (k, ''$lte'', h)]"
| "states (CLeftCloseRightOpen k l h) = [(k, ''$gte'', l), (k, ''$lt'', h)]"
| "states (CLeftOpenRightOpen k l h) = [(k, ''$gt'', l), (k, ''$lt'', h)]"
| "states (CLeftOpenRightClose k l h) = [(k, ''$gt'', l), (k, ''$lte'', h)]"
| "states (CIN k v) = [(k, ''$in'', v)]" | "states (CNIN k v) = [(k, ''$nin'', v)]" | "states (CALL k v) = [(k, ''$all'', v)]"
| "states (CSIZE k v) = [(k, ''$size'', v)]" | "states (CElemMatch k d) = [(k, ''$elemMatch'', BDoc d)]"
| "states (CSlice k a b) = [(k, ''$slice'', BInts [a, b])]" | "states (CEXISTS k b) = [(k, ''$exists'', BBool b)]"
| "states (CTYPE k t) = [(k, ''$type'', BString t)]"
| "states (CNOT k d) = (if k = [] \<or> d = [] then [] else [(k, ''$not'', BDoc d)])"
| "states (CAND ds) = []" | "states (COR ds) = []" | "states (CNOR ds) = []"

fun combines :: "'v filter_call \<Rightarrow> 'v doc" where
  "combines (CAND ds) = (if ds = [] then [] else [(''$and'', BDocs ds)])"
| "combines (COR ds) = (if ds = [] then [] else [(''$or'', BDocs ds)])"
| "combines (CNOR ds) = (if ds = [] then [] else [(''$nor'', BDocs ds)])"
| "combines _ = []"

definition conditions_on :: "string \<Rightarrow> (string \<times> string \<times> 'v bson) list \<Rightarrow> 'v doc" where
  "conditions_on k cs = map snd (filter (\<lambda>c. fst c = k) cs)"

definition records :: "'v filter_builder \<Rightarrow> (string \<times> string \<times> 'v bson) list \<Rightarrow> 'v doc \<Rightarrow> bool" where
  "records fb cs lg \<longleftrightarrow> fb_logical fb = lg \<and>
     (\<forall>k. fmlookup (fb_fields fb) k = (if conditions_on k cs = [] then None else Some (conditions_on k cs)))"

lemma conditions_on_simps [simp]:
  "conditions_on k [] = []" "conditions_on k (cs @ ds) = conditions_on k cs @ conditions_on k ds"
  "conditions_on k (c # cs) = (if fst c = k then snd c # conditions_on k cs else conditions_on k cs)"
  by (simp_all add: conditions_on_def)

lemma add_operator_records:
  "records fb cs lg \<Longrightarrow> records (add_operator key operator v fb) (cs @ [(key, operator, v)]) lg"
  by (auto simp: records_def add_operator_def Let_def)

lemmas filter_ops = fb_EQ_def fb_NE_def fb_GT_def fb_GTE_def fb_LT_def fb_LTE_def fb_CloseInterval_def fb_LeftCloseRightOpen_def
  fb_LeftOpenRightOpen_def fb_LeftOpenRightClose_def fb_IN_def fb_NIN_def fb_ALL_def fb_SIZE_def fb_ElemMatch_def fb_Slice_def
  fb_EXISTS_def fb_TYPE_def fb_NOT_def

lemma add_two_records:
  "records fb cs lg \<Longrightarrow> records (add_operator key p v (add_operator key q w fb)) (cs @ [(key, q, w), (key, p, v)]) lg"
  using add_operator_records [OF add_operator_records] by fastforce

lemma filter_step_records:
  assumes "records fb cs lg"
  shows "records (filter_step c fb) (cs @ states c) (lg @ combines c)"
proof (cases c)
  case (CAND ds)
  then show ?thesis using assms by (simp add: fb_AND_def records_def)
next
  case (COR ds)
  then show ?thesis using assms by (simp add: fb_OR_def records_def)
next
  case (CNOR ds)
  then show ?thesis using assms by (simp add: fb_NOR_def records_def)
qed (use add_operator_records [OF assms] add_two_records [OF assms] assms in \<open>simp_all add: filter_ops\<close>)

lemma filter_run_records:
  "records fb cs lg \<Longrightarrow>
   records (fold filter_step calls fb) (cs @ concat (map states calls)) (lg @ concat (map combines calls))"
proof (induction calls arbitrary: fb cs lg)
  case (Cons c calls)
  from Cons.IH [OF filter_step_records [OF Cons.prems, of c]] show ?case by simp
qed simp

lemma build_loop_map:
  "build_loop ks fm acc = acc @ map (\<lambda>k. (k, BDoc (case fmlookup fm k of Some d \<Rightarrow> d | None \<Rightarrow> []))) ks"
  by (induction ks arbitrary: acc) simp_all

lemma new_filter_builder_records [simp]: "records new_filter_builder [] []"
  by (simp add: records_def new_filter_builder_def)

text \<open>
  A filter says what its builder was told. After any sequence of calls, \<open>Build\<close> gives one entry
  for each field that has a condition, with exactly the conditions stated on that field, in the order of
  the calls, and behind the fields the combinations \<open>$and\<close>, \<open>$or\<close>, \<open>$nor\<close> in the order of their calls.
  Calls without a content add nothing. The order of the map only permutes the entries of the fields.
\<close>

theorem filter_build_collects:
  fixes calls :: "'v filter_call list"
  defines "fb \<equiv> fold filter_step calls new_filter_builder" and "cs \<equiv> concat (map states calls)"
  assumes "enumerates ks (fb_fields fb)"
  shows "fb_build ks fb = map (\<lambda>k. (k, BDoc (conditions_on k cs))) ks @ concat (map combines calls) \<and>
    distinct ks \<and> set ks = fst ` set cs \<and>
    (\<forall>ks'. enumerates ks' (fb_fields fb) \<longrightarrow> mset (fb_build ks' fb) = mset (fb_build ks fb))"
proof -
  have r: "records fb cs (concat (map combines calls))"
    using filter_run_records [of new_filter_builder "[]" "[]" calls] by (simp add: fb_def cs_def)
  have dom: "set qs = fst ` set cs" "distinct qs" if "enumerates qs (fb_fields fb)" for qs
  proof -
    have c: "conditions_on k cs \<noteq> [] \<longleftrightarrow> k \<in> fst ` set cs" for k by (auto simp: conditions_on_def filter_empty_conv image_iff)
    have "k |\<in>| fmdom (fb_fields fb) \<longleftrightarrow> k \<in> fst ` set cs" for k
      using r by (simp add: records_def fmdom_iff c [symmetric])
    then have "fset (fmdom (fb_fields fb)) = fst ` set cs" by blast
    then show "set qs = fst ` set cs" using enumerates_set [OF that] by simp
    show "distinct qs" using that by (simp add: enumerates_def)
  qed
  have build: "fb_build qs fb = map (\<lambda>k. (k, BDoc (conditions_on k cs))) qs @ concat (map combines calls)" for qs
    using r by (simp add: fb_build_def build_loop_map records_def)
  have "mset (fb_build ks' fb) = mset (fb_build ks fb)" if "enumerates ks' (fb_fields fb)" for ks'
  proof -
    have "mset ks' = mset ks" using dom [OF that] dom [OF assms(3)] set_eq_iff_mset_eq_distinct by metis
    then have "mset (map (\<lambda>k. (k, BDoc (conditions_on k cs))) ks') = mset (map (\<lambda>k. (k, BDoc (conditions_on k cs))) ks)"
      by (simp only: mset_map)
    then show ?thesis by (simp only: build mset_append)
  qed
  then show ?thesis using build dom [OF assms(3)] by simp
qed

theorem filter_build_collects_witness:
  "fb_build [''age'', ''name''] (fold filter_step [CCloseInterval ''age'' (BAny 18) (BAny 65), CEQ ''name'' (BAny (7::nat)), CNOT [] [(''x'', BInt 1)],
      COR [[], []], CNE ''age'' (BAny 30)] new_filter_builder) =
   [(''age'', BDoc [(''$gte'', BAny 18), (''$lte'', BAny 65), (''$ne'', BAny 30)]), (''name'', BDoc [(''$eq'', BAny 7)]), (''$or'', BDocs [[], []])]"
proof -
  let ?calls = "[CCloseInterval ''age'' (BAny 18) (BAny 65), CEQ ''name'' (BAny (7::nat)), CNOT [] [(''x'', BInt 1)], COR [[], []], CNE ''age'' (BAny 30)]"
  have "fmdom (fb_fields (fold filter_step ?calls new_filter_builder)) = {|''name'', ''age''|}"
    by (simp add: filter_ops fb_OR_def add_operator_def new_filter_builder_def) auto
  then have "enumerates [''age'', ''name''] (fb_fields (fold filter_step ?calls new_filter_builder))"
    by (auto simp: enumerates_def)
  from filter_build_collects [OF this] show ?thesis by simp
qed

section \<open>Updates\<close>

record 'v operator_builder =
  ob_operators :: "'v doc"

definition new_operator_builder :: "'v operator_builder" where
  "new_operator_builder = \<lparr>ob_operators = []\<rparr>"

definition ob_build :: "'v operator_builder \<Rightarrow> 'v doc" where
  "ob_build ob = ob_operators ob"

definition ob_Set :: "'v doc \<Rightarrow> 'v operator_builder \<Rightarrow> 'v operator_builder" where
  "ob_Set updates ob = (if updates \<noteq> [] then ob\<lparr>ob_operators := ob_operators ob @ [(''$set'', BDoc updates)]\<rparr> else ob)"

definition ob_Unset :: "'v doc \<Rightarrow> 'v operator_builder \<Rightarrow> 'v operator_builder" where
  "ob_Unset updates ob = (if updates \<noteq> [] then ob\<lparr>ob_operators := ob_operators ob @ [(''$unset'', BDoc updates)]\<rparr> else ob)"

definition ob_Increment :: "'v doc \<Rightarrow> 'v operator_builder \<Rightarrow> 'v operator_builder" where
  "ob_Increment updates ob = (if updates \<noteq> [] then ob\<lparr>ob_operators := ob_operators ob @ [(''$inc'', BDoc updates)]\<rparr> else ob)"

definition ob_Rename :: "'v doc \<Rightarrow> 'v operator_builder \<Rightarrow> 'v operator_builder" where
  "ob_Rename updates ob = (if updates \<noteq> [] then ob\<lparr>ob_operators := ob_operators ob @ [(''$rename'', BDoc updates)]\<rparr> else ob)"

definition ob_SetOnUpdate :: "'v doc \<Rightarrow> 'v operator_builder \<Rightarrow> 'v operator_builder" where
  "ob_SetOnUpdate updates ob = (if updates \<noteq> [] then ob\<lparr>ob_operators := ob_operators ob @ [(''$setOnInsert'', BDoc updates)]\<rparr> else ob)"

definition ob_Push :: "'v doc \<Rightarrow> 'v operator_builder \<Rightarrow> 'v operator_builder" where
  "ob_Push updates ob = (if updates \<noteq> [] then ob\<lparr>ob_operators := ob_operators ob @ [(''$push'', BDoc updates)]\<rparr> else ob)"

definition ob_Pull :: "'v doc \<Rightarrow> 'v operator_builder \<Rightarrow> 'v operator_builder" where
  "ob_Pull updates ob = (if updates \<noteq> [] then ob\<lparr>ob_operators := ob_operators ob @ [(''$pull'', BDoc updates)]\<rparr> else ob)"

definition ob_Pop :: "'v doc \<Rightarrow> 'v operator_builder \<Rightarrow> 'v operator_builder" where
  "ob_Pop update ob = (if update \<noteq> [] then ob\<lparr>ob_operators := ob_operators ob @ [(''$pop'', BDoc update)]\<rparr> else ob)"

definition ob_PullAll :: "'v doc \<Rightarrow> 'v operator_builder \<Rightarrow> 'v operator_builder" where
  "ob_PullAll updates ob = (if updates \<noteq> [] then ob\<lparr>ob_operators := ob_operators ob @ [(''$pullAll'', BDoc updates)]\<rparr> else ob)"

definition ob_AddToSet :: "'v doc \<Rightarrow> 'v operator_builder \<Rightarrow> 'v operator_builder" where
  "ob_AddToSet updates ob = (if updates \<noteq> [] then ob\<lparr>ob_operators := ob_operators ob @ [(''$addToSet'', BDoc updates)]\<rparr> else ob)"

definition ob_CurrentDate :: "'v doc \<Rightarrow> 'v operator_builder \<Rightarrow> 'v operator_builder" where
  "ob_CurrentDate updates ob = (if updates \<noteq> [] then ob\<lparr>ob_operators := ob_operators ob @ [(''$currentDate'', BDoc updates)]\<rparr> else ob)"

definition ob_Bit :: "'v doc \<Rightarrow> 'v operator_builder \<Rightarrow> 'v operator_builder" where
  "ob_Bit updates ob = (if updates \<noteq> [] then ob\<lparr>ob_operators := ob_operators ob @ [(''$bit'', BDoc updates)]\<rparr> else ob)"

definition ob_ReplaceWith :: "'v doc \<Rightarrow> 'v operator_builder \<Rightarrow> 'v operator_builder" where
  "ob_ReplaceWith replaceWith ob = ob\<lparr>ob_operators := ob_operators ob @ [(''$replaceWith'', BDoc replaceWith)]\<rparr>"

datatype 'v update_call =
    USet "'v doc" | UUnset "'v doc" | UIncrement "'v doc" | URename "'v doc" | USetOnUpdate "'v doc" | UPush "'v doc" | UPull "'v doc"
  | UPop "'v doc" | UPullAll "'v doc" | UAddToSet "'v doc" | UCurrentDate "'v doc" | UBit "'v doc" | UReplaceWith "'v doc"

fun update_step :: "'v update_call \<Rightarrow> 'v operator_builder \<Rightarrow> 'v operator_builder" where
  "update_step (USet d) = ob_Set d" | "update_step (UUnset d) = ob_Unset d" | "update_step (UIncrement d) = ob_Increment d"
| "update_step (URename d) = ob_Rename d" | "update_step (USetOnUpdate d) = ob_SetOnUpdate d" | "update_step (UPush d) = ob_Push d"
| "update_step (UPull d) = ob_Pull d" | "update_step (UPop d) = ob_Pop d" | "update_step (UPullAll d) = ob_PullAll d"
| "update_step (UAddToSet d) = ob_AddToSet d" | "update_step (UCurrentDate d) = ob_CurrentDate d" | "update_step (UBit d) = ob_Bit d"
| "update_step (UReplaceWith d) = ob_ReplaceWith d"

definition given :: "string \<Rightarrow> 'v doc \<Rightarrow> 'v doc" where
  "given name d = (if d = [] then [] else [(name, BDoc d)])"

fun updates :: "'v update_call \<Rightarrow> 'v doc" where
  "updates (USet d) = given ''$set'' d" | "updates (UUnset d) = given ''$unset'' d" | "updates (UIncrement d) = given ''$inc'' d"
| "updates (URename d) = given ''$rename'' d" | "updates (USetOnUpdate d) = given ''$setOnInsert'' d" | "updates (UPush d) = given ''$push'' d"
| "updates (UPull d) = given ''$pull'' d" | "updates (UPop d) = given ''$pop'' d" | "updates (UPullAll d) = given ''$pullAll'' d"
| "updates (UAddToSet d) = given ''$addToSet'' d" | "updates (UCurrentDate d) = given ''$currentDate'' d" | "updates (UBit d) = given ''$bit'' d"
| "updates (UReplaceWith d) = [(''$replaceWith'', BDoc d)]"

lemmas update_ops = ob_Set_def ob_Unset_def ob_Increment_def ob_Rename_def ob_SetOnUpdate_def ob_Push_def ob_Pull_def ob_Pop_def ob_PullAll_def
  ob_AddToSet_def ob_CurrentDate_def ob_Bit_def ob_ReplaceWith_def

lemma update_step_adds: "ob_operators (update_step u ob) = ob_operators ob @ updates u"
  by (cases u) (simp_all add: update_ops given_def)

text \<open>An update document has the operators in the order of the calls, without those that got nothing.\<close>

lemma operator_build_collects: "ob_build (fold update_step us new_operator_builder) = concat (map updates us)"
proof -
  have "ob_operators (fold update_step us ob) = ob_operators ob @ concat (map updates us)" for ob
    by (induction us arbitrary: ob) (simp_all add: update_step_adds)
  then show ?thesis by (simp add: ob_build_def new_operator_builder_def)
qed

section \<open>Projections\<close>

text \<open>The map of fields may be nil: looking up in it finds nothing, and writing to it panics.\<close>

record 'v projection_builder =
  pb_fields :: "(string, unit) fmap option"
  pb_projections :: "'v doc"

definition new_projection_builder :: "'v projection_builder" where
  "new_projection_builder = \<lparr>pb_fields = None, pb_projections = []\<rparr>"

definition pb_build :: "'v projection_builder \<Rightarrow> 'v doc" where
  "pb_build pb = pb_projections pb"

definition pb_has :: "'v projection_builder \<Rightarrow> string \<Rightarrow> bool" where
  "pb_has pb f \<longleftrightarrow> (case pb_fields pb of None \<Rightarrow> False | Some m \<Rightarrow> fmlookup m f \<noteq> None)"

fun mark_loop :: "int \<Rightarrow> string list \<Rightarrow> 'v projection_builder \<Rightarrow> 'v projection_builder" where
  "mark_loop n [] pb = pb"
| "mark_loop n (f # fs) pb =
     mark_loop n fs (if pb_has pb f then pb else pb\<lparr>pb_projections := pb_projections pb @ [(f, BInt n)]\<rparr>)"

definition pb_Fields :: "string list \<Rightarrow> 'v projection_builder \<Rightarrow> 'v projection_builder" where
  "pb_Fields fs pb = (if fs = [] then pb else mark_loop 1 fs pb)"

definition pb_Excludes :: "string list \<Rightarrow> 'v projection_builder \<Rightarrow> 'v projection_builder" where
  "pb_Excludes fs pb = (if fs = [] then pb else mark_loop 0 fs pb)"

definition pb_Only :: "string \<Rightarrow> 'v projection_builder \<Rightarrow> 'v projection_builder" where
  "pb_Only f pb = pb_Excludes [''_id''] (pb_Fields [f] pb)"

definition pb_FirstMatchSliceElem :: "string \<Rightarrow> 'v projection_builder \<Rightarrow> 'v projection_builder" where
  "pb_FirstMatchSliceElem f pb = pb_Only (f @ ''.$'') pb"

definition pb_ElementMatch :: "string \<Rightarrow> 'v doc \<Rightarrow> 'v projection_builder \<Rightarrow> 'v projection_builder option" where
  "pb_ElementMatch f flt pb =
     (if pb_has pb f then Some pb
      else
        (case pb_fields pb of
           None \<Rightarrow> None
         | Some m \<Rightarrow> Some (pb\<lparr>pb_fields := Some (fmupd f () m), pb_projections := pb_projections pb @ [(f, BDoc flt)]\<rparr>)))"

definition pb_Slice :: "string \<Rightarrow> int \<Rightarrow> int \<Rightarrow> 'v projection_builder \<Rightarrow> 'v projection_builder option" where
  "pb_Slice f offset cnt pb = pb_ElementMatch f (fb_build [f] (fb_Slice f offset cnt new_filter_builder)) pb"

datatype 'v projection_call =
    PFields "string list" | PExcludes "string list" | POnly string | PFirstMatchSliceElem string | PElementMatch string "'v doc" | PSlice string int int

fun projection_step :: "'v projection_call \<Rightarrow> 'v projection_builder \<Rightarrow> 'v projection_builder option" where
  "projection_step (PFields fs) pb = Some (pb_Fields fs pb)"
| "projection_step (PExcludes fs) pb = Some (pb_Excludes fs pb)"
| "projection_step (POnly f) pb = Some (pb_Only f pb)"
| "projection_step (PFirstMatchSliceElem f) pb = Some (pb_FirstMatchSliceElem f pb)"
| "projection_step (PElementMatch f d) pb = pb_ElementMatch f d pb"
| "projection_step (PSlice f a b) pb = pb_Slice f a b pb"

fun projection_run :: "'v projection_call list \<Rightarrow> 'v projection_builder \<Rightarrow> 'v projection_builder option" where
  "projection_run [] pb = Some pb"
| "projection_run (c # cs) pb = do { pb1 \<leftarrow> projection_step c pb; projection_run cs pb1 }"

fun projects :: "'v projection_call \<Rightarrow> 'v doc" where
  "projects (PFields fs) = map (\<lambda>f. (f, BInt 1)) fs" | "projects (PExcludes fs) = map (\<lambda>f. (f, BInt 0)) fs"
| "projects (POnly f) = [(f, BInt 1), (''_id'', BInt 0)]" | "projects (PFirstMatchSliceElem f) = [(f @ ''.$'', BInt 1), (''_id'', BInt 0)]"
| "projects (PElementMatch f d) = []" | "projects (PSlice f a b) = []"

fun matches_elements :: "'v projection_call \<Rightarrow> bool" where
  "matches_elements (PElementMatch f d) \<longleftrightarrow> True" | "matches_elements (PSlice f a b) \<longleftrightarrow> True"
| "matches_elements (PFields fs) \<longleftrightarrow> False" | "matches_elements (PExcludes fs) \<longleftrightarrow> False"
| "matches_elements (POnly f) \<longleftrightarrow> False" | "matches_elements (PFirstMatchSliceElem f) \<longleftrightarrow> False"

lemma mark_loop_nil:
  "pb_fields pb = None \<Longrightarrow> mark_loop n fs pb = pb\<lparr>pb_projections := pb_projections pb @ map (\<lambda>f. (f, BInt n)) fs\<rparr>"
  by (induction fs arbitrary: pb) (simp_all add: pb_has_def)

lemma projection_step_nil:
  assumes "pb_fields pb = None"
  shows "projection_step c pb =
    (if matches_elements c then None else Some (pb\<lparr>pb_projections := pb_projections pb @ projects c\<rparr>))"
  using assms by (cases c) (simp_all add: pb_Fields_def pb_Excludes_def pb_Only_def pb_FirstMatchSliceElem_def pb_ElementMatch_def
      pb_Slice_def pb_has_def mark_loop_nil)

lemma projection_run_nil:
  "pb_fields pb = None \<Longrightarrow> projection_run cs pb =
    (if \<exists>c \<in> set cs. matches_elements c then None
     else Some (pb\<lparr>pb_projections := pb_projections pb @ concat (map projects cs)\<rparr>))"
  by (induction cs arbitrary: pb) (simp_all add: projection_step_nil)

text \<open>
  On a builder from \<open>NewProjectionBuilder\<close>, \<open>ElementMatch\<close> and \<open>Slice\<close> always panic, as the map of fields is never
  made; every other sequence of calls succeeds, and \<open>Build\<close> then gives the entries in the order of the
  calls. A field that is named twice is in the projection twice. On a builder whose map has been made by
  hand, \<open>Slice\<close> puts the field name twice around the range, \<open>{f: {f: {$slice: [a, b]}}}\<close>, and a second
  \<open>Slice\<close> or \<open>ElementMatch\<close> on the field is ignored.
\<close>

theorem projection_builder_calls:
  "map_option pb_build (projection_run cs new_projection_builder) =
     (if list_ex matches_elements cs then None else Some (concat (map projects cs))) \<and>
   map_option pb_build (projection_run [PSlice f a b, PSlice f a' b', PElementMatch f d]
       \<lparr>pb_fields = Some fmempty, pb_projections = ps\<rparr>) =
     Some (ps @ [(f, BDoc [(f, BDoc [(''$slice'', BInts [a, b])])])])"
  using projection_run_nil [of new_projection_builder cs]
  by (auto simp: new_projection_builder_def pb_build_def list_ex_iff pb_Slice_def pb_ElementMatch_def pb_has_def
      fb_build_def fb_Slice_def add_operator_def new_filter_builder_def)

end
