(* ===== verification/Mongo_Driver.thy ===== *)
theory Mongo_Driver
  imports Mongo_Builders Net_Base
begin

text \<open>
  \<^verbatim>\<open>config.go\<close>, \<^verbatim>\<open>manager.go\<close>, \<^verbatim>\<open>wrapper.go\<close> and \<^verbatim>\<open>collection.go\<close> of
  \<^verbatim>\<open>common/mongo_driver\<close>: the clients of a cluster and the operations on a collection. The MongoDB
  driver is a parameter: what it answers to a call is an argument, and the calls that
  reach it are recorded.
\<close>

section \<open>Managers\<close>

text \<open>A client of the driver is the number under which it was connected.\<close>

datatype mongo_error =
    ErrInitInvalidConfig | ErrMongoDriverAlreadyInit | ErrFindFilterNil | ErrNilDocument | ErrNoDocuments
  | ErrNoManager | DriverError string | DriverErrors "mongo_error list"

record mongo_config =
  mc_Name :: string
  mc_Url :: string
  mc_User :: string
  mc_Password :: string
  mc_ConnectTimeout :: int
  mc_MaxPoolSize :: "64 word"
  mc_MinPoolSize :: "64 word"
  mc_AuthMechanism :: string

record cluster_config =
  cc_Nodes :: "(string, mongo_config option) fmap"

definition DefaultMaxPoolSize :: "64 word" where "DefaultMaxPoolSize = 10"

definition DefaultMinPoolSize :: "64 word" where "DefaultMinPoolSize = 5"

definition DefaultConnectTimeout :: int where "DefaultConnectTimeout = 10"

text \<open>The options of a client; the timeout is in nanoseconds.\<close>

record client_options =
  co_URI :: string
  co_NilSliceAsEmpty :: bool
  co_NilMapAsEmpty :: bool
  co_AuthMechanism :: string
  co_AuthSource :: string
  co_Username :: string
  co_Password :: string
  co_MaxPoolSize :: "64 word"
  co_MinPoolSize :: "64 word"
  co_ConnectTimeout :: int

definition client_options_of :: "mongo_config \<Rightarrow> client_options" where
  "client_options_of c =
     \<lparr>co_URI = mc_Url c, co_NilSliceAsEmpty = True, co_NilMapAsEmpty = True, co_AuthMechanism = mc_AuthMechanism c,
      co_AuthSource = ''admin'', co_Username = mc_User c, co_Password = mc_Password c,
      co_MaxPoolSize = (if mc_MaxPoolSize c = 0 then DefaultMaxPoolSize else mc_MaxPoolSize c),
      co_MinPoolSize = (if mc_MinPoolSize c = 0 then DefaultMinPoolSize else mc_MinPoolSize c),
      co_ConnectTimeout = wrap64 ((if mc_ConnectTimeout c = 0 then DefaultConnectTimeout else mc_ConnectTimeout c) * 10 ^ 9)\<rparr>"

record mongo_manager =
  mm_name :: string
  mm_client :: "nat option"

definition new_mongo_manager :: "string \<Rightarrow> mongo_manager" where
  "new_mongo_manager name = \<lparr>mm_name = name, mm_client = None\<rparr>"

text \<open>
  The driver: it says for the options of a client whether \<open>mongo.Connect\<close> fails, and for a client what
  \<open>Disconnect\<close> returns. \<open>dw_made\<close> holds the options of the clients made so far, each client being the
  position of its options, \<open>dw_open\<close> those that are connected, \<open>dw_ends\<close> the calls of \<open>Disconnect\<close>.
\<close>

record driver_env =
  de_connect :: "client_options \<Rightarrow> mongo_error option"
  de_disconnect :: "nat \<Rightarrow> mongo_error option"

record driver_world =
  dw_made :: "client_options list"
  dw_open :: "nat fset"
  dw_ends :: "nat list"

abbreviation dw_clients :: "driver_world \<Rightarrow> nat" where
  "dw_clients w \<equiv> length (dw_made w)"

definition driver_connect :: "driver_env \<Rightarrow> client_options \<Rightarrow> driver_world \<Rightarrow> (mongo_error + nat) \<times> driver_world" where
  "driver_connect d opts w =
     (case de_connect d opts of
        Some e \<Rightarrow> (Inl e, w)
      | None \<Rightarrow> (Inr (dw_clients w), w\<lparr>dw_made := dw_made w @ [opts], dw_open := finsert (dw_clients w) (dw_open w)\<rparr>))"

text \<open>A client that has been asked to disconnect is not used any more, also when that fails.\<close>

definition driver_disconnect :: "driver_env \<Rightarrow> nat \<Rightarrow> driver_world \<Rightarrow> mongo_error option \<times> driver_world" where
  "driver_disconnect d client w = (de_disconnect d client, w\<lparr>dw_open := dw_open w |-| {|client|}, dw_ends := dw_ends w @ [client]\<rparr>)"

definition init_manager :: "driver_env \<Rightarrow> mongo_config option \<Rightarrow> mongo_manager \<Rightarrow> driver_world \<Rightarrow>
    mongo_error option \<times> mongo_manager \<times> driver_world" where
  "init_manager d dbConfig m w =
     (case dbConfig of
        None \<Rightarrow> (Some ErrInitInvalidConfig, m, w)
      | Some c \<Rightarrow>
          (case driver_connect d (client_options_of c) w of
             (Inl e, w1) \<Rightarrow> (Some e, m, w1)
           | (Inr client, w1) \<Rightarrow> (None, m\<lparr>mm_client := Some client, mm_name := mc_Name c\<rparr>, w1)))"

text \<open>\<open>Database\<close> with the nil client panics.\<close>

definition mm_Database :: "mongo_manager \<Rightarrow> string \<Rightarrow> (nat \<times> string) option" where
  "mm_Database m dbName = map_option (\<lambda>c. (c, dbName)) (mm_client m)"

section \<open>The cluster\<close>

text \<open>\<open>allNodes\<close> may hold a nil manager; \<open>Range\<close> visits its entries in an order that is the argument.\<close>

type_synonym cluster = "(string, mongo_manager option) fmap"

definition cluster_get :: "string \<Rightarrow> cluster \<Rightarrow> mongo_manager option" where
  "cluster_get nodeName m = (case fmlookup m nodeName of Some node \<Rightarrow> node | None \<Rightarrow> None)"

definition cluster_add :: "string \<Rightarrow> mongo_manager option \<Rightarrow> cluster \<Rightarrow> cluster" where
  "cluster_add nodeName manager m = fmupd nodeName manager m"

definition join_errors :: "mongo_error option \<Rightarrow> mongo_error \<Rightarrow> mongo_error option" where
  "join_errors finalErr e = Some (DriverErrors ((case finalErr of None \<Rightarrow> [] | Some f \<Rightarrow> [f]) @ [e]))"

fun destroy_loop :: "driver_env \<Rightarrow> string list \<Rightarrow> cluster \<Rightarrow> mongo_error option \<Rightarrow> driver_world \<Rightarrow> mongo_error option \<times> driver_world" where
  "destroy_loop d [] m finalErr w = (finalErr, w)"
| "destroy_loop d (k # ks) m finalErr w =
     (case cluster_get k m of
        None \<Rightarrow> destroy_loop d ks m finalErr w
      | Some manager \<Rightarrow>
          (case mm_client manager of
             None \<Rightarrow> destroy_loop d ks m finalErr w
           | Some client \<Rightarrow>
               (case driver_disconnect d client w of
                  (None, w1) \<Rightarrow> destroy_loop d ks m finalErr w1
                | (Some e, w1) \<Rightarrow> destroy_loop d ks m (join_errors finalErr e) w1)))"

definition cluster_destroy :: "driver_env \<Rightarrow> string list \<Rightarrow> cluster \<Rightarrow> driver_world \<Rightarrow> mongo_error option \<times> driver_world" where
  "cluster_destroy d ks m w = destroy_loop d ks m None w"

section \<open>The global cluster\<close>

text \<open>\<open>gw_cluster\<close> is \<open>gClusterMongoDBManager\<close>.\<close>

record global_world =
  gw_cluster :: "cluster option"
  gw_driver :: driver_world

fun init_nodes :: "driver_env \<Rightarrow> string list \<Rightarrow> (string, mongo_config option) fmap \<Rightarrow> cluster \<Rightarrow> driver_world \<Rightarrow>
    (mongo_error + cluster) \<times> driver_world" where
  "init_nodes d [] nodes m w = (Inr m, w)"
| "init_nodes d (k # ks) nodes m w =
     (case fmlookup nodes k of
        Some (Some c) \<Rightarrow>
          (case init_manager d (Some c) (new_mongo_manager k) w of
             (Some e, _, w1) \<Rightarrow> (Inl e, w1)
           | (None, manager, w1) \<Rightarrow> init_nodes d ks nodes (cluster_add k (Some manager) m) w1)
      | _ \<Rightarrow> (Inl ErrInitInvalidConfig, w))"

definition init_configuration :: "driver_env \<Rightarrow> string list \<Rightarrow> cluster_config option \<Rightarrow> global_world \<Rightarrow> mongo_error option \<times> global_world" where
  "init_configuration d ks dbConf g =
     (case dbConf of
        None \<Rightarrow> (Some ErrInitInvalidConfig, g)
      | Some conf \<Rightarrow>
          if gw_cluster g \<noteq> None then (Some ErrMongoDriverAlreadyInit, g)
          else
            (case init_nodes d ks (cc_Nodes conf) fmempty (gw_driver g) of
               (Inl e, w) \<Rightarrow> (Some e, g\<lparr>gw_driver := w\<rparr>)
             | (Inr m, w) \<Rightarrow> (None, g\<lparr>gw_cluster := Some m, gw_driver := w\<rparr>)))"

definition get_manager :: "string \<Rightarrow> global_world \<Rightarrow> mongo_manager option" where
  "get_manager nodeName g = (case gw_cluster g of None \<Rightarrow> None | Some m \<Rightarrow> cluster_get nodeName m)"

definition mongo_destroy :: "driver_env \<Rightarrow> string list \<Rightarrow> global_world \<Rightarrow> mongo_error option \<times> global_world" where
  "mongo_destroy d ks g =
     (case gw_cluster g of
        None \<Rightarrow> (None, g)
      | Some m \<Rightarrow> (let (e, w) = cluster_destroy d ks m (gw_driver g) in (e, g\<lparr>gw_driver := w\<rparr>)))"

section \<open>What initialising and destroying do\<close>

text \<open>The clients a cluster holds, and the world in which the numbers of the open clients are used.\<close>

definition clients_of :: "cluster \<Rightarrow> nat set" where
  "clients_of m = {c. \<exists>k manager. fmlookup m k = Some (Some manager) \<and> mm_client manager = Some c}"

definition world_inv :: "driver_world \<Rightarrow> bool" where
  "world_inv w \<longleftrightarrow> (\<forall>c. c |\<in>| dw_open w \<longrightarrow> c < dw_clients w)"

text \<open>
  The options a configuration asks for: its address and credentials, \<open>admin\<close> as the database of the
  credentials, nil slices and maps written as empty ones, and its pool sizes and timeout, where zero stands for
  10 and 5 connections and for 10 seconds. The timeout is multiplied out in 64 bits.
\<close>

definition options_for :: "mongo_config \<Rightarrow> client_options \<Rightarrow> bool" where
  "options_for c opts \<longleftrightarrow> co_URI opts = mc_Url c \<and> co_Username opts = mc_User c \<and> co_Password opts = mc_Password c \<and>
     co_AuthMechanism opts = mc_AuthMechanism c \<and> co_AuthSource opts = ''admin'' \<and> co_NilSliceAsEmpty opts \<and> co_NilMapAsEmpty opts \<and>
     (mc_MaxPoolSize c = 0 \<longrightarrow> co_MaxPoolSize opts = 10) \<and> (mc_MaxPoolSize c \<noteq> 0 \<longrightarrow> co_MaxPoolSize opts = mc_MaxPoolSize c) \<and>
     (mc_MinPoolSize c = 0 \<longrightarrow> co_MinPoolSize opts = 5) \<and> (mc_MinPoolSize c \<noteq> 0 \<longrightarrow> co_MinPoolSize opts = mc_MinPoolSize c) \<and>
     (mc_ConnectTimeout c = 0 \<longrightarrow> co_ConnectTimeout opts = 10000000000) \<and>
     (mc_ConnectTimeout c \<noteq> 0 \<longrightarrow> co_ConnectTimeout opts = wrap64 (mc_ConnectTimeout c * 1000000000))"

lemma client_options_for: "options_for c (client_options_of c)"
  by (simp add: options_for_def client_options_of_def DefaultMaxPoolSize_def DefaultMinPoolSize_def DefaultConnectTimeout_def wrap64_def)

text \<open>
  A node of the cluster stands for its configuration: it has the configured name and an own client, connected with
  the options asked for.
\<close>

definition node_ready :: "(string, mongo_config option) fmap \<Rightarrow> nat \<Rightarrow> client_options list \<Rightarrow> cluster \<Rightarrow> string \<Rightarrow> bool" where
  "node_ready nodes n made m k \<longleftrightarrow> (\<exists>conf manager c. fmlookup nodes k = Some (Some conf) \<and> fmlookup m k = Some (Some manager) \<and>
     mm_name manager = mc_Name conf \<and> mm_client manager = Some c \<and> n \<le> c \<and> c < length made \<and> options_for conf (made ! c))"

text \<open>Why the initialisation of a node fails.\<close>

definition node_fails :: "driver_env \<Rightarrow> (string, mongo_config option) fmap \<Rightarrow> mongo_error \<Rightarrow> string \<Rightarrow> bool" where
  "node_fails d nodes e k \<longleftrightarrow> fmlookup nodes k = Some None \<and> e = ErrInitInvalidConfig \<or>
     (\<exists>conf opts. fmlookup nodes k = Some (Some conf) \<and> options_for conf opts \<and> de_connect d opts = Some e)"

lemma driver_connect_world:
  "driver_connect d opts w = (r, w1) \<Longrightarrow> world_inv w \<Longrightarrow>
   world_inv w1 \<and> dw_ends w1 = dw_ends w \<and>
   (case r of Inl e \<Rightarrow> w1 = w \<and> de_connect d opts = Some e
    | Inr c \<Rightarrow> c = dw_clients w \<and> dw_made w1 = dw_made w @ [opts] \<and> fset (dw_open w1) = insert c (fset (dw_open w)))"
  by (auto simp: driver_connect_def world_inv_def split: option.splits)

text \<open>
  The loop of \<open>InitConfiguration\<close>: the clients made are numbered on from \<open>n\<close>, one per node, and all of
  them stay open, also when a later node fails.
\<close>

lemma init_nodes_ok:
  "init_nodes d ks nodes m w = (r, w') \<Longrightarrow> world_inv w \<Longrightarrow> distinct ks \<Longrightarrow> set ks \<subseteq> fset (fmdom nodes) \<Longrightarrow>
     (\<forall>k \<in> set ks. fmlookup m k = None) \<Longrightarrow>
   world_inv w' \<and> (\<exists>made. dw_made w' = dw_made w @ made) \<and> dw_ends w' = dw_ends w \<and>
   fset (dw_open w') = fset (dw_open w) \<union> {dw_clients w..<dw_clients w'} \<and>
   (case r of Inl e \<Rightarrow> dw_clients w' < dw_clients w + length ks \<and> (\<exists>k \<in> set ks. node_fails d nodes e k)
    | Inr m' \<Rightarrow> dw_clients w' = dw_clients w + length ks \<and> clients_of m' = clients_of m \<union> {dw_clients w..<dw_clients w'} \<and>
        (\<forall>k \<in> set ks. node_ready nodes (dw_clients w) (dw_made w') m' k) \<and> (\<forall>k. k \<notin> set ks \<longrightarrow> fmlookup m' k = fmlookup m k))"
proof (induction ks arbitrary: m w)
  case (Cons k ks)
  show ?case
  proof (cases "fmlookup nodes k")
    case (Some co)
    show ?thesis
    proof (cases co)
      case c: (Some c)
      obtain q w1 where q: "driver_connect d (client_options_of c) w = (q, w1)" by (metis prod.exhaust)
      note qw = driver_connect_world [OF q Cons.prems(2)]
      show ?thesis
      proof (cases q)
        case (Inl e)
        then have "node_fails d nodes e k" using qw Some c client_options_for by (auto simp: node_fails_def)
        then show ?thesis using Cons.prems(1,2) Some c q qw Inl by (auto simp: init_manager_def)
      next
        case (Inr cl)
        let ?mg = "(new_mongo_manager k)\<lparr>mm_client := Some cl, mm_name := mc_Name c\<rparr>"
        let ?m = "cluster_add k (Some ?mg) m"
        have run: "init_nodes d ks nodes ?m w1 = (r, w')" using Cons.prems(1) Some c q Inr by (simp add: init_manager_def)
        have free: "\<forall>j \<in> set ks. fmlookup ?m j = None" using Cons.prems(3,5) by (auto simp: cluster_add_def)
        have w1: "world_inv w1" "cl = dw_clients w" "dw_made w1 = dw_made w @ [client_options_of c]" "dw_ends w1 = dw_ends w"
          "fset (dw_open w1) = insert (dw_clients w) (fset (dw_open w))" using qw Inr by simp_all
        have dk: "distinct ks" "k \<notin> set ks" "set ks \<subseteq> fset (fmdom nodes)" using Cons.prems(3,4) by simp_all
        note ih = Cons.IH [OF run w1(1) dk(1,3) free]
        obtain made where made: "dw_made w' = dw_made w @ client_options_of c # made" using ih w1(3) by auto
        then have lt: "dw_clients w < dw_clients w'" by simp
        have iv: "{dw_clients w..<dw_clients w'} = insert (dw_clients w) {Suc (dw_clients w)..<dw_clients w'}" using lt by auto
        have cl: "clients_of ?m = insert (dw_clients w) (clients_of m)"
        proof -
          have mk: "fmlookup m k = None" using Cons.prems(5) by simp
          then have "(\<exists>j mg. fmlookup ?m j = Some (Some mg) \<and> mm_client mg = Some x) \<longleftrightarrow>
              x = dw_clients w \<or> (\<exists>j mg. fmlookup m j = Some (Some mg) \<and> mm_client mg = Some x)" for x
            unfolding cluster_add_def using w1(2) by (auto split: if_splits) (metis option.distinct(1))+
          then show ?thesis by (auto simp: clients_of_def)
        qed
        show ?thesis
        proof (cases r)
          case (Inl e)
          then show ?thesis using ih w1 iv made by auto
        next
          case m': (Inr m')
          then have keep: "\<forall>j. j \<notin> set ks \<longrightarrow> fmlookup m' j = fmlookup ?m j"
            and rest: "\<forall>j \<in> set ks. node_ready nodes (Suc (dw_clients w)) (dw_made w') m' j" using ih w1(3) by simp_all
          have "node_ready nodes (dw_clients w) (dw_made w') m' k"
            using keep dk(2) Some c w1(2) made client_options_for by (auto simp: node_ready_def cluster_add_def)
          moreover have "node_ready nodes (dw_clients w) (dw_made w') m' j" if "j \<in> set ks" for j
            using rest that unfolding node_ready_def by (meson Suc_leD)
          moreover have "\<forall>j. j \<notin> set (k # ks) \<longrightarrow> fmlookup m' j = fmlookup m j" using keep by (simp add: cluster_add_def)
          ultimately show ?thesis using ih w1 iv cl m' made by simp
        qed
      qed
    qed (use Cons.prems(1,2) Some in \<open>auto simp: node_fails_def\<close>)
  qed (use Cons.prems(4) in \<open>auto dest: fmdom_notD\<close>)
qed auto

text \<open>The clients in the order in which \<open>Destroy\<close> visits the nodes.\<close>

definition clients_at :: "string list \<Rightarrow> cluster \<Rightarrow> nat list" where
  "clients_at ks m = concat (map (\<lambda>k. case cluster_get k m of None \<Rightarrow> [] | Some manager \<Rightarrow>
     (case mm_client manager of None \<Rightarrow> [] | Some c \<Rightarrow> [c])) ks)"

fun leaves :: "mongo_error \<Rightarrow> mongo_error list" where
  "leaves (DriverErrors es) = concat (map leaves es)"
| "leaves e = [e]"

definition all_leaves :: "mongo_error option \<Rightarrow> mongo_error list" where
  "all_leaves e = (case e of None \<Rightarrow> [] | Some x \<Rightarrow> leaves x)"

lemma all_leaves_simps [simp]:
  "all_leaves None = []" "all_leaves (Some x) = leaves x" "all_leaves (join_errors f e) = all_leaves f @ leaves e" "join_errors f e \<noteq> None"
  by (auto simp: all_leaves_def join_errors_def split: option.split)

lemma clients_at_simps [simp]:
  "clients_at [] m = []"
  "clients_at (k # ks) m = (case cluster_get k m of None \<Rightarrow> [] | Some manager \<Rightarrow>
     (case mm_client manager of None \<Rightarrow> [] | Some c \<Rightarrow> [c])) @ clients_at ks m"
  by (simp_all add: clients_at_def)

lemma destroy_loop_ok:
  "destroy_loop d ks m f w = (e, w') \<Longrightarrow>
   dw_ends w' = dw_ends w @ clients_at ks m \<and> fset (dw_open w') = fset (dw_open w) - set (clients_at ks m) \<and>
   dw_made w' = dw_made w \<and> all_leaves e = all_leaves f @ concat (map (\<lambda>c. all_leaves (de_disconnect d c)) (clients_at ks m)) \<and>
   (e = None \<longleftrightarrow> f = None \<and> (\<forall>c \<in> set (clients_at ks m). de_disconnect d c = None))"
proof (induction ks arbitrary: f w)
  case (Cons k ks)
  show ?case
  proof (cases "cluster_get k m")
    case None
    then show ?thesis using Cons by simp
  next
    case mg: (Some manager)
    show ?thesis
    proof (cases "mm_client manager")
      case None
      then show ?thesis using Cons mg by simp
    next
      case (Some c)
      let ?w = "w\<lparr>dw_open := dw_open w |-| {|c|}, dw_ends := dw_ends w @ [c]\<rparr>"
      let ?f = "(case de_disconnect d c of None \<Rightarrow> f | Some x \<Rightarrow> join_errors f x)"
      have run: "destroy_loop d ks m ?f ?w = (e, w')"
        using Cons.prems mg Some by (simp add: driver_disconnect_def split: option.splits)
      show ?thesis
      proof (cases "de_disconnect d c")
        case None
        then show ?thesis using Cons.IH [OF run] mg Some by auto
      next
        case err: (Some x)
        then show ?thesis using Cons.IH [OF run [unfolded err option.case]] mg Some by auto
      qed
    qed
  qed
qed simp

lemma clients_at_all:
  assumes "set ks = fset (fmdom m)"
  shows "set (clients_at ks m) = clients_of m"
proof -
  have "c \<in> set (clients_at ks m) \<longleftrightarrow> (\<exists>k mg. k \<in> set ks \<and> fmlookup m k = Some (Some mg) \<and> mm_client mg = Some c)" for c
    by (induction ks) (auto simp: cluster_get_def split: option.splits)
  moreover have "fmlookup m k = Some (Some mg) \<Longrightarrow> k \<in> set ks" for k mg
    using assms by (metis fmdomI)
  ultimately show ?thesis unfolding clients_of_def by blast
qed

lemma clients_at_length: "length (clients_at ks m) \<le> length ks"
  by (induction ks) (auto split: option.splits)

lemma clients_at_once:
  assumes "enumerates ks' m" and "clients_of m = new" and "card new = length ks" and "distinct ks"
    and "\<forall>k. k \<notin> set ks \<longrightarrow> fmlookup m k = None"
  shows "set (clients_at ks' m) = new" and "distinct (clients_at ks' m)"
proof -
  show s: "set (clients_at ks' m) = new" using clients_at_all [OF enumerates_set [OF assms(1)]] assms(2) by simp
  have "fset (fmdom m) \<subseteq> set ks" using assms(5) by (metis fmdomE option.distinct(1) subsetI)
  then have "length ks' \<le> length ks"
    using enumerates_set [OF assms(1)] assms(1,4) by (metis card_mono distinct_card enumerates_def finite_set)
  then have "length (clients_at ks' m) \<le> card (set (clients_at ks' m))"
    using clients_at_length [of ks' m] assms(3) s by simp
  then show "distinct (clients_at ks' m)" by (metis card_distinct card_length le_antisym)
qed

text \<open>After the initialisation the manager of every node is there, with its name and a client of its own.\<close>

lemma managers_ready:
  assumes "set ks = fset (fmdom nodes)" and "\<forall>k \<in> set ks. node_ready nodes n made m k" and "\<forall>k. k \<notin> set ks \<longrightarrow> fmlookup m k = None"
    and "gw_cluster g = Some m"
  shows "case fmlookup nodes k of None \<Rightarrow> get_manager k g = None
    | Some node \<Rightarrow> (\<exists>c manager client. node = Some c \<and> get_manager k g = Some manager \<and> mm_name manager = mc_Name c \<and>
        mm_client manager = Some client \<and> client \<in> clients_of m \<and> options_for c (made ! client))"
proof (cases "fmlookup nodes k")
  case None
  then have "k \<notin> set ks" using assms(1) by (metis fmdomE option.distinct(1))
  then show ?thesis using None assms(3,4) by (simp add: get_manager_def cluster_get_def)
next
  case (Some node)
  then have "k \<in> set ks" using assms(1) by (metis fmdomI)
  then obtain c mg cl where x: "fmlookup nodes k = Some (Some c)" "fmlookup m k = Some (Some mg)" "mm_name mg = mc_Name c" "mm_client mg = Some cl"
    "options_for c (made ! cl)"
    using assms(2) unfolding node_ready_def by meson
  then have "cl \<in> clients_of m" unfolding clients_of_def by blast
  then show ?thesis using x Some assms(4) by (simp add: get_manager_def cluster_get_def)
qed

text \<open>No two nodes share a client: there are as many clients as nodes, and every client belongs to a node.\<close>

definition node_client :: "string \<Rightarrow> cluster \<Rightarrow> nat option" where
  "node_client k m = (case cluster_get k m of None \<Rightarrow> None | Some manager \<Rightarrow> mm_client manager)"

lemma clients_unshared:
  assumes "clients_of m = new" and "card new = length ks" and "finite new" and "\<forall>k. k \<notin> set ks \<longrightarrow> fmlookup m k = None"
    and "node_client k m = Some c" and "node_client j m = Some c"
  shows "j = k"
proof -
  have dom: "i \<in> set ks" if "node_client i m = Some x" for i x
    using that assms(4) by (auto simp: node_client_def cluster_get_def split: option.splits)
  have "\<exists>i. node_client i m = Some x" if x: "x \<in> new" for x
  proof -
    obtain i manager where "fmlookup m i = Some (Some manager)" "mm_client manager = Some x"
      using x unfolding assms(1) [symmetric] clients_of_def by blast
    then have "node_client i m = Some x" by (simp add: node_client_def cluster_get_def)
    then show ?thesis by blast
  qed
  then have "Some ` new \<subseteq> (\<lambda>i. node_client i m) ` set ks" using dom by (force simp: image_iff)
  then have "card (Some ` new) \<le> card ((\<lambda>i. node_client i m) ` set ks)" by (intro card_mono) simp_all
  moreover have "card (Some ` new) = length ks" using assms(2) by (simp add: card_image)
  ultimately have "card ((\<lambda>i. node_client i m) ` set ks) = card (set ks)"
    by (metis List.finite_set card_image_le card_length le_antisym le_trans)
  then have "inj_on (\<lambda>i. node_client i m) (set ks)" by (intro eq_card_imp_inj_on) simp_all
  from inj_onD [OF this _ dom [OF assms(6)] dom [OF assms(5)]] show ?thesis using assms(5,6) by simp
qed

text \<open>
  C35: \<open>InitConfiguration\<close> connects one client for each node, and \<open>Destroy\<close> disconnects each of them once. After an
  initialisation without error, every configured node, and no other, has a manager with the
  configured name and a client of its own, made by this call with the options that the configuration of the
  node asks for (address, user, password, mechanism, pool sizes, timeout). \<open>Destroy\<close>, in whatever order it visits
  the nodes and whatever the driver answers, then asks every one of these clients to disconnect
  exactly once and reports all errors; it leaves the managers in place, so that a second
  initialisation is still refused. An initialisation that fails returns the error of a node (no configuration, or what the
  driver answers to its options) and sets nothing, but the clients it has connected before the failing node
  stay connected: nobody holds them any more. The calls come one after another.
\<close>

theorem mongo_init_and_destroy:
  assumes "world_inv (gw_driver g)" and "gw_cluster g = None" and "enumerates ks (cc_Nodes conf)"
    and "init_configuration d ks (Some conf) g = (err, g')"
  defines "new \<equiv> {dw_clients (gw_driver g)..<dw_clients (gw_driver g')}"
  shows "fset (dw_open (gw_driver g')) = fset (dw_open (gw_driver g)) \<union> new \<and> dw_ends (gw_driver g') = dw_ends (gw_driver g) \<and>
    (case err of
       Some e \<Rightarrow> gw_cluster g' = None \<and> card new < length ks \<and> (\<exists>k \<in> set ks. node_fails d (cc_Nodes conf) e k)
     | None \<Rightarrow> card new = length ks \<and>
         (\<forall>k j c m. gw_cluster g' = Some m \<and> node_client k m = Some c \<and> node_client j m = Some c \<longrightarrow> j = k) \<and>
         (\<forall>k. case fmlookup (cc_Nodes conf) k of
              None \<Rightarrow> get_manager k g' = None
            | Some node \<Rightarrow> (\<exists>c manager client. node = Some c \<and> get_manager k g' = Some manager \<and> mm_name manager = mc_Name c \<and>
                mm_client manager = Some client \<and> client \<in> new \<and> options_for c (dw_made (gw_driver g') ! client))) \<and>
         (\<forall>m ks' e g''. gw_cluster g' = Some m \<and> enumerates ks' m \<and> mongo_destroy d ks' g' = (e, g'') \<longrightarrow>
            (\<exists>cs. dw_ends (gw_driver g'') = dw_ends (gw_driver g') @ cs \<and> distinct cs \<and> set cs = new \<and>
               all_leaves e = concat (map (\<lambda>c. all_leaves (de_disconnect d c)) cs)) \<and>
            fset (dw_open (gw_driver g'')) = fset (dw_open (gw_driver g)) \<and>
            fst (init_configuration d ks (Some conf) g'') = Some ErrMongoDriverAlreadyInit))"
proof -
  let ?n = "dw_clients (gw_driver g)" and ?nodes = "cc_Nodes conf"
  have ks: "distinct ks" "set ks = fset (fmdom ?nodes)" "set ks \<subseteq> fset (fmdom ?nodes)" using assms(3) enumerates_set [OF assms(3)] by (simp_all add: enumerates_def)
  obtain r w where i: "init_nodes d ks ?nodes fmempty (gw_driver g) = (r, w)" by (metis prod.exhaust)
  note ok = init_nodes_ok [OF i assms(1) ks(1,3)]
  show ?thesis
  proof (cases r)
    case (Inl e)
    then have "err = Some e" "g' = g\<lparr>gw_driver := w\<rparr>" using assms(2,4) i by (simp_all add: init_configuration_def)
    then show ?thesis using ok Inl assms(2) by (auto simp: new_def)
  next
    case (Inr m)
    then have g': "err = None" "g' = g\<lparr>gw_cluster := Some m, gw_driver := w\<rparr>"
      using assms(2,4) i by (simp_all add: init_configuration_def)
    have m: "clients_of m = new" "card new = length ks" "\<forall>k \<in> set ks. node_ready ?nodes ?n (dw_made w) m k" "\<forall>k. k \<notin> set ks \<longrightarrow> fmlookup m k = None"
      using ok Inr g' by (auto simp: new_def clients_of_def)
    have nodes: "case fmlookup ?nodes k of None \<Rightarrow> get_manager k g' = None
        | Some node \<Rightarrow> (\<exists>c manager client. node = Some c \<and> get_manager k g' = Some manager \<and> mm_name manager = mc_Name c \<and>
            mm_client manager = Some client \<and> client \<in> new \<and> options_for c (dw_made (gw_driver g') ! client))" for k
    proof -
      have "gw_driver g' = w" "gw_cluster g' = Some m" using g'(2) by simp_all
      then show ?thesis using managers_ready [OF ks(2) m(3,4), of g' k] unfolding m(1) by metis
    qed
    have destroy: "(\<exists>cs. dw_ends (gw_driver g'') = dw_ends (gw_driver g') @ cs \<and> distinct cs \<and> set cs = new \<and>
          all_leaves e = concat (map (\<lambda>c. all_leaves (de_disconnect d c)) cs)) \<and>
        fset (dw_open (gw_driver g'')) = fset (dw_open (gw_driver g)) \<and>
        fst (init_configuration d ks (Some conf) g'') = Some ErrMongoDriverAlreadyInit"
      if en: "enumerates ks' m" and dr: "mongo_destroy d ks' g' = (e, g'')" for ks' e g''
    proof -
      obtain w2 where w2: "destroy_loop d ks' m None w = (e, w2)" "g'' = g'\<lparr>gw_driver := w2\<rparr>"
        using dr g' by (auto simp: mongo_destroy_def cluster_destroy_def split: prod.splits)
      note s = clients_at_once [OF en m(1,2) ks(1) m(4)]
      have "fset (dw_open (gw_driver g)) \<inter> new = {}" using assms(1) by (auto simp: world_inv_def new_def)
      moreover have "fset (dw_open w) = fset (dw_open (gw_driver g)) \<union> new" using ok g' by (simp add: new_def)
      ultimately show ?thesis
        using destroy_loop_ok [OF w2(1)] w2(2) s g' by (auto simp: init_configuration_def)
    qed
    have "finite new" by (simp add: new_def)
    note own = clients_unshared [OF m(1,2) this m(4)]
    show ?thesis using ok g' m(2) nodes destroy own unfolding new_def by auto
  qed
qed

definition demo_mongo :: "string \<Rightarrow> mongo_config" where
  "demo_mongo url = \<lparr>mc_Name = ''n-'' @ url, mc_Url = url, mc_User = [], mc_Password = [], mc_ConnectTimeout = 0, mc_MaxPoolSize = 0,
     mc_MinPoolSize = 0, mc_AuthMechanism = []\<rparr>"

definition demo_driver :: driver_env where
  "demo_driver = \<lparr>de_connect = \<lambda>opts. if co_URI opts = ''down'' then Some (DriverError ''no server'') else None, de_disconnect = \<lambda>c. None\<rparr>"

definition demo_world :: global_world where
  "demo_world = \<lparr>gw_cluster = None, gw_driver = \<lparr>dw_made = replicate 3 (client_options_of (demo_mongo ''old'')), dw_open = {||}, dw_ends = []\<rparr>\<rparr>"

theorem mongo_init_and_destroy_witness:
  "\<exists>g g1. init_configuration demo_driver [''a'', ''b''] (Some \<lparr>cc_Nodes = fmupd ''b'' (Some (demo_mongo ''down'')) (fmupd ''a'' (Some (demo_mongo ''up'')) fmempty)\<rparr>)
       demo_world = (Some (DriverError ''no server''), g) \<and> gw_cluster g = None \<and> fset (dw_open (gw_driver g)) = {3} \<and>
     init_configuration demo_driver [''a''] (Some \<lparr>cc_Nodes = fmupd ''a'' (Some (demo_mongo ''up'')) fmempty\<rparr>) demo_world = (None, g1) \<and>
     (\<exists>manager. get_manager ''a'' g1 = Some manager \<and> mm_name manager = ''n-up'' \<and> mm_client manager = Some 3 \<and>
       options_for (demo_mongo ''up'') (dw_made (gw_driver g1) ! 3))"
proof -
  let ?two = "\<lparr>cc_Nodes = fmupd ''b'' (Some (demo_mongo ''down'')) (fmupd ''a'' (Some (demo_mongo ''up'')) fmempty)\<rparr>"
  let ?one = "\<lparr>cc_Nodes = fmupd ''a'' (Some (demo_mongo ''up'')) fmempty\<rparr>"
  note defs = init_configuration_def init_manager_def driver_connect_def demo_driver_def demo_world_def demo_mongo_def client_options_of_def
  have w: "world_inv (gw_driver demo_world)" and n: "gw_cluster demo_world = None"
    by (simp_all add: demo_world_def world_inv_def)
  have two: "enumerates [''a'', ''b''] (cc_Nodes ?two)" and one: "enumerates [''a''] (cc_Nodes ?one)"
    by (auto simp: enumerates_def)
  obtain g where g: "init_configuration demo_driver [''a'', ''b''] (Some ?two) demo_world = (Some (DriverError ''no server''), g)"
      "dw_clients (gw_driver g) = 4" by (simp add: defs)
  obtain g1 where g1: "init_configuration demo_driver [''a''] (Some ?one) demo_world = (None, g1)" "dw_clients (gw_driver g1) = 4"
    by (simp add: defs)
  have d: "dw_clients (gw_driver demo_world) = 3" "fset (dw_open (gw_driver demo_world)) = {}" by (simp_all add: demo_world_def)
  have a: "gw_cluster g = None \<and> fset (dw_open (gw_driver g)) = {3}"
    using mongo_init_and_destroy [OF w n two g(1)] g(2) d by auto
  have "\<forall>k. case fmlookup (cc_Nodes ?one) k of None \<Rightarrow> get_manager k g1 = None
      | Some node \<Rightarrow> (\<exists>c manager client. node = Some c \<and> get_manager k g1 = Some manager \<and> mm_name manager = mc_Name c \<and>
          mm_client manager = Some client \<and> client \<in> {3..<4} \<and> options_for c (dw_made (gw_driver g1) ! client))"
    using mongo_init_and_destroy [OF w n one g1(1)] unfolding d g1(2) option.case by blast
  from spec [OF this, of "''a''"] obtain manager client where x: "get_manager ''a'' g1 = Some manager" "mm_name manager = mc_Name (demo_mongo ''up'')"
      "mm_client manager = Some client" "client \<in> {3..<4}" "options_for (demo_mongo ''up'') (dw_made (gw_driver g1) ! client)"
    by auto
  then have "client = 3" by simp
  with x have "\<exists>manager. get_manager ''a'' g1 = Some manager \<and> mm_name manager = ''n-up'' \<and> mm_client manager = Some 3 \<and>
      options_for (demo_mongo ''up'') (dw_made (gw_driver g1) ! 3)"
    by (simp add: demo_mongo_def)
  with a g g1 show ?thesis by blast
qed

section \<open>Collections\<close>

text \<open>\<open>ctx\<close> may be nil; the operations replace it by the background context.\<close>

datatype context_value = Background | Ctx nat

definition or_background :: "context_value option \<Rightarrow> context_value" where
  "or_background ctx = (case ctx of None \<Rightarrow> Background | Some c \<Rightarrow> c)"

text \<open>
  The calls that reach the driver, with the context, the filter and the update. A document is a
  \<open>'t\<close>, a filter and an update a document of values \<open>'v\<close>.
\<close>

datatype ('t, 'v) db_call =
    DInsertOne context_value 't | DInsertMany context_value "'t option list" | DFindOne context_value "'v doc"
  | DFind context_value "'v doc" | DUpdateOne context_value "'v doc" "'v doc" | DUpdateMany context_value "'v doc" "'v doc"
  | DDeleteOne context_value "'v doc" | DDeleteMany context_value "'v doc" | DCount context_value "'v doc" | DEstimated context_value
  | DCursorClose context_value

type_synonym ('r, 't, 'v) op_result = "(mongo_error + 'r) \<times> ('t, 'v) db_call list"

text \<open>An operation that only passes its call on: the answer of the driver is the argument.\<close>

definition passes :: "(mongo_error + 'r) \<Rightarrow> ('t, 'v) db_call \<Rightarrow> ('r, 't, 'v) op_result" where
  "passes answer c = (answer, [c])"

definition create_collection :: "string \<Rightarrow> string \<Rightarrow> string \<Rightarrow> global_world \<Rightarrow> (mongo_error + nat \<times> string \<times> string) option" where
  "create_collection nodeName dbName tableName g =
     (case get_manager nodeName g of
        None \<Rightarrow> Some (Inl ErrNoManager)
      | Some m \<Rightarrow> map_option (\<lambda>(c, db). Inr (c, db, tableName)) (mm_Database m dbName))"

definition to_object_id :: "(string \<Rightarrow> mongo_error + 'v bson) \<Rightarrow> string \<Rightarrow> mongo_error + 'v bson" where
  "to_object_id from_hex i = from_hex i"

definition insert_one :: "(mongo_error + 'r) \<Rightarrow> context_value option \<Rightarrow> 't option \<Rightarrow> ('r, 't, 'v) op_result" where
  "insert_one answer ctx document =
     (case document of None \<Rightarrow> (Inl ErrNilDocument, []) | Some t \<Rightarrow> passes answer (DInsertOne (or_background ctx) t))"

definition insert_many :: "(mongo_error + 'r) \<Rightarrow> context_value option \<Rightarrow> 't option list \<Rightarrow> ('r, 't, 'v) op_result" where
  "insert_many answer ctx documents =
     (if documents = [] then (Inl ErrNilDocument, []) else passes answer (DInsertMany (or_background ctx) documents))"

text \<open>\<open>FindOne\<close>: the single result is an error or a document that can be decoded or not.\<close>

definition find_one :: "(mongo_error + 'd) \<Rightarrow> ('d \<Rightarrow> mongo_error + 't) \<Rightarrow> context_value option \<Rightarrow> 'v doc \<Rightarrow> ('t, 't, 'v) op_result" where
  "find_one answer decode ctx flt =
     (if flt = [] then (Inl ErrFindFilterNil, [])
      else ((case answer of Inl e \<Rightarrow> Inl e | Inr d \<Rightarrow> decode d), [DFindOne (or_background ctx) flt]))"

definition find_cursor :: "(mongo_error + 'cur) \<Rightarrow> context_value option \<Rightarrow> 'v doc \<Rightarrow> ('cur, 't, 'v) op_result" where
  "find_cursor answer ctx flt =
     (if flt = [] then (Inl ErrFindFilterNil, []) else passes answer (DFind (or_background ctx) flt))"

text \<open>A cursor: the documents \<open>Next\<close> still finds, and the error that has ended it.\<close>

type_synonym 'd cursor = "'d list \<times> mongo_error option"

fun cursor_loop :: "('d \<Rightarrow> mongo_error + 't) \<Rightarrow> 'd list \<Rightarrow> mongo_error option \<Rightarrow> 't list \<Rightarrow> mongo_error + 't list" where
  "cursor_loop decode [] failed results = (case failed of Some e \<Rightarrow> Inl e | None \<Rightarrow> Inr results)"
| "cursor_loop decode (d # ds) failed results =
     (case decode d of Inl e \<Rightarrow> Inl e | Inr item \<Rightarrow> cursor_loop decode ds failed (results @ [item]))"

definition find_all :: "(mongo_error + 'd cursor) \<Rightarrow> ('d \<Rightarrow> mongo_error + 't) \<Rightarrow> context_value option \<Rightarrow> 'v doc \<Rightarrow> ('t list, 't, 'v) op_result" where
  "find_all answer decode ctx flt =
     (if flt = [] then (Inl ErrFindFilterNil, [])
      else
        (case find_cursor answer (Some (or_background ctx)) flt of
           (Inl e, calls) \<Rightarrow> (Inl e, calls)
         | (Inr (ds, failed), calls) \<Rightarrow> (cursor_loop decode ds failed [], calls @ [DCursorClose (or_background ctx)])))"

definition update_one :: "(mongo_error + 'r) \<Rightarrow> context_value option \<Rightarrow> 'v doc \<Rightarrow> 'v doc \<Rightarrow> ('r, 't, 'v) op_result" where
  "update_one answer ctx flt upd =
     (if flt = [] then (Inl ErrFindFilterNil, [])
      else if upd = [] then (Inl ErrNoDocuments, [])
      else passes answer (DUpdateOne (or_background ctx) flt upd))"

definition id_filter :: "'v bson \<Rightarrow> 'v doc" where
  "id_filter objectId = fb_build [''_id''] (fb_EQ ''_id'' objectId new_filter_builder)"

definition update_one_by_id :: "(string \<Rightarrow> mongo_error + 'v bson) \<Rightarrow> (mongo_error + 'r) \<Rightarrow> context_value option \<Rightarrow> string \<Rightarrow> 'v doc \<Rightarrow> ('r, 't, 'v) op_result" where
  "update_one_by_id from_hex answer ctx i upd =
     (case to_object_id from_hex i of
        Inl e \<Rightarrow> (Inl e, [])
      | Inr objectId \<Rightarrow> update_one answer (Some (or_background ctx)) (id_filter objectId) upd)"

definition update_many :: "(mongo_error + 'r) \<Rightarrow> context_value option \<Rightarrow> 'v doc \<Rightarrow> 'v doc \<Rightarrow> ('r, 't, 'v) op_result" where
  "update_many answer ctx flt upd =
     (if flt = [] then (Inl ErrFindFilterNil, [])
      else if upd = [] then (Inl ErrNoDocuments, [])
      else passes answer (DUpdateMany (or_background ctx) flt upd))"

definition delete_one :: "(mongo_error + 'r) \<Rightarrow> context_value option \<Rightarrow> 'v doc \<Rightarrow> ('r, 't, 'v) op_result" where
  "delete_one answer ctx flt =
     (if flt = [] then (Inl ErrFindFilterNil, []) else passes answer (DDeleteOne (or_background ctx) flt))"

definition delete_one_by_id :: "(string \<Rightarrow> mongo_error + 'v bson) \<Rightarrow> (mongo_error + 'r) \<Rightarrow> context_value option \<Rightarrow> string \<Rightarrow> ('r, 't, 'v) op_result" where
  "delete_one_by_id from_hex answer ctx i =
     (case to_object_id from_hex i of
        Inl e \<Rightarrow> (Inl e, [])
      | Inr objectId \<Rightarrow> delete_one answer (Some (or_background ctx)) (id_filter objectId))"

definition delete_many :: "(mongo_error + 'r) \<Rightarrow> context_value option \<Rightarrow> 'v doc \<Rightarrow> ('r, 't, 'v) op_result" where
  "delete_many answer ctx flt =
     (if flt = [] then (Inl ErrFindFilterNil, []) else passes answer (DDeleteMany (or_background ctx) flt))"

definition count_documents :: "(mongo_error + int) \<Rightarrow> context_value option \<Rightarrow> 'v doc \<Rightarrow> (int, 't, 'v) op_result" where
  "count_documents answer ctx flt = passes answer (DCount (or_background ctx) flt)"

definition estimated_count :: "(mongo_error + int) \<Rightarrow> context_value option \<Rightarrow> (int, 't, 'v) op_result" where
  "estimated_count answer ctx = passes answer (DEstimated (or_background ctx))"

section \<open>What reaches the database\<close>

text \<open>
  A call that names its documents: it does not find, update, delete or count with the empty filter, which matches
  every document.
\<close>

fun guarded :: "('t, 'v) db_call \<Rightarrow> bool" where
  "guarded (DFindOne c flt) \<longleftrightarrow> flt \<noteq> []" | "guarded (DFind c flt) \<longleftrightarrow> flt \<noteq> []"
| "guarded (DUpdateOne c flt upd) \<longleftrightarrow> flt \<noteq> [] \<and> upd \<noteq> []" | "guarded (DUpdateMany c flt upd) \<longleftrightarrow> flt \<noteq> [] \<and> upd \<noteq> []"
| "guarded (DDeleteOne c flt) \<longleftrightarrow> flt \<noteq> []" | "guarded (DDeleteMany c flt) \<longleftrightarrow> flt \<noteq> []"
| "guarded (DInsertMany c ts) \<longleftrightarrow> ts \<noteq> []" | "guarded (DInsertOne c t) \<longleftrightarrow> True" | "guarded (DCount c flt) \<longleftrightarrow> flt \<noteq> []"
| "guarded (DEstimated c) \<longleftrightarrow> True" | "guarded (DCursorClose c) \<longleftrightarrow> True"

text \<open>
  The contract of an operation: with something missing it returns the error of the first check that fails and calls
  nothing; otherwise it makes its calls and returns what the driver answers.
\<close>

definition checked :: "(bool \<times> mongo_error) list \<Rightarrow> (mongo_error + 'r) \<Rightarrow> ('t, 'v) db_call list \<Rightarrow> ('r, 't, 'v) op_result" where
  "checked checks answer calls = (case filter fst checks of [] \<Rightarrow> (answer, calls) | c # cs \<Rightarrow> (Inl (snd c), []))"

text \<open>What reading a cursor to its end gives: its documents if all can be decoded and it has not failed, or the first error.\<close>

inductive reads_cursor :: "('d \<Rightarrow> mongo_error + 't) \<Rightarrow> 'd list \<Rightarrow> mongo_error option \<Rightarrow> mongo_error + 't list \<Rightarrow> bool" for decode where
  all: "map decode ds = map Inr ts \<Longrightarrow> reads_cursor decode ds None (Inr ts)"
| failed: "map decode ds = map Inr ts \<Longrightarrow> reads_cursor decode ds (Some e) (Inl e)"
| undecodable: "map decode ds = map Inr ts \<Longrightarrow> decode d = Inl e \<Longrightarrow> reads_cursor decode (ds @ d # rest) failed (Inl e)"

lemma id_filter_eq [simp]: "id_filter i = [(''_id'', BDoc [(''$eq'', i)])]"
  by (simp add: id_filter_def fb_EQ_def add_operator_def new_filter_builder_def fb_build_def)

lemma cursor_loop_reads:
  "map decode pre = map Inr ts \<Longrightarrow> reads_cursor decode (pre @ ds) failed (cursor_loop decode ds failed ts)"
proof (induction ds arbitrary: pre ts)
  case Nil
  then show ?case by (auto split: option.split intro: reads_cursor.intros)
next
  case (Cons d ds)
  show ?case
  proof (cases "decode d")
    case (Inl e)
    then show ?thesis using Cons.prems by (auto intro: reads_cursor.intros)
  next
    case (Inr t)
    then have "map decode (pre @ [d]) = map Inr (ts @ [t])" using Cons.prems by simp
    from Cons.IH [OF this] show ?thesis using Inr by simp
  qed
qed

text \<open>
  C36: No operation of a collection finds, updates or deletes without a filter, updates with nothing or inserts
  nothing. Such a call never reaches the driver, and the operation returns the error that says what is missing:
  \<open>ErrNilDocument\<close> for no document, \<open>ErrFindFilterNil\<close> for no filter, \<open>ErrNoDocuments\<close> for no update,
  the filter being looked at first. Otherwise exactly the call asked for is made, in the given context or the
  background one, and its answer is returned. A call by identifier reaches exactly the document with this
  identifier; if the identifier cannot be read it returns that error and calls nothing. \<open>FindOne\<close> returns
  the document, decoded, or the error of the search or of the decoding. \<open>FindAll\<close> returns all documents the
  cursor has found, in order and decoded, or the first error, never a part of them; it closes the cursor, once and
  last, exactly if it has got one. \<open>Count\<close> is the exception: it passes every filter on, also the empty one,
  with which it counts the whole collection; \<open>EstimatedDocumentCount\<close> takes no filter.
\<close>

theorem collection_calls_guarded:
  "let c = or_background ctx in
   insert_one a1 ctx t = checked [(t = None, ErrNilDocument)] a1 (map (DInsertOne c) (case t of None \<Rightarrow> [] | Some x \<Rightarrow> [x])) \<and>
   insert_many a2 ctx ts = checked [(ts = [], ErrNilDocument)] a2 [DInsertMany c ts] \<and>
   find_one a3 dec ctx flt = checked [(flt = [], ErrFindFilterNil)] (case a3 of Inl e \<Rightarrow> Inl e | Inr d \<Rightarrow> dec d) [DFindOne c flt] \<and>
   find_cursor a4 ctx flt = checked [(flt = [], ErrFindFilterNil)] a4 [DFind c flt] \<and>
   (\<exists>r. find_all a5 dec ctx flt = checked [(flt = [], ErrFindFilterNil)] r (DFind c flt # (case a5 of Inl e \<Rightarrow> [] | Inr cur \<Rightarrow> [DCursorClose c])) \<and>
      (case a5 of Inl e \<Rightarrow> r = Inl e | Inr (ds, failed) \<Rightarrow> reads_cursor dec ds failed r)) \<and>
   update_one a6 ctx flt upd = checked [(flt = [], ErrFindFilterNil), (upd = [], ErrNoDocuments)] a6 [DUpdateOne c flt upd] \<and>
   update_many a7 ctx flt upd = checked [(flt = [], ErrFindFilterNil), (upd = [], ErrNoDocuments)] a7 [DUpdateMany c flt upd] \<and>
   delete_one a8 ctx flt = checked [(flt = [], ErrFindFilterNil)] a8 [DDeleteOne c flt] \<and>
   delete_many a9 ctx flt = checked [(flt = [], ErrFindFilterNil)] a9 [DDeleteMany c flt] \<and>
   update_one_by_id hex a6 ctx i upd = (case hex i of
      Inl e \<Rightarrow> (Inl e, []) | Inr oid \<Rightarrow> checked [(upd = [], ErrNoDocuments)] a6 [DUpdateOne c [(''_id'', BDoc [(''$eq'', oid)])] upd]) \<and>
   delete_one_by_id hex a8 ctx i = (case hex i of
      Inl e \<Rightarrow> (Inl e, []) | Inr oid \<Rightarrow> (a8, [DDeleteOne c [(''_id'', BDoc [(''$eq'', oid)])]])) \<and>
   list_all guarded (snd (insert_one a1 ctx t) @ snd (insert_many a2 ctx ts) @ snd (find_one a3 dec ctx flt) @ snd (find_cursor a4 ctx flt) @
     snd (find_all a5 dec ctx flt) @ snd (update_one a6 ctx flt upd) @ snd (update_many a7 ctx flt upd) @ snd (delete_one a8 ctx flt) @
     snd (delete_many a9 ctx flt) @ snd (update_one_by_id hex a6 ctx i upd) @ snd (delete_one_by_id hex a8 ctx i)) \<and>
   count_documents a10 ctx flt = (a10, [DCount c flt]) \<and> estimated_count a11 ctx = (a11, [DEstimated c])"
proof -
  define c where "c = or_background ctx"
  have ops: "insert_one a1 ctx t = checked [(t = None, ErrNilDocument)] a1 (map (DInsertOne c) (case t of None \<Rightarrow> [] | Some x \<Rightarrow> [x]))"
    "insert_many a2 ctx ts = checked [(ts = [], ErrNilDocument)] a2 [DInsertMany c ts]"
    "find_one a3 dec ctx flt = checked [(flt = [], ErrFindFilterNil)] (case a3 of Inl e \<Rightarrow> Inl e | Inr d \<Rightarrow> dec d) [DFindOne c flt]"
    "find_cursor a4 ctx flt = checked [(flt = [], ErrFindFilterNil)] a4 [DFind c flt]"
    "update_one a6 ctx flt upd = checked [(flt = [], ErrFindFilterNil), (upd = [], ErrNoDocuments)] a6 [DUpdateOne c flt upd]"
    "update_many a7 ctx flt upd = checked [(flt = [], ErrFindFilterNil), (upd = [], ErrNoDocuments)] a7 [DUpdateMany c flt upd]"
    "delete_one a8 ctx flt = checked [(flt = [], ErrFindFilterNil)] a8 [DDeleteOne c flt]"
    "delete_many a9 ctx flt = checked [(flt = [], ErrFindFilterNil)] a9 [DDeleteMany c flt]"
    by (simp_all add: insert_one_def insert_many_def find_one_def find_cursor_def update_one_def update_many_def delete_one_def
        delete_many_def passes_def checked_def c_def split: option.split)
  note defs = insert_one_def insert_many_def find_one_def find_cursor_def update_one_def update_many_def delete_one_def delete_many_def
    passes_def checked_def c_def or_background_def
  have ids: "update_one_by_id hex a6 ctx i upd = (case hex i of
      Inl e \<Rightarrow> (Inl e, []) | Inr oid \<Rightarrow> checked [(upd = [], ErrNoDocuments)] a6 [DUpdateOne c [(''_id'', BDoc [(''$eq'', oid)])] upd])"
    "delete_one_by_id hex a8 ctx i = (case hex i of
      Inl e \<Rightarrow> (Inl e, []) | Inr oid \<Rightarrow> (a8, [DDeleteOne c [(''_id'', BDoc [(''$eq'', oid)])]]))"
    by (simp_all add: defs update_one_by_id_def delete_one_by_id_def to_object_id_def split: sum.split option.split)
  have all: "\<exists>r. find_all a5 dec ctx flt = checked [(flt = [], ErrFindFilterNil)] r (DFind c flt # (case a5 of Inl e \<Rightarrow> [] | Inr cur \<Rightarrow> [DCursorClose c])) \<and>
      (case a5 of Inl e \<Rightarrow> r = Inl e | Inr (ds, failed) \<Rightarrow> reads_cursor dec ds failed r)"
  proof (cases a5)
    case (Inl e)
    then show ?thesis by (auto simp: defs find_all_def split: option.split)
  next
    case (Inr cur)
    obtain ds failed where "cur = (ds, failed)" by fastforce
    moreover have "reads_cursor dec ds failed (cursor_loop dec ds failed [])" using cursor_loop_reads [of dec "[]" "[]"] by simp
    ultimately show ?thesis using Inr
      by (intro exI [of _ "cursor_loop dec ds failed []"]) (auto simp: defs find_all_def split: option.split)
  qed
  have guard: "list_all guarded (snd (insert_one a1 ctx t) @ snd (insert_many a2 ctx ts) @ snd (find_one a3 dec ctx flt) @ snd (find_cursor a4 ctx flt) @
     snd (find_all a5 dec ctx flt) @ snd (update_one a6 ctx flt upd) @ snd (update_many a7 ctx flt upd) @ snd (delete_one a8 ctx flt) @
     snd (delete_many a9 ctx flt))"
    using all unfolding ops by (auto simp: checked_def split: option.split sum.split)
  have by_id: "list_all guarded (snd (update_one_by_id hex a6 ctx i upd))" "list_all guarded (snd (delete_one_by_id hex a8 ctx i))"
    by (simp_all add: ids checked_def split: sum.split)
  have "count_documents a10 ctx flt = (a10, [DCount c flt])" "estimated_count a11 ctx = (a11, [DEstimated c])"
    by (simp_all add: count_documents_def estimated_count_def passes_def c_def)
  then show ?thesis using guard unfolding Let_def c_def [symmetric] list_all_append
    by (intro conjI ops ids all by_id) simp_all
qed

end
