(* ===== verification/Go_Url.thy ===== *)
theory Go_Url
  imports Go_Strings "HOL-Library.List_Lexorder" "HOL-Library.Char_ord"
begin

text \<open>
  The part of package \<^verbatim>\<open>net/url\<close> that the sources use on query strings: escaping of
  components, \<open>url.Values\<close> with \<open>Set\<close> and \<open>Encode\<close>, and \<open>ParseQuery\<close> without its error, as
  \<open>URL.Query\<close> calls it. A Go string is a list of bytes and keys are sorted as lists of bytes. The
  parser of whole addresses is a parameter where it is used.
\<close>

section \<open>Escaping\<close>

definition hex_digit :: "nat \<Rightarrow> char" where
  "hex_digit d = char_of (if d < 10 then 48 + d else 55 + d)"

definition unhex :: "char \<Rightarrow> nat option" where
  "unhex c = (let n = of_char c :: nat in
     if 48 \<le> n \<and> n \<le> 57 then Some (n - 48)
     else if 97 \<le> n \<and> n \<le> 102 then Some (n - 87)
     else if 65 \<le> n \<and> n \<le> 70 then Some (n - 55) else None)"

definition is_alnum :: "char \<Rightarrow> bool" where
  "is_alnum c \<longleftrightarrow> (let n = of_char c :: nat in
     (48 \<le> n \<and> n \<le> 57) \<or> (65 \<le> n \<and> n \<le> 90) \<or> (97 \<le> n \<and> n \<le> 122))"

definition unreserved :: "char \<Rightarrow> bool" where
  "unreserved c \<longleftrightarrow> is_alnum c \<or> c \<in> set ''-_.~''"

definition escape_char :: "char \<Rightarrow> string" where
  "escape_char c =
     (if unreserved c then [c] else if c = CHR '' '' then ''+''
      else let n = of_char c in [CHR ''%'', hex_digit (n div 16), hex_digit (n mod 16)])"

definition query_escape :: "string \<Rightarrow> string" where
  "query_escape s = concat (map escape_char s)"

fun query_unescape :: "string \<Rightarrow> string option" where
  "query_unescape [] = Some []"
| "query_unescape (c # s) =
     (if c = CHR ''%'' then
        (case s of
           a # b # r \<Rightarrow> (case (unhex a, unhex b) of
               (Some x, Some y) \<Rightarrow> map_option ((#) (char_of (16 * x + y))) (query_unescape r)
             | _ \<Rightarrow> None)
         | _ \<Rightarrow> None)
      else map_option ((#) (if c = CHR ''+'' then CHR '' '' else c)) (query_unescape s))"

lemma char_code: "char_of (of_char c :: nat) = c"
  by simp

lemma char_less: "(of_char c :: nat) < 256"
  by (metis of_char_mod_256 mod_less_divisor zero_less_numeral)

lemma unhex_digit [simp]: "d < 16 \<Longrightarrow> unhex (hex_digit d) = Some d"
  by (auto simp: unhex_def hex_digit_def Let_def)

lemma unreserved_plain: "unreserved c \<Longrightarrow> c \<noteq> CHR ''%'' \<and> c \<noteq> CHR ''+''"
  by (auto simp: unreserved_def is_alnum_def Let_def)

lemma unescape_escape_char [simp]:
  "query_unescape (escape_char c @ s) = map_option ((#) c) (query_unescape s)"
proof (cases "unreserved c")
  case True
  then show ?thesis using unreserved_plain [OF True] by (simp add: escape_char_def)
next
  case False
  have "(of_char c :: nat) div 16 < 16" by (rule less_mult_imp_div_less) (use char_less [of c] in simp)
  then show ?thesis using False by (auto simp: escape_char_def Let_def)
qed

lemma unescape_escape [simp]: "query_unescape (query_escape s) = Some s"
  by (induction s) (simp_all add: query_escape_def)

lemma escape_avoids:
  assumes "x \<in> {CHR ''&'', CHR ''='', CHR '';''}"
  shows "x \<notin> set (query_escape s)"
proof -
  have hex: "hex_digit d \<noteq> x" if "d < 16" for d
  proof
    assume "hex_digit d = x"
    with assms unhex_digit [OF that] show False by (auto simp: unhex_def Let_def)
  qed
  have "x \<notin> set (escape_char c)" for c
  proof -
    have "(of_char c :: nat) div 16 < 16" by (rule less_mult_imp_div_less) (use char_less [of c] in simp)
    then show ?thesis using assms hex [of "of_char c div 16"] hex [of "of_char c mod 16"]
      by (auto simp: escape_char_def Let_def unreserved_def is_alnum_def)
  qed
  then show ?thesis by (auto simp: query_escape_def)
qed

section \<open>Query strings\<close>

fun split_on :: "char \<Rightarrow> string \<Rightarrow> string list" where
  "split_on c [] = [[]]"
| "split_on c (x # s) =
     (if x = c then [] # split_on c s
      else case split_on c s of p # ps \<Rightarrow> (x # p) # ps | [] \<Rightarrow> [[x]])"

fun join_with :: "char \<Rightarrow> string list \<Rightarrow> string" where
  "join_with c [] = []"
| "join_with c [p] = p"
| "join_with c (p # q # ps) = p @ [c] @ join_with c (q # ps)"

text \<open>\<open>strings.Cut\<close> at a character.\<close>

definition cut_at :: "char \<Rightarrow> string \<Rightarrow> string \<times> string" where
  "cut_at c s = (takeWhile (\<lambda>x. x \<noteq> c) s, drop 1 (dropWhile (\<lambda>x. x \<noteq> c) s))"

type_synonym url_values = "(string, string list) fmap"

definition values_set :: "string \<Rightarrow> string \<Rightarrow> url_values \<Rightarrow> url_values" where
  "values_set k v m = fmupd k [v] m"

definition values_add :: "string \<Rightarrow> string \<Rightarrow> url_values \<Rightarrow> url_values" where
  "values_add k v m = fmupd k ((case fmlookup m k of Some vs \<Rightarrow> vs | None \<Rightarrow> []) @ [v]) m"

text \<open>A piece of a query string: empty pieces, and malformed ones, are skipped.\<close>

definition parse_piece :: "string \<Rightarrow> url_values \<Rightarrow> url_values" where
  "parse_piece p m =
     (if contains_any p '';'' \<or> p = [] then m
      else case cut_at CHR ''='' p of
        (k, v) \<Rightarrow> (case (query_unescape k, query_unescape v) of
            (Some k', Some v') \<Rightarrow> values_add k' v' m
          | _ \<Rightarrow> m))"

definition parse_query :: "string \<Rightarrow> url_values" where
  "parse_query s = fold parse_piece (split_on CHR ''&'' s) fmempty"

definition query_pairs :: "url_values \<Rightarrow> (string \<times> string) list" where
  "query_pairs m = concat (map (\<lambda>k. case fmlookup m k of Some vs \<Rightarrow> map (Pair k) vs | None \<Rightarrow> [])
     (sorted_list_of_fset (fmdom m)))"

definition encode_pair :: "string \<times> string \<Rightarrow> string" where
  "encode_pair kv = query_escape (fst kv) @ ''='' @ query_escape (snd kv)"

definition encode_query :: "url_values \<Rightarrow> string" where
  "encode_query m = join_with CHR ''&'' (map encode_pair (query_pairs m))"

subsection \<open>The round trip\<close>

lemma split_on_plain: "c \<notin> set p \<Longrightarrow> split_on c p = [p]"
  by (induction p) auto

lemma split_on_append: "c \<notin> set p \<Longrightarrow> split_on c (p @ c # s) = p # split_on c s"
  by (induction p) auto

lemma split_join: "ps \<noteq> [] \<Longrightarrow> \<forall>p \<in> set ps. c \<notin> set p \<Longrightarrow> split_on c (join_with c ps) = ps"
  by (induction c ps rule: join_with.induct) (auto simp: split_on_plain split_on_append)

lemma cut_at_append: "c \<notin> set k \<Longrightarrow> cut_at c (k @ [c] @ v) = (k, v)"
  by (induction k) (auto simp: cut_at_def)

lemma encode_pair_avoids: "x \<in> {CHR ''&'', CHR '';''} \<Longrightarrow> x \<notin> set (encode_pair kv)"
  using escape_avoids [of x "fst kv"] escape_avoids [of x "snd kv"] by (auto simp: encode_pair_def)

lemma parse_encode_pair: "parse_piece (encode_pair kv) m = values_add (fst kv) (snd kv) m"
proof -
  have "cut_at CHR ''='' (encode_pair kv) = (query_escape (fst kv), query_escape (snd kv))"
    unfolding encode_pair_def by (rule cut_at_append) (rule escape_avoids, simp)
  moreover have "\<not> contains_any (encode_pair kv) '';''" "encode_pair kv \<noteq> []"
    using encode_pair_avoids [of "CHR '';''" kv] by (auto simp: contains_any_iff encode_pair_def)
  ultimately show ?thesis by (simp add: parse_piece_def)
qed

lemma fold_values_add:
  "fmlookup (fold (\<lambda>kv. values_add (fst kv) (snd kv)) ps m) k =
     (case map snd (filter (\<lambda>kv. fst kv = k) ps) of
        [] \<Rightarrow> fmlookup m k
      | v # vs \<Rightarrow> Some ((case fmlookup m k of Some ws \<Rightarrow> ws | None \<Rightarrow> []) @ v # vs))"
  by (induction ps arbitrary: m) (auto simp: values_add_def split: list.splits option.splits)

lemma fold_encoded: "fold parse_piece (map encode_pair ps) m = fold (\<lambda>kv. values_add (fst kv) (snd kv)) ps m"
  by (induction ps arbitrary: m) (simp_all add: parse_encode_pair)

lemma filter_Pair: "filter (\<lambda>kv. fst kv = k) (map (Pair a) vs) = (if a = k then map (Pair a) vs else [])"
  by (induction vs) auto

lemma filter_pairs:
  "distinct ks \<Longrightarrow> map snd (filter (\<lambda>kv. fst kv = k)
     (concat (map (\<lambda>k. case fmlookup m k of Some vs \<Rightarrow> map (Pair k) vs | None \<Rightarrow> []) ks))) =
   (if k \<in> set ks then (case fmlookup m k of Some vs \<Rightarrow> vs | None \<Rightarrow> []) else [])"
proof (induction ks)
  case (Cons a ks)
  from Cons show ?case by (auto split: option.splits simp: comp_def filter_Pair)
qed simp

text \<open>\<open>ParseQuery\<close> reads back what \<open>Encode\<close> has written, as long as no key has an empty list.\<close>

lemma parse_encode:
  assumes "\<And>k. fmlookup m k \<noteq> Some []"
  shows "parse_query (encode_query m) = m"
proof (rule fmap_ext)
  fix k
  let ?ps = "query_pairs m"
  have k: "map snd (filter (\<lambda>kv. fst kv = k) ?ps) = (case fmlookup m k of Some vs \<Rightarrow> vs | None \<Rightarrow> [])"
    unfolding query_pairs_def
    by (subst filter_pairs) (auto split: option.splits dest: fmdom_notD simp: fmdom_iff sorted_list_of_fset.rep_eq)
  show "fmlookup (parse_query (encode_query m)) k = fmlookup m k"
  proof (cases "?ps = []")
    case True
    then have "fmlookup m k = None" using k assms by (auto split: option.splits)
    then show ?thesis using True by (simp add: parse_query_def encode_query_def parse_piece_def)
  next
    case False
    have "split_on CHR ''&'' (encode_query m) = map encode_pair ?ps"
      unfolding encode_query_def using False encode_pair_avoids [of "CHR ''&''"] by (intro split_join) auto
    then have "fmlookup (parse_query (encode_query m)) k = fmlookup (fold (\<lambda>kv. values_add (fst kv) (snd kv)) ?ps fmempty) k"
      by (simp add: parse_query_def fold_encoded)
    then show ?thesis using assms [of k] by (simp add: fold_values_add k split: option.splits list.splits)
  qed
qed

lemma fold_keeps_values:
  assumes "\<And>k. fmlookup m k \<noteq> Some []"
  shows "fmlookup (fold parse_piece ps m) k \<noteq> Some []"
  using assms by (induction ps arbitrary: m)
    (auto simp: parse_piece_def values_add_def split: prod.splits option.splits if_splits)

lemma parse_query_values: "fmlookup (parse_query s) k \<noteq> Some []"
  unfolding parse_query_def by (rule fold_keeps_values) simp

end
