(* ===== verification/Http_Options.thy ===== *)
theory Http_Options
  imports Go_Url
begin

text \<open>
  \<^verbatim>\<open>common/http_utils/options.go\<close>: what \<open>HttpHeader\<close> puts into a request and into the
  settings of a client. The parts of \<^verbatim>\<open>net/http\<close>, \<^verbatim>\<open>mime/multipart\<close> and
  \<^verbatim>\<open>encoding/base64\<close> that the file uses come first. The JSON encoder, the files on disk, the
  random boundary of a multipart body and the parser of addresses are parameters.
\<close>

section \<open>Requests of package http\<close>

datatype http_error =
    ErrBodyConflict | ErrUnsupportedFile | ErrUnsupportedMethod | ErrNilResponse | ErrNoRequestHook | ErrNoResponseHook
  | ErrUnrecognizedEncoding | LibError string

text \<open>An address: its query string and the rest.\<close>

record 'u go_url =
  u_rest :: 'u
  u_RawQuery :: string

type_synonym http_headers = "(string, string list) fmap"

record 'u http_request =
  rq_Method :: string
  rq_URL :: "'u go_url"
  rq_Header :: http_headers
  rq_Body :: "string option"
  rq_ContentLength :: int
  rq_Close :: bool

text \<open>\<open>textproto.CanonicalMIMEHeaderKey\<close>: a name with a byte that no name may have stays as it is.\<close>

definition header_char :: "char \<Rightarrow> bool" where
  "header_char c \<longleftrightarrow> is_alnum c \<or> c \<in> set ''!#$%&*+-.^_`|~'' \<or> c = CHR 0x27"

fun canonical_from :: "bool \<Rightarrow> string \<Rightarrow> string" where
  "canonical_from up [] = []"
| "canonical_from up (c # s) = (if up then upper_char c else lower_char c) # canonical_from (c = CHR ''-'') s"

definition canonical_key :: "string \<Rightarrow> string" where
  "canonical_key k = (if list_all header_char k then canonical_from True k else k)"

definition header_set :: "string \<Rightarrow> string \<Rightarrow> http_headers \<Rightarrow> http_headers" where
  "header_set k v h = fmupd (canonical_key k) [v] h"

definition header_get :: "string \<Rightarrow> http_headers \<Rightarrow> string" where
  "header_get k h = (case fmlookup h (canonical_key k) of Some (v # vs) \<Rightarrow> v | _ \<Rightarrow> [])"

abbreviation set_header :: "string \<Rightarrow> string \<Rightarrow> 'u http_request \<Rightarrow> 'u http_request" where
  "set_header k v r \<equiv> r\<lparr>rq_Header := header_set k v (rq_Header r)\<rparr>"

text \<open>\<open>Request.AddCookie\<close>.\<close>

definition cookie_char :: "char \<Rightarrow> bool" where
  "cookie_char c \<longleftrightarrow> (let n = of_char c :: nat in 32 \<le> n \<and> n < 127 \<and> c \<noteq> CHR 0x22 \<and> c \<noteq> CHR '';'' \<and> c \<noteq> CHR 0x5C)"

definition cookie_name :: "string \<Rightarrow> string" where
  "cookie_name s = map (\<lambda>c. if c = CHR 0x0A \<or> c = CHR 0x0D then CHR ''-'' else c) s"

definition cookie_value :: "string \<Rightarrow> string" where
  "cookie_value s = (let v = filter cookie_char s in
     if v \<noteq> [] \<and> contains_any v '' ,'' then [CHR 0x22] @ v @ [CHR 0x22] else v)"

definition add_cookie :: "string \<Rightarrow> string \<Rightarrow> 'u http_request \<Rightarrow> 'u http_request" where
  "add_cookie name val r =
     (let s = cookie_name name @ ''='' @ cookie_value val; c = header_get ''Cookie'' (rq_Header r)
      in if c \<noteq> [] then set_header ''Cookie'' (c @ ''; '' @ s) r else set_header ''Cookie'' s r)"

text \<open>\<open>Request.SetBasicAuth\<close>.\<close>

definition base64_digit :: "nat \<Rightarrow> char" where
  "base64_digit n = ''ABCDEFGHIJKLMNOPQRSTUVWXYZabcdefghijklmnopqrstuvwxyz0123456789+/'' ! n"

fun base64 :: "nat list \<Rightarrow> string" where
  "base64 [] = []"
| "base64 [a] = [base64_digit (a div 4), base64_digit (a mod 4 * 16), CHR ''='', CHR ''='']"
| "base64 [a, b] = [base64_digit (a div 4), base64_digit (a mod 4 * 16 + b div 16), base64_digit (b mod 16 * 4), CHR ''='']"
| "base64 (a # b # c # bs) = [base64_digit (a div 4), base64_digit (a mod 4 * 16 + b div 16),
     base64_digit (b mod 16 * 4 + c div 64), base64_digit (c mod 64)] @ base64 bs"

definition basic_auth :: "string \<Rightarrow> string \<Rightarrow> string" where
  "basic_auth user password = ''Basic '' @ base64 (map of_char (user @ '':'' @ password))"

definition set_basic_auth :: "string \<Rightarrow> string \<Rightarrow> 'u http_request \<Rightarrow> 'u http_request" where
  "set_basic_auth user password r = set_header ''Authorization'' (basic_auth user password) r"

text \<open>A \<open>multipart.Writer\<close> on a buffer, which never fails.\<close>

record multipart_writer =
  mw_boundary :: string
  mw_started :: bool
  mw_buffer :: string

definition crlf :: string where "crlf = [CHR 0x0D, CHR 0x0A]"

definition create_part :: "http_headers \<Rightarrow> multipart_writer \<Rightarrow> multipart_writer" where
  "create_part h w =
     w\<lparr>mw_started := True,
       mw_buffer := mw_buffer w @ (if mw_started w then crlf else []) @ ''--'' @ mw_boundary w @ crlf @
         concat (map (\<lambda>k. concat (map (\<lambda>v. k @ '': '' @ v @ crlf) (case fmlookup h k of Some vs \<Rightarrow> vs | None \<Rightarrow> [])))
           (sorted_list_of_fset (fmdom h))) @ crlf\<rparr>"

definition part_write :: "string \<Rightarrow> multipart_writer \<Rightarrow> multipart_writer" where
  "part_write b w = w\<lparr>mw_buffer := mw_buffer w @ b\<rparr>"

definition multipart_close :: "multipart_writer \<Rightarrow> multipart_writer" where
  "multipart_close w = w\<lparr>mw_buffer := mw_buffer w @ crlf @ ''--'' @ mw_boundary w @ ''--'' @ crlf\<rparr>"

section \<open>The options\<close>

record upload_meta =
  fm_Data :: string
  fm_Src :: string
  fm_Name :: string
  fm_MIME :: string

text \<open>A value of the map \<open>Files\<close>: a pointer to a \<open>FileUploadMeta\<close>, possibly nil, a string, or anything else.\<close>

datatype file_value = FileUpload "upload_meta option" | FormField string | OtherValue

record 'j http_header =
  hh_Params :: "(string, string) fmap"
  hh_Data :: "(string, string) fmap"
  hh_Headers :: "(string, string) fmap"
  hh_Cookies :: "(string, string) fmap"
  hh_Auth :: "(string, string) fmap"
  hh_JSON :: "(string, 'j) fmap"
  hh_Files :: "(string, file_value) fmap"
  hh_RowData :: string
  hh_Proxy :: string
  hh_AllowRedirect :: bool
  hh_Timeout :: int
  hh_Chunked :: bool
  hh_DisableKeepalives :: bool
  hh_DisableCompression :: bool
  hh_SkipVerifyTLS :: bool

text \<open>The parameters: what the libraries answer.\<close>

record ('u, 'j) http_env =
  he_parse :: "string \<Rightarrow> http_error + 'u go_url"
  he_string :: "'u go_url \<Rightarrow> string"
  he_marshal :: "(string, 'j) fmap \<Rightarrow> http_error + string"
  he_read_file :: "string \<Rightarrow> http_error + string"
  he_boundary :: string
  he_quote :: "string \<Rightarrow> string"

text \<open>The orders in which one request visits the maps of its options, and the visit of a map.\<close>

record map_orders =
  mo_Params :: "string list"
  mo_Data :: "string list"
  mo_Headers :: "string list"
  mo_Cookies :: "string list"
  mo_Auth :: "string list"
  mo_Files :: "string list"

definition entries :: "'k list \<Rightarrow> ('k, 'v) fmap \<Rightarrow> ('k \<times> 'v) list" where
  "entries ks m = List.map_filter (\<lambda>k. map_option (Pair k) (fmlookup m k)) ks"

definition is_conflict :: "'j http_header \<Rightarrow> bool" where
  "is_conflict h \<longleftrightarrow> 1 < (if map_len (hh_Data h) > 0 then 1 else 0) + (if length (hh_RowData h) > 0 then 1 else 0) +
     (if map_len (hh_Files h) > 0 then 1 else 0) + (if map_len (hh_JSON h) > 0 then 1 else (0::nat))"

definition set_query :: "string list \<Rightarrow> (string, string) fmap \<Rightarrow> 'u http_request \<Rightarrow> 'u http_request" where
  "set_query ks params r =
     (let query = fold (\<lambda>kv. values_set (fst kv) (snd kv)) (entries ks params) (parse_query (u_RawQuery (rq_URL r)))
      in r\<lparr>rq_URL := (rq_URL r)\<lparr>u_RawQuery := encode_query query\<rparr>\<rparr>)"

text \<open>The end of each function that sets a body.\<close>

definition put_body :: "string \<Rightarrow> bool \<Rightarrow> 'u http_request \<Rightarrow> 'u http_request" where
  "put_body b chunked r =
     (let r1 = r\<lparr>rq_Body := Some b\<rparr> in if \<not> chunked then r1\<lparr>rq_ContentLength := int (length b)\<rparr> else r1)"

definition set_data :: "string list \<Rightarrow> (string, string) fmap \<Rightarrow> bool \<Rightarrow> 'u http_request \<Rightarrow> 'u http_request" where
  "set_data ks allData chunked r =
     (let data = fold (\<lambda>kv. values_set (fst kv) (snd kv)) (entries ks allData) fmempty
      in put_body (encode_query data) chunked (set_header ''Content-Type'' ''application/x-www-form-urlencoded'' r))"

definition set_json :: "('u, 'j) http_env \<Rightarrow> (string, 'j) fmap \<Rightarrow> bool \<Rightarrow> 'u http_request \<Rightarrow> http_error + 'u http_request" where
  "set_json env jsonData chunked r =
     (case he_marshal env jsonData of
        Inl e \<Rightarrow> Inl e
      | Inr data \<Rightarrow> Inr (put_body data chunked (set_header ''Content-Type'' ''application/json'' r)))"

definition set_row_data :: "string \<Rightarrow> bool \<Rightarrow> 'u http_request \<Rightarrow> 'u http_request" where
  "set_row_data rowData chunked r = put_body rowData chunked r"

definition escape_symbol :: "string \<Rightarrow> string" where
  "escape_symbol str = concat (map (\<lambda>c. if c = CHR 0x5C then [CHR 0x5C, CHR 0x5C] else if c = CHR 0x22 then [CHR 0x5C, CHR 0x22]
     else [c]) str)"

text \<open>\<open>fmt.Sprintf\<close> of the header of a file's part.\<close>

definition content_disposition :: "string \<Rightarrow> string \<Rightarrow> string" where
  "content_disposition key name = ''form-data; name='' @ [CHR 0x22] @ escape_symbol key @ [CHR 0x22] @
     ''; filename='' @ [CHR 0x22] @ escape_symbol name @ [CHR 0x22]"

definition process_file :: "('u, 'j) http_env \<Rightarrow> upload_meta \<Rightarrow> multipart_writer \<Rightarrow> http_error + multipart_writer" where
  "process_file env val w =
     (if fm_Data val \<noteq> [] then Inr (part_write (fm_Data val) w)
      else (case he_read_file env (fm_Src val) of Inl e \<Rightarrow> Inl e | Inr b \<Rightarrow> Inr (part_write b w)))"

text \<open>One file: \<^term>\<open>None\<close> is the panic on a nil pointer.\<close>

definition set_file :: "('u, 'j) http_env \<Rightarrow> string \<Rightarrow> file_value \<Rightarrow> multipart_writer \<Rightarrow> (http_error + multipart_writer) option" where
  "set_file env key val w =
     (case val of
        FileUpload None \<Rightarrow> None
      | FileUpload (Some m) \<Rightarrow>
          (let mimeType = (if fm_MIME m = [] then ''application/octet-stream'' else fm_MIME m);
               header = header_set ''Content-Type'' mimeType
                 (header_set ''Content-Disposition'' (content_disposition key (fm_Name m)) fmempty)
           in Some (process_file env m (create_part header w)))
      | FormField s \<Rightarrow>
          Some (Inr (part_write s (create_part (header_set ''Content-Disposition''
            (''form-data; name='' @ [CHR 0x22] @ he_quote env key @ [CHR 0x22]) fmempty) w)))
      | OtherValue \<Rightarrow> Some (Inl ErrUnsupportedFile))"

fun files_loop :: "('u, 'j) http_env \<Rightarrow> (string \<times> file_value) list \<Rightarrow> multipart_writer \<Rightarrow> (http_error + multipart_writer) option" where
  "files_loop env [] w = Some (Inr w)"
| "files_loop env (kv # kvs) w =
     (case set_file env (fst kv) (snd kv) w of
        None \<Rightarrow> None | Some (Inl e) \<Rightarrow> Some (Inl e) | Some (Inr w1) \<Rightarrow> files_loop env kvs w1)"

definition set_files :: "('u, 'j) http_env \<Rightarrow> string list \<Rightarrow> (string, file_value) fmap \<Rightarrow> bool \<Rightarrow> 'u http_request \<Rightarrow>
    (http_error + 'u http_request) option" where
  "set_files env ks files chunked r =
     (case files_loop env (entries ks files) \<lparr>mw_boundary = he_boundary env, mw_started = False, mw_buffer = []\<rparr> of
        None \<Rightarrow> None
      | Some (Inl e) \<Rightarrow> Some (Inl e)
      | Some (Inr w) \<Rightarrow> Some (Inr (put_body (mw_buffer (multipart_close w)) chunked
          (set_header ''Content-Type'' (''multipart/form-data; boundary='' @ he_boundary env) r))))"

definition set_headers :: "string list \<Rightarrow> (string, string) fmap \<Rightarrow> 'u http_request \<Rightarrow> 'u http_request" where
  "set_headers ks headers r = fold (\<lambda>kv. set_header (fst kv) (snd kv)) (entries ks headers) r"

definition set_cookies :: "string list \<Rightarrow> (string, string) fmap \<Rightarrow> 'u http_request \<Rightarrow> 'u http_request" where
  "set_cookies ks cookies r = fold (\<lambda>kv. add_cookie (fst kv) (snd kv)) (entries ks cookies) r"

definition set_auth :: "string list \<Rightarrow> (string, string) fmap \<Rightarrow> 'u http_request \<Rightarrow> 'u http_request" where
  "set_auth ks auth r = fold (\<lambda>kv. set_basic_auth (fst kv) (snd kv)) (entries ks auth) r"

text \<open>
  \<open>applyRequestOpt\<close>: the request it returns, its error, or \<^term>\<open>None\<close> for a panic. With an error the
  caller drops the request.
\<close>

definition apply_request_opt :: "('u, 'j) http_env \<Rightarrow> map_orders \<Rightarrow> 'j http_header \<Rightarrow> 'u http_request \<Rightarrow>
    (http_error + 'u http_request) option" where
  "apply_request_opt env ord h r =
     (if is_conflict h then Some (Inl ErrBodyConflict)
      else
        let r1 = (if map_len (hh_Params h) > 0 then set_query (mo_Params ord) (hh_Params h) r else r);
            r2 = (if map_len (hh_Data h) > 0 then set_data (mo_Data ord) (hh_Data h) (hh_Chunked h) r1 else r1) in
        case (if map_len (hh_JSON h) > 0 then set_json env (hh_JSON h) (hh_Chunked h) r2 else Inr r2) of
          Inl e \<Rightarrow> Some (Inl e)
        | Inr r3 \<Rightarrow>
            (case (if map_len (hh_Files h) > 0 then set_files env (mo_Files ord) (hh_Files h) (hh_Chunked h) r3 else Some (Inr r3)) of
               None \<Rightarrow> None
             | Some (Inl e) \<Rightarrow> Some (Inl e)
             | Some (Inr r4) \<Rightarrow>
                 let r5 = (if length (hh_RowData h) > 0 then set_row_data (hh_RowData h) (hh_Chunked h) r4 else r4);
                     r6 = (if map_len (hh_Headers h) > 0 then set_headers (mo_Headers ord) (hh_Headers h) r5 else r5);
                     r7 = (if map_len (hh_Cookies h) > 0 then set_cookies (mo_Cookies ord) (hh_Cookies h) r6 else r6);
                     r8 = (if map_len (hh_Auth h) > 0 then set_auth (mo_Auth ord) (hh_Auth h) r7 else r7)
                 in Some (Inr r8)))"

section \<open>The settings of a client\<close>

text \<open>
  The transports live in a store, as sessions share them by pointer. A transport that is not an
  \<open>http.Transport\<close> is opaque.
\<close>

datatype redirect_policy = NoPolicy | DisableRedirect | OtherPolicy nat

datatype 'u proxy = NoProxy | ProxyURL "'u go_url" | OtherProxy nat

record tls_settings =
  tls_InsecureSkipVerify :: bool
  tls_rest :: nat

record 'u transport =
  tp_DisableKeepAlives :: bool
  tp_DisableCompression :: bool
  tp_TLSClientConfig :: "tls_settings option"
  tp_Proxy :: "'u proxy"
  tp_rest :: nat

datatype round_tripper = StdTransport nat | OtherTransport nat

record http_client =
  hc_CheckRedirect :: redirect_policy
  hc_Timeout :: int
  hc_Transport :: "round_tripper option"

definition transport_options :: "'j http_header \<Rightarrow> 'u transport \<Rightarrow> 'u transport" where
  "transport_options h t =
     (let t1 = t\<lparr>tp_DisableKeepAlives := hh_DisableKeepalives h, tp_DisableCompression := hh_DisableCompression h\<rparr> in
      if hh_SkipVerifyTLS h then
        t1\<lparr>tp_TLSClientConfig := Some ((case tp_TLSClientConfig t1 of
             Some c \<Rightarrow> c | None \<Rightarrow> \<lparr>tls_InsecureSkipVerify = False, tls_rest = 0\<rparr>)\<lparr>tls_InsecureSkipVerify := True\<rparr>)\<rparr>
      else t1)"

definition apply_client_opt :: "('u, 'j) http_env \<Rightarrow> 'j http_header \<Rightarrow> http_client \<Rightarrow> 'u transport list \<Rightarrow>
    http_error option \<times> http_client \<times> 'u transport list" where
  "apply_client_opt env h c0 store =
     (let c1 = (if \<not> hh_AllowRedirect h then c0\<lparr>hc_CheckRedirect := DisableRedirect\<rparr> else c0);
          c = c1\<lparr>hc_Timeout := wrap64 (hh_Timeout h * 10 ^ 9)\<rparr> in
      case hc_Transport c of
        Some (StdTransport a) \<Rightarrow>
          (let store1 = store[a := transport_options h (store ! a)] in
           if hh_Proxy h \<noteq> [] then
             (case he_parse env (hh_Proxy h) of
                Inl e \<Rightarrow> (Some e, c, store1)
              | Inr u \<Rightarrow> (None, c, store1[a := (store1 ! a)\<lparr>tp_Proxy := ProxyURL u\<rparr>]))
           else (None, c, store1))
      | _ \<Rightarrow> (None, c, store))"

text \<open>The constructors of \<open>FileUploadMeta\<close>.\<close>

definition new_file :: "string \<Rightarrow> string \<Rightarrow> upload_meta" where
  "new_file filename data = \<lparr>fm_Data = data, fm_Src = [], fm_Name = filename, fm_MIME = []\<rparr>"

definition file_from_path :: "string \<Rightarrow> upload_meta" where
  "file_from_path src = \<lparr>fm_Data = [], fm_Src = src, fm_Name = path_base src, fm_MIME = []\<rparr>"

definition set_src :: "string \<Rightarrow> upload_meta \<Rightarrow> upload_meta" where
  "set_src src f = f\<lparr>fm_Src := src\<rparr>"

definition set_mime :: "string \<Rightarrow> upload_meta \<Rightarrow> upload_meta" where
  "set_mime mime f = f\<lparr>fm_MIME := mime\<rparr>"

section \<open>Visiting a map\<close>

lemma entries_Nil [simp]: "entries [] m = []"
  by (simp add: entries_def List.map_filter_def)

lemma entries_Cons [simp]:
  "entries (k # ks) m = (case fmlookup m k of None \<Rightarrow> entries ks m | Some v \<Rightarrow> (k, v) # entries ks m)"
  by (cases "fmlookup m k") (simp_all add: entries_def List.map_filter_simps)

lemma entries_keys: "set (map fst (entries ks m)) \<subseteq> set ks"
  by (induction ks) (auto split: option.splits)

lemma map_of_entries: "map_of (entries ks m) k = (if k \<in> set ks then fmlookup m k else None)"
  by (induction ks) (auto split: option.splits)

lemma entries_distinct: "distinct ks \<Longrightarrow> distinct (map fst (entries ks m))"
proof (induction ks)
  case (Cons k ks)
  then show ?case using entries_keys [of ks m] by (auto split: option.splits)
qed simp

lemma entries_enumerated:
  assumes "enumerates ks m"
  shows "map_of (entries ks m) = fmlookup m" and "distinct (map fst (entries ks m))"
    and "set (entries ks m) = {(k, v). fmlookup m k = Some v}"
proof -
  show m: "map_of (entries ks m) = fmlookup m"
  proof
    fix k show "map_of (entries ks m) k = fmlookup m k"
      using enumerates_set [OF assms] by (cases "k \<in> set ks") (simp_all add: map_of_entries fmdom_notD)
  qed
  show d: "distinct (map fst (entries ks m))" using assms by (simp add: enumerates_def entries_distinct)
  have "(k, v) \<in> set (entries ks m) \<longleftrightarrow> fmlookup m k = Some v" for k v
    unfolding m [symmetric] using d by simp
  then show "set (entries ks m) = {(k, v). fmlookup m k = Some v}" by auto
qed

text \<open>Writing pairs into a map: the last pair of a key counts, and with distinct keys the order does not.\<close>

lemma fold_fmupd:
  assumes "distinct (map (\<lambda>kv. f (fst kv)) ps)"
  shows "fmlookup (fold (\<lambda>kv. fmupd (f (fst kv)) (g (snd kv))) ps m) x =
    (case map_of (map (\<lambda>kv. (f (fst kv), g (snd kv))) ps) x of None \<Rightarrow> fmlookup m x | Some y \<Rightarrow> Some y)"
  using assms
proof (induction ps arbitrary: m)
  case (Cons p ps)
  have "map_of (map (\<lambda>kv. (f (fst kv), g (snd kv))) ps) (f (fst p)) = None"
    using Cons.prems by (simp add: map_of_eq_None_iff image_image)
  then show ?case using Cons by (auto split: option.splits)
qed simp

lemma map_of_singletons: "map_of (map (\<lambda>kv. (fst kv, [snd kv])) ps) k = map_option (\<lambda>v. [v]) (map_of ps k)"
  by (induction ps) auto

lemma values_set_all:
  assumes "enumerates ks params"
  shows "fmlookup (fold (\<lambda>kv. values_set (fst kv) (snd kv)) (entries ks params) m) k =
    (case fmlookup params k of Some v \<Rightarrow> Some [v] | None \<Rightarrow> fmlookup m k)"
proof -
  have "map_of (map (\<lambda>kv. (fst kv, [snd kv])) (entries ks params)) k = map_option (\<lambda>v. [v]) (fmlookup params k)"
    unfolding entries_enumerated(1) [OF assms, symmetric] by (rule map_of_singletons)
  then show ?thesis
    using fold_fmupd [of "\<lambda>x. x" "entries ks params" "\<lambda>v. [v]" m k] entries_enumerated(2) [OF assms]
    by (auto simp: values_set_def [abs_def] split: option.splits)
qed

section \<open>What each option does\<close>

lemma set_query_reads:
  assumes "enumerates ks params"
  shows "fmlookup (parse_query (u_RawQuery (rq_URL (set_query ks params r)))) k =
    (case fmlookup params k of Some v \<Rightarrow> Some [v] | None \<Rightarrow> fmlookup (parse_query (u_RawQuery (rq_URL r))) k)"
proof -
  let ?q = "fold (\<lambda>kv. values_set (fst kv) (snd kv)) (entries ks params) (parse_query (u_RawQuery (rq_URL r)))"
  have "fmlookup ?q x \<noteq> Some []" for x
    using parse_query_values by (simp add: values_set_all [OF assms] split: option.splits)
  then have "parse_query (encode_query ?q) = ?q" by (rule parse_encode)
  then show ?thesis by (simp add: set_query_def Let_def values_set_all [OF assms])
qed

lemma set_query_rest [simp]:
  "rq_Method (set_query ks p r) = rq_Method r" "rq_Header (set_query ks p r) = rq_Header r"
  "rq_Body (set_query ks p r) = rq_Body r" "rq_ContentLength (set_query ks p r) = rq_ContentLength r"
  "rq_Close (set_query ks p r) = rq_Close r" "u_rest (rq_URL (set_query ks p r)) = u_rest (rq_URL r)"
  by (simp_all add: set_query_def Let_def)

lemma put_body_fields [simp]:
  "rq_Method (put_body b ch r) = rq_Method r" "rq_Header (put_body b ch r) = rq_Header r" "rq_URL (put_body b ch r) = rq_URL r"
  "rq_Close (put_body b ch r) = rq_Close r" "rq_Body (put_body b ch r) = Some b"
  "rq_ContentLength (put_body b ch r) = (if ch then rq_ContentLength r else int (length b))"
  by (simp_all add: put_body_def Let_def)

lemma form_body_reads:
  assumes "enumerates ks data"
  shows "fmlookup (parse_query (encode_query (fold (\<lambda>kv. values_set (fst kv) (snd kv)) (entries ks data) fmempty))) k =
    map_option (\<lambda>v. [v]) (fmlookup data k)"
  by (subst parse_encode) (auto simp: values_set_all [OF assms] split: option.splits)

lemma fold_set_header:
  "fold (\<lambda>kv. set_header (fst kv) (snd kv)) ps r =
   r\<lparr>rq_Header := fold (\<lambda>kv. fmupd (canonical_key (fst kv)) [snd kv]) ps (rq_Header r)\<rparr>"
  by (induction ps arbitrary: r) (simp_all add: header_set_def)

lemma set_headers_sets:
  assumes "enumerates ks headers" and "inj_on canonical_key (fset (fmdom headers))"
  shows "fmlookup headers k = Some v \<Longrightarrow> fmlookup (rq_Header (set_headers ks headers r)) (canonical_key k) = Some [v]"
    and "x \<notin> canonical_key ` fset (fmdom headers) \<Longrightarrow> fmlookup (rq_Header (set_headers ks headers r)) x = fmlookup (rq_Header r) x"
proof -
  let ?ps = "entries ks headers"
  have keys: "set (map fst ?ps) = fset (fmdom headers)"
    using entries_enumerated(3) [OF assms(1)] by (force simp: fmlookup_dom_iff)
  have "distinct (map canonical_key (map fst ?ps))"
    using entries_enumerated(2) [OF assms(1)] assms(2) unfolding distinct_map [of canonical_key] keys by simp
  then have d: "distinct (map (\<lambda>kv. canonical_key (fst kv)) ?ps)" by (simp add: comp_def)
  note f = fold_fmupd [of canonical_key ?ps "\<lambda>v. [v]" "rq_Header r", OF d]
  have h: "rq_Header (set_headers ks headers r) = fold (\<lambda>kv. fmupd (canonical_key (fst kv)) [snd kv]) ?ps (rq_Header r)"
    by (simp add: set_headers_def fold_set_header)
  show "fmlookup (rq_Header (set_headers ks headers r)) (canonical_key k) = Some [v]" if "fmlookup headers k = Some v"
  proof -
    have "(k, v) \<in> set ?ps" using that entries_enumerated(3) [OF assms(1)] by simp
    then have "(canonical_key k, [v]) \<in> set (map (\<lambda>kv. (canonical_key (fst kv), [snd kv])) ?ps)" by force
    then have "map_of (map (\<lambda>kv. (canonical_key (fst kv), [snd kv])) ?ps) (canonical_key k) = Some [v]"
      using d by (intro map_of_is_SomeI) (simp_all add: comp_def)
    then show ?thesis by (simp add: h f)
  qed
  show "fmlookup (rq_Header (set_headers ks headers r)) x = fmlookup (rq_Header r) x" if "x \<notin> canonical_key ` fset (fmdom headers)"
  proof -
    have "map_of (map (\<lambda>kv. (canonical_key (fst kv), [snd kv])) ?ps) x = None"
      using that keys by (auto simp: map_of_eq_None_iff image_image)
    then show ?thesis by (simp add: h f)
  qed
qed

lemma set_headers_rest [simp]:
  "rq_Method (set_headers ks p r) = rq_Method r" "rq_Body (set_headers ks p r) = rq_Body r" "rq_URL (set_headers ks p r) = rq_URL r"
  "rq_ContentLength (set_headers ks p r) = rq_ContentLength r" "rq_Close (set_headers ks p r) = rq_Close r"
  by (simp_all add: set_headers_def fold_set_header)

text \<open>The cookies follow each other in one header.\<close>

fun semis :: "string list \<Rightarrow> string" where
  "semis [] = []" | "semis [c] = c" | "semis (c # d # cs) = c @ ''; '' @ semis (d # cs)"

definition cookie_pair :: "string \<times> string \<Rightarrow> string" where
  "cookie_pair kv = cookie_name (fst kv) @ ''='' @ cookie_value (snd kv)"

lemma canonical_names [simp]:
  "canonical_key ''Cookie'' = ''Cookie''" "canonical_key ''Authorization'' = ''Authorization''"
  "canonical_key ''Content-Type'' = ''Content-Type''" "canonical_key ''Content-Disposition'' = ''Content-Disposition''"
  "canonical_key ''User-Agent'' = ''User-Agent''"
  by code_simp+

lemma semis_append: "semis (c # cs @ [d]) = semis (c # cs) @ ''; '' @ d"
  by (induction cs arbitrary: c) simp_all

lemma semis_Cons: "ds \<noteq> [] \<Longrightarrow> semis (c # ds) = c @ ''; '' @ semis ds"
  by (cases ds) simp_all

lemma add_cookies:
  "header_get ''Cookie'' (rq_Header (fold (\<lambda>kv. add_cookie (fst kv) (snd kv)) ps r)) =
     (let c = header_get ''Cookie'' (rq_Header r) in semis ((if c = [] then [] else [c]) @ map cookie_pair ps))"
proof (induction ps arbitrary: r)
  case (Cons p ps)
  have "header_get ''Cookie'' (rq_Header (add_cookie (fst p) (snd p) r)) =
      (let c = header_get ''Cookie'' (rq_Header r) in if c = [] then cookie_pair p else c @ ''; '' @ cookie_pair p)"
    by (simp add: add_cookie_def Let_def header_get_def header_set_def cookie_pair_def)
  moreover have "cookie_pair p \<noteq> []" by (simp add: cookie_pair_def)
  ultimately show ?case using Cons.IH [of "add_cookie (fst p) (snd p) r"]
    by (cases ps) (auto simp: Let_def)
qed (simp add: Let_def)

lemma add_cookie_rest [simp]:
  "rq_Method (add_cookie n v r) = rq_Method r" "rq_Body (add_cookie n v r) = rq_Body r" "rq_URL (add_cookie n v r) = rq_URL r"
  "rq_ContentLength (add_cookie n v r) = rq_ContentLength r" "rq_Close (add_cookie n v r) = rq_Close r"
  "x \<noteq> ''Cookie'' \<Longrightarrow> fmlookup (rq_Header (add_cookie n v r)) x = fmlookup (rq_Header r) x"
  by (simp_all add: add_cookie_def Let_def header_set_def)

lemma fold_keeps: "(\<And>x r. P (f x r) = P r) \<Longrightarrow> P (fold f xs r) = P r"
  by (induction xs arbitrary: r) simp_all

lemma set_cookies_rest [simp]:
  "rq_Method (set_cookies ks p r) = rq_Method r" "rq_Body (set_cookies ks p r) = rq_Body r" "rq_URL (set_cookies ks p r) = rq_URL r"
  "rq_ContentLength (set_cookies ks p r) = rq_ContentLength r" "rq_Close (set_cookies ks p r) = rq_Close r"
  unfolding set_cookies_def by (rule fold_keeps, simp)+

lemma set_cookies_header [simp]:
  "x \<noteq> ''Cookie'' \<Longrightarrow> fmlookup (rq_Header (set_cookies ks p r)) x = fmlookup (rq_Header r) x"
  unfolding set_cookies_def by (rule fold_keeps [where P = "\<lambda>r. fmlookup (rq_Header r) x"]) simp

text \<open>Of several entries of \<open>Auth\<close> only the one visited last is sent.\<close>

lemma set_auth_sets:
  "set_auth ks auth r = (if entries ks auth = [] then r
     else set_header ''Authorization'' (basic_auth (fst (last (entries ks auth))) (snd (last (entries ks auth)))) r)"
proof -
  have "fold (\<lambda>kv. set_basic_auth (fst kv) (snd kv)) ps r = (if ps = [] then r
     else set_header ''Authorization'' (basic_auth (fst (last ps)) (snd (last ps))) r)" for ps
    by (induction ps arbitrary: r) (auto simp: set_basic_auth_def header_set_def)
  then show ?thesis by (simp add: set_auth_def)
qed

end
