(* ===== verification/Http_Request.thy ===== *)
theory Http_Request
  imports Http_Options
begin

text \<open>
  What \<open>HttpHeader.applyRequestOpt\<close> makes of a request: its query, its body, its headers,
  and its errors.
\<close>

section \<open>Multipart bodies\<close>

text \<open>
  The grammar of a multipart body: every part is a delimiter line, header lines, an empty line and
  the contents, closed by a line end; the body ends with the closing delimiter. The writer of
  the code puts the line end in front of the next delimiter instead.
\<close>

definition part_text :: "string \<Rightarrow> string \<times> string \<Rightarrow> string" where
  "part_text b p = ''--'' @ b @ crlf @ fst p @ crlf @ snd p @ crlf"

definition multipart_body :: "string \<Rightarrow> (string \<times> string) list \<Rightarrow> string" where
  "multipart_body b ps = concat (map (part_text b) ps) @ ''--'' @ b @ ''--'' @ crlf"

definition file_contents :: "('u, 'j) http_env \<Rightarrow> upload_meta \<Rightarrow> http_error + string" where
  "file_contents env m = (if fm_Data m \<noteq> [] then Inr (fm_Data m) else he_read_file env (fm_Src m))"

definition part_of :: "('u, 'j) http_env \<Rightarrow> string \<times> file_value \<Rightarrow> string \<times> string" where
  "part_of env kv =
     (case snd kv of
        FileUpload (Some m) \<Rightarrow> (''Content-Disposition: '' @ content_disposition (fst kv) (fm_Name m) @ crlf @
            ''Content-Type: '' @ (if fm_MIME m = [] then ''application/octet-stream'' else fm_MIME m) @ crlf,
            case file_contents env m of Inr b \<Rightarrow> b | Inl e \<Rightarrow> [])
      | FormField s \<Rightarrow> (''Content-Disposition: form-data; name='' @ [CHR 0x22] @ he_quote env (fst kv) @ [CHR 0x22] @ crlf, s)
      | _ \<Rightarrow> ([], []))"

text \<open>The error of one file, and the panic on a nil pointer.\<close>

definition file_error :: "('u, 'j) http_env \<Rightarrow> file_value \<Rightarrow> http_error option" where
  "file_error env v =
     (case v of
        OtherValue \<Rightarrow> Some ErrUnsupportedFile
      | FileUpload (Some m) \<Rightarrow> (case file_contents env m of Inl e \<Rightarrow> Some e | Inr b \<Rightarrow> None)
      | _ \<Rightarrow> None)"

lemma sorted_names [simp]:
  "sorted_list_of_fset {|''Content-Disposition''|} = [''Content-Disposition'']"
  "sorted_list_of_fset {|''Content-Type'', ''Content-Disposition''|} = [''Content-Disposition'', ''Content-Type'']"
  by code_simp+

lemma set_file_cases:
  "set_file env k v w =
     (if v = FileUpload None then None
      else Some (case file_error env v of
          Some e \<Rightarrow> Inl e
        | None \<Rightarrow> Inr (w\<lparr>mw_started := True, mw_buffer := mw_buffer w @ (if mw_started w then crlf else []) @ ''--'' @ mw_boundary w @ crlf @
            fst (part_of env (k, v)) @ crlf @ snd (part_of env (k, v))\<rparr>)))"
  by (auto simp: set_file_def file_error_def part_of_def process_file_def create_part_def part_write_def header_set_def
      file_contents_def Let_def split: file_value.splits option.splits sum.splits)

definition lead :: "multipart_writer \<Rightarrow> string" where
  "lead w = (if mw_started w then crlf else [])"

definition bad_file :: "('u, 'j) http_env \<Rightarrow> string \<times> file_value \<Rightarrow> bool" where
  "bad_file env kv \<longleftrightarrow> snd kv = FileUpload None \<or> file_error env (snd kv) \<noteq> None"

lemma files_loop_ok:
  assumes "\<forall>kv \<in> set kvs. \<not> bad_file env kv"
  shows "\<exists>w'. files_loop env kvs w = Some (Inr w') \<and> mw_boundary w' = mw_boundary w \<and> mw_started w' = (mw_started w \<or> kvs \<noteq> []) \<and>
    mw_buffer w' @ lead w' = mw_buffer w @ lead w @ concat (map (part_text (mw_boundary w)) (map (part_of env) kvs))"
  using assms
proof (induction kvs arbitrary: w)
  case (Cons kv kvs)
  obtain k v where kv: "kv = (k, v)" by fastforce
  let ?w = "w\<lparr>mw_started := True, mw_buffer := mw_buffer w @ lead w @ ''--'' @ mw_boundary w @ crlf @
            fst (part_of env (k, v)) @ crlf @ snd (part_of env (k, v))\<rparr>"
  have "set_file env k v w = Some (Inr ?w)" using Cons.prems kv by (simp add: set_file_cases bad_file_def lead_def)
  then show ?case using Cons.IH [of ?w] Cons.prems kv by (auto simp: lead_def part_text_def)
qed (simp add: lead_def)

lemma files_loop_bad:
  assumes "List.find (bad_file env) kvs = Some kv"
  shows "files_loop env kvs w = (if snd kv = FileUpload None then None else map_option Inl (file_error env (snd kv)))"
  using assms
proof (induction kvs arbitrary: w)
  case (Cons kv' kvs)
  show ?case
  proof (cases "bad_file env kv'")
    case True
    then show ?thesis using Cons.prems by (auto simp: bad_file_def set_file_cases)
  next
    case False
    then have "\<exists>w'. files_loop env (kv' # kvs) w = files_loop env kvs w'"
      by (auto simp: bad_file_def set_file_cases)
    then show ?thesis using Cons False by auto
  qed
qed simp

lemma set_files_ok:
  assumes "List.find (bad_file env) (entries ks files) = None" and "entries ks files \<noteq> []"
  shows "set_files env ks files ch r =
    Some (Inr (put_body (multipart_body (he_boundary env) (map (part_of env) (entries ks files))) ch
      (set_header ''Content-Type'' (''multipart/form-data; boundary='' @ he_boundary env) r)))"
proof -
  have "\<forall>kv \<in> set (entries ks files). \<not> bad_file env kv" using assms(1) by (auto simp: find_None_iff)
  from files_loop_ok [OF this, of "\<lparr>mw_boundary = he_boundary env, mw_started = False, mw_buffer = []\<rparr>"] show ?thesis
    using assms(2) by (auto simp: set_files_def multipart_close_def multipart_body_def lead_def simp flip: append_assoc)
qed

lemma set_files_bad:
  assumes "List.find (bad_file env) (entries ks files) = Some (k, v)"
  shows "set_files env ks files ch r = (if v = FileUpload None then None else map_option Inl (file_error env v))"
proof -
  have "bad_file env (k, v)" using assms by (auto simp: find_Some_iff)
  then show ?thesis using files_loop_bad [OF assms] by (auto simp: set_files_def bad_file_def)
qed

section \<open>Requests\<close>

definition orders_ok :: "map_orders \<Rightarrow> 'j http_header \<Rightarrow> bool" where
  "orders_ok ord h \<longleftrightarrow> enumerates (mo_Params ord) (hh_Params h) \<and> enumerates (mo_Data ord) (hh_Data h) \<and>
     enumerates (mo_Headers ord) (hh_Headers h) \<and> enumerates (mo_Cookies ord) (hh_Cookies h) \<and>
     enumerates (mo_Auth ord) (hh_Auth h) \<and> enumerates (mo_Files ord) (hh_Files h)"

text \<open>
  The first file, in the order of the visit, that is a nil pointer, cannot be read or is of another type; and the
  bodies that the options ask for, as a list: more than one is a conflict.
\<close>

definition first_bad_file :: "('u, 'j) http_env \<Rightarrow> map_orders \<Rightarrow> 'j http_header \<Rightarrow> (string \<times> file_value) option" where
  "first_bad_file env ord h = List.find (bad_file env) (entries (mo_Files ord) (hh_Files h))"

datatype body_kind = FormBody | JsonBody | FilesBody | RawBody

definition bodies :: "'j http_header \<Rightarrow> body_kind list" where
  "bodies h = (if hh_Data h = fmempty then [] else [FormBody]) @ (if hh_JSON h = fmempty then [] else [JsonBody]) @
     (if hh_Files h = fmempty then [] else [FilesBody]) @ (if hh_RowData h = [] then [] else [RawBody])"

text \<open>The body of one kind, and its content type.\<close>

fun body_is :: "('u, 'j) http_env \<Rightarrow> map_orders \<Rightarrow> 'j http_header \<Rightarrow> body_kind \<Rightarrow> string \<Rightarrow> bool" where
  "body_is env ord h FormBody b \<longleftrightarrow> (\<forall>k. fmlookup (parse_query b) k = map_option (\<lambda>v. [v]) (fmlookup (hh_Data h) k))"
| "body_is env ord h JsonBody b \<longleftrightarrow> he_marshal env (hh_JSON h) = Inr b"
| "body_is env ord h FilesBody b \<longleftrightarrow> first_bad_file env ord h = None \<and>
     b = multipart_body (he_boundary env) (map (part_of env) (entries (mo_Files ord) (hh_Files h)))"
| "body_is env ord h RawBody b \<longleftrightarrow> b = hh_RowData h"

fun content_type :: "('u, 'j) http_env \<Rightarrow> body_kind \<Rightarrow> string option" where
  "content_type env FormBody = Some ''application/x-www-form-urlencoded''"
| "content_type env JsonBody = Some ''application/json''"
| "content_type env FilesBody = Some (''multipart/form-data; boundary='' @ he_boundary env)"
| "content_type env RawBody = None"

definition with_body :: "string \<Rightarrow> bool \<Rightarrow> string option \<Rightarrow> 'u http_request \<Rightarrow> 'u http_request" where
  "with_body b ch ct r = put_body b ch (case ct of Some t \<Rightarrow> set_header ''Content-Type'' t r | None \<Rightarrow> r)"

text \<open>The four steps on the body, as one function.\<close>

definition body_step :: "('u, 'j) http_env \<Rightarrow> map_orders \<Rightarrow> 'j http_header \<Rightarrow> 'u http_request \<Rightarrow> (http_error + 'u http_request) option" where
  "body_step env ord h r =
     (let r2 = (if map_len (hh_Data h) > 0 then set_data (mo_Data ord) (hh_Data h) (hh_Chunked h) r else r) in
      case (if map_len (hh_JSON h) > 0 then set_json env (hh_JSON h) (hh_Chunked h) r2 else Inr r2) of
        Inl e \<Rightarrow> Some (Inl e)
      | Inr r3 \<Rightarrow>
          (case (if map_len (hh_Files h) > 0 then set_files env (mo_Files ord) (hh_Files h) (hh_Chunked h) r3 else Some (Inr r3)) of
             None \<Rightarrow> None
           | Some (Inl e) \<Rightarrow> Some (Inl e)
           | Some (Inr r4) \<Rightarrow> Some (Inr (if length (hh_RowData h) > 0 then set_row_data (hh_RowData h) (hh_Chunked h) r4 else r4))))"

definition header_step :: "map_orders \<Rightarrow> 'j http_header \<Rightarrow> 'u http_request \<Rightarrow> 'u http_request" where
  "header_step ord h r = set_auth (mo_Auth ord) (hh_Auth h) (set_cookies (mo_Cookies ord) (hh_Cookies h)
     (set_headers (mo_Headers ord) (hh_Headers h) r))"

lemma map_len_pos: "0 < map_len m \<longleftrightarrow> m \<noteq> fmempty"
proof -
  have "m = fmempty \<longleftrightarrow> fmdom m = {||}" by (metis fmdom_empty fmrestrict_fset_dom fmrestrict_fset_null)
  then show ?thesis by (auto simp: map_len_def fcard_0_eq simp flip: neq0_conv)
qed

lemma is_conflict_iff: "is_conflict h \<longleftrightarrow> 1 < length (bodies h)"
  by (simp add: is_conflict_def bodies_def map_len_pos)

lemma entries_empty [simp]: "entries ks fmempty = []"
  by (induction ks) simp_all

lemma apply_request_steps:
  "apply_request_opt env ord h r =
     (if 1 < length (bodies h) then Some (Inl ErrBodyConflict)
      else map_option (map_sum id (header_step ord h))
        (body_step env ord h (if hh_Params h = fmempty then r else set_query (mo_Params ord) (hh_Params h) r)))"
proof -
  have h: "(if map_len (hh_Headers h) > 0 then set_headers ks (hh_Headers h) q else q) = set_headers ks (hh_Headers h) q"
    and c: "(if map_len (hh_Cookies h) > 0 then set_cookies ks (hh_Cookies h) q else q) = set_cookies ks (hh_Cookies h) q"
    and a: "(if map_len (hh_Auth h) > 0 then set_auth ks (hh_Auth h) q else q) = set_auth ks (hh_Auth h) q" for ks and q :: "'a http_request"
    by (simp_all add: map_len_pos set_headers_def set_cookies_def set_auth_def)
  have p: "(if map_len (hh_Params h) > 0 then set_query (mo_Params ord) (hh_Params h) r else r) =
      (if hh_Params h = fmempty then r else set_query (mo_Params ord) (hh_Params h) r)"
    by (simp add: map_len_pos)
  show ?thesis
    unfolding apply_request_opt_def is_conflict_iff body_step_def header_step_def Let_def h c a p
    by (cases "1 < length (bodies h)") (simp_all split: sum.split option.split split del: if_split)
qed

lemma set_data_body:
  assumes "enumerates ks m"
  shows "\<exists>b. set_data ks m ch r = with_body b ch (Some ''application/x-www-form-urlencoded'') r \<and>
    (\<forall>k. fmlookup (parse_query b) k = map_option (\<lambda>v. [v]) (fmlookup m k))"
  using form_body_reads [OF assms] by (auto simp: set_data_def with_body_def Let_def)

lemma enumerates_entries:
  assumes "enumerates ks m"
  shows "entries ks m = [] \<longleftrightarrow> m = fmempty"
proof -
  have "entries ks m = [] \<longleftrightarrow> (\<forall>k. fmlookup m k = None)"
    using entries_enumerated(3) [OF assms] by (auto simp flip: set_empty)
  then show ?thesis by (auto intro: fmap_ext)
qed

definition body_result :: "('u, 'j) http_env \<Rightarrow> map_orders \<Rightarrow> 'j http_header \<Rightarrow> 'u http_request \<Rightarrow> (http_error + 'u http_request) option \<Rightarrow> bool" where
  "body_result env ord h r res \<longleftrightarrow>
     (case res of
        None \<Rightarrow> bodies h = [FilesBody] \<and> (\<exists>k. first_bad_file env ord h = Some (k, FileUpload None))
      | Some (Inl e) \<Rightarrow> (bodies h = [JsonBody] \<and> he_marshal env (hh_JSON h) = Inl e) \<or>
          (bodies h = [FilesBody] \<and> (\<exists>k v. first_bad_file env ord h = Some (k, v) \<and> v \<noteq> FileUpload None \<and> file_error env v = Some e))
      | Some (Inr r') \<Rightarrow> (bodies h = [] \<and> r' = r) \<or>
          (\<exists>k b. bodies h = [k] \<and> body_is env ord h k b \<and> r' = with_body b (hh_Chunked h) (content_type env k) r))"

lemma files_step:
  assumes "orders_ok ord h" and "bodies h = [FilesBody]"
  shows "body_result env ord h r (set_files env (mo_Files ord) (hh_Files h) (hh_Chunked h) r)"
proof (cases "first_bad_file env ord h")
  case (Some kv)
  obtain k v where kv: "kv = (k, v)" by fastforce
  then have "set_files env (mo_Files ord) (hh_Files h) (hh_Chunked h) r = (if v = FileUpload None then None else map_option Inl (file_error env v))"
    using Some by (intro set_files_bad) (simp add: first_bad_file_def)
  moreover have "bad_file env (k, v)" using Some kv by (auto simp: first_bad_file_def find_Some_iff)
  ultimately show ?thesis using assms(2) Some kv by (auto simp: body_result_def bad_file_def)
next
  case None
  have "hh_Files h \<noteq> fmempty" using assms(2) by (auto simp: bodies_def split: if_splits)
  then have "set_files env (mo_Files ord) (hh_Files h) (hh_Chunked h) r = Some (Inr (with_body
      (multipart_body (he_boundary env) (map (part_of env) (entries (mo_Files ord) (hh_Files h)))) (hh_Chunked h) (content_type env FilesBody) r))"
    using assms(1) None by (subst set_files_ok) (auto simp: orders_ok_def enumerates_entries with_body_def first_bad_file_def)
  then show ?thesis using assms(2) None by (auto simp: body_result_def)
qed

lemma body_step_result:
  assumes "orders_ok ord h" and "length (bodies h) \<le> 1"
  shows "body_result env ord h r (body_step env ord h r)"
proof -
  note empty = bodies_def map_len_pos
  consider "bodies h = []" | k where "bodies h = [k]" using assms(2) by (cases "bodies h") auto
  then show ?thesis
  proof cases
    case 1
    then show ?thesis by (auto simp: body_step_def body_result_def empty split: if_splits)
  next
    case 2
    show ?thesis
    proof (cases k)
      case FormBody
      have "body_step env ord h r = Some (Inr (set_data (mo_Data ord) (hh_Data h) (hh_Chunked h) r))"
        using 2 FormBody by (auto simp: body_step_def empty split: if_splits)
      moreover have "enumerates (mo_Data ord) (hh_Data h)" using assms(1) by (simp add: orders_ok_def)
      ultimately show ?thesis using set_data_body 2 FormBody by (fastforce simp: body_result_def)
    next
      case JsonBody
      have "body_step env ord h r = Some (set_json env (hh_JSON h) (hh_Chunked h) r)"
        using 2 JsonBody by (auto simp: body_step_def empty split: if_splits sum.split)
      then show ?thesis using 2 JsonBody by (auto simp: body_result_def set_json_def with_body_def split: sum.splits)
    next
      case FilesBody
      have "body_step env ord h r = set_files env (mo_Files ord) (hh_Files h) (hh_Chunked h) r"
        using 2 FilesBody by (auto simp: body_step_def empty split: if_splits sum.split option.split)
      then show ?thesis using files_step [OF assms(1)] 2 FilesBody by simp
    next
      case RawBody
      have "body_step env ord h r = Some (Inr (set_row_data (hh_RowData h) (hh_Chunked h) r))"
        using 2 RawBody by (auto simp: body_step_def empty split: if_splits)
      then show ?thesis using 2 RawBody by (auto simp: body_result_def set_row_data_def with_body_def)
    qed
  qed
qed

lemma header_step_rest [simp]:
  "rq_Method (header_step ord h r) = rq_Method r" "rq_Body (header_step ord h r) = rq_Body r" "rq_URL (header_step ord h r) = rq_URL r"
  "rq_ContentLength (header_step ord h r) = rq_ContentLength r" "rq_Close (header_step ord h r) = rq_Close r"
  by (simp_all add: header_step_def set_auth_sets)

text \<open>The headers that a request carries for its options; \<open>r\<close> is the request before the options.\<close>

definition carries_headers :: "('u, 'j) http_env \<Rightarrow> map_orders \<Rightarrow> 'j http_header \<Rightarrow> 'u http_request \<Rightarrow> 'u http_request \<Rightarrow> bool" where
  "carries_headers env ord h r r' \<longleftrightarrow>
     (let named = canonical_key ` fset (fmdom (hh_Headers h)) in
      (\<forall>k v. fmlookup (hh_Headers h) k = Some v \<and> 
           (canonical_key k = ''Cookie'' \<longrightarrow> hh_Cookies h = fmempty) \<and> (canonical_key k = ''Authorization'' \<longrightarrow> hh_Auth h = fmempty) \<longrightarrow>
         fmlookup (rq_Header r') (canonical_key k) = Some [v]) \<and>
      (\<forall>k t. bodies h = [k] \<and> content_type env k = Some t \<and> ''Content-Type'' \<notin> named \<longrightarrow>
         fmlookup (rq_Header r') ''Content-Type'' = Some [t]) \<and>
      (\<forall>c. (if ''Cookie'' \<in> named then \<exists>k. canonical_key k = ''Cookie'' \<and> fmlookup (hh_Headers h) k = Some c
            else c = header_get ''Cookie'' (rq_Header r)) \<longrightarrow>
         header_get ''Cookie'' (rq_Header r') =
           semis ((if c = [] then [] else [c]) @ map cookie_pair (entries (mo_Cookies ord) (hh_Cookies h)))) \<and>
      (\<forall>x. x \<notin> named \<and> (x = ''Content-Type'' \<longrightarrow> (\<forall>k. bodies h = [k] \<longrightarrow> content_type env k = None)) \<and>
           (x = ''Cookie'' \<longrightarrow> hh_Cookies h = fmempty) \<and> (x = ''Authorization'' \<longrightarrow> hh_Auth h = fmempty) \<longrightarrow>
         fmlookup (rq_Header r') x = fmlookup (rq_Header r) x) \<and>
      (hh_Auth h \<noteq> fmempty \<longrightarrow>
         (\<exists>u p. fmlookup (hh_Auth h) u = Some p \<and> fmlookup (rq_Header r') ''Authorization'' = Some [basic_auth u p])))"

lemma header_step_carries:
  assumes "orders_ok ord h" and "inj_on canonical_key (fset (fmdom (hh_Headers h)))"
    and ct: "\<And>k t. bodies h = [k] \<Longrightarrow> content_type env k = Some t \<Longrightarrow> fmlookup (rq_Header r1) ''Content-Type'' = Some [t]"
    and rest: "\<And>x. x \<noteq> ''Content-Type'' \<or> (\<forall>k. bodies h = [k] \<longrightarrow> content_type env k = None) \<Longrightarrow>
      fmlookup (rq_Header r1) x = fmlookup (rq_Header r) x"
  shows "carries_headers env ord h r (header_step ord h r1)"
proof -
  let ?ks = "mo_Headers ord" and ?named = "canonical_key ` fset (fmdom (hh_Headers h))"
  let ?r2 = "set_headers ?ks (hh_Headers h) r1" and ?r' = "header_step ord h r1"
  have en: "enumerates ?ks (hh_Headers h)" "enumerates (mo_Auth ord) (hh_Auth h)" using assms(1) by (simp_all add: orders_ok_def)
  note sets = set_headers_sets [OF en(1) assms(2)]
  have other: "fmlookup (rq_Header ?r') x = fmlookup (rq_Header ?r2) x"
    if "x = ''Cookie'' \<longrightarrow> hh_Cookies h = fmempty" "x = ''Authorization'' \<longrightarrow> hh_Auth h = fmempty" for x
  proof -
    have a: "fmlookup (rq_Header (set_auth (mo_Auth ord) (hh_Auth h) q)) x = fmlookup (rq_Header q) x" for q
      using that(2) by (auto simp: set_auth_sets header_set_def)
    have b: "fmlookup (rq_Header (set_cookies (mo_Cookies ord) (hh_Cookies h) q)) x = fmlookup (rq_Header q) x" for q
      using that(1) set_cookies_header [of x] by (cases "x = ''Cookie''") (simp add: set_cookies_def, simp)
    show ?thesis by (simp add: header_step_def a b)
  qed
  have cookie: "header_get ''Cookie'' (rq_Header ?r') =
      semis ((if c = [] then [] else [c]) @ map cookie_pair (entries (mo_Cookies ord) (hh_Cookies h)))"
    if "if ''Cookie'' \<in> ?named then \<exists>k. canonical_key k = ''Cookie'' \<and> fmlookup (hh_Headers h) k = Some c
      else c = header_get ''Cookie'' (rq_Header r)" for c
  proof -
    have "header_get ''Cookie'' (rq_Header ?r2) = c"
    proof (cases "''Cookie'' \<in> ?named")
      case True
      then obtain k where "canonical_key k = ''Cookie''" "fmlookup (hh_Headers h) k = Some c" using \<open>if _ then _ else _\<close> by auto
      then show ?thesis using sets(1) [of k c r1] by (simp add: header_get_def)
    next
      case False
      then show ?thesis using that sets(2) [OF False, of r1] rest [of "''Cookie''"] by (simp add: header_get_def)
    qed
    then have "header_get ''Cookie'' (rq_Header (set_cookies (mo_Cookies ord) (hh_Cookies h) ?r2)) =
        semis ((if c = [] then [] else [c]) @ map cookie_pair (entries (mo_Cookies ord) (hh_Cookies h)))"
      by (simp add: set_cookies_def add_cookies Let_def)
    then show ?thesis by (simp add: header_step_def set_auth_sets header_get_def header_set_def)
  qed
  have auth: "\<exists>u p. fmlookup (hh_Auth h) u = Some p \<and> fmlookup (rq_Header ?r') ''Authorization'' = Some [basic_auth u p]"
    if "hh_Auth h \<noteq> fmempty"
  proof -
    let ?e = "entries (mo_Auth ord) (hh_Auth h)"
    have "?e \<noteq> []" using that enumerates_entries [OF en(2)] by simp
    moreover from this have "fmlookup (hh_Auth h) (fst (last ?e)) = Some (snd (last ?e))"
      using entries_enumerated(3) [OF en(2)] last_in_set [of ?e] by auto
    ultimately show ?thesis by (auto simp: header_step_def set_auth_sets header_set_def)
  qed
  have given: "fmlookup (rq_Header ?r') (canonical_key k) = Some [v]"
    if "fmlookup (hh_Headers h) k = Some v" "canonical_key k = ''Cookie'' \<longrightarrow> hh_Cookies h = fmempty"
      "canonical_key k = ''Authorization'' \<longrightarrow> hh_Auth h = fmempty" for k v
    using sets(1) [OF that(1), of r1] other [OF that(2,3)] by simp
  have own: "fmlookup (rq_Header ?r') ''Content-Type'' = Some [t]"
    if "bodies h = [k]" "content_type env k = Some t" "''Content-Type'' \<notin> ?named" for k t
    using ct [OF that(1,2)] sets(2) [OF that(3), of r1] other [of "''Content-Type''"] by simp
  have frame: "fmlookup (rq_Header ?r') x = fmlookup (rq_Header r) x"
    if "x \<notin> ?named" "x = ''Content-Type'' \<longrightarrow> (\<forall>k. bodies h = [k] \<longrightarrow> content_type env k = None)"
      "x = ''Cookie'' \<longrightarrow> hh_Cookies h = fmempty" "x = ''Authorization'' \<longrightarrow> hh_Auth h = fmempty" for x
    using other [OF that(3,4)] sets(2) [OF that(1), of r1] rest [of x] that(2) by auto
  show ?thesis unfolding carries_headers_def Let_def 
    apply (intro conjI allI impI)
        apply (elim conjE, rule given; assumption)
       apply (elim conjE, rule own; assumption)
      apply (rule cookie; assumption)
     apply (elim conjE, rule frame; assumption)
    apply (rule auth; assumption)
    done
qed

lemma with_body_rest [simp]:
  "rq_Method (with_body b ch ct r) = rq_Method r" "rq_URL (with_body b ch ct r) = rq_URL r" "rq_Close (with_body b ch ct r) = rq_Close r"
  "rq_Body (with_body b ch ct r) = Some b" "rq_ContentLength (with_body b ch ct r) = (if ch then rq_ContentLength r else int (length b))"
  "x \<noteq> ''Content-Type'' \<or> ct = None \<Longrightarrow> fmlookup (rq_Header (with_body b ch ct r)) x = fmlookup (rq_Header r) x"
  "ct = Some t \<Longrightarrow> fmlookup (rq_Header (with_body b ch ct r)) ''Content-Type'' = Some [t]"
  by (auto simp: with_body_def header_set_def split: option.split)

text \<open>
  C38: \<open>applyRequestOpt\<close> puts exactly the options into the request, if no two given header names are the same
  but for letter case. Options with more than one kind of body are refused before anything else. Otherwise it
  fails exactly if the JSON encoder fails or a file is bad, and with the error of the encoder or of the first bad file
  in the order of the visit: the file cannot be read, or it is of a type that is not supported; a nil
  pointer in its place panics. Without error, whatever order Go visits the maps in: the query read
  back from the address has the value of every parameter and is unchanged elsewhere, the body is the one that was
  asked for (a form reads back as the given map, files are a well-formed multipart body with the contents of
  every file) with its length unless it is chunked. Every given header is set; the content type is
  the one of the body unless it is given; the cookies follow the \<open>Cookie\<close> header that was there or is given; of the
  credentials one is sent, in place of a given \<open>Authorization\<close>. Every other header stays as it was, as do the
  method, the rest of the address and the flag to close the connection.
\<close>

theorem request_carries_options:
  assumes "orders_ok ord h" and "inj_on canonical_key (fset (fmdom (hh_Headers h)))"
  shows "case apply_request_opt env ord h r of
      None \<Rightarrow> bodies h = [FilesBody] \<and> (\<exists>k. first_bad_file env ord h = Some (k, FileUpload None))
    | Some (Inl e) \<Rightarrow> (1 < length (bodies h) \<and> e = ErrBodyConflict) \<or>
        (bodies h = [JsonBody] \<and> he_marshal env (hh_JSON h) = Inl e) \<or>
        (bodies h = [FilesBody] \<and> (\<exists>k v. first_bad_file env ord h = Some (k, v) \<and> v \<noteq> FileUpload None \<and> file_error env v = Some e))
    | Some (Inr r') \<Rightarrow> rq_Method r' = rq_Method r \<and> rq_Close r' = rq_Close r \<and> u_rest (rq_URL r') = u_rest (rq_URL r) \<and>
        (\<forall>k. fmlookup (parse_query (u_RawQuery (rq_URL r'))) k =
          (case fmlookup (hh_Params h) k of Some v \<Rightarrow> Some [v] | None \<Rightarrow> fmlookup (parse_query (u_RawQuery (rq_URL r))) k)) \<and>
        (bodies h = [] \<and> rq_Body r' = rq_Body r \<and> rq_ContentLength r' = rq_ContentLength r \<or>
          (\<exists>k b. bodies h = [k] \<and> body_is env ord h k b \<and> rq_Body r' = Some b \<and>
             rq_ContentLength r' = (if hh_Chunked h then rq_ContentLength r else int (length b)))) \<and>
        carries_headers env ord h r r'"
proof (cases "1 < length (bodies h)")
  case True
  then show ?thesis by (simp add: apply_request_steps)
next
  case False
  define r1 where "r1 = (if hh_Params h = fmempty then r else set_query (mo_Params ord) (hh_Params h) r)"
  have r1: "rq_Method r1 = rq_Method r" "rq_Close r1 = rq_Close r" "u_rest (rq_URL r1) = u_rest (rq_URL r)" "rq_Body r1 = rq_Body r"
      "rq_ContentLength r1 = rq_ContentLength r" "rq_Header r1 = rq_Header r"
    by (simp_all add: r1_def)
  have q: "fmlookup (parse_query (u_RawQuery (rq_URL r1))) k =
      (case fmlookup (hh_Params h) k of Some v \<Rightarrow> Some [v] | None \<Rightarrow> fmlookup (parse_query (u_RawQuery (rq_URL r))) k)" for k
    using assms(1) by (simp add: r1_def set_query_reads orders_ok_def)
  have app: "apply_request_opt env ord h r = map_option (map_sum id (header_step ord h)) (body_step env ord h r1)"
    using False by (simp add: apply_request_steps r1_def)
  have res: "body_result env ord h r1 (body_step env ord h r1)" using False by (intro body_step_result assms) simp
  show ?thesis
  proof (cases "body_step env ord h r1")
    case None
    then show ?thesis using app res by (simp add: body_result_def)
  next
    case (Some x)
    show ?thesis
    proof (cases x)
      case (Inl e)
      then show ?thesis using app res Some by (simp add: body_result_def)
    next
      case (Inr r2)
      then have r2: "bodies h = [] \<and> r2 = r1 \<or> (\<exists>k b. bodies h = [k] \<and> body_is env ord h k b \<and> r2 = with_body b (hh_Chunked h) (content_type env k) r1)"
        using res Some by (simp add: body_result_def)
      then have "carries_headers env ord h r (header_step ord h r2)"
        using r1(6) by (intro header_step_carries assms) auto
      then show ?thesis using app Some Inr r2 r1 q by auto
    qed
  qed
qed

definition demo_env :: "(unit, nat) http_env" where
  "demo_env = \<lparr>he_parse = (\<lambda>s. if s = [] then Inl (LibError ''empty url'') else Inr \<lparr>u_rest = (), u_RawQuery = s\<rparr>), he_string = u_RawQuery,
     he_marshal = (\<lambda>m. Inr ''{}''), he_read_file = (\<lambda>f. if f = ''a.txt'' then Inr ''hello'' else Inl (LibError f)),
     he_boundary = ''BB'', he_quote = escape_symbol\<rparr>"

definition demo_header :: "nat http_header" where
  "demo_header = \<lparr>hh_Params = fmap_of_list [(''q'', ''a&b'')], hh_Data = fmempty, hh_Headers = fmap_of_list [(''accept'', ''*'')],
     hh_Cookies = fmap_of_list [(''s'', ''1'')], hh_Auth = fmap_of_list [(''u'', ''p'')], hh_JSON = fmempty,
     hh_Files = fmap_of_list [(''f'', FileUpload (Some (file_from_path ''a.txt'')))], hh_RowData = [], hh_Proxy = [], hh_AllowRedirect = False,
     hh_Timeout = 3, hh_Chunked = False, hh_DisableKeepalives = True, hh_DisableCompression = False, hh_SkipVerifyTLS = True\<rparr>"

definition demo_orders :: map_orders where
  "demo_orders = \<lparr>mo_Params = [''q''], mo_Data = [], mo_Headers = [''accept''], mo_Cookies = [''s''], mo_Auth = [''u''], mo_Files = [''f'']\<rparr>"

definition demo_request :: "unit http_request" where
  "demo_request = \<lparr>rq_Method = ''POST'', rq_URL = \<lparr>u_rest = (), u_RawQuery = ''x=1&q=0''\<rparr>, rq_Header = fmempty, rq_Body = None,
     rq_ContentLength = 0, rq_Close = True\<rparr>"

theorem request_carries_options_witness:
  "\<exists>r'. apply_request_opt demo_env demo_orders demo_header demo_request = Some (Inr r') \<and>
     u_RawQuery (rq_URL r') = ''q=a%26b&x=1'' \<and> fmlookup (rq_Header r') ''Accept'' = Some [''*''] \<and>
     fmlookup (rq_Header r') ''Authorization'' = Some [''Basic dTpw''] \<and> carries_headers demo_env demo_orders demo_header demo_request r'"
proof -
  have ok: "orders_ok demo_orders demo_header"
    by (simp add: orders_ok_def demo_orders_def demo_header_def enumerates_def)
  have inj: "inj_on canonical_key (fset (fmdom (hh_Headers demo_header)))" by (simp add: demo_header_def)
  have run: "map_option (map_option (\<lambda>r'. (u_RawQuery (rq_URL r'), fmlookup (rq_Header r') ''Accept'', fmlookup (rq_Header r') ''Authorization'')))
      (map_option (case_sum (\<lambda>e. None) Some) (apply_request_opt demo_env demo_orders demo_header demo_request)) =
      Some (Some (''q=a%26b&x=1'', Some [''*''], Some [''Basic dTpw'']))"
    by code_simp
  then obtain r' where r': "apply_request_opt demo_env demo_orders demo_header demo_request = Some (Inr r')"
    by (cases "apply_request_opt demo_env demo_orders demo_header demo_request"; cases "the (apply_request_opt demo_env demo_orders demo_header demo_request)") auto
  with request_carries_options [OF ok inj, of demo_env demo_request] run show ?thesis by auto
qed

section \<open>The order of the maps\<close>

lemma entries_short:
  assumes "enumerates ks m" and "enumerates ks' m" and "length ks \<le> 1"
  shows "entries ks m = entries ks' m"
proof -
  have "set ks = set ks'" "length ks = length ks'"
    using enumerates_set [OF assms(1)] enumerates_set [OF assms(2)] enumerates_length [OF assms(1)] enumerates_length [OF assms(2)] by simp_all
  then show ?thesis using assms(3) by (cases ks; cases ks') auto
qed

lemma values_set_order:
  assumes "enumerates ks m" and "enumerates ks' m"
  shows "fold (\<lambda>kv. values_set (fst kv) (snd kv)) (entries ks m) q = fold (\<lambda>kv. values_set (fst kv) (snd kv)) (entries ks' m) q"
  by (rule fmap_ext) (simp add: values_set_all [OF assms(1)] values_set_all [OF assms(2)])

lemma set_headers_order:
  assumes "enumerates ks m" and "enumerates ks' m" and "inj_on canonical_key (fset (fmdom m))"
  shows "set_headers ks m r = set_headers ks' m r"
proof -
  have "rq_Header (set_headers ks m r) = rq_Header (set_headers ks' m r)"
  proof (rule fmap_ext)
    fix x show "fmlookup (rq_Header (set_headers ks m r)) x = fmlookup (rq_Header (set_headers ks' m r)) x"
    proof (cases "x \<in> canonical_key ` fset (fmdom m)")
      case True
      then obtain k v where "x = canonical_key k" "fmlookup m k = Some v" by (auto elim: fmdomE)
      then show ?thesis using set_headers_sets(1) [OF assms(1,3)] set_headers_sets(1) [OF assms(2,3)] by metis
    next
      case False
      then show ?thesis using set_headers_sets(2) [OF assms(1,3)] set_headers_sets(2) [OF assms(2,3)] by metis
    qed
  qed
  then show ?thesis by (simp add: set_headers_def fold_set_header)
qed

text \<open>
  C39: The request does not depend on the order in which Go visits the maps of the options, an order that differs from call to call,
  as long as no two given header names are the same but for letter case and there is at most one credential,
  one cookie and one file. Parameters, form fields and headers may be as many as one likes.
\<close>

theorem request_order_irrelevant:
  assumes "orders_ok ord h" and "orders_ok ord' h" and "inj_on canonical_key (fset (fmdom (hh_Headers h)))"
    and "map_len (hh_Cookies h) \<le> 1" and "map_len (hh_Auth h) \<le> 1" and "map_len (hh_Files h) \<le> 1"
  shows "apply_request_opt env ord h r = apply_request_opt env ord' h r"
proof -
  have en: "enumerates (mo_Params o') (hh_Params h)" "enumerates (mo_Data o') (hh_Data h)" "enumerates (mo_Headers o') (hh_Headers h)"
      "enumerates (mo_Cookies o') (hh_Cookies h)" "enumerates (mo_Auth o') (hh_Auth h)" "enumerates (mo_Files o') (hh_Files h)"
    if "orders_ok o' h" for o' using that by (simp_all add: orders_ok_def)
  note a = en [OF assms(1)] and b = en [OF assms(2)]
  have q: "set_query (mo_Params ord) (hh_Params h) x = set_query (mo_Params ord') (hh_Params h) x" for x :: "'b http_request"
    by (simp add: set_query_def values_set_order [OF a(1) b(1)])
  have d: "set_data (mo_Data ord) (hh_Data h) ch x = set_data (mo_Data ord') (hh_Data h) ch x" for ch and x :: "'b http_request"
    by (simp add: set_data_def values_set_order [OF a(2) b(2)])
  have f: "set_files env (mo_Files ord) (hh_Files h) ch x = set_files env (mo_Files ord') (hh_Files h) ch x" for ch and x :: "'b http_request"
    using enumerates_length [OF a(6)] assms(6) by (simp add: set_files_def entries_short [OF a(6) b(6)])
  have c: "set_cookies (mo_Cookies ord) (hh_Cookies h) x = set_cookies (mo_Cookies ord') (hh_Cookies h) x" for x :: "'b http_request"
    using enumerates_length [OF a(4)] assms(4) by (simp add: set_cookies_def entries_short [OF a(4) b(4)])
  have u: "set_auth (mo_Auth ord) (hh_Auth h) x = set_auth (mo_Auth ord') (hh_Auth h) x" for x :: "'b http_request"
    using enumerates_length [OF a(5)] assms(5) by (simp add: set_auth_def entries_short [OF a(5) b(5)])
  show ?thesis
    unfolding apply_request_steps body_step_def header_step_def q d f c u set_headers_order [OF a(3) b(3) assms(3)] ..
qed

definition two_params :: "nat http_header" where
  "two_params = demo_header\<lparr>hh_Params := fmap_of_list [(''q'', ''1''), (''p'', ''2'')]\<rparr>"

theorem request_order_irrelevant_witness:
  "apply_request_opt demo_env (demo_orders\<lparr>mo_Params := [''p'', ''q'']\<rparr>) two_params demo_request =
   apply_request_opt demo_env (demo_orders\<lparr>mo_Params := [''q'', ''p'']\<rparr>) two_params demo_request"
  by (rule request_order_irrelevant)
    (auto simp: orders_ok_def demo_orders_def two_params_def demo_header_def enumerates_def map_len_upd)

section \<open>Names in multipart headers\<close>

text \<open>A reader of quoted strings, up to the closing quote, and of the header of a file.\<close>

fun unquote :: "string \<Rightarrow> (string \<times> string) option" where
  "unquote [] = None"
| "unquote (c # s) =
     (if c = CHR 0x22 then Some ([], s)
      else if c = CHR 0x5C then (case s of d # r \<Rightarrow> map_option (apfst ((#) d)) (unquote r) | [] \<Rightarrow> None)
      else map_option (apfst ((#) c)) (unquote s))"

definition after :: "string \<Rightarrow> string \<Rightarrow> string option" where
  "after p s = (if has_prefix s p then Some (drop (length p) s) else None)"

definition read_disposition :: "string \<Rightarrow> (string \<times> string \<times> string) option" where
  "read_disposition s = do {
     s1 \<leftarrow> after (''form-data; name='' @ [CHR 0x22]) s; (key, s2) \<leftarrow> unquote s1;
     s3 \<leftarrow> after (''; filename='' @ [CHR 0x22]) s2; (name, s4) \<leftarrow> unquote s3;
     Some (key, name, s4) }"

lemma unquote_escape [simp]: "unquote (escape_symbol s @ CHR 0x22 # t) = Some (s, t)"
  by (induction s) (auto simp: escape_symbol_def)

lemma after_append [simp]: "after p (p @ s) = Some s"
  by (simp add: after_def)

text \<open>
  Whatever quotes and backslashes the names have, they read back, and nothing of them is
  read as another parameter; but line ends are not escaped.
\<close>

lemma disposition_reads_back: "read_disposition (content_disposition key name @ t) = Some (key, name, t)"
proof -
  have "content_disposition key name @ t = (''form-data; name='' @ [CHR 0x22]) @ escape_symbol key @ CHR 0x22 #
      ((''; filename='' @ [CHR 0x22]) @ escape_symbol name @ CHR 0x22 # t)"
    by (simp add: content_disposition_def)
  then show ?thesis unfolding read_disposition_def by (simp only: after_append unquote_escape bind.bind_lunit prod.case)
qed

lemma line_ends_stay: "filter (\<lambda>c. c \<in> set crlf) (escape_symbol s) = filter (\<lambda>c. c \<in> set crlf) s"
  by (induction s) (auto simp: escape_symbol_def crlf_def)

end
