(* ===== verification/Http_Session.thy ===== *)
theory Http_Session
  imports Http_Request
begin

text \<open>
  \<^verbatim>\<open>session.go\<close>, \<^verbatim>\<open>response.go\<close> and \<^verbatim>\<open>wrapper.go\<close> of
  \<^verbatim>\<open>common/http_utils\<close>, and \<^verbatim>\<open>common/encode_utils/encoder.go\<close>: sessions, the exchange of a request and
  its response, and the encoding of a response. What the server answers, and the
  decoders of \<^verbatim>\<open>golang.org/x/text\<close>, are parameters; transports live in a store, and the
  requests that are sent and the bodies that are closed are recorded. A panic is \<^term>\<open>None\<close>.
\<close>

section \<open>Encodings\<close>

definition EncodingUTF8 :: string where "EncodingUTF8 = ''UTF-8''"

definition EncodingUTF8BOM :: string where "EncodingUTF8BOM = ''UTF-8-BOM''"

definition EncodingGBK :: string where "EncodingGBK = ''GBK''"

definition EncodingGB18030 :: string where "EncodingGB18030 = ''GB18030''"

definition EncodingHZGB2312 :: string where "EncodingHZGB2312 = ''HZ-GB2312''"

datatype codec = CodecUTF8 | CodecUTF8BOM | CodecGBK | CodecGB18030 | CodecHZGB2312

definition new_encoder :: "string \<Rightarrow> codec option" where
  "new_encoder e =
     (if e = EncodingUTF8 then Some CodecUTF8 else if e = EncodingUTF8BOM then Some CodecUTF8BOM
      else if e = EncodingGBK then Some CodecGBK else if e = EncodingGB18030 then Some CodecGB18030
      else if e = EncodingHZGB2312 then Some CodecHZGB2312 else None)"

definition new_decoder :: "string \<Rightarrow> codec option" where
  "new_decoder e =
     (if e = EncodingUTF8 then Some CodecUTF8 else if e = EncodingUTF8BOM then Some CodecUTF8BOM
      else if e = EncodingGBK then Some CodecGBK else if e = EncodingGB18030 then Some CodecGB18030
      else if e = EncodingHZGB2312 then Some CodecHZGB2312 else None)"

section \<open>Responses\<close>

text \<open>A body from the network, with what reading it gives, or one in memory.\<close>

datatype http_body = NetBody nat "http_error + string" | MemBody string

record http_response =
  hr_Status :: int
  hr_Header :: http_headers
  hr_Body :: "http_body option"

record response =
  rp_Response :: http_response
  rp_encoding :: string
  rp_Text :: string
  rp_Bytes :: string

fun read_all :: "http_body \<Rightarrow> http_error + string" where
  "read_all (NetBody i c) = c" | "read_all (MemBody s) = Inr s"

definition new_response :: "http_response option \<Rightarrow> http_error + response" where
  "new_response r =
     (case r of
        None \<Rightarrow> Inl ErrNilResponse
      | Some rsp \<Rightarrow>
          (case hr_Body rsp of
             None \<Rightarrow> Inl ErrNilResponse
           | Some b \<Rightarrow>
               (case read_all b of
                  Inl e \<Rightarrow> Inl e
                | Inr data \<Rightarrow> Inr \<lparr>rp_Response = rsp\<lparr>hr_Body := Some (MemBody data)\<rparr>, rp_encoding = EncodingUTF8,
                    rp_Text = data, rp_Bytes = data\<rparr>)))"

definition set_encoding :: "(codec \<Rightarrow> string \<Rightarrow> http_error + string) \<Rightarrow> string \<Rightarrow> response \<Rightarrow> http_error option \<times> response" where
  "set_encoding dec e0 r =
     (let e = to_upper e0 in
      if e \<noteq> rp_encoding r then
        (case new_decoder e of
           None \<Rightarrow> (Some ErrUnrecognizedEncoding, r)
         | Some d \<Rightarrow> (case dec d (rp_Bytes r) of
               Inl err \<Rightarrow> (Some err, r)
             | Inr text \<Rightarrow> (None, r\<lparr>rp_Text := text, rp_encoding := e\<rparr>)))
      else (None, r))"

definition get_encoding :: "response \<Rightarrow> string" where
  "get_encoding r = rp_encoding r"

text \<open>\<open>SaveFile\<close>: the error of \<open>os.Create\<close>, and what \<open>Write\<close> returns, are parameters.\<close>

definition save_file :: "http_error option \<Rightarrow> nat \<times> http_error option \<Rightarrow> string \<Rightarrow> response \<Rightarrow> (string, string) fmap \<Rightarrow>
    http_error option \<times> (string, string) fmap" where
  "save_file create_err written filename r fs =
     (case create_err of
        Some e \<Rightarrow> (Some e, fs)
      | None \<Rightarrow> (snd written, fmupd filename (take (fst written) (rp_Bytes r)) fs))"

text \<open>
  The encoding of a response: its bytes never change, a call that fails changes nothing, and after any calls the
  text is the raw data, as long as no call has changed the encoding, or the decoding of the bytes.
\<close>

lemma set_encoding_text:
  assumes "new_response (Some rsp) = Inr r0" and "r = fold (\<lambda>e r. snd (set_encoding dec e r)) es r0"
  shows "rp_Bytes r = rp_Bytes r0 \<and> (r = r0 \<or> (\<exists>d. new_decoder (rp_encoding r) = Some d \<and> dec d (rp_Bytes r0) = Inr (rp_Text r)))"
proof -
  have "rp_Bytes (fold (\<lambda>e r. snd (set_encoding dec e r)) es x) = rp_Bytes r0 \<and>
      (fold (\<lambda>e r. snd (set_encoding dec e r)) es x = r0 \<or>
       (\<exists>d. new_decoder (rp_encoding (fold (\<lambda>e r. snd (set_encoding dec e r)) es x)) = Some d \<and>
          dec d (rp_Bytes r0) = Inr (rp_Text (fold (\<lambda>e r. snd (set_encoding dec e r)) es x))))"
    if "rp_Bytes x = rp_Bytes r0" "x = r0 \<or> (\<exists>d. new_decoder (rp_encoding x) = Some d \<and> dec d (rp_Bytes r0) = Inr (rp_Text x))" for x
    using that
  proof (induction es arbitrary: x)
    case (Cons e es)
    have "rp_Bytes (snd (set_encoding dec e x)) = rp_Bytes r0"
      using Cons.prems(1) by (simp add: set_encoding_def Let_def split: option.split sum.split)
    moreover have "snd (set_encoding dec e x) = r0 \<or> (\<exists>d. new_decoder (rp_encoding (snd (set_encoding dec e x))) = Some d \<and>
        dec d (rp_Bytes r0) = Inr (rp_Text (snd (set_encoding dec e x))))"
      using Cons.prems by (auto simp add: set_encoding_def Let_def split: option.split sum.split)
    ultimately show ?case using Cons.IH by simp
  qed simp
  then show ?thesis using assms(2) by simp
qed

section \<open>Sessions\<close>

type_synonym 'x hook = "'x \<Rightarrow> (http_error option \<times> 'x) option"

record 'u http_session =
  se_Client :: "http_client option"
  se_beforeRequestHooks :: "'u http_request hook list"
  se_afterResponseHooks :: "http_response hook list"

text \<open>A request as it is sent, with the settings of the client at that time.\<close>

record 'u sending =
  sd_request :: "'u http_request"
  sd_CheckRedirect :: redirect_policy
  sd_Timeout :: int
  sd_Transport :: "'u transport option"

record 'u http_world =
  hw_transports :: "'u transport list"
  hw_sent :: "'u sending list"
  hw_closed :: "nat list"

definition userAgent :: string where "userAgent = ''go_tools/http_utils''"

definition support_method :: "string \<Rightarrow> bool" where
  "support_method m \<longleftrightarrow> m \<in> {''GET'', ''POST'', ''DELETE'', ''PUT'', ''PATCH'', ''HEAD'', ''OPTIONS''}"

definition zero_transport :: "'u transport" where
  "zero_transport = \<lparr>tp_DisableKeepAlives = False, tp_DisableCompression = False, tp_TLSClientConfig = None, tp_Proxy = NoProxy, tp_rest = 0\<rparr>"

definition new_http_client :: "'u http_world \<Rightarrow> http_client \<times> 'u http_world" where
  "new_http_client w =
     (\<lparr>hc_CheckRedirect = NoPolicy, hc_Timeout = 0, hc_Transport = Some (StdTransport (length (hw_transports w)))\<rparr>,
      w\<lparr>hw_transports := hw_transports w @ [zero_transport]\<rparr>)"

definition new_session :: "'u http_world \<Rightarrow> 'u http_session \<times> 'u http_world" where
  "new_session w = (case new_http_client w of (c, w1) \<Rightarrow>
     (\<lparr>se_Client = Some c, se_beforeRequestHooks = [], se_afterResponseHooks = []\<rparr>, w1))"

fun run_hooks :: "'x hook list \<Rightarrow> 'x hook" where
  "run_hooks [] x = Some (None, x)"
| "run_hooks (f # fs) x =
     (case f x of None \<Rightarrow> None | Some (Some e, y) \<Rightarrow> Some (Some e, y) | Some (None, y) \<Rightarrow> run_hooks fs y)"

text \<open>The client of the session, made when it is missing.\<close>

definition ensure_client :: "'u http_session \<Rightarrow> 'u http_world \<Rightarrow> http_client \<times> 'u http_world" where
  "ensure_client s w = (case se_Client s of Some c \<Rightarrow> (c, w) | None \<Rightarrow> new_http_client w)"

text \<open>The request of a method and an address, before the options.\<close>

definition build_request :: "('u, 'j) http_env \<Rightarrow> string \<Rightarrow> string \<Rightarrow> http_error + 'u http_request" where
  "build_request env method0 urlStr =
     (let method = to_upper method0 in
      if \<not> support_method method then Inl ErrUnsupportedMethod
      else
        (case he_parse env urlStr of
           Inl e \<Rightarrow> Inl e
         | Inr u \<Rightarrow>
             (case he_parse env (he_string env (u\<lparr>u_RawQuery := encode_query (parse_query (u_RawQuery u))\<rparr>)) of
                Inl e \<Rightarrow> Inl e
              | Inr u1 \<Rightarrow> Inr \<lparr>rq_Method = method, rq_URL = u1, rq_Header = header_set ''User-Agent'' userAgent fmempty, rq_Body = None,
                  rq_ContentLength = 0, rq_Close = True\<rparr>)))"

text \<open>The result of a request: the request, the response and the error; \<^term>\<open>None\<close> is a panic.\<close>

type_synonym 'u http_outcome = "('u http_request option \<times> response option \<times> http_error option) option"

abbreviation (input) fails :: "http_error \<Rightarrow> 'u http_outcome" where
  "fails e \<equiv> Some (None, None, Some e)"

definition sending_of :: "http_client \<Rightarrow> 'u http_world \<Rightarrow> 'u http_request \<Rightarrow> 'u sending" where
  "sending_of c w req = \<lparr>sd_request = req, sd_CheckRedirect = hc_CheckRedirect c, sd_Timeout = hc_Timeout c,
     sd_Transport = (case hc_Transport c of Some (StdTransport a) \<Rightarrow> Some (hw_transports w ! a) | _ \<Rightarrow> None)\<rparr>"

definition closes :: "http_body \<Rightarrow> nat list" where
  "closes b = (case b of NetBody i c \<Rightarrow> [i] | MemBody s \<Rightarrow> [])"

text \<open>Hooks, \<open>Client.Do\<close>, the deferred close of the body, hooks, and the response. \<open>Do\<close> answers according to what has been sent.\<close>

definition exchange :: "('u sending list \<Rightarrow> http_error + http_response) \<Rightarrow> 'u http_session \<Rightarrow> http_client \<Rightarrow> 'u http_request \<Rightarrow> 'u http_world \<Rightarrow>
    'u http_outcome \<times> 'u http_world" where
  "exchange do_request s c req w =
     (case run_hooks (se_beforeRequestHooks s) req of
        None \<Rightarrow> (None, w)
      | Some (Some e, req1) \<Rightarrow> (fails e, w)
      | Some (None, req1) \<Rightarrow>
          (let w1 = w\<lparr>hw_sent := hw_sent w @ [sending_of c w req1]\<rparr> in
           case do_request (hw_sent w1) of
             Inl e \<Rightarrow> (fails e, w1)
           | Inr rowResp \<Rightarrow>
               (case hr_Body rowResp of
                  None \<Rightarrow> (None, w1)
                | Some b \<Rightarrow>
                    (let w2 = w1\<lparr>hw_closed := hw_closed w1 @ closes b\<rparr> in
                     case run_hooks (se_afterResponseHooks s) rowResp of
                       None \<Rightarrow> (None, w2)
                     | Some (Some e, rsp) \<Rightarrow> (fails e, w2)
                     | Some (None, rsp) \<Rightarrow>
                         (case new_response (Some rsp) of
                            Inl e \<Rightarrow> (Some (Some req1, None, Some e), w2)
                          | Inr p \<Rightarrow> (Some (Some req1, Some p, None), w2))))))"

text \<open>The client of one request: a transport of the standard kind is replaced by a clone.\<close>

definition clone_transport :: "http_client \<Rightarrow> 'u http_world \<Rightarrow> http_client \<times> 'u http_world" where
  "clone_transport c w =
     (case hc_Transport c of
        Some (StdTransport a) \<Rightarrow> (c\<lparr>hc_Transport := Some (StdTransport (length (hw_transports w)))\<rparr>,
          w\<lparr>hw_transports := hw_transports w @ [hw_transports w ! a]\<rparr>)
      | _ \<Rightarrow> (c, w))"

definition session_request :: "('u, 'j) http_env \<Rightarrow> ('u sending list \<Rightarrow> http_error + http_response) \<Rightarrow> map_orders \<Rightarrow>
    string \<Rightarrow> string \<Rightarrow> 'j http_header option \<Rightarrow> 'u http_session \<Rightarrow> 'u http_world \<Rightarrow> 'u http_outcome \<times> 'u http_session \<times> 'u http_world" where
  "session_request env do_request ord method urlStr options s0 w0 =
     (case ensure_client s0 w0 of (c0, w1) \<Rightarrow>
      let s = s0\<lparr>se_Client := Some c0\<rparr> in
      case build_request env method urlStr of
        Inl e \<Rightarrow> (fails e, s, w1)
      | Inr req \<Rightarrow>
          (case options of
             None \<Rightarrow> (case exchange do_request s c0 req w1 of (out, w2) \<Rightarrow> (out, s, w2))
           | Some h \<Rightarrow>
               (case apply_request_opt env ord h req of
                  None \<Rightarrow> (None, s, w1)
                | Some (Inl e) \<Rightarrow> (fails e, s, w1)
                | Some (Inr req1) \<Rightarrow>
                    (case clone_transport c0 w1 of (c1, w2) \<Rightarrow>
                     case apply_client_opt env h c1 (hw_transports w2) of (err, c2, store) \<Rightarrow>
                     let w3 = w2\<lparr>hw_transports := store\<rparr>;
                         restored = c2\<lparr>hc_CheckRedirect := hc_CheckRedirect c0, hc_Timeout := hc_Timeout c0, hc_Transport := hc_Transport c0\<rparr> in
                     case (case err of Some e \<Rightarrow> (fails e, w3) | None \<Rightarrow> exchange do_request (s\<lparr>se_Client := Some c2\<rparr>) c2 req1 w3) of
                       (out, w4) \<Rightarrow> (out, s\<lparr>se_Client := Some restored\<rparr>, w4)))))"

text \<open>Hooks.\<close>

definition add_request_hooks :: "'u http_request hook list \<Rightarrow> 'u http_session \<Rightarrow> http_error option \<times> 'u http_session" where
  "add_request_hooks hooks s =
     (if hooks = [] then (Some ErrNoRequestHook, s) else (None, s\<lparr>se_beforeRequestHooks := se_beforeRequestHooks s @ hooks\<rparr>))"

definition reset_request_hooks :: "'u http_session \<Rightarrow> 'u http_session" where
  "reset_request_hooks s = s\<lparr>se_beforeRequestHooks := []\<rparr>"

definition add_response_hooks :: "http_response hook list \<Rightarrow> 'u http_session \<Rightarrow> http_error option \<times> 'u http_session" where
  "add_response_hooks hooks s =
     (if hooks = [] then (Some ErrNoResponseHook, s) else (None, s\<lparr>se_afterResponseHooks := se_afterResponseHooks s @ hooks\<rparr>))"

definition reset_response_hooks :: "'u http_session \<Rightarrow> 'u http_session" where
  "reset_response_hooks s = s\<lparr>se_afterResponseHooks := []\<rparr>"

text \<open>The methods of a session for each verb, and those of the package on its one session.\<close>

datatype verb = VGet | VPost | VDelete | VPut | VPatch | VHead | VOptions

fun verb_method :: "verb \<Rightarrow> string" where
  "verb_method VGet = ''GET''" | "verb_method VPost = ''POST''" | "verb_method VDelete = ''DELETE''" | "verb_method VPut = ''PUT''"
| "verb_method VPatch = ''PATCH''" | "verb_method VHead = ''HEAD''" | "verb_method VOptions = ''OPTIONS''"

definition session_verb :: "('u, 'j) http_env \<Rightarrow> ('u sending list \<Rightarrow> http_error + http_response) \<Rightarrow> map_orders \<Rightarrow> verb \<Rightarrow>
    string \<Rightarrow> 'j http_header option \<Rightarrow> 'u http_session \<Rightarrow> 'u http_world \<Rightarrow> 'u http_outcome \<times> 'u http_session \<times> 'u http_world" where
  "session_verb env do_request ord v = session_request env do_request ord (verb_method v)"

record 'u http_package =
  pk_session :: "'u http_session"
  pk_world :: "'u http_world"

definition package_init :: "'u http_world \<Rightarrow> 'u http_package" where
  "package_init w = (case new_session w of (s, w1) \<Rightarrow> \<lparr>pk_session = s, pk_world = w1\<rparr>)"

definition package_verb :: "('u, 'j) http_env \<Rightarrow> ('u sending list \<Rightarrow> http_error + http_response) \<Rightarrow> map_orders \<Rightarrow> verb \<Rightarrow>
    string \<Rightarrow> 'j http_header option \<Rightarrow> 'u http_package \<Rightarrow> 'u http_outcome \<times> 'u http_package" where
  "package_verb env do_request ord v url options p =
     (case session_verb env do_request ord v url options (pk_session p) (pk_world p) of
        (out, s, w) \<Rightarrow> (out, p\<lparr>pk_session := s, pk_world := w\<rparr>))"

section \<open>What a request does to its session\<close>

definition transport_ok :: "http_client \<Rightarrow> 'u http_world \<Rightarrow> bool" where
  "transport_ok c w \<longleftrightarrow> (\<forall>a. hc_Transport c = Some (StdTransport a) \<longrightarrow> a < length (hw_transports w))"

text \<open>What is sent at most once, and what is closed then.\<close>

definition sends_one :: "('u sending list \<Rightarrow> http_error + http_response) \<Rightarrow> 'u sending \<Rightarrow> 'u http_world \<Rightarrow> 'u http_world \<Rightarrow> bool" where
  "sends_one do_request x w w' \<longleftrightarrow> hw_sent w' = hw_sent w @ [x] \<and>
     hw_closed w' = hw_closed w @ (case do_request (hw_sent w') of Inl e \<Rightarrow> [] | Inr r \<Rightarrow> (case hr_Body r of None \<Rightarrow> [] | Some b \<Rightarrow> closes b))"

definition sends_none :: "'u http_world \<Rightarrow> 'u http_world \<Rightarrow> bool" where
  "sends_none w w' \<longleftrightarrow> hw_sent w' = hw_sent w \<and> hw_closed w' = hw_closed w"

definition responds :: "'u http_outcome \<Rightarrow> bool" where
  "responds out \<longleftrightarrow> (\<exists>rq rp. out = Some (Some rq, Some rp, None))"

definition errs :: "'u http_outcome \<Rightarrow> bool" where
  "errs out \<longleftrightarrow> out = None \<or> (\<exists>rq e. out = Some (rq, None, Some e))"

lemma exchange_result:
  assumes "exchange do_request s c req w = (out, w')"
  shows "hw_transports w' = hw_transports w"
    and "(sends_none w w' \<and> errs out) \<or>
      (\<exists>req1. run_hooks (se_beforeRequestHooks s) req = Some (None, req1) \<and> sends_one do_request (sending_of c w req1) w w' \<and>
         (errs out \<or> responds out))"
proof -
  note split = prod.splits option.splits sum.splits if_splits
  show "hw_transports w' = hw_transports w"
    using assms by (auto simp: exchange_def Let_def split: split)
  show "(sends_none w w' \<and> errs out) \<or>
      (\<exists>req1. run_hooks (se_beforeRequestHooks s) req = Some (None, req1) \<and> sends_one do_request (sending_of c w req1) w w' \<and>
         (errs out \<or> responds out))"
    using assms by (auto simp: exchange_def Let_def sends_none_def sends_one_def errs_def responds_def split: split)
qed

text \<open>The settings with which a request with options is sent.\<close>

definition settings_for :: "('u, 'j) http_env \<Rightarrow> 'j http_header \<Rightarrow> http_client \<Rightarrow> 'u http_world \<Rightarrow> 'u sending \<Rightarrow> bool" where
  "settings_for env h c w x \<longleftrightarrow>
     sd_CheckRedirect x = (if hh_AllowRedirect h then hc_CheckRedirect c else DisableRedirect) \<and>
     sd_Timeout x = wrap64 (hh_Timeout h * 10 ^ 9) \<and>
     (case hc_Transport c of
        Some (StdTransport a) \<Rightarrow> \<exists>t. sd_Transport x = Some t \<and>
          (if hh_Proxy h = [] then t = transport_options h (hw_transports w ! a)
           else \<exists>u. he_parse env (hh_Proxy h) = Inr u \<and> t = (transport_options h (hw_transports w ! a))\<lparr>tp_Proxy := ProxyURL u\<rparr>)
      | _ \<Rightarrow> sd_Transport x = None)"

lemma clone_and_apply:
  assumes "clone_transport c w = (c1, w2)" and "apply_client_opt env h c1 (hw_transports w2) = (err, c2, store)" and "transport_ok c w"
  shows "take (length (hw_transports w)) store = hw_transports w \<and> hw_sent w2 = hw_sent w \<and> hw_closed w2 = hw_closed w \<and>
    c2\<lparr>hc_CheckRedirect := hc_CheckRedirect c, hc_Timeout := hc_Timeout c, hc_Transport := hc_Transport c\<rparr> = c \<and>
    (err = None \<longrightarrow> settings_for env h c w (sending_of c2 (w2\<lparr>hw_transports := store\<rparr>) req))"
proof (cases "\<exists>a. hc_Transport c = Some (StdTransport a)")
  case True
  then obtain a where a: "hc_Transport c = Some (StdTransport a)" "a < length (hw_transports w)" using assms(3) by (auto simp: transport_ok_def)
  with assms show ?thesis
    by (auto simp: clone_transport_def apply_client_opt_def Let_def settings_for_def sending_of_def nth_append
        split: if_splits sum.splits)
next
  case False
  with assms show ?thesis
    by (auto simp: clone_transport_def apply_client_opt_def Let_def settings_for_def sending_of_def
        split: option.splits round_tripper.splits if_splits)
qed

definition prepared :: "('u, 'j) http_env \<Rightarrow> map_orders \<Rightarrow> string \<Rightarrow> string \<Rightarrow> 'j http_header option \<Rightarrow> 'u http_request \<Rightarrow> bool" where
  "prepared env ord meth urlStr options req1 \<longleftrightarrow>
     (\<exists>req. build_request env meth urlStr = Inr req \<and>
        (case options of None \<Rightarrow> req1 = req | Some h \<Rightarrow> apply_request_opt env ord h req = Some (Inr req1)))"

text \<open>The last part of a request with options: the settings are applied to the clone, and the request is sent unless that fails.\<close>

lemma request_on_clone:
  assumes "clone_transport c w1 = (c1, w2)" and "apply_client_opt env h c1 (hw_transports w2) = (err, c2, store)" and "transport_ok c w1"
    and w1: "hw_sent w1 = hw_sent w" "hw_closed w1 = hw_closed w"
    and sent: "err = None \<Longrightarrow> exchange do_request s2 c2 req1 (w2\<lparr>hw_transports := store\<rparr>) = (out, w')"
    and failed: "\<And>e. err = Some e \<Longrightarrow> out = fails e \<and> w' = w2\<lparr>hw_transports := store\<rparr>"
  shows "take (length (hw_transports w1)) (hw_transports w') = hw_transports w1 \<and>
    (sends_none w w' \<and> errs out \<or>
     (\<exists>x. run_hooks (se_beforeRequestHooks s2) req1 = Some (None, sd_request x) \<and> settings_for env h c w1 x \<and>
        sends_one do_request x w w' \<and> (errs out \<or> responds out)))"
proof (cases err)
  case None
  note eff = clone_and_apply [OF assms(1-3)]
  from exchange_result [OF sent [OF None]] show ?thesis using w1 eff None
    by (fastforce simp: sends_none_def sends_one_def sending_of_def)
next
  case (Some e)
  with failed clone_and_apply [OF assms(1-3)] w1 show ?thesis by (simp add: sends_none_def errs_def)
qed

text \<open>
  C37: A request leaves its session as it found it. After \<open>Session.Request\<close>, with whatever method, address,
  options and hooks, and also after an error or a panic, the client of the session has the redirect policy, the timeout
  and the transport it had before (a missing client has been made), the hooks are the same, and no transport that
  existed before has been changed, although the request runs with the settings of its own options on a clone. At most one
  request is sent: the one of the method and the address, with the options and then the hooks applied, and only
  when none of them fails. The body of its response is closed exactly once, whatever the hooks do, and there is a
  response exactly when there is no error.
\<close>

theorem session_request_isolated:
  assumes "session_request env do_request ord meth urlStr options s w = (out, s', w')"
    and "ensure_client s w = (c, w1)" and "transport_ok c w1"
  shows "s' = s\<lparr>se_Client := Some c\<rparr> \<and> take (length (hw_transports w1)) (hw_transports w') = hw_transports w1 \<and>
    (sends_none w w' \<and> errs out \<or>
     (\<exists>req1 x. prepared env ord meth urlStr options req1 \<and> run_hooks (se_beforeRequestHooks s) req1 = Some (None, sd_request x) \<and>
        (case options of None \<Rightarrow> x = sending_of c w1 (sd_request x) | Some h \<Rightarrow> settings_for env h c w1 x) \<and>
        sends_one do_request x w w' \<and> (errs out \<or> responds out)))"
proof -
  let ?s = "s\<lparr>se_Client := Some c\<rparr>"
  have w1: "hw_sent w1 = hw_sent w" "hw_closed w1 = hw_closed w"
    using assms(2) by (auto simp: ensure_client_def new_http_client_def split: option.splits)
  note run = assms(1) [unfolded session_request_def assms(2) prod.case Let_def]
  show ?thesis
  proof (cases "build_request env meth urlStr")
    case (Inl e)
    then show ?thesis using run w1 by (auto simp: sends_none_def errs_def)
  next
    case (Inr req)
    show ?thesis
    proof (cases options)
      case None
      then have "exchange do_request ?s c req w1 = (out, w')" "s' = ?s" using run Inr by (auto split: prod.splits)
      from exchange_result [OF this(1)] this(2) show ?thesis using None Inr w1
        by (fastforce simp: sends_none_def sends_one_def prepared_def sending_of_def)
    next
      case (Some h)
      consider (panic) "apply_request_opt env ord h req = None" | (error) e where "apply_request_opt env ord h req = Some (Inl e)"
        | (ok) req1 where "apply_request_opt env ord h req = Some (Inr req1)"
        by (cases "apply_request_opt env ord h req"; cases "the (apply_request_opt env ord h req)") auto
      then show ?thesis
      proof cases
        case panic
        then show ?thesis using run Inr Some w1 by (auto simp: sends_none_def errs_def)
      next
        case error
        then show ?thesis using run Inr Some w1 by (auto simp: sends_none_def errs_def)
      next
        case ok
        obtain c1 w2 where cl: "clone_transport c w1 = (c1, w2)" by fastforce
        obtain err c2 store where ap: "apply_client_opt env h c1 (hw_transports w2) = (err, c2, store)" by (metis prod.exhaust)
        have "c2\<lparr>hc_CheckRedirect := hc_CheckRedirect c, hc_Timeout := hc_Timeout c, hc_Transport := hc_Transport c\<rparr> = c"
          using clone_and_apply [OF cl ap assms(3)] by simp
        then have "s' = ?s" and "err = None \<Longrightarrow> exchange do_request (?s\<lparr>se_Client := Some c2\<rparr>) c2 req1 (w2\<lparr>hw_transports := store\<rparr>) = (out, w')"
            and "\<And>e. err = Some e \<Longrightarrow> out = fails e \<and> w' = w2\<lparr>hw_transports := store\<rparr>"
          using run Inr Some ok cl ap by (auto split: option.splits prod.splits)
        from request_on_clone [OF cl ap assms(3) w1 this(2,3)] this(1) show ?thesis using Some Inr ok
          by (auto simp: prepared_def)
      qed
    qed
  qed
qed

definition demo_options :: "nat http_header" where
  "demo_options = demo_header\<lparr>hh_Proxy := ''proxy''\<rparr>"

definition demo_session :: "unit http_session" where
  "demo_session = \<lparr>se_Client = None, se_beforeRequestHooks = [\<lambda>r. Some (None, r\<lparr>rq_Close := False\<rparr>)],
     se_afterResponseHooks = [\<lambda>r. Some (None, r\<lparr>hr_Body := Some (MemBody ''hooked'')\<rparr>)]\<rparr>"

definition demo_http_world :: "unit http_world" where
  "demo_http_world = \<lparr>hw_transports = [], hw_sent = [], hw_closed = []\<rparr>"

definition demo_answer :: "unit sending list \<Rightarrow> http_error + http_response" where
  "demo_answer xs = Inr \<lparr>hr_Status = 200, hr_Header = fmempty, hr_Body = Some (NetBody (length xs) (Inr ''body''))\<rparr>"

definition demo_run :: "unit http_outcome \<times> unit http_session \<times> unit http_world" where
  "demo_run = session_request demo_env demo_answer demo_orders ''post'' ''a=1'' (Some demo_options) demo_session demo_http_world"

lemma demo_run_facts:
  "(case demo_run of (out, s', w') \<Rightarrow> (map_option (\<lambda>o3. map_option rp_Text (fst (snd o3))) out, hw_closed w',
     map (\<lambda>x. (rq_Method (sd_request x), sd_CheckRedirect x, sd_Timeout x)) (hw_sent w'))) =
   (Some (Some ''hooked''), [1], [(''POST'', DisableRedirect, 3000000000)])"
  by code_simp

theorem session_request_isolated_witness:
  "\<exists>out s' w' x. demo_run = (out, s', w') \<and> s' = demo_session\<lparr>se_Client := Some \<lparr>hc_CheckRedirect = NoPolicy, hc_Timeout = 0,
       hc_Transport = Some (StdTransport 0)\<rparr>\<rparr> \<and>
     hw_transports w' ! 0 = zero_transport \<and> sends_one demo_answer x demo_http_world w' \<and> hw_closed w' = [1] \<and> responds out"
proof -
  obtain out s' w' where run: "demo_run = (out, s', w')" by (metis prod.exhaust)
  let ?c = "\<lparr>hc_CheckRedirect = NoPolicy, hc_Timeout = 0, hc_Transport = Some (StdTransport 0)\<rparr>"
  have en: "ensure_client demo_session demo_http_world = (?c, demo_http_world\<lparr>hw_transports := [zero_transport]\<rparr>)"
    by (simp add: ensure_client_def demo_session_def new_http_client_def demo_http_world_def)
  have ok: "transport_ok ?c (demo_http_world\<lparr>hw_transports := [zero_transport]\<rparr>)" by (simp add: transport_ok_def)
  note facts = demo_run_facts [unfolded run prod.case]
  have "hw_closed w' = [1]" "\<not> errs out" using facts by (auto simp: errs_def)
  moreover have "hw_transports w' ! 0 = zero_transport" if "take 1 (hw_transports w') = [zero_transport]"
    using that by (metis length_Cons list.size(3) lessI nth_Cons_0 nth_take One_nat_def)
  moreover note session_request_isolated [OF run [unfolded demo_run_def] en ok]
  ultimately show ?thesis using run by (auto simp: sends_none_def)
qed

end
