(* ===== verification/Profile_Model.thy ===== *)
theory Profile_Model
  imports Go_Strings Net_Base
begin

text \<open>
  \<^verbatim>\<open>common/profile/profile.go\<close>: the memory analysis that two HTTP handlers start and
  stop under one mutex. What the file system and the heap profiler answer are arguments; the
  descriptors in use and the files opened so far are recorded. The text of the memory
  statistics, which the handlers only pass on, is an argument of theirs and modelled apart.
\<close>

section \<open>The manager\<close>

datatype os_error = OsError string | OsClosed

record profile_manager =
  pm_inMemoryAnalysis :: bool
  pm_profileIndex :: int
  pm_filename :: string
  pm_memoryFile :: "nat option"

record profile_world =
  pw_next :: nat
  pw_open :: "nat fset"
  pw_names :: "string list"

datatype profile_reply =
    GcDone string | AlreadyOpen | Started | GenerateFailed os_error | NotOpen | CloseFailed os_error | AnalysisStopped string

definition new_profile_manager :: profile_manager where
  "new_profile_manager = \<lparr>pm_inMemoryAnalysis = False, pm_profileIndex = 0, pm_filename = [], pm_memoryFile = None\<rparr>"

text \<open>The verb \<open>%d\<close> of package \<^verbatim>\<open>fmt\<close>.\<close>

fun decimal :: "nat \<Rightarrow> string" where
  "decimal n = (if n < 10 then [char_of (48 + n)] else decimal (n div 10) @ [char_of (48 + n mod 10)])"

declare decimal.simps [simp del]

definition decimal_int :: "int \<Rightarrow> string" where
  "decimal_int i = (if i < 0 then ''-'' @ decimal (nat (- i)) else decimal (nat i))"

text \<open>\<open>os.OpenFile\<close>, and \<open>Close\<close>, which gives the descriptor back even when it fails.\<close>

definition os_open :: "os_error option \<Rightarrow> string \<Rightarrow> profile_world \<Rightarrow> (os_error + nat) \<times> profile_world" where
  "os_open err name w =
     (case err of
        Some e \<Rightarrow> (Inl e, w)
      | None \<Rightarrow> (Inr (pw_next w), w\<lparr>pw_next := pw_next w + 1, pw_open := finsert (pw_next w) (pw_open w), pw_names := pw_names w @ [name]\<rparr>))"

definition os_close :: "os_error option \<Rightarrow> nat \<Rightarrow> profile_world \<Rightarrow> os_error option \<times> profile_world" where
  "os_close err fd w =
     (if fd |\<in>| pw_open w then (err, w\<lparr>pw_open := pw_open w |-| {|fd|}\<rparr>) else (Some OsClosed, w))"

section \<open>The memory statistics\<close>

text \<open>
  \<open>getMemoryStats\<close>: the text that is given to the tab writer, with the Chinese words as the code points of the
  source. The tab writer, which aligns the columns, and what \<^verbatim>\<open>%f\<close> prints for the one floating point number are
  arguments. All code points are below \<open>2 ^ 16\<close>.
\<close>

definition utf8_char :: "nat \<Rightarrow> string" where
  "utf8_char c =
     (if c < 128 then [char_of c]
      else if c < 2048 then [char_of (192 + c div 64), char_of (128 + c mod 64)]
      else [char_of (224 + c div 4096), char_of (128 + c div 64 mod 64), char_of (128 + c mod 64)])"

definition utf8 :: "nat list \<Rightarrow> string" where
  "utf8 cs = concat (map utf8_char cs)"

record mem_stats =
  ms_Alloc :: "64 word"
  ms_TotalAlloc :: "64 word"
  ms_Sys :: "64 word"
  ms_Mallocs :: "64 word"
  ms_Frees :: "64 word"
  ms_HeapAlloc :: "64 word"
  ms_HeapSys :: "64 word"
  ms_HeapIdle :: "64 word"
  ms_HeapInuse :: "64 word"
  ms_HeapReleased :: "64 word"
  ms_HeapObjects :: "64 word"
  ms_NumGC :: "32 word"
  ms_PauseTotalNs :: "64 word"
  ms_GCCPUFraction :: string

abbreviation tab_char :: char where
  "tab_char \<equiv> CHR 0x09"

abbreviation newline_char :: char where
  "newline_char \<equiv> CHR 0x0A"

definition stats_header :: string where
  "stats_header = utf8 [23383, 27573, 21517] @ [tab_char] @ utf8 [23383, 27573, 20540] @ [tab_char] @ utf8 [35828, 26126]"

definition stats_row :: "string \<Rightarrow> string \<Rightarrow> string \<Rightarrow> string" where
  "stats_row name val note = name @ [tab_char] @ '' '' @ val @ '' '' @ [tab_char] @ note @ [newline_char]"

definition stats_rows :: "mem_stats \<Rightarrow> string list" where
  "stats_rows m =
    [stats_row ''Alloc'' (decimal (unat (ms_Alloc m)))
       (utf8 [24403, 21069, 27491, 22312, 20351, 29992, 30340, 22534, 20869, 23384, 23383, 33410, 25968] @ ''('' @ utf8 [8776] @ '' HeapAlloc)''),
     stats_row ''TotalAlloc'' (decimal (unat (ms_TotalAlloc m)))
       (utf8 [31243, 24207, 36816, 34892, 20197, 26469, 32047, 35745, 20998, 37197, 30340, 22534, 20869, 23384, 24635, 37327]),
     stats_row ''Sys'' (decimal (unat (ms_Sys m)))
       (utf8 [21521, 25805, 20316, 31995, 32479, 30003, 35831, 30340, 20869, 23384, 24635, 37327] @ '' ('' @ utf8 [22534] @ ''+'' @ utf8 [26632] @ ''+runtime)''),
     stats_row ''Mallocs'' (decimal (unat (ms_Mallocs m)))
       (utf8 [32047, 35745, 20998, 37197, 30340, 22534, 23545, 35937, 25968]),
     stats_row ''Frees'' (decimal (unat (ms_Frees m)))
       (utf8 [32047, 35745, 37322, 25918, 30340, 22534, 23545, 35937, 25968]),
     stats_row ''HeapAlloc'' (decimal (unat (ms_HeapAlloc m)))
       (utf8 [22534, 19978, 24050, 20998, 37197, 12289, 20173, 23384, 27963, 30340, 23545, 35937, 23383, 33410, 25968]),
     stats_row ''HeapSys'' (decimal (unat (ms_HeapSys m)))
       (utf8 [22534, 21521, 25805, 20316, 31995, 32479, 30003, 35831, 30340, 24635, 23383, 33410, 25968]),
     stats_row ''HeapIdle'' (decimal (unat (ms_HeapIdle m)))
       (utf8 [31354, 38386] @ ''('' @ utf8 [26410, 20351, 29992] @ '')'' @ utf8 [30340, 22534, 20869, 23384, 23383, 33410, 25968]),
     stats_row ''HeapInuse'' (decimal (unat (ms_HeapInuse m)))
       (utf8 [27491, 22312, 20351, 29992, 30340, 22534, 20869, 23384, 23383, 33410, 25968]),
     stats_row ''HeapReleased'' (decimal (unat (ms_HeapReleased m)))
       (utf8 [24050, 37322, 25918, 22238, 25805, 20316, 31995, 32479, 30340, 22534, 20869, 23384, 23383, 33410, 25968]),
     stats_row ''HeapObjects'' (decimal (unat (ms_HeapObjects m)))
       (utf8 [24403, 21069, 23384, 27963, 30340, 22534, 23545, 35937, 25968]),
     stats_row ''NumGC'' (decimal (unat (ms_NumGC m)))
       (utf8 [23436, 25104, 30340, 22403, 22334, 22238, 25910, 27425, 25968]),
     stats_row ''PauseTotalNs'' (decimal (unat (ms_PauseTotalNs m)))
       (utf8 [22403, 22334, 22238, 25910, 32047, 35745, 26242, 20572, 26102, 38388] @ ''('' @ utf8 [32435, 31186] @ '')''),
     stats_row ''GCCPUFraction'' (ms_GCCPUFraction m)
       (''GC '' @ utf8 [21344, 29992] @ '' CPU '' @ utf8 [26102, 38388, 30340, 27604, 20363] @ '' (0~1)'')]"

definition get_memory_stats :: "(string \<Rightarrow> string) \<Rightarrow> mem_stats \<Rightarrow> string" where
  "get_memory_stats align m = align (stats_header @ concat (stats_rows m))"

definition process_force_gc :: "string \<Rightarrow> profile_reply list" where
  "process_force_gc stats = [GcDone stats]"

definition profile_name :: "string \<Rightarrow> int \<Rightarrow> string" where
  "profile_name date i = ''memory.profile.'' @ date @ decimal_int i"

definition process_memory_analysis :: "string \<Rightarrow> os_error option \<Rightarrow> os_error option \<Rightarrow> profile_manager \<times> profile_world \<Rightarrow>
    profile_reply list \<times> profile_manager \<times> profile_world" where
  "process_memory_analysis date open_err heap_err pw =
     (case pw of (p, w) \<Rightarrow>
      if pm_inMemoryAnalysis p then ([AlreadyOpen], p, w)
      else
        let p1 = p\<lparr>pm_profileIndex := wrap64 (pm_profileIndex p + 1), pm_inMemoryAnalysis := True\<rparr>;
            p2 = p1\<lparr>pm_filename := profile_name date (pm_profileIndex p1)\<rparr> in
        case os_open open_err (pm_filename p2) w of
          (Inl e, w1) \<Rightarrow> ([Started, GenerateFailed e], p2\<lparr>pm_inMemoryAnalysis := False\<rparr>, w1)
        | (Inr fd, w1) \<Rightarrow>
            (let p3 = p2\<lparr>pm_memoryFile := Some fd\<rparr> in
             case heap_err of Some e \<Rightarrow> ([Started, GenerateFailed e], p3, w1) | None \<Rightarrow> ([Started], p3, w1)))"

definition process_memory_analysis_stop :: "string \<Rightarrow> os_error option \<Rightarrow> profile_manager \<times> profile_world \<Rightarrow>
    profile_reply list \<times> profile_manager \<times> profile_world" where
  "process_memory_analysis_stop stats close_err pw =
     (case pw of (p, w) \<Rightarrow>
      case pm_memoryFile p of
        None \<Rightarrow> ([NotOpen], p, w)
      | Some fd \<Rightarrow>
          (let p1 = p\<lparr>pm_inMemoryAnalysis := False\<rparr> in
           case os_close close_err fd w of
             (Some e, w1) \<Rightarrow> ([CloseFailed e], p1, w1)
           | (None, w1) \<Rightarrow> ([AnalysisStopped stats], p1\<lparr>pm_memoryFile := None\<rparr>, w1)))"

text \<open>
  \<open>ListenProfile\<close> registers the handlers with the one multiplexer of the process, which panics on a second handler
  for a pattern; the panic is recovered, and then nothing is served. The result says whether the server is started.
\<close>

fun register :: "string list \<Rightarrow> string fset \<Rightarrow> bool \<times> string fset" where
  "register [] mux = (True, mux)"
| "register (r # rs) mux = (if r |\<in>| mux then (False, mux) else register rs (finsert r mux))"

definition listen_profile :: "string fset \<Rightarrow> bool \<times> string fset" where
  "listen_profile mux = register [''/debug/pprof/memory/gc'', ''/debug/pprof/memory/open'', ''/debug/pprof/memory/stop''] mux"

section \<open>The files of all analyses\<close>

datatype profile_call =
    PGc string | POpen string "os_error option" "os_error option" | PStop string "os_error option"

fun profile_step :: "profile_manager \<times> profile_world \<Rightarrow> profile_call \<Rightarrow> profile_reply list \<times> profile_manager \<times> profile_world" where
  "profile_step pw (PGc stats) = (process_force_gc stats, pw)"
| "profile_step pw (POpen date oe he) = process_memory_analysis date oe he pw"
| "profile_step pw (PStop stats ce) = process_memory_analysis_stop stats ce pw"

definition profile_run :: "profile_call list \<Rightarrow> profile_manager \<times> profile_world \<Rightarrow> profile_manager \<times> profile_world" where
  "profile_run cs pw = fold (\<lambda>c pw. snd (profile_step pw c)) cs pw"

lemma decimal_value: "foldl (\<lambda>a c. 10 * a + (of_char c - 48)) 0 (decimal n) = n"
proof (induction n rule: decimal.induct)
  case (1 n)
  then show ?case by (subst decimal.simps) simp
qed

lemma decimal_inj: "decimal m = decimal n \<Longrightarrow> m = n"
  by (metis decimal_value)

lemma profile_name_inj:
  assumes "profile_name d i = profile_name d' j" and "length d = length d'" and "0 \<le> i" and "0 \<le> j"
  shows "i = j"
  using assms decimal_inj [of "nat i" "nat j"] by (simp add: profile_name_def decimal_int_def)

text \<open>
  What holds after any calls: the descriptor in use is the one of the manager, it is open during an analysis, and the
  files opened so far have the names of earlier indices, each its own.
\<close>

definition profile_inv :: "nat \<Rightarrow> nat \<Rightarrow> profile_manager \<Rightarrow> profile_world \<Rightarrow> bool" where
  "profile_inv n k p w \<longleftrightarrow>
     (case pm_memoryFile p of None \<Rightarrow> pw_open w = {||} | Some fd \<Rightarrow> pw_open w |\<subseteq>| {|fd|} \<and> fd < pw_next w) \<and>
     (pm_inMemoryAnalysis p \<longleftrightarrow> pw_open w \<noteq> {||}) \<and> 0 \<le> pm_profileIndex p \<and> pm_profileIndex p \<le> int k \<and> distinct (pw_names w) \<and>
     (\<forall>x \<in> set (pw_names w). \<exists>d i. x = profile_name d i \<and> length d = n \<and> 1 \<le> i \<and> i \<le> pm_profileIndex p)"

lemma profile_step_inv:
  assumes "profile_inv n k p w" and "int k < 2 ^ 63 - 1" and "\<And>d oe he. c = POpen d oe he \<Longrightarrow> length d = n"
  shows "case snd (profile_step (p, w) c) of (p', w') \<Rightarrow> profile_inv n (Suc k) p' w'"
proof (cases c)
  case (PGc s)
  then show ?thesis using assms(1) by (fastforce simp: profile_inv_def)
next
  case (PStop s ce)
  then show ?thesis using assms(1)
    by (auto simp: profile_inv_def process_memory_analysis_stop_def os_close_def Let_def split: option.splits)
next
  case (POpen d oe he)
  show ?thesis
  proof (cases "pm_inMemoryAnalysis p")
    case True
    then show ?thesis using assms(1) POpen by (auto simp: profile_inv_def process_memory_analysis_def)
  next
    case False
    let ?i = "pm_profileIndex p + 1"
    have i: "wrap64 ?i = ?i" using assms(1,2) by (simp add: profile_inv_def int64_def)
    have old: "\<exists>d j. x = profile_name d j \<and> length d = n \<and> 1 \<le> j \<and> j \<le> ?i" if "x \<in> set (pw_names w)" for x
      using assms(1) that by (fastforce simp: profile_inv_def)
    have new: "profile_name d ?i \<notin> set (pw_names w)"
    proof
      assume "profile_name d ?i \<in> set (pw_names w)"
      then obtain d' j where "profile_name d ?i = profile_name d' j" "length d' = n" "1 \<le> j" "j \<le> pm_profileIndex p"
        using assms(1) by (fastforce simp: profile_inv_def)
      then show False using profile_name_inj [of d ?i d' j] assms(3) POpen by simp
    qed
    have d: "\<exists>d' j. profile_name d ?i = profile_name d' j \<and> length d' = n \<and> 1 \<le> j \<and> j \<le> ?i"
      using assms(1,3) POpen by (force simp: profile_inv_def)
    show ?thesis using assms(1) False POpen i old new d
      by (auto simp: profile_inv_def process_memory_analysis_def os_open_def Let_def split: option.splits)
  qed
qed
lemma profile_run_inv:
  assumes "profile_inv n k p w" and "int (k + length cs) < 2 ^ 63 - 1" and "\<forall>d oe he. POpen d oe he \<in> set cs \<longrightarrow> length d = n"
  shows "case profile_run cs (p, w) of (p', w') \<Rightarrow> profile_inv n (k + length cs) p' w'"
  using assms
proof (induction cs arbitrary: p w k)
  case (Cons c cs)
  obtain q v where s: "snd (profile_step (p, w) c) = (q, v)" by fastforce
  have "profile_inv n (Suc k) q v" using profile_step_inv [OF Cons.prems(1), of c] Cons.prems s by auto
  moreover have "\<forall>d oe he. POpen d oe he \<in> set cs \<longrightarrow> length d = n" using Cons.prems(3) by simp
  moreover have "int (Suc k + length cs) < 2 ^ 63 - 1" using Cons.prems(2) by simp
  ultimately show ?case using Cons.IH [of "Suc k" q v] s by (simp add: profile_run_def split_beta del: split_paired_All)
qed (simp add: profile_run_def)

definition fresh_profile_world :: "profile_world" where
  "fresh_profile_world = \<lparr>pw_next = 0, pw_open = {||}, pw_names = []\<rparr>"

text \<open>
  C40: The analysis handlers lose no file and overwrite none. After any calls of the handlers, with any errors of the
  file system and of the profiler, at most one descriptor is open, the manager holds it, and it is open exactly
  while an analysis runs: then another start is refused and changes nothing, and otherwise a start begins an analysis whenever its file can
  be opened. Stopping leaves no descriptor open, even when closing reports an error. All files have different
  names, so that none is truncated by a later analysis, as long as dates have a fixed length and there are fewer than \<open>2 ^ 63 - 1\<close> calls.
\<close>

theorem profile_keeps_files:
  assumes "profile_run cs (new_profile_manager, fresh_profile_world) = (p, w)" and "int (length cs) < 2 ^ 63 - 1"
    and "\<forall>d oe he. POpen d oe he \<in> set cs \<longrightarrow> length d = n"
  shows "pw_open w |\<subseteq>| (case pm_memoryFile p of None \<Rightarrow> {||} | Some fd \<Rightarrow> {|fd|}) \<and> (pm_inMemoryAnalysis p \<longleftrightarrow> pw_open w \<noteq> {||}) \<and>
    distinct (pw_names w) \<and>
    (\<forall>d oe he. case process_memory_analysis d oe he (p, w) of (rs, p', w') \<Rightarrow>
       if pw_open w \<noteq> {||} then rs = [AlreadyOpen] \<and> p' = p \<and> w' = w
       else (pm_inMemoryAnalysis p' \<longleftrightarrow> oe = None)) \<and>
    (\<forall>stats ce. case process_memory_analysis_stop stats ce (p, w) of (rs, p', w') \<Rightarrow>
       pw_open w' = {||} \<and> \<not> pm_inMemoryAnalysis p')"
proof -
  have "profile_inv n 0 new_profile_manager fresh_profile_world"
    by (simp add: profile_inv_def new_profile_manager_def fresh_profile_world_def)
  from profile_run_inv [OF this, of cs] assms have inv: "profile_inv n (length cs) p w" by simp
  then have "(\<forall>d oe he. case process_memory_analysis d oe he (p, w) of (rs, p', w') \<Rightarrow>
       if pw_open w \<noteq> {||} then rs = [AlreadyOpen] \<and> p' = p \<and> w' = w else (pm_inMemoryAnalysis p' \<longleftrightarrow> oe = None))"
    by (auto simp: profile_inv_def process_memory_analysis_def os_open_def Let_def split: option.splits)
  moreover have "(\<forall>stats ce. case process_memory_analysis_stop stats ce (p, w) of (rs, p', w') \<Rightarrow>
       pw_open w' = {||} \<and> \<not> pm_inMemoryAnalysis p')"
    using inv by (auto simp: profile_inv_def process_memory_analysis_stop_def os_close_def Let_def split: option.splits)
  ultimately show ?thesis using inv by (auto simp: profile_inv_def split: option.splits)
qed

definition demo_profile_calls :: "profile_call list" where
  "demo_profile_calls = [POpen ''2024--01-02'' None None, PStop ''stats'' (Some (OsError ''io'')), POpen ''2024--01-02'' None (Some (OsError ''heap''))]"

theorem profile_keeps_files_witness:
  "\<exists>p w. profile_run demo_profile_calls (new_profile_manager, fresh_profile_world) = (p, w) \<and>
     pw_names w = [''memory.profile.2024--01-021'', ''memory.profile.2024--01-022''] \<and> pw_open w = {|1|} \<and> pm_inMemoryAnalysis p"
proof -
  obtain p w where run: "profile_run demo_profile_calls (new_profile_manager, fresh_profile_world) = (p, w)" by (metis prod.exhaust)
  have "(case profile_run demo_profile_calls (new_profile_manager, fresh_profile_world) of (p, w) \<Rightarrow> (pw_names w, pw_open w)) =
      ([''memory.profile.2024--01-021'', ''memory.profile.2024--01-022''], {|1|})"
    by code_simp
  with run have "pw_names w = [''memory.profile.2024--01-021'', ''memory.profile.2024--01-022'']" "pw_open w = {|1|}" by simp_all
  moreover have "pm_inMemoryAnalysis p"
    using profile_keeps_files [OF run, of 11] calculation by (auto simp: demo_profile_calls_def)
  ultimately show ?thesis using run by blast
qed

text \<open>
  The header of the statistics is written without a line end: the first line of the text is the header together with the first row.
\<close>

lemma decimal_char: "newline_char \<notin> set (decimal n)"
proof (induction n rule: decimal.induct)
  case (1 n)
  have "char_of (48 + k) \<noteq> newline_char" if "k < 10" for k :: nat
    using that by (simp add: char_of_eq_iff take_bit_eq_mod)
  from this [of n] this [of "n mod 10"] 1 show ?case by (subst decimal.simps) auto
qed

lemma utf8_char_line_end: "c < 2 ^ 16 \<Longrightarrow> newline_char \<in> set (utf8_char c) \<longleftrightarrow> c = 10"
  by (auto simp: utf8_char_def char_of_eq_iff eq_commute [of newline_char] take_bit_eq_mod)

lemma utf8_line_end: "\<forall>c \<in> set cs. c < 2 ^ 16 \<Longrightarrow> newline_char \<in> set (utf8 cs) \<longleftrightarrow> 10 \<in> set cs"
  by (auto simp: utf8_def utf8_char_line_end)

lemma first_line_is_header_and_row:
  "\<exists>note. takeWhile ((\<noteq>) newline_char) (stats_header @ concat (stats_rows m)) =
     stats_header @ ''Alloc'' @ [tab_char] @ '' '' @ decimal (unat (ms_Alloc m)) @ '' '' @ [tab_char] @ note"
proof -
  let ?line = "\<lambda>note. ''Alloc'' @ [tab_char] @ '' '' @ decimal (unat (ms_Alloc m)) @ '' '' @ [tab_char] @ note"
  have row: "stats_row name val desc = name @ [tab_char] @ '' '' @ val @ '' '' @ [tab_char] @ desc @ newline_char # []" for name val desc
    by (simp add: stats_row_def)
  obtain desc where first: "stats_rows m = stats_row ''Alloc'' (decimal (unat (ms_Alloc m))) desc # tl (stats_rows m)"
    and "newline_char \<notin> set desc"
    by (rule that [of "utf8 [24403, 21069, 27491, 22312, 20351, 29992, 30340, 22534, 20869, 23384, 23383, 33410, 25968] @ ''('' @ utf8 [8776] @ '' HeapAlloc)''"]) (simp only: stats_rows_def list.sel, simp add: utf8_line_end)
  moreover from first have "concat (stats_rows m) = ?line desc @ newline_char # concat (tl (stats_rows m))"
    by (metis (no_types, lifting) row concat.simps(2) append_assoc append_Cons append_Nil)
  ultimately obtain rest where c: "concat (stats_rows m) = ?line desc @ newline_char # rest" "newline_char \<notin> set desc"
    by blast
  have "newline_char \<notin> set (stats_header @ ?line desc)"
    using c(2) decimal_char [of "unat (ms_Alloc m)"] by (simp add: stats_header_def utf8_line_end)
  then have "takeWhile ((\<noteq>) newline_char) ((stats_header @ ?line desc) @ newline_char # rest) = stats_header @ ?line desc"
    by (subst takeWhile_append2) auto
  then show ?thesis unfolding c(1) by auto
qed

text \<open>A second \<open>ListenProfile\<close> in one process serves nothing.\<close>

lemma second_listen_fails:
  assumes "listen_profile mux = (True, mux')"
  shows "fst (listen_profile mux') = False"
  using assms by (auto simp: listen_profile_def split: if_splits)

end
