(* ===== verification/Conn_Flow.thy ===== *)
theory Conn_Flow
  imports Conn_Life
begin

text \<open>
  What goes through a connection: the data of successful sends is written to the transport in the
  order in which the queue took it, what \<open>Decode\<close> gives is handed to \<open>OnMessage\<close> in order,
  and the statistics count exactly these.
\<close>

section \<open>Sending\<close>

text \<open>What the write loop has taken from the queue and not written, by its phase.\<close>

fun in_hand :: "write_phase \<Rightarrow> bytes list \<Rightarrow> bool" where
  "in_hand WIdle xs \<longleftrightarrow> xs = []"
| "in_hand WSelect xs \<longleftrightarrow> xs = []"
| "in_hand (WGot d) xs \<longleftrightarrow> xs = [d]"
| "in_hand (WWriting d) xs \<longleftrightarrow> xs = [d]"
| "in_hand (WClose e) xs \<longleftrightarrow> length xs \<le> 1"
| "in_hand WClosing xs \<longleftrightarrow> length xs \<le> 1"
| "in_hand WDone xs \<longleftrightarrow> length xs \<le> 1"

definition queue_ok :: "'p conn \<Rightarrow> bool" where
  "queue_ok c \<longleftrightarrow> ch_wait (cn_sendQueue c) = [] \<and> \<not> ch_closed (cn_sendQueue c) \<and>
     length (ch_buf (cn_sendQueue c)) \<le> ch_cap (cn_sendQueue c) \<and>
     int (ch_cap (cn_sendQueue c)) = SendQueueSize (cn_conf c) \<and> 0 < SendQueueSize (cn_conf c)"

definition write_flow :: "'p conn \<Rightarrow> bool" where
  "write_flow c \<longleftrightarrow> (\<exists>hand. in_hand (cn_writer c) hand \<and>
     cn_accepted c = cn_wrote c @ hand @ ch_buf (cn_sendQueue c))"

definition write_stats :: "'p conn \<Rightarrow> bool" where
  "write_stats c \<longleftrightarrow>
     counts_messages (writeMessages (cn_statistics c)) (writeBytes (cn_statistics c)) (map length (cn_wrote c))"

definition sending_inv :: "'p conn \<Rightarrow> bool" where
  "sending_inv c \<longleftrightarrow> queue_ok c \<and> write_flow c \<and> write_stats c"

lemma in_hand_length: "in_hand w xs \<Longrightarrow> length xs \<le> 1"
  by (cases w) simp_all

lemma sending_same:
  assumes "sending_inv c" and "cn_sendQueue c' = cn_sendQueue c" and "cn_conf c' = cn_conf c" and "cn_writer c' = cn_writer c"
    and "cn_accepted c' = cn_accepted c" and "cn_wrote c' = cn_wrote c"
    and "writeMessages (cn_statistics c') = writeMessages (cn_statistics c)"
    and "writeBytes (cn_statistics c') = writeBytes (cn_statistics c)"
  shows "sending_inv c'"
  using assms by (simp add: sending_inv_def queue_ok_def write_flow_def write_stats_def)

lemma sending_enqueue:
  assumes "sending_inv c" and "chan_try_send d (cn_sendQueue c) = Some (True, q)"
  shows "sending_inv (c\<lparr>cn_sendQueue := q, cn_accepted := cn_accepted c @ [d]\<rparr>)"
  using assms by (auto simp: sending_inv_def queue_ok_def write_flow_def write_stats_def chan_try_send_def split: if_splits)

lemma sending_send:
  assumes "sending_inv c" and "send_at ph ch c = Some (ph', c1)"
  shows "sending_inv c1"
  using send_frame [OF assms(2)] sending_enqueue [OF assms(1)] assms(1) by auto

lemma queue_recv:
  assumes "queue_ok c" and "chan_recv (cn_sendQueue c) = Some (Some d, q)"
  shows "ch_buf (cn_sendQueue c) = d # ch_buf q \<and> ch_wait q = [] \<and> ch_cap q = ch_cap (cn_sendQueue c) \<and> \<not> ch_closed q"
  using assms by (auto simp: chan_recv_def queue_ok_def split: list.splits)

lemma sending_write:
  assumes "write_at (cn_writer c) w c = Some c'" and inv: "sending_inv c"
  shows "sending_inv c'"
proof -
  have move: "sending_inv c'" if "\<And>xs. in_hand (cn_writer c) xs \<Longrightarrow> in_hand (cn_writer c') xs"
      and "cn_sendQueue c' = cn_sendQueue c" "cn_wrote c' = cn_wrote c" "cn_statistics c' = cn_statistics c"
    using that inv write_frame [OF assms(1)]
    by (auto simp: sending_inv_def queue_ok_def write_flow_def write_stats_def)
  show ?thesis
  proof (cases "cn_writer c")
    case WSelect
    show ?thesis
    proof (cases "w = WTake")
      case True
      with WSelect assms(1) obtain d q where q: "chan_recv (cn_sendQueue c) = Some (Some d, q)"
        and c': "c' = c\<lparr>cn_sendQueue := q, cn_writer := WGot d\<rparr>"
        by (auto split: option.split_asm prod.split_asm)
      have "queue_ok c" using inv by (simp add: sending_inv_def)
      from queue_recv [OF this q] inv show ?thesis
        by (auto simp: c' WSelect sending_inv_def queue_ok_def write_flow_def write_stats_def)
    next
      case False
      then show ?thesis using WSelect assms(1)
        by (intro move) (auto simp: write_exit_def split: write_choice.split_asm if_split_asm)
    qed
  next
    case (WWriting d)
    show ?thesis
    proof (cases "w = WWrote (int (length d)) None")
      case True
      with WWriting assms(1) have c': "c' = c\<lparr>cn_statistics := incr_write (word_of_int (int (length d))) (cn_statistics c),
          cn_wrote := cn_wrote c @ [d], cn_writer := WSelect\<rparr>"
        by simp
      from inv WWriting show ?thesis
        by (simp add: c' sending_inv_def queue_ok_def write_flow_def write_stats_def incr_write_def counts_messages_snoc)
    next
      case False
      then show ?thesis using WWriting assms(1)
        by (intro move) (auto split: write_choice.split_asm if_split_asm option.split_asm)
    qed
  next
    case (WGot d)
    then show ?thesis using assms(1)
      by (intro move) (auto simp: write_exit_def split: write_choice.split_asm if_split_asm)
  next
    case (WClose e)
    then show ?thesis using assms(1)
      by (intro move) (auto simp: write_exit_def close_enter_def split: write_choice.split_asm once.split_asm)
  next
    case WClosing
    then show ?thesis using assms(1)
      by (intro move) (auto simp: write_exit_def close_leave_def split: write_choice.split_asm)
  qed (use assms(1) in simp_all)
qed

section \<open>Receiving\<close>

text \<open>A packet is the business' if the heartbeator does not claim it.\<close>

definition business :: "'p conn_deps \<Rightarrow> 'p \<Rightarrow> bool" where
  "business D p \<longleftrightarrow> (case d_heartbeat D of None \<Rightarrow> True | Some h \<Rightarrow> \<not> snd (snd (hb_inspect h p)))"

definition packets :: "'p conn_deps \<Rightarrow> 'p conn \<Rightarrow> 'p list" where
  "packets D c = (if d_receiver D then filter (business D) (map fst (cn_decoded c)) else [])"

fun undelivered :: "'p conn_deps \<Rightarrow> 'p read_phase \<Rightarrow> 'p list \<Rightarrow> bool" where
  "undelivered D (RRead p) xs \<longleftrightarrow> xs = (if d_receiver D \<and> business D p then [p] else [])"
| "undelivered D (RActive p) xs \<longleftrightarrow> xs = (if d_receiver D \<and> business D p then [p] else [])"
| "undelivered D (RDeliver p) xs \<longleftrightarrow> xs = (if d_receiver D \<and> business D p then [p] else [])"
| "undelivered D RIdle xs \<longleftrightarrow> xs = []"
| "undelivered D RCheck xs \<longleftrightarrow> xs = []"
| "undelivered D RDecoding xs \<longleftrightarrow> xs = []"
| "undelivered D (RSend ph) xs \<longleftrightarrow> xs = []"
| "undelivered D (ROnMessage p) xs \<longleftrightarrow> xs = []"
| "undelivered D (RClose e) xs \<longleftrightarrow> length xs \<le> 1"
| "undelivered D RClosing xs \<longleftrightarrow> length xs \<le> 1"
| "undelivered D RDone xs \<longleftrightarrow> length xs \<le> 1"

definition read_flow :: "'p conn_deps \<Rightarrow> 'p conn \<Rightarrow> bool" where
  "read_flow D c \<longleftrightarrow> (\<exists>xs. undelivered D (cn_reader c) xs \<and> packets D c = cn_delivered c @ xs)"

definition read_stats :: "'p conn \<Rightarrow> bool" where
  "read_stats c \<longleftrightarrow> readMessages (cn_statistics c) = of_nat (length (cn_decoded c)) \<and>
     readBytes (cn_statistics c) = word_of_int (sum_list (map snd (cn_decoded c)))"

definition receiving_inv :: "'p conn_deps \<Rightarrow> 'p conn \<Rightarrow> bool" where
  "receiving_inv D c \<longleftrightarrow> read_flow D c \<and> read_stats c"

lemma undelivered_length: "undelivered D r xs \<Longrightarrow> length xs \<le> 1"
  by (cases r) (auto split: if_splits)

lemma receiving_same:
  assumes "receiving_inv D c" and "cn_reader c' = cn_reader c" and "cn_decoded c' = cn_decoded c" and "cn_delivered c' = cn_delivered c"
    and "readMessages (cn_statistics c') = readMessages (cn_statistics c)"
    and "readBytes (cn_statistics c') = readBytes (cn_statistics c)"
  shows "receiving_inv D c'"
proof -
  have "packets D c' = packets D c" using assms(3) by (simp add: packets_def)
  then show ?thesis using assms by (simp add: receiving_inv_def read_flow_def read_stats_def)
qed

lemma deliver_flow:
  assumes "packets D c = cn_delivered c @ (if d_receiver D \<and> business D p then [p] else [])"
  shows "read_flow D (deliver_packet D p c)"
  using assms unfolding read_flow_def deliver_packet_def to_receiver_def
  by (auto simp: packets_def business_def split: option.splits prod.splits outcome.splits)

lemma receiving_read:
  assumes step: "read_at D (cn_reader c) r c = Some c'" and inv: "receiving_inv D c"
  shows "receiving_inv D c'"
proof -
  have move: "receiving_inv D c'" if "\<And>xs. undelivered D (cn_reader c) xs \<Longrightarrow> undelivered D (cn_reader c') xs"
      and "cn_decoded c' = cn_decoded c" "cn_delivered c' = cn_delivered c" "cn_statistics c' = cn_statistics c"
    using that inv by (auto simp: receiving_inv_def read_flow_def read_stats_def packets_def)
  show ?thesis
  proof (cases "cn_reader c")
    case RDecoding
    show ?thesis
    proof (cases "\<exists>p n. r = RDecoded p n")
      case True
      then obtain p n where r: "r = RDecoded p n" by blast
      with RDecoding step have c': "c' = c\<lparr>cn_statistics := incr_read (word_of_int n) (cn_statistics c),
          cn_decoded := cn_decoded c @ [(p, n)], cn_reader := RRead p\<rparr>"
        by simp
      from inv RDecoding show ?thesis
        by (auto simp: c' receiving_inv_def read_flow_def read_stats_def packets_def incr_read_def)
    next
      case False
      then show ?thesis using RDecoding step by (intro move) (auto split: read_choice.split_asm)
    qed
  next
    case (RDeliver p)
    show ?thesis
    proof (cases "r = RGo")
      case True
      with RDeliver step have c': "c' = deliver_packet D p c" by simp
      have "packets D c = cn_delivered c @ (if d_receiver D \<and> business D p then [p] else [])"
        using inv RDeliver by (simp add: receiving_inv_def read_flow_def)
      from deliver_flow [OF this] inv show ?thesis by (simp add: c' receiving_inv_def read_stats_def)
    next
      case False
      then show ?thesis using RDeliver step by (intro move) (auto split: read_choice.split_asm if_split_asm)
    qed
  next
    case (RSend ph)
    then show ?thesis using step
      by (intro move) (auto split: read_choice.split_asm if_split_asm option.split_asm send_phase.split_asm option.splits dest!: send_frame)
  next
    case (RRead p)
    then show ?thesis using step
      by (intro move) (auto simp: read_exit_def split: read_choice.split_asm if_split_asm)
  next
    case RCheck
    then show ?thesis using step
      by (intro move) (auto simp: read_exit_def split: read_choice.split_asm if_split_asm)
  next
    case (RClose e)
    then show ?thesis using step
      by (intro move) (auto simp: read_exit_def close_enter_def split: read_choice.split_asm once.split_asm)
  next
    case RClosing
    then show ?thesis using step
      by (intro move) (auto simp: read_exit_def close_leave_def split: read_choice.split_asm)
  next
    case (RActive p)
    then show ?thesis using step by (intro move) (auto split: read_choice.split_asm)
  next
    case (ROnMessage p)
    then show ?thesis using step by (intro move) (auto split: read_choice.split_asm)
  qed (use step in simp_all)
qed


section \<open>The connection as a whole\<close>

lemma read_sending:
  assumes step: "read_at D (cn_reader c) r c = Some c'" and inv: "sending_inv c"
  shows "sending_inv c'"
proof (cases "\<exists>ph ch. cn_reader c = RSend ph \<and> r = RSending ch")
  case True
  then obtain ph ch ph1 c1 where s: "send_at ph ch c = Some (ph1, c1)" and c': "c' = c1\<lparr>cn_reader := RSend ph1\<rparr>"
    using step by (auto split: if_splits)
  show ?thesis by (rule sending_same [OF sending_send [OF inv s]]) (simp_all add: c')
next
  case False
  then show ?thesis using step
    by (intro sending_same [OF inv]; cases "cn_reader c")
      (auto simp: step_defs incr_read_def split: read_choice.split_asm if_split_asm once.split_asm option.split_asm send_phase.split_asm)
qed

lemma heart_sending:
  assumes step: "heart_at D (cn_heart c) h c = Some c'" and inv: "sending_inv c"
  shows "sending_inv c'"
proof (cases "\<exists>seq x ph ch. cn_heart c = HSend seq x ph \<and> h = HSending ch")
  case True
  then obtain seq x ph ch ph1 c1 where s: "send_at ph ch c = Some (ph1, c1)" and c': "c' = c1\<lparr>cn_heart := HSend seq x ph1\<rparr>"
    using step by (auto split: if_splits)
  show ?thesis by (rule sending_same [OF sending_send [OF inv s]]) (simp_all add: c')
next
  case False
  then show ?thesis using step
    by (intro sending_same [OF inv]; cases "cn_heart c")
      (auto simp: step_defs split: heart_choice.split_asm if_split_asm once.split_asm option.split_asm send_phase.split_asm outcome.split_asm)
qed

lemma send_receiving:
  assumes "send_at ph ch c = Some (ph', c1)" and "receiving_inv D c"
  shows "receiving_inv D c1"
  using send_frame [OF assms(1)] assms(2) receiving_same [of D c c1] by auto

lemma write_receiving:
  assumes step: "write_at (cn_writer c) w c = Some c'" and inv: "receiving_inv D c"
  shows "receiving_inv D c'"
proof -
  have "readMessages (cn_statistics c') = readMessages (cn_statistics c)" "readBytes (cn_statistics c') = readBytes (cn_statistics c)"
    using step by (cases "cn_writer c"; auto simp: step_defs incr_write_def
      split: write_choice.split_asm if_split_asm once.split_asm option.split_asm)+
  then show ?thesis using write_frame [OF step] by (intro receiving_same [OF inv]) simp_all
qed

lemma heart_receiving:
  assumes "heart_at D (cn_heart c) h c = Some c'" and "receiving_inv D c"
  shows "receiving_inv D c'"
  by (rule receiving_same [OF assms(2)]) (use heart_frame [OF assms(1)] in simp_all)

lemma main_receiving:
  assumes step: "main_at D (cn_main c) m c = Some c'" and inv: "receiving_inv D c" and l: "loops_inv D c"
  shows "receiving_inv D c'"
proof (cases "cn_main c = MStart")
  case True
  then have "cn_reader c = RIdle" using l by (simp add: loops_inv_def)
  moreover have "cn_reader c' = RCheck" using True step by (auto simp: start_loops_def Let_def split: main_choice.split_asm)
  moreover have "packets D c' = packets D c" using main_frame [OF step] by (simp add: packets_def)
  ultimately show ?thesis using inv main_frame [OF step] by (simp add: receiving_inv_def read_flow_def read_stats_def)
next
  case False
  then have "cn_reader c' = cn_reader c"
    using step by (cases "cn_main c") (auto simp: step_defs split: main_choice.split_asm if_split_asm once.split_asm)
  then show ?thesis using main_frame [OF step] by (intro receiving_same [OF inv]) simp_all
qed

lemma main_sending:
  assumes "main_at D (cn_main c) m c = Some c'" and "sending_inv c"
  shows "sending_inv c'"
  by (rule sending_same [OF assms(2)]) (use main_frame [OF assms(1)] in simp_all)

lemma run_flow:
  assumes "conn_inv D c" and "sending_inv c" and "receiving_inv D c"
  shows "sending_inv (conn_run c) \<and> receiving_inv D (conn_run c)"
proof (cases "cn_started c")
  case False
  then have "cn_writer c = WIdle" using assms(1) by (auto simp: conn_inv_def loops_inv_def)
  then show ?thesis using assms(2) False receiving_same [OF assms(3), of "conn_run c"]
    by (auto simp: conn_run_def sending_inv_def queue_ok_def write_flow_def write_stats_def)
qed (use assms in \<open>simp add: conn_run_def\<close>)

lemma internal_flow:
  assumes "conn_internal D c c'" and "conn_inv D c" and s: "sending_inv c" and r: "receiving_inv D c"
  shows "sending_inv c' \<and> receiving_inv D c'"
proof -
  have l: "loops_inv D c" using assms(2) by (simp add: conn_inv_def)
  from assms(1) show ?thesis
  proof (cases rule: conn_internal.cases)
    case (main_goes m)
    from main_sending [OF this s] main_receiving [OF this r l] show ?thesis by blast
  next
    case (write_goes w)
    from sending_write [OF this s] write_receiving [OF this r] show ?thesis by blast
  next
    case (read_goes x)
    from read_sending [OF this s] receiving_read [OF this r] show ?thesis by blast
  next
    case (heart_goes h)
    from heart_sending [OF this s] heart_receiving [OF this r] show ?thesis by blast
  next
    case (send_goes i ch ph c1)
    from sending_send [OF s send_goes(3)] send_receiving [OF send_goes(3) r] show ?thesis
      using send_goes(1) sending_same [of c1 c'] receiving_same [of D c1 c'] by simp
  next
    case (close_goes i err)
    note f = closer_frame [OF close_goes(2)]
    show ?thesis
      by (rule conjI, rule sending_same [OF s]) (use f in \<open>simp_all add: receiving_same [OF r]\<close>)
  qed
qed

lemma step_flow:
  assumes "conn_step D c c'" and "conn_inv D c" and s: "sending_inv c" and r: "receiving_inv D c"
  shows "sending_inv c' \<and> receiving_inv D c'"
  using assms(1)
proof (cases rule: conn_step.cases)
  case internal
  then show ?thesis using internal_flow assms(2-4) by blast
next
  case run
  then show ?thesis using run_flow assms(2-4) by blast
qed (use sending_same [OF s, of c'] receiving_same [OF r, of c'] in simp_all)

lemma new_conn_flow:
  assumes "fst (new_conn True conf gen) = Inr c"
  shows "sending_inv c \<and> receiving_inv D c"
proof -
  note f = new_conn_fields [OF assms, of D]
  have "0 < SendQueueSize (conn_defaults conf)"
    by (simp add: conn_defaults_def Let_def defaultConnSendQueueSize_def)
  with f show ?thesis
    by (simp add: sending_inv_def queue_ok_def write_flow_def write_stats_def receiving_inv_def read_flow_def read_stats_def
        packets_def no_traffic_def make_chan_def)
qed

lemma reachable_flow: "conn_reachable D c \<Longrightarrow> sending_inv c \<and> receiving_inv D c"
proof (induction rule: conn_reachable.induct)
  case (made conf gen c)
  then show ?case by (rule new_conn_flow)
next
  case (step c c')
  then show ?case using step_flow reachable_inv by blast
qed

section \<open>Properties\<close>

text \<open>
  C19: messages are sent in order and none is sent twice or invented. What has been written to
  the transport completely is the first part of what the queue took, in the same order; apart
  from at most one message in the hands of the write loop the rest is still in the queue, which
  never holds more than its size. The statistics count exactly the complete writes, modulo
  \<open>2 ^ 64\<close>.
\<close>

theorem conn_writes_in_order:
  assumes "conn_reachable D c"
  shows "\<exists>hand. length hand \<le> 1 \<and> cn_accepted c = cn_wrote c @ hand @ ch_buf (cn_sendQueue c) \<and>
    int (length (ch_buf (cn_sendQueue c))) \<le> SendQueueSize (cn_conf c) \<and>
    (cn_writer c = WSelect \<longrightarrow> hand = []) \<and>
    unat (WriteMessages (conn_Statistics c)) = length (cn_wrote c) mod 2 ^ 64 \<and>
    unat (WriteBytes (conn_Statistics c)) = sum_list (map length (cn_wrote c)) mod 2 ^ 64"
proof -
  have inv: "queue_ok c" "write_flow c" "write_stats c"
    using reachable_flow [OF assms] by (simp_all add: sending_inv_def)
  from inv(2) obtain hand where h: "in_hand (cn_writer c) hand" "cn_accepted c = cn_wrote c @ hand @ ch_buf (cn_sendQueue c)"
    by (auto simp: write_flow_def)
  have "int (length (ch_buf (cn_sendQueue c))) \<le> SendQueueSize (cn_conf c)"
    using inv(1) by (simp add: queue_ok_def)
  moreover have "cn_writer c = WSelect \<longrightarrow> hand = []" using h(1) by auto
  moreover have "unat (WriteMessages (conn_Statistics c)) = length (cn_wrote c) mod 2 ^ 64 \<and>
      unat (WriteBytes (conn_Statistics c)) = sum_list (map length (cn_wrote c)) mod 2 ^ 64"
    using counts_messages_unat inv(3) by (fastforce simp: write_stats_def conn_Statistics_def traffic_snapshot_of_def)
  ultimately show ?thesis using in_hand_length [OF h(1)] h(2) by (intro exI [of _ hand] conjI) blast+
qed

theorem conn_writes_in_order_witness:
  "\<exists>c. conn_reachable demo_deps c \<and> cn_accepted c = [[7], [8]] \<and> cn_wrote c = [[7]] \<and>
     ch_buf (cn_sendQueue c) = [[8]] \<and> unat (WriteBytes (conn_Statistics c)) = 1"
proof -
  have "map_option (\<lambda>c. (cn_accepted c, cn_wrote c, ch_buf (cn_sendQueue c))) (conn_exec demo_deps demo_start demo_conn) =
      Some ([[7], [8]], [[7]], [[8]])"
    by code_simp
  then obtain c where c: "conn_exec demo_deps demo_start demo_conn = Some c" "cn_accepted c = [[7], [8]]"
      "cn_wrote c = [[7]]" "ch_buf (cn_sendQueue c) = [[8]]"
    by auto
  note r = conn_exec_reachable [OF c(1) demo_reachable]
  from conn_writes_in_order [OF r] c r show ?thesis by (intro exI [of _ c]) auto
qed

text \<open>
  C20: messages are received in order. The packets handed to \<open>OnMessage\<close> are those that \<open>Decode\<close>
  gave and the heartbeator does not claim, in the same order, without gaps; at most the last
  one is missing, while it is on its way or because the connection ended there. Without a
  receiver nothing is delivered. The statistics count every decoded packet, heartbeats too.
\<close>

theorem conn_delivers_in_order:
  assumes "conn_reachable D c"
  shows "(\<exists>rest. length rest \<le> 1 \<and>
      (if d_receiver D then filter (business D) (map fst (cn_decoded c)) else []) = cn_delivered c @ rest \<and>
      (cn_reader c = RCheck \<longrightarrow> rest = [])) \<and>
    ReadMessages (conn_Statistics c) = of_nat (length (cn_decoded c)) \<and>
    ReadBytes (conn_Statistics c) = word_of_int (sum_list (map snd (cn_decoded c)))"
proof -
  have inv: "read_flow D c" "read_stats c" using reachable_flow [OF assms] by (simp_all add: receiving_inv_def)
  from inv(1) obtain xs where x: "undelivered D (cn_reader c) xs" "packets D c = cn_delivered c @ xs"
    by (auto simp: read_flow_def)
  have "cn_reader c = RCheck \<longrightarrow> xs = []" using x(1) by auto
  with undelivered_length [OF x(1)] x(2) have "\<exists>rest. length rest \<le> 1 \<and>
      (if d_receiver D then filter (business D) (map fst (cn_decoded c)) else []) = cn_delivered c @ rest \<and>
      (cn_reader c = RCheck \<longrightarrow> rest = [])"
    unfolding packets_def by (intro exI [of _ xs] conjI)
  with inv(2) show ?thesis by (simp add: read_stats_def conn_Statistics_def traffic_snapshot_of_def)
qed

theorem conn_delivers_in_order_witness:
  "\<exists>c. conn_reachable demo_deps c \<and> cn_decoded c = [(3, 4)] \<and> cn_delivered c = [3] \<and> ReadBytes (conn_Statistics c) = 4"
proof -
  have "map_option (\<lambda>c. (cn_decoded c, cn_delivered c)) (conn_exec demo_deps demo_start demo_conn) = Some ([(3, 4)], [3])"
    by code_simp
  then obtain c where c: "conn_exec demo_deps demo_start demo_conn = Some c" "cn_decoded c = [(3, 4)]" "cn_delivered c = [3]"
    by auto
  note r = conn_exec_reachable [OF c(1) demo_reachable]
  from conn_delivers_in_order [OF r] c r show ?thesis by (intro exI [of _ c]) auto
qed

end
