(* ===== verification/Conn_Progress.thy ===== *)
theory Conn_Progress
  imports Conn_Flow "HOL-Library.Sublist"
begin

text \<open>
  A send that has returned nil is written: how far the write loop is, as a number that every one of its steps
  raises by one and that nothing else changes.
\<close>

section \<open>Calls that succeed\<close>

text \<open>What a call of \<open>Send\<close> or \<open>TrySend\<close> carries until it returns.\<close>

fun pending_data :: "send_phase \<Rightarrow> bytes list" where
  "pending_data (SErr d) = [d]" | "pending_data (SCtx d) = [d]" | "pending_data (SSelect d) = [d]"
| "pending_data (STryErr d) = [d]" | "pending_data (STrySelect d) = [d]" | "pending_data (SReturned err) = []"

lemma send_succeeds:
  assumes "send_at ph ch c = Some (SReturned None, c')"
  shows "\<exists>d. pending_data ph = [d] \<and> cn_accepted c' = cn_accepted c @ [d]"
  using assms by (cases ph)
    (auto simp: enqueue_def split: send_choice.split_asm if_split_asm option.split_asm bool.split_asm prod.split_asm)

lemma send_accepts: "send_at ph ch c = Some (ph', c') \<Longrightarrow> prefix (cn_accepted c) (cn_accepted c')"
  by (auto dest!: send_frame)

lemma internal_accepts:
  assumes "conn_internal D c c'"
  shows "prefix (cn_accepted c) (cn_accepted c')"
  using assms
proof (cases rule: conn_internal.cases)
  case (main_goes m)
  then show ?thesis by (auto dest: main_frame)
next
  case (write_goes w)
  then show ?thesis by (auto dest: write_frame)
next
  case (read_goes r)
  then show ?thesis
    by (cases "cn_reader c") (auto simp: step_defs dest: send_accepts
      split: read_choice.split_asm if_split_asm once.split_asm option.split_asm send_phase.split_asm)
next
  case (heart_goes h)
  then show ?thesis
    by (cases "cn_heart c") (auto simp: step_defs dest: send_accepts
      split: heart_choice.split_asm if_split_asm once.split_asm option.split_asm send_phase.split_asm outcome.split_asm)
next
  case (send_goes i ch ph c1)
  then show ?thesis using send_accepts by fastforce
next
  case (close_goes i err)
  from closer_frame [OF this(2)] show ?thesis by simp
qed

lemma step_accepts: "conn_step D c c' \<Longrightarrow> prefix (cn_accepted c) (cn_accepted c')"
  by (cases rule: conn_step.cases) (auto simp: conn_run_def dest: internal_accepts)

lemma exec_accepts: "conn_exec D ls c = Some c' \<Longrightarrow> prefix (cn_accepted c) (cn_accepted c')"
  by (induction ls arbitrary: c)
    (auto split: option.splits dest!: conn_do_step dest: step_accepts intro: prefix_order.trans)

section \<open>The steps of the write loop\<close>

text \<open>The write loop has not failed, and how many steps of its present round it has made.\<close>

fun writing :: "write_phase \<Rightarrow> bool" where
  "writing WIdle \<longleftrightarrow> True" | "writing WSelect \<longleftrightarrow> True" | "writing (WGot d) \<longleftrightarrow> True" | "writing (WWriting d) \<longleftrightarrow> True"
| "writing (WClose e) \<longleftrightarrow> False" | "writing WClosing \<longleftrightarrow> False" | "writing WDone \<longleftrightarrow> False"

fun write_turn :: "write_phase \<Rightarrow> nat" where
  "write_turn WIdle = 0" | "write_turn WSelect = 0" | "write_turn (WGot d) = 1" | "write_turn (WWriting d) = 2"
| "write_turn (WClose e) = 0" | "write_turn WClosing = 0" | "write_turn WDone = 0"

definition write_count :: "'p conn \<Rightarrow> nat" where
  "write_count c = 3 * length (cn_wrote c) + write_turn (cn_writer c)"

fun of_writer :: "'p conn_label \<Rightarrow> bool" where
  "of_writer (LWrite w) \<longleftrightarrow> True"
| "of_writer LRun \<longleftrightarrow> False" | "of_writer (LMain m) \<longleftrightarrow> False" | "of_writer (LRead r) \<longleftrightarrow> False" | "of_writer (LHeart h) \<longleftrightarrow> False"
| "of_writer (LSend i ch) \<longleftrightarrow> False" | "of_writer (LClose i err) \<longleftrightarrow> False" | "of_writer (LNewSend p) \<longleftrightarrow> False"
| "of_writer (LNewTry p) \<longleftrightarrow> False" | "of_writer LNewClose \<longleftrightarrow> False"

definition write_steps :: "'p conn_label list \<Rightarrow> nat" where
  "write_steps ls = length (filter of_writer ls)"

lemma write_advances:
  assumes "write_at (cn_writer c) w c = Some c'" and "writing (cn_writer c')"
  shows "writing (cn_writer c) \<and> write_count c' = Suc (write_count c)"
  using assms by (cases "cn_writer c")
    (auto simp: write_count_def step_defs split: write_choice.split_asm if_split_asm once.split_asm option.split_asm)

lemma others_keep_count:
  assumes "conn_do D l c = Some c'" and "\<not> of_writer l" and "cn_started c \<longleftrightarrow> cn_writer c \<noteq> WIdle"
  shows "writing (cn_writer c') = writing (cn_writer c) \<and> write_count c' = write_count c"
proof (cases l)
  case LRun
  then show ?thesis using assms by (auto simp: conn_run_def write_count_def)
next
  case (LSend i ch)
  then show ?thesis using assms(1) by (auto simp: write_count_def split: if_splits dest!: send_frame)
next
  case (LMain m)
  then show ?thesis using assms(1) by (auto simp: write_count_def dest: main_frame)
next
  case (LRead r)
  then show ?thesis using assms(1) by (auto simp: write_count_def dest: read_frame)
next
  case (LHeart h)
  then show ?thesis using assms(1) by (auto simp: write_count_def dest: heart_frame)
next
  case (LClose i err)
  then show ?thesis using assms(1) by (auto simp: write_count_def split: if_splits dest: closer_frame)
qed (use assms(1,2) in \<open>auto simp: write_count_def call_begins_def split: outcome.splits\<close>)

lemma reachable_started: "conn_reachable D c \<Longrightarrow> cn_started c \<longleftrightarrow> cn_writer c \<noteq> WIdle"
  using reachable_inv by (auto simp: conn_inv_def loops_inv_def)

lemma exec_write_count:
  assumes "conn_exec D ls c = Some c'" and "conn_reachable D c" and "writing (cn_writer c')"
  shows "writing (cn_writer c) \<and> write_count c' = write_count c + write_steps ls"
  using assms
proof (induction ls arbitrary: c)
  case (Cons l ls)
  then obtain c1 where c1: "conn_do D l c = Some c1" "conn_exec D ls c1 = Some c'" by (auto split: option.splits)
  have "conn_reachable D c1" using Cons.prems(2) conn_do_step [OF c1(1)] by (rule conn_reachable.step)
  from Cons.IH [OF c1(2) this Cons.prems(3)] have IH: "writing (cn_writer c1)" "write_count c' = write_count c1 + write_steps ls"
    by blast+
  show ?case
  proof (cases "of_writer l")
    case True
    then obtain w where "write_at (cn_writer c) w c = Some c1" using c1(1) by (cases l) auto
    from write_advances [OF this IH(1)] IH(2) True show ?thesis by (simp add: write_steps_def)
  next
    case False
    from others_keep_count [OF c1(1) False reachable_started [OF Cons.prems(2)]] IH False show ?thesis
      by (simp add: write_steps_def)
  qed
qed (simp add: write_steps_def)

text \<open>While there is something to write and nobody has closed, the write loop can go on.\<close>

lemma writer_not_stuck:
  assumes "sending_inv c" and "writing (cn_writer c)" and "cn_started c" and "cn_started c \<longleftrightarrow> cn_writer c \<noteq> WIdle"
    and "cn_cause c = None" and "cn_wrote c \<noteq> cn_accepted c"
  shows "\<exists>w c'. write_at (cn_writer c) w c = Some c' \<and> writing (cn_writer c')"
proof (cases "cn_writer c")
  case WSelect
  then obtain d q where "ch_buf (cn_sendQueue c) = d # q" "ch_wait (cn_sendQueue c) = []"
    using assms(1,6) by (cases "ch_buf (cn_sendQueue c)") (auto simp: sending_inv_def write_flow_def queue_ok_def)
  then have "write_at (cn_writer c) WTake c = Some (c\<lparr>cn_sendQueue := cn_sendQueue c\<lparr>ch_buf := q\<rparr>, cn_writer := WGot d\<rparr>)"
    using WSelect by (simp add: chan_recv_def)
  then show ?thesis by (intro exI conjI) auto
next
  case (WGot d)
  then have "write_at (cn_writer c) WGo c = Some (c\<lparr>cn_writer := WWriting d\<rparr>)" using assms(5) by (simp add: conn_Err_def)
  then show ?thesis by (intro exI conjI) auto
next
  case (WWriting d)
  then have "\<exists>c'. write_at (cn_writer c) (WWrote (int (length d)) None) c = Some c' \<and> cn_writer c' = WSelect" by simp
  then show ?thesis by (metis writing.simps(2))
qed (use assms in simp_all)

section \<open>Properties\<close>

text \<open>
  C2: What was sent without an error is written. When a call of \<open>Send\<close> or \<open>TrySend\<close> returns nil, the queue has
  taken its data, behind all that was accepted before. From then on, whatever the other goroutines
  and callers do in between, three steps of the write loop for every message in the queue and for one more are
  enough for all of it to be written to the transport, in order, unless a write fails or the connection is closed. The write
  loop of a connection that runs can always make its next step while something is left to write.
\<close>

theorem sent_is_written:
  assumes "conn_reachable D c" and "conn_do D (LSend i ch) c = Some c1" and "cn_sends c1 ! i = SReturned None"
    and "conn_exec D ls c1 = Some c2" and "writing (cn_writer c2)"
  shows "\<exists>d. pending_data (cn_sends c ! i) = [d] \<and> cn_accepted c1 = cn_accepted c @ [d] \<and>
    (3 * (length (ch_buf (cn_sendQueue c1)) + 1) \<le> write_steps ls \<longrightarrow> prefix (cn_accepted c1) (cn_wrote c2)) \<and>
    (cn_started c2 \<and> cn_cause c2 = None \<and> cn_wrote c2 \<noteq> cn_accepted c2 \<longrightarrow>
      (\<exists>w c3. conn_do D (LWrite w) c2 = Some c3 \<and> writing (cn_writer c3)))"
proof -
  obtain ph c' where s: "i < length (cn_sends c)" "send_at (cn_sends c ! i) ch c = Some (ph, c')" "c1 = c'\<lparr>cn_sends := (cn_sends c')[i := ph]\<rparr>"
    using assms(2) by (auto split: if_splits)
  moreover from send_frame [OF s(2)] have "cn_sends c' = cn_sends c" by auto
  ultimately have "ph = SReturned None" using assms(3) by simp
  with send_succeeds s(2,3) obtain d where d: "pending_data (cn_sends c ! i) = [d]" "cn_accepted c1 = cn_accepted c @ [d]"
    by fastforce
  have r1: "conn_reachable D c1" using assms(1) conn_do_step [OF assms(2)] by (rule conn_reachable.step)
  note r2 = conn_exec_reachable [OF assms(4) r1]
  obtain h1 where h1: "length h1 \<le> 1" "cn_accepted c1 = cn_wrote c1 @ h1 @ ch_buf (cn_sendQueue c1)"
    using reachable_flow [OF r1] in_hand_length by (fastforce simp: sending_inv_def write_flow_def)
  have p2: "prefix (cn_wrote c2) (cn_accepted c2)"
    using reachable_flow [OF r2] by (auto simp: sending_inv_def write_flow_def)
  have "prefix (cn_accepted c1) (cn_wrote c2)" if "3 * (length (ch_buf (cn_sendQueue c1)) + 1) \<le> write_steps ls"
  proof -
    have "write_turn (cn_writer c2) \<le> 2" by (cases "cn_writer c2") simp_all
    with exec_write_count [OF assms(4) r1 assms(5)] that have "length (cn_wrote c1) + length (ch_buf (cn_sendQueue c1)) + 1 \<le> length (cn_wrote c2)"
      by (simp add: write_count_def)
    with h1 have "length (cn_accepted c1) \<le> length (cn_wrote c2)" by simp
    with exec_accepts [OF assms(4)] p2 show ?thesis by (meson prefix_length_prefix)
  qed
  moreover have "\<exists>w c3. conn_do D (LWrite w) c2 = Some c3 \<and> writing (cn_writer c3)"
    if "cn_started c2 \<and> cn_cause c2 = None \<and> cn_wrote c2 \<noteq> cn_accepted c2"
    using writer_not_stuck [of c2] reachable_flow [OF r2] reachable_started [OF r2] assms(5) that by auto
  ultimately show ?thesis using d by blast
qed

text \<open>The second message is accepted while the first is in the queue; six steps later both are written.\<close>

definition demo_write_out :: "nat conn_label list" where
  "demo_write_out = [LWrite WTake, LNewSend 9, LWrite WGo, LWrite (WWrote 1 None), LSend 2 SGo, LWrite WTake, LWrite WGo,
     LWrite (WWrote 1 None), LSend 2 (SCtxErr None), LSend 2 SPickQueue, LWrite WTake, LWrite WGo, LWrite (WWrote 1 None)]"

theorem sent_is_written_witness:
  "\<exists>c1 c2. cn_accepted c1 = [[7], [8]] \<and> cn_wrote c1 = [] \<and> conn_exec demo_deps demo_write_out c1 = Some c2 \<and>
     prefix (cn_accepted c1) (cn_wrote c2) \<and> cn_wrote c2 = [[7], [8], [9]]"
proof -
  have "map_option cn_id (conn_exec demo_deps (take 10 demo_start) demo_conn) = Some 1" by code_simp
  then obtain c where c: "conn_exec demo_deps (take 10 demo_start) demo_conn = Some c" by auto
  have "map_option (\<lambda>c. (cn_sends c ! 1, cn_accepted c, cn_wrote c, length (ch_buf (cn_sendQueue c))))
      (conn_exec demo_deps (take 11 demo_start) demo_conn) = Some (SReturned None, [[7], [8]], [], 2)"
    by code_simp
  moreover have "take 11 demo_start = take 10 demo_start @ [LSend 1 SPickQueue]" by code_simp
  ultimately obtain c1 where c1: "conn_do demo_deps (LSend 1 SPickQueue) c = Some c1" "cn_sends c1 ! 1 = SReturned None"
      "cn_accepted c1 = [[7], [8]]" "cn_wrote c1 = []" "length (ch_buf (cn_sendQueue c1)) = 2"
    and e: "conn_exec demo_deps (take 11 demo_start) demo_conn = Some c1"
    using c by (auto simp: conn_exec_append split: option.splits)
  have "map_option (\<lambda>c. (cn_wrote c, cn_writer c)) (conn_exec demo_deps (take 11 demo_start @ demo_write_out) demo_conn) =
      Some ([[7], [8], [9]], WSelect)"
    by code_simp
  then obtain c2 where c2: "conn_exec demo_deps demo_write_out c1 = Some c2" "cn_wrote c2 = [[7], [8], [9]]" "cn_writer c2 = WSelect"
    using e by (auto simp: conn_exec_append)
  have "3 * (length (ch_buf (cn_sendQueue c1)) + 1) \<le> write_steps demo_write_out"
    using c1(5) by (simp add: write_steps_def demo_write_out_def)
  with sent_is_written [OF conn_exec_reachable [OF c demo_reachable] c1(1,2) c2(1)] c2(3) have "prefix (cn_accepted c1) (cn_wrote c2)"
    by auto
  with c1 c2 show ?thesis by blast
qed

end
