(* ===== verification/End_To_End.thy ===== *)
theory End_To_End
  imports Conn_Progress Ws_Transport
begin

text \<open>
  Two connections and the transports between them: what one end accepts for sending arrives
  at the other, decoded, in order. The codec is the caller's; what its interface asks of it is stated here.
\<close>

section \<open>What is sent has been encoded\<close>

definition encoded :: "'p conn_deps \<Rightarrow> bytes \<Rightarrow> bool" where
  "encoded D d \<longleftrightarrow> (\<exists>p. d_encode D p = Returns d)"

fun reader_data :: "'p read_phase \<Rightarrow> bytes list" where
  "reader_data (RSend ph) = pending_data ph"
| "reader_data RIdle = []" | "reader_data RCheck = []" | "reader_data RDecoding = []" | "reader_data (RRead p) = []"
| "reader_data (RActive p) = []" | "reader_data (RDeliver p) = []" | "reader_data (ROnMessage p) = []"
| "reader_data (RClose e) = []" | "reader_data RClosing = []" | "reader_data RDone = []"

fun heart_data :: "heart_phase \<Rightarrow> bytes list" where
  "heart_data (HSend seq x ph) = pending_data ph"
| "heart_data HIdle = []" | "heart_data (HSelect seq) = []" | "heart_data (HTick seq) = []" | "heart_data (HTime seq) = []"
| "heart_data (HSent seq x err) = []" | "heart_data (HClose e) = []" | "heart_data HClosing = []" | "heart_data HDone = []"

text \<open>All data that has been accepted or is on its way into the queue.\<close>

definition all_data :: "'p conn \<Rightarrow> bytes set" where
  "all_data c = set (cn_accepted c) \<union> (\<Union>ph \<in> set (cn_sends c). set (pending_data ph)) \<union>
     set (reader_data (cn_reader c)) \<union> set (heart_data (cn_heart c))"

lemma send_data:
  assumes "send_at ph ch c = Some (ph', c')"
  shows "set (pending_data ph') \<subseteq> set (pending_data ph) \<and> set (cn_accepted c') \<subseteq> set (cn_accepted c) \<union> set (pending_data ph) \<and>
    cn_sends c' = cn_sends c \<and> cn_reader c' = cn_reader c \<and> cn_heart c' = cn_heart c"
  using assms by (cases ph) (auto simp: enqueue_def split: send_choice.split_asm if_split_asm option.split_asm bool.split_asm prod.split_asm option.splits)

lemma begin_data:
  "send_begin enc p = Returns ph \<Longrightarrow> d \<in> set (pending_data ph) \<Longrightarrow> enc p = Returns d"
  "try_begin enc p = Returns ph \<Longrightarrow> d \<in> set (pending_data ph) \<Longrightarrow> enc p = Returns d"
  by (auto simp: send_begin_def try_begin_def split: outcome.split_asm)

lemma deliver_data: "d \<in> set (reader_data (cn_reader (deliver_packet D p c))) \<Longrightarrow> encoded D d"
  by (auto simp: deliver_packet_def to_receiver_def encoded_def dest: begin_data split: option.split_asm prod.split_asm outcome.split_asm if_split_asm)

lemma read_data:
  assumes "read_at D (cn_reader c) r c = Some c'" and "\<forall>d \<in> all_data c. encoded D d"
  shows "\<forall>d \<in> all_data c'. encoded D d"
proof (cases "\<exists>ph ch. cn_reader c = RSend ph \<and> r = RSending ch")
  case True
  then obtain ph ch ph1 c1 where s: "cn_reader c = RSend ph" "send_at ph ch c = Some (ph1, c1)" "c' = c1\<lparr>cn_reader := RSend ph1\<rparr>"
    using assms(1) by (auto split: if_splits)
  from send_data [OF s(2)] s assms(2) show ?thesis by (auto simp: all_data_def)
next
  case False
  have "cn_accepted c' = cn_accepted c" "\<forall>d \<in> set (reader_data (cn_reader c')). encoded D d"
    using assms(1) False by (cases "cn_reader c"; auto simp: step_defs dest: deliver_data
      split: read_choice.split_asm if_split_asm once.split_asm option.split_asm send_phase.split_asm)+
  then show ?thesis using read_frame [OF assms(1)] assms(2) by (auto simp: all_data_def)
qed

lemma heart_step_data:
  assumes "heart_at D (cn_heart c) h c = Some c'" and "\<forall>d \<in> all_data c. encoded D d"
  shows "\<forall>d \<in> all_data c'. encoded D d"
proof (cases "\<exists>seq x ph ch. cn_heart c = HSend seq x ph \<and> h = HSending ch")
  case True
  then obtain seq x ph ch ph1 c1 where s: "cn_heart c = HSend seq x ph" "send_at ph ch c = Some (ph1, c1)" "c' = c1\<lparr>cn_heart := HSend seq x ph1\<rparr>"
    using assms(1) by (auto split: if_splits)
  from send_data [OF s(2)] s assms(2) show ?thesis by (auto simp: all_data_def)
next
  case False
  have "cn_accepted c' = cn_accepted c" "\<forall>d \<in> set (heart_data (cn_heart c')). d \<in> set (heart_data (cn_heart c)) \<or> encoded D d"
    using assms(1) False by (cases "cn_heart c"; auto simp: step_defs encoded_def dest: begin_data
      split: heart_choice.split_asm if_split_asm once.split_asm option.split_asm send_phase.split_asm outcome.split_asm)+
  then show ?thesis using heart_frame [OF assms(1)] assms(2) by (auto simp: all_data_def)
qed

lemma main_data:
  assumes "main_at D (cn_main c) m c = Some c'" and "\<forall>d \<in> all_data c. encoded D d"
  shows "\<forall>d \<in> all_data c'. encoded D d"
proof -
  have "set (reader_data (cn_reader c')) \<subseteq> set (reader_data (cn_reader c))" "set (heart_data (cn_heart c')) \<subseteq> set (heart_data (cn_heart c))"
    using assms(1) by (cases "cn_main c"; auto simp: step_defs split: main_choice.split_asm if_split_asm once.split_asm)+
  then show ?thesis using main_frame [OF assms(1)] assms(2) by (auto simp: all_data_def)
qed

lemma internal_data:
  assumes "conn_internal D c c'" and inv: "\<forall>d \<in> all_data c. encoded D d"
  shows "\<forall>d \<in> all_data c'. encoded D d"
  using assms(1)
proof (cases rule: conn_internal.cases)
  case (main_goes m)
  from main_data [OF this inv] show ?thesis .
next
  case (write_goes w)
  from write_frame [OF this] inv show ?thesis by (simp add: all_data_def)
next
  case (read_goes r)
  from read_data [OF this inv] show ?thesis .
next
  case (heart_goes h)
  from heart_step_data [OF this inv] show ?thesis .
next
  case (send_goes i ch ph c1)
  have i: "cn_sends c ! i \<in> set (cn_sends c)" using send_goes(2) by simp
  have "set ((cn_sends c)[i := ph]) \<subseteq> insert ph (set (cn_sends c))" by (rule set_update_subset_insert)
  with i send_data [OF send_goes(3)] send_goes(1) inv show ?thesis by (fastforce simp: all_data_def)
next
  case (close_goes i err)
  from closer_frame [OF close_goes(2)] inv show ?thesis by (simp add: all_data_def)
qed

lemma reachable_data:
  assumes "conn_reachable D c"
  shows "\<forall>d \<in> all_data c. encoded D d"
  using assms
proof (induction rule: conn_reachable.induct)
  case (made conf gen c)
  then show ?case by (auto simp: new_conn_def all_data_def)
next
  case (step c c')
  from step.hyps(2) show ?case
  proof (cases rule: conn_step.cases)
    case internal
    then show ?thesis using internal_data step.IH by blast
  next
    case (new_send p ph)
    then show ?thesis using step.IH by (auto simp: all_data_def encoded_def dest: begin_data)
  next
    case (new_try p ph)
    then show ?thesis using step.IH by (auto simp: all_data_def encoded_def dest: begin_data)
  qed (use step.IH in \<open>auto simp: all_data_def conn_run_def\<close>)
qed

lemma accepted_packets:
  assumes "conn_reachable D c"
  shows "\<exists>ps. list_all2 (\<lambda>p d. d_encode D p = Returns d) ps (cn_accepted c)"
proof -
  have "\<exists>ps. list_all2 (\<lambda>p d. d_encode D p = Returns d) ps ds" if "\<forall>d \<in> set ds. encoded D d" for ds
    using that
  proof (induction ds)
    case (Cons d ds)
    then obtain p ps where "d_encode D p = Returns d" "list_all2 (\<lambda>p d. d_encode D p = Returns d) ps ds"
      by (auto simp: encoded_def)
    then have "list_all2 (\<lambda>p d. d_encode D p = Returns d) (p # ps) (d # ds)" by simp
    then show ?case by blast
  qed simp
  then show ?thesis using reachable_data [OF assms] by (simp add: all_data_def)
qed

section \<open>Codecs\<close>

text \<open>
  What the interface \<open>Codec\<close> asks: \<open>Decode\<close> reads one complete frame, so it gives back the packet and the length
  of its encoding, whatever comes behind, and it has nothing to give for an incomplete frame.
\<close>

definition codec_ok :: "('p \<Rightarrow> bytes outcome) \<Rightarrow> (bytes \<Rightarrow> ('p \<times> nat) option) \<Rightarrow> bool" where
  "codec_ok enc dec \<longleftrightarrow> dec [] = None \<and>
     (\<forall>p d. enc p = Returns d \<longrightarrow> (\<forall>rest. dec (d @ rest) = Some (p, length d)) \<and> (\<forall>b. strict_prefix b d \<longrightarrow> dec b = None))"

text \<open>The packets that \<open>Decode\<close> gives one after the other from the bytes that have been read.\<close>

fun decoded_from :: "(bytes \<Rightarrow> ('p \<times> nat) option) \<Rightarrow> bytes \<Rightarrow> ('p \<times> int) list \<Rightarrow> bool" where
  "decoded_from dec bs [] \<longleftrightarrow> True"
| "decoded_from dec bs ((p, n) # xs) \<longleftrightarrow>
     (case dec bs of None \<Rightarrow> False | Some (q, k) \<Rightarrow> q = p \<and> n = int k \<and> decoded_from dec (drop k bs) xs)"

lemma decoded_prefix:
  assumes "codec_ok enc dec" and "list_all2 (\<lambda>p d. enc p = Returns d) ps ds" and "prefix bs (concat ds)" and "decoded_from dec bs xs"
  shows "prefix (map fst xs) ps"
  using assms(2-4)
proof (induction xs arbitrary: bs ps ds)
  case (Cons x xs)
  obtain p n where x: "x = (p, n)" by fastforce
  show ?case
  proof (cases ds)
    case Nil
    then show ?thesis using Cons.prems assms(1) x by (simp add: codec_ok_def)
  next
    case (Cons d ds')
    with Cons.prems(1) obtain q ps' where ps: "ps = q # ps'" "enc q = Returns d" "list_all2 (\<lambda>p d. enc p = Returns d) ps' ds'"
      by (auto simp: list_all2_Cons2)
    note c = assms(1) [unfolded codec_ok_def, THEN conjunct2, rule_format, OF ps(2)]
    have "strict_prefix bs d \<or> (\<exists>b. bs = d @ b \<and> prefix b (concat ds'))"
      using Cons.prems(2) Cons by (auto simp: prefix_append strict_prefix_def)
    then show ?thesis
    proof
      assume "strict_prefix bs d"
      then show ?thesis using c Cons.prems(3) x by simp
    next
      assume "\<exists>b. bs = d @ b \<and> prefix b (concat ds')"
      then obtain b where b: "bs = d @ b" "prefix b (concat ds')" by blast
      then have "q = p" "decoded_from dec b xs" using c Cons.prems(3) x by simp_all
      with Cons.IH [OF ps(3) b(2)] ps(1) x show ?thesis by simp
    qed
  qed
qed simp

text \<open>When the bytes are all there and \<open>Decode\<close> finds no further frame, every packet has been decoded.\<close>

lemma decoded_complete:
  assumes "codec_ok enc dec" and "list_all2 (\<lambda>p d. enc p = Returns d) ps ds" and "decoded_from dec (concat ds) xs"
    and "dec (drop (sum_list (map (nat \<circ> snd) xs)) (concat ds)) = None"
  shows "map fst xs = ps"
  using assms(2-4)
proof (induction xs arbitrary: ps ds)
  case Nil
  then show ?case using assms(1) by (cases ds) (auto simp: codec_ok_def list_all2_Cons2)
next
  case (Cons x xs)
  obtain p n where x: "x = (p, n)" by fastforce
  show ?case
  proof (cases ds)
    case Nil
    then show ?thesis using Cons.prems assms(1) x by (simp add: codec_ok_def)
  next
    case (Cons d ds')
    with Cons.prems(1) obtain q ps' where ps: "ps = q # ps'" "enc q = Returns d" "list_all2 (\<lambda>p d. enc p = Returns d) ps' ds'"
      by (auto simp: list_all2_Cons2)
    have "dec (d @ concat ds') = Some (q, length d)" using assms(1) ps(2) by (auto simp: codec_ok_def)
    then have "q = p" "n = int (length d)" "decoded_from dec (concat ds') xs" using Cons.prems(2) x Cons by auto
    with Cons.IH [OF ps(3)] Cons.prems(3) x Cons ps(1) show ?thesis by simp
  qed
qed

section \<open>Over a transport\<close>

text \<open>
  The connection \<open>a\<close> with the dependencies \<open>Da\<close> sends to \<open>b\<close>, which has read \<open>xs\<close>; \<open>part\<close> is what got through of
  one more write that failed.
\<close>

definition connected :: "'p conn_deps \<Rightarrow> 'p conn \<Rightarrow> 'p conn_deps \<Rightarrow> 'p conn \<Rightarrow> (bytes \<Rightarrow> ('p \<times> nat) option) \<Rightarrow> bytes \<Rightarrow> bytes \<Rightarrow> bool" where
  "connected Da a Db b dec part xs \<longleftrightarrow> conn_reachable Da a \<and> conn_reachable Db b \<and> codec_ok (d_encode Da) dec \<and>
     prefix part (concat (drop (length (cn_wrote a)) (cn_accepted a))) \<and> decoded_from dec xs (cn_decoded b)"

text \<open>All that was accepted has arrived and has been decoded.\<close>

definition all_arrived :: "'p conn_deps \<Rightarrow> 'p conn \<Rightarrow> 'p conn \<Rightarrow> bool" where
  "all_arrived Da a b \<longleftrightarrow> list_all2 (\<lambda>p d. d_encode Da p = Returns d) (map fst (cn_decoded b)) (cn_accepted a)"

text \<open>The reader has all the bytes and finds no further frame in what it has not decoded.\<close>

definition read_out :: "'p conn \<Rightarrow> 'p conn \<Rightarrow> (bytes \<Rightarrow> ('p \<times> nat) option) \<Rightarrow> bytes \<Rightarrow> bool" where
  "read_out a b dec xs \<longleftrightarrow> xs = concat (cn_accepted a) \<and> dec (drop (sum_list (map (nat \<circ> snd) (cn_decoded b))) xs) = None"

definition arrives_in_order :: "'p conn_deps \<Rightarrow> 'p conn \<Rightarrow> 'p conn_deps \<Rightarrow> 'p conn \<Rightarrow> bool" where
  "arrives_in_order Da a Db b \<longleftrightarrow> (\<exists>ps. list_all2 (\<lambda>p d. d_encode Da p = Returns d) ps (cn_accepted a) \<and>
     prefix (map fst (cn_decoded b)) ps \<and> prefix (cn_delivered b) (filter (business Db) ps))"

lemma prefix_filter: "prefix xs ys \<Longrightarrow> prefix (filter P xs) (filter P ys)"
  by (auto simp: prefix_def)

lemma connected_arrives:
  assumes "connected Da a Db b dec part xs" and "prefix xs (concat (cn_wrote a) @ part)"
  shows "arrives_in_order Da a Db b \<and> (read_out a b dec xs \<longrightarrow> all_arrived Da a b)"
proof -
  have c: "conn_reachable Da a" "conn_reachable Db b" "codec_ok (d_encode Da) dec" "decoded_from dec xs (cn_decoded b)"
      "prefix part (concat (drop (length (cn_wrote a)) (cn_accepted a)))"
    using assms(1) by (simp_all add: connected_def)
  obtain ps where ps: "list_all2 (\<lambda>p d. d_encode Da p = Returns d) ps (cn_accepted a)" using accepted_packets [OF c(1)] by blast
  have "\<exists>more. cn_accepted a = cn_wrote a @ more"
    using reachable_flow [OF c(1)] by (auto simp: sending_inv_def write_flow_def)
  then have "prefix (concat (cn_wrote a) @ part) (concat (cn_accepted a))" using c(5) by auto
  with assms(2) have "prefix xs (concat (cn_accepted a))" by (rule prefix_order.trans)
  from decoded_prefix [OF c(3) ps this c(4)] have d: "prefix (map fst (cn_decoded b)) ps" .
  have "prefix (cn_delivered b) (packets Db b)"
    using reachable_flow [OF c(2)] by (auto simp: receiving_inv_def read_flow_def)
  moreover have "prefix (packets Db b) (filter (business Db) ps)" using prefix_filter [OF d] by (simp add: packets_def)
  ultimately have "prefix (cn_delivered b) (filter (business Db) ps)" by (rule prefix_order.trans)
  with ps d have "arrives_in_order Da a Db b" by (auto simp: arrives_in_order_def)
  moreover have "all_arrived Da a b" if "read_out a b dec xs"
    using decoded_complete [OF c(3) ps, of "cn_decoded b"] c(4) that ps by (auto simp: read_out_def all_arrived_def)
  ultimately show ?thesis by blast
qed

text \<open>A byte stream from one transport to another, whatever the two are.\<close>

locale byte_link =
  w: byte_transport tread1 twrite1 arriving1 sent1 sound1 + r: byte_transport tread2 twrite2 arriving2 sent2 sound2
  for tread1 :: "'e \<Rightarrow> nat \<Rightarrow> 's \<Rightarrow> ('b list \<times> net_error option) \<times> 's" and twrite1 arriving1 sent1 sound1
    and tread2 :: "'f \<Rightarrow> nat \<Rightarrow> 'r \<Rightarrow> ('b list \<times> net_error option) \<times> 'r" and twrite2 arriving2 sent2 sound2
begin

lemma carries:
  assumes "write_many twrite1 dss s = (None, s1)" and "sent1 s = []" and "prefix (arriving2 r) (sent1 s1 @ part)"
    and "read_many tread2 ns r = ((xs, err), r')" and "\<forall>x \<in> set ns. sound2 (fst x)"
  shows "prefix xs (concat (map snd dss) @ part)"
proof -
  from r.reads_prefix [OF assms(5,4)] obtain ys where "arriving2 r = xs @ ys" by blast
  with w.writes_all [OF assms(1)] assms(2,3) show ?thesis by (auto dest: append_prefixD)
qed

end

interpretation tcp_link: byte_link "\<lambda>(env, now). tcp_read env now t" "\<lambda>(env, now). tcp_write env now t" so_in so_out "\<lambda>e. True"
    "\<lambda>(env, now). tcp_read env now t'" "\<lambda>(env, now). tcp_write env now t'" so_in so_out "\<lambda>e. True" for t t'
  by (intro byte_link.intro tcp.byte_transport_axioms)

interpretation kcp_link: byte_link "\<lambda>(env, now). kcp_read env now t" "\<lambda>(env, now). kcp_write env now t" so_in so_out "\<lambda>e. True"
    "\<lambda>(env, now). kcp_read env now t'" "\<lambda>(env, now). kcp_write env now t'" so_in so_out "\<lambda>e. True" for t t'
  by (intro byte_link.intro kcp.byte_transport_axioms)

interpretation ws_link: byte_link "\<lambda>env. ws_read env t" "\<lambda>env. ws_write env t" ws_bytes ws_sent ws_sound
    "\<lambda>env. ws_read env t'" "\<lambda>env. ws_write env t'" ws_bytes ws_sent ws_sound for t t'
  by (intro byte_link.intro ws.byte_transport_axioms)

text \<open>
  C1: From one end to the other. Two connections whose transports are joined, over TCP, KCP or WebSocket, with
  a codec that keeps to its interface: what the one has accepted for sending are encodings of packets, and what the other has
  decoded are the first of these packets, in order, none lost, changed, invented or repeated, whatever the
  buffers, deadlines and message boundaries on the way; what is handed to \<open>OnMessage\<close> are the first of those that
  the heartbeator does not claim. The bytes that arrive are the beginning of those of the complete writes, and of
  the part of one more write that got through when it failed. When all that was accepted has been written and
  read, and the decoder finds no further frame, nothing is missing: what was decoded are exactly the packets accepted.
\<close>

theorem messages_arrive_in_order:
  assumes "connected Da a Db b dec part xs" and "map snd dss = cn_wrote a" and "map snd wss = cn_wrote a"
    and "write_many (\<lambda>(env, now). tcp_write env now t) dss s = (None, s1) \<and> so_out s = [] \<and> prefix (so_in r) (so_out s1 @ part) \<and>
        read_many (\<lambda>(env, now). tcp_read env now t') ns r = ((xs, err), r') \<or>
      write_many (\<lambda>(env, now). kcp_write env now k) dss s = (None, s1) \<and> so_out s = [] \<and> prefix (so_in r) (so_out s1 @ part) \<and>
        read_many (\<lambda>(env, now). kcp_read env now k') ns r = ((xs, err), r') \<or>
      write_many (\<lambda>env. ws_write env u) wss v = (None, v1) \<and> ws_sent v = [] \<and> prefix (ws_bytes q) (ws_sent v1 @ part) \<and>
        read_many (\<lambda>env. ws_read env u') ms q = ((xs, err), q') \<and> (\<forall>x \<in> set ms. ws_sound (fst x))"
  shows "arrives_in_order Da a Db b \<and> (read_out a b dec xs \<longrightarrow> all_arrived Da a b)"
proof (rule connected_arrives [OF assms(1)])
  show "prefix xs (concat (cn_wrote a) @ part)"
    using assms(4) tcp_link.carries [of t dss s s1 r part t' ns xs err r'] kcp_link.carries [of k dss s s1 r part k' ns xs err r']
      ws_link.carries [of u wss v v1 q part u' ms xs err q']
    by (elim disjE conjE) (simp_all add: assms(2,3))
qed

text \<open>
  Two messages are accepted and written; the other end has read the two bytes and decoded them.
\<close>

definition byte_codec :: "bytes \<Rightarrow> (nat \<times> nat) option" where
  "byte_codec bs = (case bs of [] \<Rightarrow> None | b # rest \<Rightarrow> Some (unat b, 1))"

definition small_deps :: "nat conn_deps" where
  "small_deps = demo_deps\<lparr>d_encode := \<lambda>p. if p < 256 then Returns [of_nat p] else Fails ErrClosed\<rparr>"

definition demo_receive :: "nat conn_label list" where
  "demo_receive = [LRun, LMain MGo, LMain MGo, LMain (MNow 5), LRead RGo, LRead (RDecoded 7 1), LRead RGo, LRead (RNow 6), LRead RGo,
     LRead RReturned, LRead RGo, LRead (RDecoded 8 1), LRead RGo, LRead (RNow 7), LRead RGo]"

definition demo_transmit :: "nat conn_label list" where
  "demo_transmit = take 14 demo_start @ [LWrite WTake, LWrite WGo, LWrite (WWrote 1 None)]"

lemma byte_codec_ok: "codec_ok (d_encode small_deps) byte_codec"
proof -
  have "unat (word_of_nat p :: 8 word) = p" if "p < 256" for p
    using that by (simp add: unat_of_nat)
  then show ?thesis
    by (auto simp: codec_ok_def byte_codec_def small_deps_def strict_prefix_def prefix_Cons split: if_splits)
qed

theorem messages_arrive_in_order_witness:
  "\<exists>a b. arrives_in_order small_deps a small_deps b \<and> cn_accepted a = [[7], [8]] \<and> cn_decoded b = [(7, 1), (8, 1)] \<and> cn_delivered b = [7, 8] \<and>
     all_arrived small_deps a b"
proof -
  have "map_option (\<lambda>c. (cn_accepted c, cn_wrote c)) (conn_exec small_deps demo_transmit demo_conn) = Some ([[7], [8]], [[7], [8]])"
    by code_simp
  then obtain a where a: "conn_exec small_deps demo_transmit demo_conn = Some a" "cn_accepted a = [[7], [8]]" "cn_wrote a = [[7], [8]]"
    by auto
  have "map_option (\<lambda>c. (cn_decoded c, cn_delivered c)) (conn_exec small_deps demo_receive demo_conn) = Some ([(7, 1), (8, 1)], [7, 8])"
    by code_simp
  then obtain b where b: "conn_exec small_deps demo_receive demo_conn = Some b" "cn_decoded b = [(7, 1), (8, 1)]" "cn_delivered b = [7, 8]"
    by auto
  have c: "connected small_deps a small_deps b byte_codec [] [7, 8]"
    using conn_exec_reachable [OF a(1) demo_reachable] conn_exec_reachable [OF b(1) demo_reachable] byte_codec_ok b(2)
    by (simp add: connected_def byte_codec_def)
  have w: "map snd [((calm_env :: 8 word sock_env, 0::int), [7::8 word]), ((calm_env, 0), [8])] = cn_wrote a" "map snd [(demo_ws_env 0 True, [7]), (demo_ws_env 0 True, [8])] = cn_wrote a"
    using a(3) by simp_all
  obtain s1 where s1: "write_many (\<lambda>(env, now). tcp_write env now demo_tcp) [((calm_env, 0), [7::8 word]), ((calm_env, 0), [8])] \<lparr>so_log = [], so_in = [], so_out = []\<rparr> =
      (None, s1)" "so_out s1 = [7, 8]"
  proof -
    have "(case write_many (\<lambda>(env, now). tcp_write env now demo_tcp) [((calm_env, 0), [7::8 word]), ((calm_env, 0), [8])] \<lparr>so_log = [], so_in = [], so_out = []\<rparr> of
        (err, s) \<Rightarrow> (err, so_out s)) = (None, [7, 8])"
      by code_simp
    then show thesis by (auto intro: that split: prod.splits)
  qed
  obtain r' where r: "read_many (\<lambda>(env, now). tcp_read env now demo_tcp) [((calm_env, 0), 5)] \<lparr>so_log = [], so_in = [7::8 word, 8], so_out = []\<rparr> =
      (([7, 8], None), r')"
  proof -
    have "fst (read_many (\<lambda>(env, now). tcp_read env now demo_tcp) [((calm_env, 0), 5)] \<lparr>so_log = [], so_in = [7::8 word, 8], so_out = []\<rparr>) = ([7, 8], None)"
      by code_simp
    then show thesis by (metis that prod.collapse)
  qed
  have "write_many (\<lambda>(env, now). tcp_write env now demo_tcp) [((calm_env, 0), [7::8 word]), ((calm_env, 0), [8])] \<lparr>so_log = [], so_in = [], so_out = []\<rparr> = (None, s1) \<and>
      so_out (\<lparr>so_log = [], so_in = [], so_out = []\<rparr> :: 8 word sock) = [] \<and>
      prefix (so_in \<lparr>so_log = [], so_in = [7::8 word, 8], so_out = []\<rparr>) (so_out s1 @ []) \<and>
      read_many (\<lambda>(env, now). tcp_read env now demo_tcp) [((calm_env, 0), 5)] \<lparr>so_log = [], so_in = [7::8 word, 8], so_out = []\<rparr> = (([7, 8], None), r')"
    by (intro conjI s1(1) r) (simp_all add: s1(2))
  from messages_arrive_in_order [OF c w disjI1 [OF this]] have
    "arrives_in_order small_deps a small_deps b" "read_out a b byte_codec [7, 8] \<longrightarrow> all_arrived small_deps a b"
    by blast+
  moreover have "read_out a b byte_codec [7, 8]" using a(2) b(2) by (simp add: read_out_def byte_codec_def)
  ultimately show ?thesis using a b by blast
qed

end
