(* ===== verification/Spec2Isabelle.thy ===== *)
theory Spec2Isabelle
  imports Queue_Model Set_Model Sorted_Map_Model Shard_Lru_Model Lru2q_Model Timer_Model
    Worker_Pool Task_Runner Buffer_Pool Session_Manager Server_Shutdown Log_Background Conn_Shutdown
    Ws_Config Ws_Listener Mongo_Driver Http_Session Profile_Model End_To_End
begin

text \<open>
  A verification development for the Go tool library under \<^verbatim>\<open>src/common\<close>. The library is a
  collection of packages for servers, and the theories follow them.

  Containers, package \<^verbatim>\<open>container\<close>. \<^verbatim>\<open>queue.go\<close> is a slice that serves as a queue and grows
  and shrinks (\<^verbatim>\<open>Queue_Model\<close>); \<^verbatim>\<open>set.go\<close> a set (\<^verbatim>\<open>Set_Model\<close>); \<^verbatim>\<open>sorted_map.go\<close> a Go map with a linked list of its keys
  (\<^verbatim>\<open>Sorted_Map_Model\<close>); \<^verbatim>\<open>lru_cache.go\<close> an LRU cache (\<^verbatim>\<open>Lru_Model\<close>), an array of them chosen by a
  hash (\<^verbatim>\<open>Shard_Lru_Model\<close>), and a 2Q cache, a FIFO list in front of an LRU cache (\<^verbatim>\<open>Lru2q_Model\<close>).
  Each state is a record with the fields of the struct, each method a function with the result \<open>None\<close> for a
  panic, and the clock is an argument. The specification of each is its contents as a list or a map,
  and one theorem per container says that any sequence of calls runs without a panic and answers as
  the specification: the interpretation of the locale \<open>data_refinement\<close> of \<^verbatim>\<open>Go_Prelude\<close> by the invariant, the
  abstraction and the step of the container. \<^verbatim>\<open>Go_List\<close> models Go's \<^verbatim>\<open>container/list\<close>.

  Timers, package \<^verbatim>\<open>timer\<close>. \<^verbatim>\<open>timer.go\<close> implements Go's heap interface over timers that know their
  index; \<^verbatim>\<open>Timer_Heap\<close> models it with the sifting functions of \<^verbatim>\<open>container/heap\<close>. \<^verbatim>\<open>Timer_Model\<close> is
  \<^verbatim>\<open>timer_manager.go\<close>: adding, removing, and \<open>Run\<close>, which moves the due timers from the heap to a queue, starts
  periodic ones again and calls the callbacks. The two loops of \<open>Run\<close> take fuel, and running out of it is the
  value \<open>None\<close>. \<open>run_calls_due_timers\<close> shows that fuel above the number of timers in the heap is
  enough unless an end leaves the 64-bit range, and \<open>run_overflow_spins\<close> that no fuel is enough in a
  state where it does.

  Pools, package \<^verbatim>\<open>pool\<close>. \<^verbatim>\<open>Worker_Pool\<close> is \<^verbatim>\<open>gpool/pool.go\<close> and \<^verbatim>\<open>gpool/worker.go\<close>: workers with a channel of jobs
  each, chosen by the job's identifier, and closing, which lets them finish. \<^verbatim>\<open>Task_Runner\<close> is \<^verbatim>\<open>gpool/task_runner.go\<close>, a
  goroutine per task with a limit and a wait group. \<^verbatim>\<open>Buffer_Pool\<close> is \<^verbatim>\<open>pool.go\<close> and \<^verbatim>\<open>buffer_pool.go\<close>: buffers whose
  slices alias their array, in pools by size. Goroutines are phases of a
  step relation that interleave at every atomic operation of the source; channels are \<^verbatim>\<open>Go_Chan\<close>. That something closed comes to its end is for the pool, the connection, the client, the server and the WebSocket listener an
  interpretation of one locale, \<open>winding_down\<close> of \<^verbatim>\<open>Go_Prelude\<close>. What is proved holds in
  every reachable state: jobs run in order and none is lost, the limits hold, and the \<open>Close\<close> that closes a
  pool or a runner waits and comes to its end, while any other only returns.

  Network, package \<^verbatim>\<open>network\<close>. A connection (\<^verbatim>\<open>conn_impl.go\<close>) owns a transport and
  runs a write loop, a read loop and a heartbeat loop inside \<open>Run\<close>, beside any number of callers of \<open>Send\<close>, \<open>TrySend\<close>
  and \<open>Close\<close>. \<^verbatim>\<open>Conn_Model\<close> gives each goroutine a phase and a step function whose argument is what its environment
  does; \<^verbatim>\<open>Conn_Life\<close> proves what concerns the end of a connection, \<^verbatim>\<open>Conn_Flow\<close> what flows through it and its
  statistics (\<^verbatim>\<open>traffic.go\<close>), \<^verbatim>\<open>Conn_Progress\<close> that what was sent is written, by counting the steps of the write loop, and \<^verbatim>\<open>Conn_Shutdown\<close> that it comes to its end, by a measure of the work
  that is left. \<^verbatim>\<open>Session_Manager\<close>, \<^verbatim>\<open>Session_Client\<close> and \<^verbatim>\<open>Session_Server\<close> are the registry of connections,
  one dial, and the accept loop with its options (\<^verbatim>\<open>session_manager.go\<close>, \<^verbatim>\<open>session_client.go\<close>, \<^verbatim>\<open>session_server.go\<close>, \<^verbatim>\<open>options.go\<close>); the connections are
  the environment there, with what \<^verbatim>\<open>Conn_Life\<close> and \<^verbatim>\<open>Conn_Shutdown\<close> have shown of them, and \<^verbatim>\<open>Server_Shutdown\<close> shows that a closed server
  comes to its end. A dialer or listener that returns, beside its error, an interface with a nil pointer in it, as those of TCP and KCP do,
  makes client and server panic when they close it; the steps have this too. \<^verbatim>\<open>Net_Base\<close> has the errors
  (\<^verbatim>\<open>errors.go\<close>) and the counters. The transports are \<^verbatim>\<open>Stream_Transport\<close> (\<^verbatim>\<open>tcp_impl.go\<close>, \<^verbatim>\<open>kcp_impl.go\<close>) and
  \<^verbatim>\<open>Ws_Transport\<close> (\<^verbatim>\<open>ws_impl.go\<close>); sockets are logs of calls, each of which may fail. The locale \<open>byte_transport\<close> is the
  contract that connections need of a transport and is interpreted by all three; \<open>byte_link\<close> joins two of them. \<^verbatim>\<open>Ws_Config\<close> and \<^verbatim>\<open>Ws_Listener\<close> are
  the rest of \<^verbatim>\<open>ws_impl.go\<close>: the configuration, the registration of its path with the multiplexer of \<^verbatim>\<open>net/http\<close>, the check of addresses, and the listener whose HTTP handlers, \<open>Accept\<close>
  and \<open>Close\<close> interleave. \<^verbatim>\<open>End_To_End\<close> puts connections and transports together: what one connection accepts the
  other delivers, in order, and all of it when everything was read.

  Log files, package \<^verbatim>\<open>logger\<close>. \<^verbatim>\<open>Log_Rollover\<close> is \<^verbatim>\<open>log_rollover.go\<close>: writing, rotation by size, names of backups, and the
  clean-up by number and age with its compression (\<^verbatim>\<open>file_utils/file_compress.go\<close>), over a map from paths to contents
  and with an error of the operating system possible at every call. \<^verbatim>\<open>Log_Cleanup\<close> shows what a pass of the clean-up keeps
  and removes, and \<^verbatim>\<open>Log_Background\<close> lets the goroutine that cleans up run
  beside the callers, one file at a time: neither disturbs the other, and no rotation goes without a clean-up.

  MongoDB, package \<^verbatim>\<open>mongo_driver\<close>. \<^verbatim>\<open>Mongo_Builders\<close> are the three builders of documents, \<^verbatim>\<open>Mongo_Driver\<close> the clients of a cluster
  with their initialisation and end, and the operations on a collection. The driver is the environment; the calls that
  reach it are recorded, and the options that every client was connected with.

  HTTP, packages \<^verbatim>\<open>http_utils\<close> and \<^verbatim>\<open>encode_utils\<close>. \<^verbatim>\<open>Http_Options\<close> is what the options of a request do, over the parts
  of \<^verbatim>\<open>net/http\<close>, \<^verbatim>\<open>mime/multipart\<close> and, in \<^verbatim>\<open>Go_Url\<close>, \<^verbatim>\<open>net/url\<close> that the source uses; \<^verbatim>\<open>Http_Request\<close> shows what
  request results and that it does not depend on the order of Go's maps; \<^verbatim>\<open>Http_Session\<close> is the exchange with hooks, errors and panics,
  and the responses. \<^verbatim>\<open>Profile_Model\<close> is the package \<^verbatim>\<open>profile\<close>: the files of the memory analysis and the text of the statistics.

  Conventions. A Go map is a finite map, and a loop over one takes an enumeration of its keys as an argument, for which
  \<open>enumerates\<close> asks no more than that it has every key once. Integers are unbounded with \<open>wrap64\<close> or \<open>wrap32u\<close>
  where the source may overflow, or words where they are counters. A run-time panic is \<open>None\<close>, an error is a value.
  Code outside the repository that is more than a data structure of the standard library is an argument of the definitions: the
  file system, the clock, sockets, the HTTP server, the WebSocket, KCP and MongoDB packages, codecs and callbacks. A hypothesis about it
  states its documented behaviour, and a witness shows that it can hold. Theories \<^verbatim>\<open>Go_Prelude\<close> and \<^verbatim>\<open>Go_Strings\<close> have what all share.

  What fails. Some theorems state what the code does where it does something else than it means to: \<open>twoq_third_put_is_lost\<close>,
  \<open>run_overflow_spins\<close>, \<open>runner_submit_close_race\<close>, \<open>log_stuck_after_failed_open\<close>, \<open>failed_options_panic\<close>,
  \<open>projection_builder_calls\<close>, and parts of \<open>mongo_init_and_destroy\<close>, \<open>client_close_leaves_nothing_open\<close>
  and \<open>listener_config_completes\<close>; the lemma \<open>line_ends_stay\<close> belongs to them, and
  so do \<open>first_line_is_header_and_row\<close> and \<open>cleans_up_after_close\<close>.

  Not modelled. Left out of the modelled
  packages are logging, addresses of connections, the names of the driver's types and
  options in \<^verbatim>\<open>mongo_driver/wrapper.go\<close>, its two calls that list databases, \<open>Response.JSON\<close>, which is one call of \<^verbatim>\<open>encoding/json\<close>, and
  the cookie jar. Two simplifications: the two counters that a read or a write adds to change in one step, and upper and lower case and
  blanks are those of ASCII; which letters beyond ASCII may be in the name of a wildcard of the multiplexer is a parameter. \<open>Submit\<close> of a pool does not overlap with its \<open>Close\<close>, as its documentation asks.
\<close>

end
